(* ===== verification/Prelude.thy ===== *)
theory Prelude
  imports Main "HOL-Library.Word" "HOL-Library.Multiset" "HOL-Library.Code_Target_Nat"
begin

text \<open>
  Shared vocabulary of the development: the outcome type that makes errors and panics of the
  Rust code values, the part of the Rust standard library's text handling that the sources use
  (\<^verbatim>\<open>trim\<close>, \<^verbatim>\<open>lines\<close>, \<^verbatim>\<open>split_whitespace\<close>, \<^verbatim>\<open>to_uppercase\<close>, \<^verbatim>\<open>from_str_radix\<close>, the
  \<^verbatim>\<open>{:02X}\<close> formats), and generic facts on lists and maps.

  Adapter text is ASCII (the accumulator replaces every other byte, see the theory
  \<^verbatim>\<open>Accumulator\<close>), so a Rust \<^verbatim>\<open>String\<close> is a list of characters and white space and upper case
  are those of ASCII.
\<close>

unbundle bit_operations_syntax

type_synonym u8 = "8 word"
type_synonym u16 = "16 word"
type_synonym u32 = "32 word"

section \<open>Outcomes\<close>

text \<open>A Rust function that may fail or panic: \<^verbatim>\<open>Ok\<close>, \<^verbatim>\<open>Err\<close>, or a panic as a value.\<close>

datatype ('e, 'a) outcome = Ok 'a | Err 'e | Panic

fun and_then :: "('e, 'a) outcome \<Rightarrow> ('a \<Rightarrow> ('e, 'b) outcome) \<Rightarrow> ('e, 'b) outcome" where
  "and_then (Ok a) f = f a"
| "and_then (Err e) f = Err e"
| "and_then Panic f = Panic"

lemma and_then_Ok: "and_then x f = Ok b \<longleftrightarrow> (\<exists>a. x = Ok a \<and> f a = Ok b)"
  by (cases x) auto

lemma and_then_Panic: "and_then x f = Panic \<longleftrightarrow> x = Panic \<or> (\<exists>a. x = Ok a \<and> f a = Panic)"
  by (cases x) auto

text \<open>An early exit of a loop over a list: the first \<open>Err\<close> or \<open>Panic\<close> ends it.\<close>

fun try_fold :: "('s \<Rightarrow> 'a \<Rightarrow> ('e, 's) outcome) \<Rightarrow> 's \<Rightarrow> 'a list \<Rightarrow> ('e, 's) outcome" where
  "try_fold f s [] = Ok s"
| "try_fold f s (x # xs) = and_then (f s x) (\<lambda>s'. try_fold f s' xs)"

named_theorems text_simps \<open>rewrite rules for the text functions\<close>
named_theorems hex_simps \<open>rewrite rules for hexadecimal reading and writing\<close>

section \<open>White space, case, splitting\<close>

text \<open>The ASCII part of \<^verbatim>\<open>char::is_whitespace\<close>.\<close>

definition is_ws :: "char \<Rightarrow> bool" where
  "is_ws c \<longleftrightarrow> c = CHR '' '' \<or> c = CHR 0x09 \<or> c = CHR 0x0A \<or> c = CHR 0x0B \<or> c = CHR 0x0C \<or> c = CHR 0x0D"

definition char_code :: "char \<Rightarrow> nat" where
  "char_code c = of_char c"

definition upper_char :: "char \<Rightarrow> char" where
  "upper_char c = (if 97 \<le> char_code c \<and> char_code c \<le> 122 then char_of (char_code c - 32) else c)"

definition to_uppercase :: "string \<Rightarrow> string" where
  "to_uppercase s = map upper_char s"

definition eq_ignore_case :: "string \<Rightarrow> string \<Rightarrow> bool" where
  "eq_ignore_case a b \<longleftrightarrow> to_uppercase a = to_uppercase b"

definition trim_matches :: "('a \<Rightarrow> bool) \<Rightarrow> 'a list \<Rightarrow> 'a list" where
  "trim_matches p s = rev (dropWhile p (rev (dropWhile p s)))"

definition trim :: "string \<Rightarrow> string" where
  "trim s = trim_matches is_ws s"

definition starts_with :: "string \<Rightarrow> string \<Rightarrow> bool" where
  "starts_with s p \<longleftrightarrow> take (length p) s = p"

fun contains :: "string \<Rightarrow> string \<Rightarrow> bool" where
  "contains [] p = (p = [])"
| "contains (c # cs) p = (starts_with (c # cs) p \<or> contains cs p)"

definition strip_prefix :: "string \<Rightarrow> string \<Rightarrow> string option" where
  "strip_prefix s p = (if starts_with s p then Some (drop (length p) s) else None)"

text \<open>\<^verbatim>\<open>split\<close> on a predicate: always at least one piece.\<close>

fun split_on :: "('a \<Rightarrow> bool) \<Rightarrow> 'a list \<Rightarrow> 'a list list" where
  "split_on p [] = [[]]"
| "split_on p (c # cs) =
     (if p c then [] # split_on p cs
      else (case split_on p cs of [] \<Rightarrow> [[c]] | w # ws \<Rightarrow> (c # w) # ws))"

definition split_whitespace :: "string \<Rightarrow> string list" where
  "split_whitespace s = filter (\<lambda>w. w \<noteq> []) (split_on is_ws s)"

fun join :: "'a list \<Rightarrow> 'a list list \<Rightarrow> 'a list" where
  "join sep [] = []"
| "join sep [w] = w"
| "join sep (w # v # ws) = w @ sep @ join sep (v # ws)"

text \<open>\<^verbatim>\<open>str::lines\<close>: split at line feeds, no piece after a final one, a trailing carriage return dropped.\<close>

definition strip_cr :: "string \<Rightarrow> string" where
  "strip_cr l = (if l \<noteq> [] \<and> last l = CHR 0x0D then butlast l else l)"

definition lines :: "string \<Rightarrow> string list" where
  "lines s =
     (let ps = split_on (\<lambda>c. c = CHR 0x0A) s;
          qs = (if last ps = [] then butlast ps else ps)
      in map strip_cr qs)"

text \<open>\<^verbatim>\<open>replace('\r', "\n")\<close>.\<close>

definition cr_to_lf :: "string \<Rightarrow> string" where
  "cr_to_lf s = map (\<lambda>c. if c = CHR 0x0D then CHR 0x0A else c) s"

section \<open>Hexadecimal\<close>

definition hexval :: "char \<Rightarrow> nat option" where
  "hexval c =
     (let n = char_code c
      in if 48 \<le> n \<and> n \<le> 57 then Some (n - 48)
         else if 65 \<le> n \<and> n \<le> 70 then Some (n - 55)
         else if 97 \<le> n \<and> n \<le> 102 then Some (n - 87)
         else None)"

definition is_hexdigit :: "char \<Rightarrow> bool" where
  "is_hexdigit c \<longleftrightarrow> hexval c \<noteq> None"

fun hexnum :: "nat \<Rightarrow> string \<Rightarrow> nat option" where
  "hexnum acc [] = Some acc"
| "hexnum acc (c # cs) =
     (case hexval c of None \<Rightarrow> None | Some d \<Rightarrow> hexnum (16 * acc + d) cs)"

text \<open>
  \<^verbatim>\<open>from_str_radix(s, 16)\<close> at an unsigned type with maximum \<^verbatim>\<open>mx\<close>: one leading plus sign is
  accepted, an empty digit string and a value above the maximum are errors.
\<close>

definition from_str_radix16 :: "nat \<Rightarrow> string \<Rightarrow> nat option" where
  "from_str_radix16 mx s =
     (let ds = (case s of [] \<Rightarrow> [] | c # cs \<Rightarrow> if c = CHR ''+'' then cs else s)
      in if ds = [] then None
         else case hexnum 0 ds of None \<Rightarrow> None | Some n \<Rightarrow> if n \<le> mx then Some n else None)"

definition u8_from_hex :: "string \<Rightarrow> u8 option" where
  "u8_from_hex s = map_option of_nat (from_str_radix16 255 s)"

definition u16_from_hex :: "string \<Rightarrow> u16 option" where
  "u16_from_hex s = map_option of_nat (from_str_radix16 65535 s)"

definition hexdigit :: "nat \<Rightarrow> char" where
  "hexdigit n = (if n < 10 then char_of (48 + n) else char_of (55 + n))"

fun hexstr :: "nat \<Rightarrow> string" where
  "hexstr n = (if n < 16 then [hexdigit n] else hexstr (n div 16) @ [hexdigit (n mod 16)])"

declare hexstr.simps [simp del]

definition pad0 :: "nat \<Rightarrow> string \<Rightarrow> string" where
  "pad0 w s = replicate (w - length s) CHR ''0'' @ s"

text \<open>The formats \<^verbatim>\<open>{:02X}\<close> and \<^verbatim>\<open>{:03X}\<close>: a minimum width, never a truncation.\<close>

definition fmt02X :: "nat \<Rightarrow> string" where
  "fmt02X n = pad0 2 (hexstr n)"

definition fmt03X :: "nat \<Rightarrow> string" where
  "fmt03X n = pad0 3 (hexstr n)"

section \<open>Facts about hexadecimal\<close>

lemma code_char_of [hex_simps]: "n < 256 \<Longrightarrow> char_code (char_of n) = n"
  by (simp add: char_code_def)

lemma code_hexdigit [hex_simps]: "n < 16 \<Longrightarrow> char_code (hexdigit n) = (if n < 10 then 48 + n else 55 + n)"
  by (simp add: hexdigit_def code_char_of)

lemma hexval_hexdigit [simp]: "n < 16 \<Longrightarrow> hexval (hexdigit n) = Some n"
  by (auto simp: hexval_def Let_def code_hexdigit)

lemma hexval_less: "hexval c = Some n \<Longrightarrow> n < 16"
  by (auto simp: hexval_def Let_def split: if_splits)

lemma upper_hexdigit [simp]: "n < 16 \<Longrightarrow> upper_char (hexdigit n) = hexdigit n"
  by (simp add: upper_char_def code_hexdigit)

lemma hexval_upper [simp]: "hexval (upper_char c) = hexval c"
  by (auto simp: hexval_def upper_char_def code_char_of Let_def)

lemma ws_code: "is_ws c \<Longrightarrow> char_code c = 32 \<or> (9 \<le> char_code c \<and> char_code c \<le> 13)"
  by (auto simp: is_ws_def char_code_def)

lemma hexdigit_not_ws: "is_hexdigit c \<Longrightarrow> \<not> is_ws c"
  by (auto simp: is_hexdigit_def hexval_def Let_def split: if_splits dest!: ws_code)

lemma is_hexdigit_hexdigit [simp]: "n < 16 \<Longrightarrow> is_hexdigit (hexdigit n)"
  by (simp add: is_hexdigit_def)

lemma hexnum_append: "hexnum acc (s @ t) = (case hexnum acc s of None \<Rightarrow> None | Some n \<Rightarrow> hexnum n t)"
  by (induction acc s rule: hexnum.induct) (auto split: option.splits)

lemma hexnum_hexstr [simp]: "hexnum 0 (hexstr n) = Some n"
  by (induction n rule: hexstr.induct) (subst hexstr.simps, auto simp: hexnum_append)

lemma hexnum_zeros [simp]: "hexnum 0 (replicate k CHR ''0'' @ s) = hexnum 0 s"
  by (induction k) (auto simp: hexval_def char_code_def)

lemma hexstr_nonempty [simp]: "hexstr n \<noteq> []"
  by (subst hexstr.simps) simp

lemma hexstr_digits: "\<forall>c \<in> set (hexstr n). is_hexdigit c \<and> upper_char c = c"
  by (induction n rule: hexstr.induct) (subst hexstr.simps, auto)

lemma pad0_digits: "\<forall>c \<in> set (pad0 k (hexstr n)). is_hexdigit c \<and> upper_char c = c"
  using hexstr_digits [of n]
  by (auto simp: pad0_def is_hexdigit_def hexval_def upper_char_def char_code_def)

lemma hexstr_length: "n < 16 ^ k \<Longrightarrow> 0 < k \<Longrightarrow> length (hexstr n) \<le> k"
proof (induction n arbitrary: k rule: hexstr.induct)
  case (1 n)
  show ?case
  proof (cases "n < 16")
    case True
    with "1.prems" show ?thesis by (simp add: hexstr.simps [of n])
  next
    case False
    with "1.prems" obtain j where k: "k = Suc j" and "0 < j"
      by (cases k; cases "k - 1") auto
    from k "1.prems"(1) have "n div 16 < 16 ^ j" by (simp add: less_mult_imp_div_less mult.commute)
    with False \<open>0 < j\<close> "1.IH" have "length (hexstr (n div 16)) \<le> j" by blast
    with False k show ?thesis by (simp add: hexstr.simps [of n])
  qed
qed

lemma pad0_length: "n < 16 ^ k \<Longrightarrow> 0 < k \<Longrightarrow> length (pad0 k (hexstr n)) = k"
  using hexstr_length [of n k] by (simp add: pad0_def)

lemma plus_not_hexdigit: "\<not> is_hexdigit CHR ''+''"
  by (simp add: is_hexdigit_def hexval_def char_code_def)

lemma from_str_radix16_pad0 [simp]:
  "from_str_radix16 mx (pad0 k (hexstr n)) = (if n \<le> mx then Some n else None)"
proof -
  obtain c cs where c: "pad0 k (hexstr n) = c # cs"
    by (metis Nil_is_append_conv hexstr_nonempty list.exhaust pad0_def)
  with pad0_digits [of k n] have "is_hexdigit c" by auto
  then have "c \<noteq> CHR ''+''" using plus_not_hexdigit by blast
  moreover have "hexnum 0 (c # cs) = Some n" by (subst c [symmetric]) (simp add: pad0_def del: hexnum.simps)
  ultimately show ?thesis
    by (simp add: from_str_radix16_def c Let_def)
qed

lemma u8_from_hex_fmt [simp]: "u8_from_hex (fmt02X (unat b)) = Some b"
  using unsigned_less [of b, where 'a = nat] by (simp add: u8_from_hex_def fmt02X_def)

lemma u8_from_hex_fmt_nat: "n < 256 \<Longrightarrow> u8_from_hex (fmt02X n) = Some (of_nat n)"
  by (simp add: u8_from_hex_def fmt02X_def)

lemma fmt02X_length: "n < 256 \<Longrightarrow> length (fmt02X n) = 2"
  unfolding fmt02X_def by (rule pad0_length) simp_all

lemma fmt02X_u8_length [simp]: "length (fmt02X (unat (b :: u8))) = 2"
  using unsigned_less [of b, where 'a = nat] by (intro fmt02X_length) simp

lemma fmt02X_digits: "c \<in> set (fmt02X n) \<Longrightarrow> is_hexdigit c"
  using pad0_digits by (auto simp: fmt02X_def)

lemma fmt02X_nonempty [simp]: "fmt02X n \<noteq> []"
  by (simp add: fmt02X_def pad0_def)

lemma to_uppercase_fmt02X [simp]: "to_uppercase (fmt02X n) = fmt02X n"
  using pad0_digits [of 2 n] by (simp add: to_uppercase_def fmt02X_def map_idI)

lemma to_uppercase_length [simp]: "length (to_uppercase s) = length s"
  by (simp add: to_uppercase_def)

lemma upper_upper [simp]: "upper_char (upper_char c) = upper_char c"
  by (auto simp: upper_char_def code_char_of)

lemma to_uppercase_idem [simp]: "to_uppercase (to_uppercase s) = to_uppercase s"
  by (simp add: to_uppercase_def)

section \<open>Facts about splitting\<close>

lemma split_on_nonempty [simp]: "split_on p s \<noteq> []"
  by (induction s) (auto split: list.splits)

lemma split_on_sep:
  "\<forall>x \<in> set w. \<not> p x \<Longrightarrow> p c \<Longrightarrow> split_on p (w @ c # s) = w # split_on p s"
  by (induction w) auto

lemma split_on_none: "\<forall>x \<in> set w. \<not> p x \<Longrightarrow> split_on p w = [w]"
  by (induction w) auto

lemma split_on_pieces: "w \<in> set (split_on p s) \<Longrightarrow> x \<in> set w \<Longrightarrow> \<not> p x"
proof (induction s arbitrary: w x)
  case (Cons c cs)
  from Cons.IH have "\<forall>v \<in> set (split_on p cs). \<forall>y \<in> set v. \<not> p y" by blast
  with Cons.prems show ?case
    by (cases "split_on p cs") (auto split: if_splits)
qed simp

lemma split_on_append:
  "split_on p (s @ c # t) = split_on p s @ split_on p t" if "p c"
  using that
proof (induction s)
  case (Cons x xs)
  then show ?case by (cases "split_on p xs") (auto split: list.splits)
qed simp

lemma split_on_join:
  assumes "ws \<noteq> []" and "\<forall>w \<in> set ws. \<forall>x \<in> set w. \<not> p x" and "p c"
  shows "split_on p (join [c] ws) = ws"
  using assms(1,2)
proof (induction ws rule: induct_list012)
  case (3 w v ws)
  have "split_on p (join [c] (w # v # ws)) = w # split_on p (join [c] (v # ws))"
    using split_on_sep [of w p c "join [c] (v # ws)"] 3 assms(3) by simp
  with 3 show ?case by simp
qed (auto simp: split_on_none)

lemma split_whitespace_join:
  assumes "\<forall>w \<in> set ws. w \<noteq> [] \<and> (\<forall>x \<in> set w. \<not> is_ws x)"
  shows "split_whitespace (join '' '' ws) = ws"
proof (cases "ws = []")
  case True
  then show ?thesis by (simp add: split_whitespace_def)
next
  case False
  with assms have "split_on is_ws (join '' '' ws) = ws"
    by (intro split_on_join) (auto simp: is_ws_def)
  with assms show ?thesis by (simp add: split_whitespace_def)
qed

lemma split_whitespace_tokens:
  "w \<in> set (split_whitespace s) \<Longrightarrow> w \<noteq> [] \<and> (\<forall>x \<in> set w. \<not> is_ws x)"
  by (auto simp: split_whitespace_def dest: split_on_pieces)

lemma dropWhile_id: "s = [] \<or> \<not> p (hd s) \<Longrightarrow> dropWhile p s = s"
  by (cases s) auto

lemma trim_id: "s = [] \<or> (\<not> is_ws (hd s) \<and> \<not> is_ws (last s)) \<Longrightarrow> trim s = s"
  by (auto simp: trim_def trim_matches_def dropWhile_id hd_rev)

lemma set_trim: "set (trim s) \<subseteq> set s"
  by (auto simp: trim_def trim_matches_def dest!: set_dropWhileD)

section \<open>Chunks\<close>

text \<open>\<^verbatim>\<open>slice::chunks(n)\<close>: consecutive pieces of \<open>n\<close> elements, the last one possibly shorter (\<open>n\<close> is a positive constant wherever the code uses it).\<close>

function chunks :: "nat \<Rightarrow> 'a list \<Rightarrow> 'a list list" where
  "chunks n xs = (if xs = [] \<or> n = 0 then [] else take n xs # chunks n (drop n xs))"
  by pat_completeness auto
termination by (relation "measure (\<lambda>(_, xs). length xs)") auto

declare chunks.simps [simp del]

lemma chunks_nil [simp]: "chunks n [] = []"
  by (simp add: chunks.simps)

lemma chunks_append: "length x = n \<Longrightarrow> 0 < n \<Longrightarrow> chunks n (x @ ys) = x # chunks n ys"
  by (subst chunks.simps) auto

lemma chunks_short: "0 < length x \<Longrightarrow> length x < n \<Longrightarrow> chunks n x = [x]"
  by (subst chunks.simps) (auto simp: chunks.simps [of n "[]"])

lemma chunks_blocks:
  "\<forall>b \<in> set bs. length b = n \<Longrightarrow> 0 < n \<Longrightarrow> chunks n (concat bs @ r) = bs @ chunks n r"
  by (induction bs) (simp_all add: chunks_append)

end
