(* ===== verification/Framing.thy ===== *)
theory Framing
  imports Prelude
begin

text \<open>
  The contract every incremental byte parser of the crate has with the transports: bytes arrive
  in chunks cut anywhere (BLE notifications, TCP segments), and what the parser delivers must
  not depend on the cuts. The locale states the contract for one parser; the DVI frame splitter
  and the line mode of the response accumulator are its two instances.
\<close>

text \<open>Feeding a parser chunk after chunk, collecting what it delivers.\<close>

fun run_feed :: "('s \<Rightarrow> 'b list \<Rightarrow> 's \<times> 'e list) \<Rightarrow> 's \<Rightarrow> 'b list list \<Rightarrow> 's \<times> 'e list" where
  "run_feed feed s [] = (s, [])"
| "run_feed feed s (c # cs) =
     (let (s1, e1) = feed s c; (s2, e2) = run_feed feed s1 cs in (s2, e1 @ e2))"

locale byte_framer =
  fixes feed :: "'s \<Rightarrow> 'b list \<Rightarrow> 's \<times> 'e list"
    and inv :: "'s \<Rightarrow> bool"
  assumes feed_nil: "inv s \<Longrightarrow> feed s [] = (s, [])"
    and feed_inv: "inv s \<Longrightarrow> inv (fst (feed s a))"
    and feed_append: "inv s \<Longrightarrow>
      feed s (a @ b) = (let (s1, e1) = feed s a; (s2, e2) = feed s1 b in (s2, e1 @ e2))"
begin

lemma run_concat: "inv s \<Longrightarrow> run_feed feed s cs = feed s (concat cs)"
proof (induction cs arbitrary: s)
  case Nil
  then show ?case by (simp add: feed_nil)
next
  case (Cons c cs)
  obtain s1 e1 where fs: "feed s c = (s1, e1)" by fastforce
  with Cons.prems feed_inv [of s c] have "inv s1" by simp
  with Cons.IH [of s1] Cons.prems fs show ?case
    by (simp add: feed_append)
qed

lemma chunks_irrelevant:
  "inv s \<Longrightarrow> concat cs = concat ds \<Longrightarrow> run_feed feed s cs = run_feed feed s ds"
  by (simp add: run_concat)

lemma run_inv: "inv s \<Longrightarrow> inv (fst (run_feed feed s cs))"
  by (simp add: run_concat feed_inv)

end

end
