(* ===== verification/DviCodec.thy ===== *)
theory DviCodec
  imports Framing
begin

text \<open>
  The OBDX Pro DVI codec (\<^verbatim>\<open>src/link/dvi/codec.rs\<close>): the checksum, the frame builder, the
  request builders and the incremental frame splitter \<^verbatim>\<open>FrameParser\<close>. The splitter's state is
  its buffer and the timestamp switch; \<open>dvi_feed\<close> is one call of \<^verbatim>\<open>feed\<close>.
\<close>

section \<open>Constants and enumerations\<close>

definition RX_NORMAL :: u8 where "RX_NORMAL = 0x08"
definition RX_LARGE :: u8 where "RX_LARGE = 0x09"
definition TX_NORMAL :: u8 where "TX_NORMAL = 0x10"
definition TX_LARGE :: u8 where "TX_LARGE = 0x11"
definition INFO :: u8 where "INFO = 0x22"
definition SETTINGS :: u8 where "SETTINGS = 0x24"
definition PROTOCOL :: u8 where "PROTOCOL = 0x31"
definition CAN :: u8 where "CAN = 0x34"
definition ERROR :: u8 where "ERROR = 0x7F"

lemmas dvi_cmds =
  RX_NORMAL_def RX_LARGE_def TX_NORMAL_def TX_LARGE_def INFO_def SETTINGS_def PROTOCOL_def
  CAN_def ERROR_def

datatype ObdProtocol = Aldl | Vpw | HsCan | GmCan | MsCan

fun protocol_byte :: "ObdProtocol \<Rightarrow> u8" where
  "protocol_byte Aldl = 0x00"
| "protocol_byte Vpw = 0x01"
| "protocol_byte HsCan = 0x02"
| "protocol_byte GmCan = 0x03"
| "protocol_byte MsCan = 0x04"

datatype Comm = CommOff | CommOn | ListenOnly

fun comm_byte :: "Comm \<Rightarrow> u8" where
  "comm_byte CommOff = 0x00"
| "comm_byte CommOn = 0x01"
| "comm_byte ListenOnly = 0x02"

datatype FilterType = FilterPass | FilterFlow | FilterBlock

fun filter_byte :: "FilterType \<Rightarrow> u8" where
  "filter_byte FilterPass = 0x00"
| "filter_byte FilterFlow = 0x01"
| "filter_byte FilterBlock = 0x02"

definition bool_byte :: "bool \<Rightarrow> u8" where
  "bool_byte b = (if b then 1 else 0)"

definition error_name :: "u8 \<Rightarrow> string" where
  "error_name code =
     (if code = 1 then ''InvalidCommand''
      else if code = 2 then ''RecvTooLong''
      else if code = 3 then ''ByteWaitTimeout''
      else if code = 4 then ''InvalidSerialChksum''
      else if code = 5 then ''SubCommandIncorrectSize''
      else if code = 6 then ''InvalidSubCommand''
      else if code = 7 then ''SubCommandInvalidData''
      else ''Unknown'')"

section \<open>Checksum and frame builder\<close>

text \<open>The sum is taken at \<^verbatim>\<open>u32\<close>, masked to a byte, and subtracted from \<^verbatim>\<open>0xFF\<close>.\<close>

definition checksum :: "u8 list \<Rightarrow> u8" where
  "checksum bytes =
     (let s = sum_list (map (\<lambda>b. ucast b :: u32) bytes) in 0xFF - ucast (s AND 0xFF))"

text \<open>
  \<^verbatim>\<open>frame\<close>: one length byte (the low byte of the length; the release build does not check the
  bound the debug assertion states), two for the large commands.
\<close>

definition frame :: "u8 \<Rightarrow> u8 list \<Rightarrow> u8 list" where
  "frame cmd d =
     (let hdr = (if cmd = RX_LARGE \<or> cmd = TX_LARGE
                 then [cmd, of_nat (length d div 256), of_nat (length d mod 256)]
                 else [cmd, of_nat (length d)]);
          out = hdr @ d
      in out @ [checksum out])"

section \<open>Frames and the splitter\<close>

record RxFrame =
  rx_id :: u32
  rx_ts_us :: "u32 option"
  rx_data :: "u8 list"

datatype DviFrame = Rx RxFrame | ErrorFrame u8 u8 | Reply u8 "u8 list"

record FrameParser =
  fp_buf :: "u8 list"
  fp_timestamps :: bool

definition new_parser :: FrameParser where
  "new_parser = \<lparr>fp_buf = [], fp_timestamps = False\<rparr>"

definition parser_reset :: "FrameParser \<Rightarrow> FrameParser" where
  "parser_reset p = p\<lparr>fp_buf := []\<rparr>"

definition known_head :: "u8 \<Rightarrow> bool" where
  "known_head b \<longleftrightarrow>
     b \<in> set [0x08, 0x09, 0x10, 0x11, 0x20, 0x21, 0x22, 0x24, 0x25, 0x31, 0x32, 0x33, 0x34,
              0x35, 0x41, 0x42, 0x43, 0x44, 0x7F]"

text \<open>\<^verbatim>\<open>u32::from_be_bytes\<close> and \<^verbatim>\<open>to_be_bytes\<close>.\<close>

definition u32_from_be :: "u8 \<Rightarrow> u8 \<Rightarrow> u8 \<Rightarrow> u8 \<Rightarrow> u32" where
  "u32_from_be a b c d = of_nat (((unat a * 256 + unat b) * 256 + unat c) * 256 + unat d)"

definition u32_to_be :: "u32 \<Rightarrow> u8 list" where
  "u32_to_be w = [of_nat (unat w div 2 ^ 24), of_nat (unat w div 2 ^ 16),
                  of_nat (unat w div 2 ^ 8), of_nat (unat w)]"

text \<open>Total length of the frame at the head of the buffer, checksum included.\<close>

definition frame_len :: "u8 list \<Rightarrow> nat option" where
  "frame_len buf =
     (case buf of [] \<Rightarrow> None
      | cmd # rest \<Rightarrow>
        if cmd = RX_LARGE \<or> cmd = TX_LARGE \<or> cmd = TX_LARGE + 0x10 then
          (case rest of hi # lo # _ \<Rightarrow> Some (3 + (unat hi * 256 + unat lo) + 1) | _ \<Rightarrow> None)
        else (case rest of len # _ \<Rightarrow> Some (2 + unat len + 1) | [] \<Rightarrow> None))"

definition decode_rx :: "bool \<Rightarrow> u8 list \<Rightarrow> DviFrame option" where
  "decode_rx timestamps dat =
     (let (ts, rest) =
        (case dat of
           a # b # c # d # r \<Rightarrow>
             if timestamps then (Some (u32_from_be a b c d), r) else (None, dat)
         | _ \<Rightarrow> (None, dat))
      in case rest of
           a # b # c # d # r \<Rightarrow> Some (Rx \<lparr>rx_id = u32_from_be a b c d, rx_ts_us = ts, rx_data = r\<rparr>)
         | _ \<Rightarrow> None)"

text \<open>
  \<^verbatim>\<open>decode\<close> over a checked body. The two-byte length is skipped for \<^verbatim>\<open>RX_LARGE\<close> and for the
  reply \<^verbatim>\<open>0x21\<close> only.
\<close>

definition decode :: "bool \<Rightarrow> u8 list \<Rightarrow> DviFrame option" where
  "decode timestamps body =
     (let cmd = hd body;
          dat = (if cmd = RX_LARGE \<or> cmd = TX_LARGE + 0x10 then drop 3 body else drop 2 body)
      in if cmd = ERROR then
           (case dat of c # e # _ \<Rightarrow> Some (ErrorFrame c e) | _ \<Rightarrow> None)
         else if cmd = RX_NORMAL \<or> cmd = RX_LARGE then decode_rx timestamps dat
         else Some (Reply cmd dat))"

lemma frame_len_pos: "frame_len buf = Some n \<Longrightarrow> 3 \<le> n \<and> buf \<noteq> []"
  by (auto simp: frame_len_def split: list.splits if_splits)

text \<open>The loop of \<^verbatim>\<open>feed\<close> over the buffer: what it delivers, and the buffer it leaves.\<close>

function drain :: "bool \<Rightarrow> u8 list \<Rightarrow> DviFrame list \<times> u8 list" where
  "drain ts buf =
     (case buf of [] \<Rightarrow> ([], [])
      | b # rest \<Rightarrow>
        if \<not> known_head b then drain ts rest
        else (case frame_len buf of None \<Rightarrow> ([], buf)
              | Some tot \<Rightarrow>
                if length buf < tot then ([], buf)
                else let raw = take tot buf; left = drop tot buf;
                         body = take (tot - 1) raw; yy = raw ! (tot - 1)
                     in if checksum body \<noteq> yy then drain ts (drop 1 raw @ left)
                        else let (fs, r) = drain ts left
                             in ((case decode ts body of Some f \<Rightarrow> f # fs | None \<Rightarrow> fs), r)))"
  by pat_completeness auto
termination
  by (relation "measure (\<lambda>(ts, buf). length buf)")
    (auto dest: frame_len_pos)

declare drain.simps [simp del]

definition dvi_feed :: "FrameParser \<Rightarrow> u8 list \<Rightarrow> FrameParser \<times> DviFrame list" where
  "dvi_feed p bytes =
     (let (fs, r) = drain (fp_timestamps p) (fp_buf p @ bytes) in (p\<lparr>fp_buf := r\<rparr>, fs))"

section \<open>Request builders\<close>

definition info_request :: "u8 \<Rightarrow> u8 list" where
  "info_request sub = frame INFO [sub]"

definition set_protocol :: "ObdProtocol \<Rightarrow> u8 list" where
  "set_protocol p = frame PROTOCOL [0x01, protocol_byte p]"

definition set_comm :: "Comm \<Rightarrow> u8 list" where
  "set_comm c = frame PROTOCOL [0x02, comm_byte c]"

definition set_api_dvi :: "u8 list" where
  "set_api_dvi = frame PROTOCOL [0x06, 0x01]"

definition set_timestamps :: "bool \<Rightarrow> u8 list" where
  "set_timestamps on = frame SETTINGS [0x03, bool_byte on]"

definition set_padding :: "bool \<Rightarrow> u8 list" where
  "set_padding on = frame CAN [0x0E, bool_byte on]"

definition set_software_filters :: "bool \<Rightarrow> u8 list" where
  "set_software_filters on = frame CAN [0x06, bool_byte on]"

definition set_baud :: "u8 \<Rightarrow> u8 list" where
  "set_baud code = frame CAN [0x15, code]"

definition u16_to_be :: "u16 \<Rightarrow> u8 list" where
  "u16_to_be w = [of_nat (unat w div 256), of_nat (unat w)]"

definition periodic_interval :: "u8 \<Rightarrow> u16 \<Rightarrow> u8 list" where
  "periodic_interval slot ms = frame CAN ([0x1A, slot] @ u16_to_be ms)"

definition periodic_data :: "u8 \<Rightarrow> u32 \<Rightarrow> u8 list \<Rightarrow> u8 list" where
  "periodic_data slot i payload = frame CAN ([0x1B, slot] @ u32_to_be i @ payload)"

definition periodic_enable :: "u8 \<Rightarrow> bool \<Rightarrow> u8 list" where
  "periodic_enable slot on = frame CAN [0x1C, slot, bool_byte on]"

definition can_filter ::
  "u8 \<Rightarrow> bool \<Rightarrow> FilterType \<Rightarrow> bool \<Rightarrow> u32 \<Rightarrow> u32 \<Rightarrow> u32 \<Rightarrow> u8 list" where
  "can_filter number extended kind on i msk flow_id =
     frame CAN ([0x00, number, bool_byte extended, filter_byte kind, bool_byte on]
                @ u32_to_be i @ u32_to_be msk @ u32_to_be flow_id)"

definition can_filter_status :: "u8 \<Rightarrow> bool \<Rightarrow> bool \<Rightarrow> u8 list" where
  "can_filter_status number extended on = frame CAN [0x05, number, bool_byte extended, bool_byte on]"

definition tx_can :: "u32 \<Rightarrow> bool \<Rightarrow> u8 list \<Rightarrow> u8 list" where
  "tx_can i extended payload =
     (let d = u32_to_be i @ payload
      in if length d > 0xFF then frame TX_LARGE d else frame TX_NORMAL d)"

section \<open>Checksum\<close>

lemma ucast_add_u32: "(ucast (a + b :: u32) :: u8) = ucast a + ucast b"
proof -
  have "(ucast (of_nat m :: u32) :: u8) = of_nat m" for m :: nat
    by (simp add: unsigned_of_nat take_bit_eq_mod word_of_nat_eq_iff mod_mod_cancel)
  then have "(ucast (of_nat (unat a) + of_nat (unat b) :: u32) :: u8) = of_nat (unat a) + of_nat (unat b)"
    by (simp only: of_nat_add [symmetric])
  then show ?thesis by simp
qed

lemma ucast_mask_u32: "(ucast (s AND 0xFF :: u32) :: u8) = ucast s"
proof -
  have "s AND 0xFF = take_bit 8 s" by (simp add: take_bit_eq_mask mask_eq_exp_minus_1)
  moreover have "(ucast (take_bit 8 s) :: u8) = ucast s"
    by (simp add: unsigned_take_bit_eq take_bit_word_eq_self)
  ultimately show ?thesis by simp
qed

lemma ucast_back_u8: "(ucast (ucast (b :: u8) :: u32) :: u8) = b"
  by (rule bit_word_eqI) (simp add: bit_simps)

lemma checksum_sum: "checksum bs = 0xFF - sum_list bs"
proof -
  have "(ucast (sum_list (map (\<lambda>b. ucast b :: u32) bs)) :: u8) = sum_list bs"
    by (induction bs) (simp_all add: ucast_add_u32 ucast_back_u8)
  then show ?thesis by (simp add: checksum_def Let_def ucast_mask_u32)
qed

text \<open>A change of one byte is always seen.\<close>

lemma checksum_one_byte:
  "checksum (xs @ b # ys) = checksum (xs @ c # ys) \<longleftrightarrow> b = c"
  by (simp add: checksum_sum)

section \<open>One frame through the splitter\<close>

definition wide_head :: "u8 \<Rightarrow> bool" where
  "wide_head c \<longleftrightarrow> c = RX_LARGE \<or> c = TX_LARGE"

lemma unat_u8_of_nat: "unat (of_nat n :: u8) = n mod 256"
  by (simp add: unat_of_nat)

lemma frame_len_frame:
  assumes "if wide_head c then length d < 65536 else length d < 256" and "c \<noteq> 0x21"
  shows "frame_len (frame c d @ rest) = Some (length (frame c d))"
proof (cases "wide_head c")
  case True
  with assms have "length d div 256 * 256 + length d mod 256 = length d" "length d div 256 < 256"
    by auto
  with True show ?thesis
    by (auto simp: frame_def frame_len_def wide_head_def Let_def unat_u8_of_nat)
next
  case False
  with assms show ?thesis
    by (auto simp: frame_def frame_len_def wide_head_def Let_def unat_u8_of_nat dvi_cmds)
qed

lemma frame_body: "frame c d = butlast (frame c d) @ [checksum (butlast (frame c d))]"
  by (simp add: frame_def Let_def)

lemma hd_frame [simp]: "hd (frame c d) = c" "frame c d \<noteq> []"
  by (simp_all add: frame_def Let_def)

lemma frame_length_ge: "length (frame c d) = Suc (length (butlast (frame c d)))"
  by (cases "frame c d" rule: rev_cases) simp_all

text \<open>The four moves of the splitter, as equations on the whole buffer.\<close>

lemma drain_Nil [simp]: "drain ts [] = ([], [])"
  by (simp add: drain.simps)

lemma drain_garbage: "\<not> known_head c \<Longrightarrow> drain ts (c # rest) = drain ts rest"
  by (simp add: drain.simps [of ts "c # rest"])

lemma drain_wait:
  assumes "buf \<noteq> []" "known_head (hd buf)" "\<And>n. frame_len buf = Some n \<Longrightarrow> length buf < n"
  shows "drain ts buf = ([], buf)"
  unfolding drain.simps [of ts buf] using assms by (cases buf) (auto split: option.splits)

lemma drain_bad:
  assumes "known_head (hd buf)" "frame_len buf = Some n" "n \<le> length buf"
    and "checksum (take (n - 1) buf) \<noteq> buf ! (n - 1)"
  shows "drain ts buf = drain ts (tl buf)"
proof -
  from assms(2) frame_len_pos have n: "3 \<le> n" "buf \<noteq> []" by blast+
  then have "drop 1 (take n buf) @ drop n buf = tl buf"
    by (metis One_nat_def append_take_drop_id assms(3) drop_0 drop_Suc le_zero_eq length_0_conv
        length_take min.absorb2 not_numeral_le_zero tl_append2)
  then show ?thesis
    unfolding drain.simps [of ts buf] using assms n by (cases buf) (simp_all add: Let_def)
qed

lemma drain_good:
  assumes "known_head (hd buf)" "frame_len buf = Some n" "n \<le> length buf"
    and "checksum (take (n - 1) buf) = buf ! (n - 1)"
  shows "drain ts buf =
    ((case decode ts (take (n - 1) buf) of Some f \<Rightarrow> f # fst (drain ts (drop n buf))
      | None \<Rightarrow> fst (drain ts (drop n buf))), snd (drain ts (drop n buf)))"
proof -
  from assms(2) frame_len_pos have n: "3 \<le> n" "buf \<noteq> []" by blast+
  obtain fs r where "drain ts (drop n buf) = (fs, r)" by fastforce
  then show ?thesis
    unfolding drain.simps [of ts buf] using assms n
    by (cases buf) (simp_all add: Let_def split: option.splits)
qed

text \<open>Every non-empty buffer makes exactly one of them.\<close>

lemma drain_cases:
  obtains "buf = []"
  | c rest where "buf = c # rest" "\<not> known_head c"
  | "buf \<noteq> []" "known_head (hd buf)" "\<And>n. frame_len buf = Some n \<Longrightarrow> length buf < n"
  | n where "known_head (hd buf)" "frame_len buf = Some n" "n \<le> length buf"
      "checksum (take (n - 1) buf) \<noteq> buf ! (n - 1)"
  | n where "known_head (hd buf)" "frame_len buf = Some n" "n \<le> length buf"
      "checksum (take (n - 1) buf) = buf ! (n - 1)"
  by (cases buf) (auto, meson not_le)

lemma drain_frame:
  assumes "known_head c" and "c \<noteq> 0x21"
    and "if wide_head c then length d < 65536 else length d < 256"
  shows "drain ts (frame c d @ rest) =
    ((case decode ts (butlast (frame c d)) of Some f \<Rightarrow> f # fst (drain ts rest) | None \<Rightarrow> fst (drain ts rest)),
     snd (drain ts rest))"
proof -
  obtain b where b: "butlast (frame c d) = c # b"
    by (cases "c = RX_LARGE \<or> c = TX_LARGE") (auto simp: frame_def Let_def butlast_append)
  with frame_body [of c d] have f: "frame c d = c # b @ [checksum (c # b)]" by simp
  from frame_len_frame [OF assms(3,2), of rest]
  have "frame_len (c # b @ checksum (c # b) # rest) = Some (Suc (Suc (length b)))" by (simp add: f)
  from drain_good [OF _ this, of ts] assms(1) b show ?thesis
    by (simp add: f nth_append split: option.split)
qed

section \<open>Chunks, garbage and the buffer that is left\<close>

lemma frame_len_append: "frame_len a = Some n \<Longrightarrow> frame_len (a @ b) = Some n"
  by (auto simp: frame_len_def split: list.splits if_splits)

lemma drain_append:
  "drain ts (a @ b) =
     (fst (drain ts a) @ fst (drain ts (snd (drain ts a) @ b)), snd (drain ts (snd (drain ts a) @ b)))"
proof (induction a rule: length_induct)
  case (1 a)
  show ?case
  proof (cases a rule: drain_cases)
    case (2 c rest)
    with 1 show ?thesis by (simp add: drain_garbage)
  next
    case 3
    then show ?thesis by (simp add: drain_wait)
  next
    case (4 n)
    then have n: "a \<noteq> []" "3 \<le> n" using frame_len_pos by blast+
    with 4 have "n - Suc 0 < length a" by linarith
    with n 4 have "drain ts (a @ b) = drain ts (tl a @ b)"
      by (subst drain_bad [of "a @ b" n]) (simp_all add: frame_len_append nth_append)
    with n 1 4 show ?thesis by (simp add: drain_bad)
  next
    case (5 n)
    then have "a \<noteq> []" "3 \<le> n" using frame_len_pos by blast+
    with 5 have n: "a \<noteq> []" "3 \<le> n" "n - Suc 0 < length a" by auto
    have "length (drop n a) < length a" using n 5 by simp
    with 1 have "drain ts (drop n a @ b) = (fst (drain ts (drop n a)) @
        fst (drain ts (snd (drain ts (drop n a)) @ b)), snd (drain ts (snd (drain ts (drop n a)) @ b)))"
      by blast
    moreover have "drain ts (a @ b) =
        ((case decode ts (take (n - 1) a) of Some f \<Rightarrow> f # fst (drain ts (drop n a @ b))
          | None \<Rightarrow> fst (drain ts (drop n a @ b))), snd (drain ts (drop n a @ b)))"
      using n 5
      by (subst drain_good [of "a @ b" n]) (simp_all add: frame_len_append nth_append split: option.split)
    ultimately show ?thesis
      using 5 by (simp add: drain_good split: option.splits)
  qed simp
qed


text \<open>What a feed leaves behind: nothing, or the start of a frame that is still incomplete.\<close>

definition waiting :: "u8 list \<Rightarrow> bool" where
  "waiting buf \<longleftrightarrow> buf = [] \<or>
     known_head (hd buf) \<and> (\<forall>n. frame_len buf = Some n \<longrightarrow> length buf < n)"

lemma drain_waiting: "waiting (snd (drain ts buf))"
proof (induction buf rule: length_induct)
  case (1 buf)
  show ?case
  proof (cases buf rule: drain_cases)
    case (2 c rest)
    with 1 show ?thesis by (simp add: drain_garbage)
  next
    case 3
    then show ?thesis by (simp add: drain_wait waiting_def)
  next
    case (4 n)
    then have "buf \<noteq> []" using frame_len_pos by blast
    with 4 1 show ?thesis by (simp add: drain_bad)
  next
    case (5 n)
    then have "buf \<noteq> []" "3 \<le> n" using frame_len_pos by blast+
    with 5 1 show ?thesis by (simp add: drain_good)
  qed (simp add: waiting_def)
qed

lemma waiting_drain: "waiting buf \<Longrightarrow> drain ts buf = ([], buf)"
  by (cases "buf = []") (auto simp: waiting_def intro: drain_wait)

lemma unat_u8_le: "unat (b :: u8) \<le> 255"
  using unsigned_less [of b, where 'a = nat] by simp

lemma frame_len_bound: "frame_len buf = Some n \<Longrightarrow> n \<le> 65539"
proof -
  have "unat (a :: u8) * 256 + unat (b :: u8) \<le> 65535" for a b
    using unat_u8_le [of a] unat_u8_le [of b] by linarith
  then show "frame_len buf = Some n \<Longrightarrow> n \<le> 65539"
    using unat_u8_le by (fastforce simp: frame_len_def split: list.splits if_splits intro: le_trans)
qed

lemma base256_digits:
  fixes n :: nat
  assumes "n < 4294967296"
  shows "((n div 2 ^ 24 mod 256 * 256 + n div 2 ^ 16 mod 256) * 256 + n div 2 ^ 8 mod 256) * 256
      + n mod 256 = n"
proof -
  have "n div 2 ^ 16 = n div 2 ^ 8 div 256" "n div 2 ^ 24 = n div 2 ^ 16 div 256"
    by (simp_all add: div_mult2_eq [symmetric])
  moreover have "n div 2 ^ 24 < 256" using assms by (simp add: less_mult_imp_div_less)
  ultimately show ?thesis
    by (simp only: div_mult_mod_eq mod_less) simp
qed

lemma u32_be_roundtrip: "u32_to_be w = [a, b, c, d] \<Longrightarrow> u32_from_be a b c d = w"
proof -
  assume "u32_to_be w = [a, b, c, d]"
  then have "unat a = unat w div 2 ^ 24 mod 256" "unat b = unat w div 2 ^ 16 mod 256"
    "unat c = unat w div 2 ^ 8 mod 256" "unat d = unat w mod 256"
    unfolding u32_to_be_def by (auto simp: unat_of_nat unsigned_ucast_eq take_bit_eq_mod)
  then have "u32_from_be a b c d = of_nat (((unat w div 2 ^ 24 mod 256 * 256 + unat w div 2 ^ 16 mod 256) * 256
      + unat w div 2 ^ 8 mod 256) * 256 + unat w mod 256)"
    by (simp only: u32_from_be_def)
  also have "\<dots> = w"
    using base256_digits [of "unat w"] unsigned_less [of w, where 'a = nat] by simp
  finally show ?thesis .
qed

lemma u32_to_be_Cons: obtains a b c d where "u32_to_be w = [a, b, c, d]" "u32_from_be a b c d = w"
  using u32_be_roundtrip [of w] by (auto simp: u32_to_be_def)

section \<open>The splitter inverts the tool's encoder\<close>

text \<open>
  The bytes the tool sends for a frame (manual, section 3.3): the large reply \<^verbatim>\<open>0x21\<close> carries a
  two-byte length like the large receive frame.
\<close>

definition wide_frame :: "u8 \<Rightarrow> u8 list \<Rightarrow> u8 list" where
  "wide_frame c d =
     (let out = [c, of_nat (length d div 256), of_nat (length d mod 256)] @ d in out @ [checksum out])"

fun wire_of :: "DviFrame \<Rightarrow> u8 list" where
  "wire_of (Rx r) =
     (let d = (case rx_ts_us r of Some t \<Rightarrow> u32_to_be t | None \<Rightarrow> []) @ u32_to_be (rx_id r) @ rx_data r
      in if length d > 255 then wide_frame RX_LARGE d else frame RX_NORMAL d)"
| "wire_of (ErrorFrame c e) = frame ERROR [c, e]"
| "wire_of (Reply c d) = (if c = 0x21 then wide_frame c d else frame c d)"

text \<open>Frames the tool can send, under the timestamp switch.\<close>

fun sendable :: "bool \<Rightarrow> DviFrame \<Rightarrow> bool" where
  "sendable ts (Rx r) = ((rx_ts_us r \<noteq> None) = ts \<and> length (rx_data r) < 65528)"
| "sendable ts (ErrorFrame c e) = True"
| "sendable ts (Reply c d) =
     (known_head c \<and> c \<noteq> ERROR \<and> c \<noteq> RX_NORMAL \<and> c \<noteq> RX_LARGE \<and> c \<noteq> TX_LARGE \<and>
      length d < (if c = 0x21 then 65536 else 256))"

lemma wide_frame_large: "wide_head c \<Longrightarrow> wide_frame c d = frame c d"
  by (auto simp: wide_frame_def frame_def wide_head_def Let_def)

lemma drain_narrow:
  assumes "known_head c" "c \<noteq> 0x21" "\<not> wide_head c" "length d < 256" "decode ts (c # x # d) = Some f"
    and "x = of_nat (length d)"
  shows "drain ts (frame c d @ rest) = (f # fst (drain ts rest), snd (drain ts rest))"
proof -
  from assms have "butlast (frame c d) = c # x # d"
    by (simp add: frame_def wide_head_def Let_def butlast_append)
  with assms show ?thesis by (simp add: drain_frame)
qed

lemma drain_wide:
  assumes "known_head c" "wide_head c \<or> c = 0x21" "length d < 65536"
    and "\<And>x y. decode ts (c # x # y # d) = Some f"
  shows "drain ts (wide_frame c d @ rest) = (f # fst (drain ts rest), snd (drain ts rest))"
proof -
  let ?b = "[of_nat (length d div 256), of_nat (length d mod 256)] @ d"
  have w: "wide_frame c d @ rest = c # ?b @ checksum (c # ?b) # rest"
    by (simp add: wide_frame_def Let_def)
  have "length d div 256 * 256 + length d mod 256 = length d" "length d div 256 < 256" using assms(3) by auto
  with assms(2) have "frame_len (c # ?b @ checksum (c # ?b) # rest) = Some (Suc (Suc (length ?b)))"
    by (auto simp: frame_len_def wide_head_def unat_u8_of_nat dvi_cmds)
  from drain_good [OF _ this, of ts] assms(1,4) show ?thesis
    unfolding w by (simp add: nth_append split: option.split)
qed

lemma drain_wire:
  assumes "sendable ts f"
  shows "drain ts (wire_of f @ rest) = (f # fst (drain ts rest), snd (drain ts rest))"
proof (cases f)
  case (Rx r)
  define d where "d = (case rx_ts_us r of Some t \<Rightarrow> u32_to_be t | None \<Rightarrow> []) @ u32_to_be (rx_id r) @ rx_data r"
  obtain a b c e where i: "u32_to_be (rx_id r) = [a, b, c, e]" "u32_from_be a b c e = rx_id r"
    by (rule u32_to_be_Cons)
  have dec: "decode_rx ts d = Some f"
  proof (cases "rx_ts_us r")
    case None
    with assms Rx i show ?thesis by (cases r) (simp add: decode_rx_def d_def)
  next
    case (Some t)
    obtain a' b' c' e' where "u32_to_be t = [a', b', c', e']" "u32_from_be a' b' c' e' = t"
      by (rule u32_to_be_Cons)
    with assms Rx i Some show ?thesis by (cases r) (simp add: decode_rx_def d_def)
  qed
  have len: "length d < 65536"
    using assms Rx i by (auto simp: d_def u32_to_be_def split: option.split)
  have k: "known_head RX_NORMAL" "known_head RX_LARGE" by (simp_all add: known_head_def dvi_cmds)
  show ?thesis
  proof (cases "length d > 255")
    case True
    have "drain ts (wide_frame RX_LARGE d @ rest) = (f # fst (drain ts rest), snd (drain ts rest))"
      by (rule drain_wide) (use k len dec in \<open>auto simp: wide_head_def decode_def dvi_cmds\<close>)
    with True Rx show ?thesis by (simp add: d_def [symmetric] Let_def)
  next
    case False
    have "drain ts (frame RX_NORMAL d @ rest) = (f # fst (drain ts rest), snd (drain ts rest))"
      by (rule drain_narrow [where x = "of_nat (length d)"])
        (use k False dec in \<open>auto simp: wide_head_def decode_def dvi_cmds\<close>)
    with False Rx show ?thesis by (simp add: d_def [symmetric] Let_def)
  qed
next
  case (ErrorFrame c e)
  have "drain ts (frame ERROR [c, e] @ rest) = (f # fst (drain ts rest), snd (drain ts rest))"
    by (rule drain_narrow [where x = 2])
      (auto simp: known_head_def wide_head_def decode_def dvi_cmds ErrorFrame)
  with ErrorFrame show ?thesis by simp
next
  case (Reply c d)
  show ?thesis
  proof (cases "c = 0x21")
    case True
    have "drain ts (wide_frame c d @ rest) = (f # fst (drain ts rest), snd (drain ts rest))"
      by (rule drain_wide) (use assms True Reply in \<open>auto simp: decode_def dvi_cmds\<close>)
    with True Reply show ?thesis by simp
  next
    case False
    have "drain ts (frame c d @ rest) = (f # fst (drain ts rest), snd (drain ts rest))"
      by (rule drain_narrow [where x = "of_nat (length d)"])
        (use assms False Reply in \<open>auto simp: decode_def wide_head_def dvi_cmds\<close>)
    with False Reply show ?thesis by simp
  qed
qed

lemma drain_skips_garbage:
  "\<forall>b \<in> set g. \<not> known_head b \<Longrightarrow> drain ts (g @ s) = drain ts s"
  by (induction g) (simp_all add: drain_garbage)

text \<open>A stream of frames with line noise (bytes that start no frame) before each of them.\<close>

fun noisy_stream :: "(u8 list \<times> DviFrame) list \<Rightarrow> u8 list" where
  "noisy_stream [] = []"
| "noisy_stream ((g, f) # fs) = g @ wire_of f @ noisy_stream fs"

lemma drain_noisy_stream:
  "\<forall>(g, f) \<in> set fs. (\<forall>b \<in> set g. \<not> known_head b) \<and> sendable ts f \<Longrightarrow>
   drain ts (noisy_stream fs) = (map snd fs, [])"
  by (induction fs rule: noisy_stream.induct) (auto simp: drain_skips_garbage drain_wire)

section \<open>Properties\<close>

lemma waiting_length: "waiting buf \<Longrightarrow> length buf < 65539"
proof -
  assume w: "waiting buf"
  show ?thesis
  proof (cases "frame_len buf")
    case None
    then show ?thesis by (auto simp: frame_len_def split: list.splits if_splits)
  next
    case (Some n)
    with w have "buf = [] \<or> length buf < n" by (auto simp: waiting_def)
    with frame_len_bound [OF Some] show ?thesis by auto
  qed
qed

interpretation dvi: byte_framer dvi_feed "\<lambda>p. waiting (fp_buf p)"
proof
  fix p :: FrameParser and a b
  assume w: "waiting (fp_buf p)"
  from waiting_drain [OF w] show "dvi_feed p [] = (p, [])" by (simp add: dvi_feed_def)
  show "waiting (fp_buf (fst (dvi_feed p a)))"
    using drain_waiting by (simp add: dvi_feed_def split: prod.split) (metis snd_conv)
  show "dvi_feed p (a @ b) = (let (s1, e1) = dvi_feed p a; (s2, e2) = dvi_feed s1 b in (s2, e1 @ e2))"
    using drain_append [of "fp_timestamps p" "fp_buf p @ a" b]
    by (simp add: dvi_feed_def split: prod.split)
qed

text \<open>
  C38: a stream of frames from the tool, with line noise that starts no frame in front of each of
  them and cut into chunks anywhere, is delivered by the splitter frame for frame and in order,
  and leaves the parser empty.
\<close>

theorem dvi_stream_delivered:
  assumes "\<forall>(g, f) \<in> set fs. (\<forall>b \<in> set g. \<not> known_head b) \<and> sendable (fp_timestamps p) f"
    and "concat pieces = noisy_stream fs" and "fp_buf p = []"
  shows "run_feed dvi_feed p pieces = (p, map snd fs)"
proof -
  have "run_feed dvi_feed p pieces = dvi_feed p (noisy_stream fs)"
    using dvi.run_concat [of p pieces] assms(2,3) by (simp add: waiting_def)
  with drain_noisy_stream [OF assms(1)] assms(3) show ?thesis by (simp add: dvi_feed_def)
qed

theorem dvi_stream_delivered_witness:
  "run_feed dvi_feed new_parser
     [[0x00, 0x08, 0x06, 0x00, 0x00], [0x07, 0xE8, 0x01], [0x60, 0xA1, 0x0D, 0x20], [0x01, 0x00, 0xDE]]
   = (new_parser, [Rx \<lparr>rx_id = 0x7E8, rx_ts_us = None, rx_data = [0x01, 0x60]\<rparr>, Reply 0x20 [0x00]])"
  using dvi_stream_delivered
    [where p = new_parser and
       fs = "[([0x00], Rx \<lparr>rx_id = 0x7E8, rx_ts_us = None, rx_data = [0x01, 0x60]\<rparr>),
              ([0x0D], Reply 0x20 [0x00])]" and
       pieces = "[[0x00, 0x08, 0x06, 0x00, 0x00], [0x07, 0xE8, 0x01], [0x60, 0xA1, 0x0D, 0x20],
                  [0x01, 0x00, 0xDE]]"]
  by (simp add: new_parser_def known_head_def dvi_cmds frame_def Let_def u32_to_be_def checksum_sum)

text \<open>However the bytes arrive, what the splitter keeps is empty or the beginning of one frame
  that is still incomplete, so the buffer never outgrows the largest frame (65539 bytes).
\<close>

theorem dvi_buffer_bounded:
  assumes "waiting (fp_buf p)"
  shows "waiting (fp_buf (fst (run_feed dvi_feed p pieces))) \<and>
    length (fp_buf (fst (run_feed dvi_feed p pieces))) < 65539"
  using dvi.run_inv [OF assms] waiting_length by blast

theorem dvi_buffer_bounded_witness:
  "length (fp_buf (fst (run_feed dvi_feed new_parser [[0xFF, 0x08, 0x06], [0x00]]))) < 65539"
  using dvi_buffer_bounded [of new_parser "[[0xFF, 0x08, 0x06], [0x00]]"]
  by (simp add: new_parser_def waiting_def)

text \<open>A frame whose data or checksum was damaged in one byte is never delivered: the splitter
  drops its command byte and goes on with the rest, so that a good frame behind it is found.
\<close>

theorem dvi_damaged_frame_dropped:
  assumes "known_head c" and "c \<noteq> 0x21"
    and "if wide_head c then length d < 65536 else length d < 256"
    and "frame c d = c # xs @ b # ys" and "(if wide_head c then 2 else 1) \<le> length xs" and "b \<noteq> b'"
  shows "drain ts ((c # xs @ b' # ys) @ rest) = drain ts ((xs @ b' # ys) @ rest)"
proof -
  let ?bad = "c # xs @ b' # ys"
  from frame_len_frame [OF assms(3,2), of rest] assms(4)
  have "frame_len (c # xs @ b # ys @ rest) = Some (length ?bad)" by simp
  moreover have "TX_LARGE + 0x10 = 0x21" by (simp add: dvi_cmds)
  ultimately have len: "frame_len (?bad @ rest) = Some (length ?bad)"
    using assms(2,5)
    by (cases xs; cases "tl xs") (auto simp: frame_len_def wide_head_def split: if_splits)
  have last: "last (frame c d) = checksum (butlast (frame c d))"
    by (metis frame_body last_snoc)
  have sum: "checksum (take (length ?bad - 1) (?bad @ rest)) \<noteq> (?bad @ rest) ! (length ?bad - 1)"
  proof (cases ys rule: rev_cases)
    case Nil
    with last assms(4) have "b = checksum (c # xs)" by (simp add: butlast_append)
    with assms(6) Nil show ?thesis by (simp add: nth_append)
  next
    case (snoc zs y)
    with last assms(4) have "y = checksum ((c # xs) @ b # zs)" by (simp add: butlast_append)
    with assms(6) checksum_one_byte [of "c # xs" b zs b']
    have "checksum ((c # xs) @ b' # zs) \<noteq> y" by simp
    with snoc show ?thesis by (simp add: nth_append)
  qed
  from drain_bad [OF _ len _ sum] assms(1) show ?thesis by simp
qed

theorem dvi_damaged_frame_dropped_witness:
  "drain False ([0x20, 0x01, 0x05, 0xDE] @ [0x20, 0x01, 0x00, 0xDE]) =
   drain False ([0x01, 0x05, 0xDE] @ [0x20, 0x01, 0x00, 0xDE])"
  using dvi_damaged_frame_dropped
    [of "0x20" "[0x00]" "[0x01]" "0x00" "[0xDE]" "0x05" False "[0x20, 0x01, 0x00, 0xDE]"]
  by (simp add: known_head_def wide_head_def dvi_cmds frame_def Let_def checksum_sum)

text \<open>The frame a CAN write request makes reads back, in the same splitter, as the request up to
  255 data bytes; beyond that (the large form) the reader takes a two-byte length but strips one
  byte of it, so the low length byte comes back as the first data byte.
\<close>

theorem tx_can_reads_back:
  assumes "length payload < 65532"
  shows "drain ts (tx_can i ext payload) =
    ([if length payload \<le> 251 then Reply TX_NORMAL (u32_to_be i @ payload)
      else Reply TX_LARGE (of_nat ((length payload + 4) mod 256) # u32_to_be i @ payload)], [])"
proof -
  let ?d = "u32_to_be i @ payload"
  have len: "length ?d = length payload + 4" by (simp add: u32_to_be_def)
  show ?thesis
  proof (cases "length payload \<le> 251")
    case True
    have "drain ts (frame TX_NORMAL ?d @ []) = ([Reply TX_NORMAL ?d], [])"
      using True len by (subst drain_narrow [where x = "of_nat (length ?d)" and f = "Reply TX_NORMAL ?d"])
        (simp_all add: known_head_def wide_head_def decode_def dvi_cmds)
    with True len show ?thesis by (simp add: tx_can_def Let_def)
  next
    case False
    have b: "butlast (frame TX_LARGE ?d) = TX_LARGE # of_nat (length ?d div 256) # of_nat (length ?d mod 256) # ?d"
      by (simp add: frame_def Let_def butlast_append)
    have "decode ts (butlast (frame TX_LARGE ?d)) = Some (Reply TX_LARGE (of_nat (length ?d mod 256) # ?d))"
      by (simp only: b) (simp add: decode_def dvi_cmds)
    moreover have "known_head TX_LARGE" "TX_LARGE \<noteq> 0x21" "wide_head TX_LARGE"
      by (simp_all add: known_head_def wide_head_def dvi_cmds)
    ultimately have "drain ts (frame TX_LARGE ?d @ []) = ([Reply TX_LARGE (of_nat (length ?d mod 256) # ?d)], [])"
      using len assms by (subst drain_frame) simp_all
    with False len show ?thesis by (simp add: tx_can_def Let_def add.commute [of 4])
  qed
qed

theorem tx_can_reads_back_witness:
  "drain False (tx_can 0x7E0 False [0x20]) = ([Reply TX_NORMAL [0x00, 0x00, 0x07, 0xE0, 0x20]], [])"
  using tx_can_reads_back [of "[0x20]" False "0x7E0" False] by (simp add: u32_to_be_def)

end
