(* ===== verification/Accumulator.thy ===== *)
theory Accumulator
  imports DviCodec
begin

text \<open>
  The response accumulator (\<^verbatim>\<open>src/src/accumulator.rs\<close>): the one place where transport bytes
  become adapter text (prompt mode, line mode) or DVI frames. The state is the buffer, the mode
  and the DVI splitter; \<open>feed_bytes\<close> is one call of the method of that name.
\<close>

section \<open>State and operations\<close>

datatype Mode = Prompt | Line | Dvi

datatype AccEvent = Response string | LineEvent string | Dropped string | DviEvent DviFrame

record ResponseAccumulator =
  acc_buffer :: "u8 list"
  acc_mode :: Mode
  acc_dvi :: FrameParser

definition new_accumulator :: ResponseAccumulator where
  "new_accumulator = \<lparr>acc_buffer = [], acc_mode = Prompt, acc_dvi = new_parser\<rparr>"

definition set_dvi_timestamps :: "bool \<Rightarrow> ResponseAccumulator \<Rightarrow> ResponseAccumulator" where
  "set_dvi_timestamps on a = a\<lparr>acc_dvi := (acc_dvi a)\<lparr>fp_timestamps := on\<rparr>\<rparr>"

definition set_mode :: "Mode \<Rightarrow> ResponseAccumulator \<Rightarrow> ResponseAccumulator" where
  "set_mode m a = a\<lparr>acc_mode := m, acc_buffer := [], acc_dvi := parser_reset (acc_dvi a)\<rparr>"

definition acc_reset :: "ResponseAccumulator \<Rightarrow> ResponseAccumulator" where
  "acc_reset a = a\<lparr>acc_buffer := [], acc_dvi := parser_reset (acc_dvi a)\<rparr>"

definition has_pending :: "ResponseAccumulator \<Rightarrow> bool" where
  "has_pending a \<longleftrightarrow> acc_buffer a \<noteq> []"

text \<open>A byte outside ASCII becomes a question mark.\<close>

definition to_text :: "u8 list \<Rightarrow> string" where
  "to_text bytes = map (\<lambda>b. if b < 128 then char_of (unat b) else CHR ''?'') bytes"

text \<open>Index of the last element with the property (\<^verbatim>\<open>rposition\<close>).\<close>

definition rposition :: "('a \<Rightarrow> bool) \<Rightarrow> 'a list \<Rightarrow> nat option" where
  "rposition p xs = (case dropWhile (\<lambda>x. \<not> p x) (rev xs) of [] \<Rightarrow> None | _ # r \<Rightarrow> Some (length r))"

definition stale_prompt :: string where
  "stale_prompt = ''Empty response '' @ [CHR 0xE2, CHR 0x80, CHR 0x94] @ '' stale > prompt''"

definition drain_prompt :: "u8 list \<Rightarrow> u8 list \<times> AccEvent list" where
  "drain_prompt buf =
     (case rposition (\<lambda>b. b = 0x3E) buf of
        None \<Rightarrow> (buf, [])
      | Some i \<Rightarrow>
          let response = trim (to_text (take i buf))
          in ([], if response = [] then [Dropped stale_prompt] else [Response response]))"

definition is_term :: "u8 \<Rightarrow> bool" where
  "is_term b \<longleftrightarrow> b = 0x0D \<or> b = 0x0A"

text \<open>One raw line: trimmed of blanks and tabs; a blank line or a bare prompt delivers nothing.\<close>

definition line_events :: "u8 list \<Rightarrow> AccEvent list" where
  "line_events raw =
     (let trimmed = trim_matches (\<lambda>c. c = CHR '' '' \<or> c = CHR 0x09) (to_text raw)
      in if trimmed = [] \<or> trimmed = ''>'' then [] else [LineEvent trimmed])"

definition drain_lines :: "u8 list \<Rightarrow> u8 list \<times> AccEvent list" where
  "drain_lines buf =
     (case rposition is_term buf of
        None \<Rightarrow> (buf, [])
      | Some i \<Rightarrow>
          let complete = take (Suc i) buf
          in (drop (Suc i) buf, concat (map line_events (split_on is_term complete))))"

definition feed_bytes :: "ResponseAccumulator \<Rightarrow> u8 list \<Rightarrow> ResponseAccumulator \<times> AccEvent list" where
  "feed_bytes a dat =
     (case acc_mode a of
        Dvi \<Rightarrow> (let (p, fs) = dvi_feed (acc_dvi a) dat in (a\<lparr>acc_dvi := p\<rparr>, map DviEvent fs))
      | Prompt \<Rightarrow> (let (r, es) = drain_prompt (acc_buffer a @ dat) in (a\<lparr>acc_buffer := r\<rparr>, es))
      | Line \<Rightarrow> (let (r, es) = drain_lines (acc_buffer a @ dat) in (a\<lparr>acc_buffer := r\<rparr>, es)))"

definition acc_flush :: "ResponseAccumulator \<Rightarrow> ResponseAccumulator \<times> string option" where
  "acc_flush a =
     (if acc_buffer a = [] then (a, None)
      else (a\<lparr>acc_buffer := []\<rparr>, Some (trim (to_text (acc_buffer a)))))"

section \<open>The last element with a property\<close>

lemma rposition_None: "rposition p xs = None \<longleftrightarrow> (\<forall>x \<in> set xs. \<not> p x)"
proof -
  have "rposition p xs = None \<longleftrightarrow> dropWhile (\<lambda>x. \<not> p x) (rev xs) = []"
    by (auto simp add: rposition_def simp del: dropWhile_eq_Nil_conv split: list.splits)
  then show ?thesis by (simp add: dropWhile_eq_Nil_conv)
qed

lemma rposition_Some:
  assumes "p x" and "\<forall>y \<in> set ys. \<not> p y"
  shows "rposition p (xs @ x # ys) = Some (length xs)"
proof -
  have "dropWhile (\<lambda>x. \<not> p x) (rev ys @ x # rev xs) = x # rev xs"
    using assms by (subst dropWhile_append2) auto
  then show ?thesis by (simp add: rposition_def)
qed

lemma last_occurrence:
  obtains "\<forall>x \<in> set xs. \<not> p x"
  | us x vs where "xs = us @ x # vs" "p x" "\<forall>y \<in> set vs. \<not> p y"
  using split_list_last_prop [of xs p] by blast

section \<open>Line mode delivers lines, however the bytes are cut\<close>

definition no_term :: "u8 list \<Rightarrow> bool" where
  "no_term bs \<longleftrightarrow> (\<forall>b \<in> set bs. \<not> is_term b)"

lemma drain_lines_none: "no_term buf \<Longrightarrow> drain_lines buf = (buf, [])"
  by (simp add: drain_lines_def no_term_def rposition_None [THEN iffD2])

lemma line_events_Nil [simp]: "line_events [] = []"
  by (simp add: line_events_def to_text_def trim_matches_def)

lemma drain_lines_some:
  "is_term t \<Longrightarrow> no_term r \<Longrightarrow>
   drain_lines (w @ t # r) = (r, concat (map line_events (split_on is_term w)))"
  using rposition_Some [of is_term t r w] split_on_append [of is_term t w "[]"]
  by (simp add: drain_lines_def no_term_def Let_def)

lemma drain_lines_cases:
  obtains "no_term buf"
  | w t r where "buf = w @ t # r" "is_term t" "no_term r"
  unfolding no_term_def using that by (metis last_occurrence no_term_def)

lemma drain_lines_rest: "no_term (fst (drain_lines buf))"
  by (cases buf rule: drain_lines_cases) (simp_all add: drain_lines_none drain_lines_some)

lemma drain_lines_append:
  "drain_lines (a @ b) =
     (fst (drain_lines (fst (drain_lines a) @ b)),
      snd (drain_lines a) @ snd (drain_lines (fst (drain_lines a) @ b)))"
proof (cases a rule: drain_lines_cases)
  case 1
  then show ?thesis by (simp add: drain_lines_none)
next
  case (2 w t r)
  show ?thesis
  proof (cases "r @ b" rule: drain_lines_cases)
    case 1
    with 2 show ?thesis by (simp add: drain_lines_none drain_lines_some)
  next
    case (2 v u q)
    with \<open>a = w @ t # r\<close> have "a @ b = (w @ t # v) @ u # q" by simp
    with 2 \<open>a = w @ t # r\<close> \<open>is_term t\<close> \<open>no_term r\<close> show ?thesis
      by (simp only: drain_lines_some fst_conv snd_conv) (simp add: split_on_append)
  qed
qed

definition framing :: "ResponseAccumulator \<Rightarrow> bool" where
  "framing a \<longleftrightarrow>
     acc_mode a = Line \<and> no_term (acc_buffer a) \<or> acc_mode a = Dvi \<and> waiting (fp_buf (acc_dvi a))"

interpretation acc: byte_framer feed_bytes framing
proof
  fix a :: ResponseAccumulator and x y
  assume f: "framing a"
  from f drain_lines_none dvi.feed_nil show "feed_bytes a [] = (a, [])"
    by (auto simp: framing_def feed_bytes_def)
  from f show "framing (fst (feed_bytes a x))"
    using drain_lines_rest [of "acc_buffer a @ x"] dvi.feed_inv [of "acc_dvi a" x]
    by (auto simp: framing_def feed_bytes_def split: prod.splits)
  from f show "feed_bytes a (x @ y) =
      (let (s1, e1) = feed_bytes a x; (s2, e2) = feed_bytes s1 y in (s2, e1 @ e2))"
    using drain_lines_append [of "acc_buffer a @ x" y] dvi.feed_append [of "acc_dvi a" x y]
    by (auto simp: framing_def feed_bytes_def split: prod.splits)
qed

text \<open>A stream of terminated lines.\<close>

fun line_stream :: "(u8 list \<times> u8) list \<Rightarrow> u8 list" where
  "line_stream [] = []"
| "line_stream ((l, t) # ls) = l @ t # line_stream ls"

lemma drain_line_stream:
  "\<forall>(l, t) \<in> set ls. no_term l \<and> is_term t \<Longrightarrow> no_term r \<Longrightarrow>
   drain_lines (line_stream ls @ r) = (r, concat (map (line_events \<circ> fst) ls))"
proof (induction ls)
  case Nil
  then show ?case by (simp add: drain_lines_none)
next
  case (Cons x ls)
  obtain l t where x: "x = (l, t)" by fastforce
  have "drain_lines (l @ t # []) = ([], line_events l)"
    using Cons.prems x drain_lines_some [of t "[]" l] split_on_none [of l is_term]
    by (simp add: no_term_def)
  with drain_lines_append [of "l @ [t]" "line_stream ls @ r"] Cons x show ?case by simp
qed

section \<open>Everything delivered is ASCII\<close>

definition ascii :: "string \<Rightarrow> bool" where
  "ascii s \<longleftrightarrow> (\<forall>c \<in> set s. char_code c < 128)"

fun event_text :: "AccEvent \<Rightarrow> string" where
  "event_text (Response s) = s"
| "event_text (LineEvent s) = s"
| "event_text (Dropped s) = []"
| "event_text (DviEvent f) = []"

lemma ascii_to_text [simp]: "ascii (to_text bs)"
proof -
  have "b < 128 \<Longrightarrow> unat b mod 256 < 128" for b :: u8
    by (simp add: word_less_nat_alt)
  then show ?thesis
    by (auto simp: ascii_def to_text_def char_code_def)
qed

lemma ascii_subset: "set s \<subseteq> set t \<Longrightarrow> ascii t \<Longrightarrow> ascii s"
  by (auto simp: ascii_def)

lemma set_trim_matches: "set (trim_matches p s) \<subseteq> set s"
  by (auto simp: trim_matches_def dest!: set_dropWhileD)

lemma ascii_trim_matches: "ascii s \<Longrightarrow> ascii (trim_matches p s)"
  by (rule ascii_subset [OF set_trim_matches])

lemma ascii_feed: "e \<in> set (snd (feed_bytes a d)) \<Longrightarrow> ascii (event_text e)"
  by (auto simp: feed_bytes_def drain_prompt_def drain_lines_def line_events_def Let_def trim_def
      ascii_trim_matches ascii_def [of "[]"] split: Mode.splits prod.splits option.splits if_splits)

lemma ascii_run: "e \<in> set (snd (run_feed feed_bytes a cs)) \<Longrightarrow> ascii (event_text e)"
proof (induction cs arbitrary: a)
  case (Cons c cs)
  from Cons.IH [of "fst (feed_bytes a c)"] ascii_feed [of e a c] Cons.prems show ?case
    by (auto split: prod.splits)
qed simp

section \<open>Prompt mode waits for the prompt\<close>

lemma drain_prompt_none: "0x3E \<notin> set buf \<Longrightarrow> drain_prompt buf = (buf, [])"
  using rposition_None [of "\<lambda>b. b = 0x3E" buf] by (auto simp: drain_prompt_def)

lemma drain_prompt_some:
  "0x3E \<notin> set body \<Longrightarrow> drain_prompt (body @ [0x3E]) =
    ([], if trim (to_text body) = [] then [Dropped stale_prompt] else [Response (trim (to_text body))])"
  using rposition_Some [of "\<lambda>b. b = 0x3E" "0x3E" "[]" body] by (simp add: drain_prompt_def Let_def)

lemma run_prompt_done:
  "acc_mode a = Prompt \<Longrightarrow> acc_buffer a = [] \<Longrightarrow> concat cs = [] \<Longrightarrow> run_feed feed_bytes a cs = (a, [])"
proof -
  assume a: "acc_mode a = Prompt" "acc_buffer a = []" "concat cs = []"
  then have "a\<lparr>acc_buffer := []\<rparr> = a" by (cases a) simp
  with a have "feed_bytes a [] = (a, [])" by (simp add: feed_bytes_def drain_prompt_none)
  with a(3) show ?thesis by (induction cs) simp_all
qed

lemma run_prompt:
  assumes "acc_mode a = Prompt" and "0x3E \<notin> set body" and "acc_buffer a @ concat cs = body @ [0x3E]"
    and "0x3E \<notin> set (acc_buffer a)"
  shows "run_feed feed_bytes a cs =
    (a\<lparr>acc_buffer := []\<rparr>,
     if trim (to_text body) = [] then [Dropped stale_prompt] else [Response (trim (to_text body))])"
  using assms
proof (induction cs arbitrary: a)
  case Nil
  then have "(0x3E :: u8) \<in> set (acc_buffer a)" by simp
  with Nil show ?case by simp
next
  case (Cons c cs)
  show ?case
  proof (cases "(0x3E :: u8) \<in> set c")
    case False
    with Cons.prems have "drain_prompt (acc_buffer a @ c) = (acc_buffer a @ c, [])"
      by (intro drain_prompt_none) simp
    with Cons.prems(1) have "feed_bytes a c = (a\<lparr>acc_buffer := acc_buffer a @ c\<rparr>, [])"
      by (simp add: feed_bytes_def)
    with Cons.IH [of "a\<lparr>acc_buffer := acc_buffer a @ c\<rparr>"] Cons.prems False show ?thesis by simp
  next
    case True
    then obtain u v where c: "c = u @ 0x3E # v" "0x3E \<notin> set u" by (meson split_list_first)
    with Cons.prems(3) have "(acc_buffer a @ u) @ 0x3E # (v @ concat cs) = body @ 0x3E # []" by simp
    with append_Cons_eq_iff [of "0x3E" body "[]" "acc_buffer a @ u" "v @ concat cs"] Cons.prems(2)
    have "acc_buffer a @ u = body" "v @ concat cs = []" by auto
    with c have "acc_buffer a @ c = body @ [0x3E]" by simp
    with Cons.prems(1,2) have "feed_bytes a c = (a\<lparr>acc_buffer := []\<rparr>,
        if trim (to_text body) = [] then [Dropped stale_prompt] else [Response (trim (to_text body))])"
      using drain_prompt_some [of body] by (simp add: feed_bytes_def)
    with run_prompt_done [of "a\<lparr>acc_buffer := []\<rparr>" cs] \<open>v @ concat cs = []\<close> Cons.prems(1) show ?thesis
      by (simp split: prod.splits)
  qed
qed

section \<open>Properties\<close>

text \<open>
  C39: in line mode every terminated line of the stream is delivered once, in order and trimmed,
  blank lines and bare prompts are skipped, and the unterminated tail waits in the buffer; where
  the transport cuts the stream does not matter.
\<close>

theorem monitor_lines_any_chunking:
  assumes "acc_mode a = Line" and "acc_buffer a = []"
    and "\<forall>(l, t) \<in> set ls. no_term l \<and> is_term t" and "no_term rest"
    and "concat pieces = line_stream ls @ rest"
  shows "run_feed feed_bytes a pieces =
    (a\<lparr>acc_buffer := rest\<rparr>, concat (map (line_events \<circ> fst) ls))"
proof -
  have "framing a" using assms(1,2) by (simp add: framing_def no_term_def)
  then have "run_feed feed_bytes a pieces = feed_bytes a (line_stream ls @ rest)"
    using assms(5) by (simp add: acc.run_concat)
  with drain_line_stream [OF assms(3,4)] assms(1,2) show ?thesis by (simp add: feed_bytes_def)
qed

theorem monitor_lines_any_chunking_witness:
  "run_feed feed_bytes (set_mode Line new_accumulator) [[0x36, 0x41], [0x30, 0x0D, 0x0A, 0x37]] =
   ((set_mode Line new_accumulator)\<lparr>acc_buffer := [0x37]\<rparr>, [LineEvent ''6A0''])"
proof -
  have "line_events [0x36, 0x41, 0x30] = [LineEvent ''6A0'']" by code_simp
  then show ?thesis
    using monitor_lines_any_chunking
      [where a = "set_mode Line new_accumulator" and ls = "[([0x36, 0x41, 0x30], 0x0D), ([], 0x0A)]" and
         rest = "[0x37]" and pieces = "[[0x36, 0x41], [0x30, 0x0D, 0x0A, 0x37]]"]
    by (simp add: set_mode_def new_accumulator_def no_term_def is_term_def)
qed

text \<open>In prompt mode a reply cut anywhere is delivered exactly once, when its prompt arrives, as
  the trimmed text before the prompt; an empty one is dropped; the buffer is then empty.
\<close>

theorem prompt_reply_any_chunking:
  assumes "acc_mode a = Prompt" and "acc_buffer a = []"
    and "0x3E \<notin> set body" and "concat pieces = body @ [0x3E]"
  shows "run_feed feed_bytes a pieces =
    (a, if trim (to_text body) = [] then [Dropped stale_prompt] else [Response (trim (to_text body))])"
  using run_prompt [of a body pieces] assms by simp

theorem prompt_reply_any_chunking_witness:
  "run_feed feed_bytes new_accumulator [[0x4F], [0x4B, 0x0D], [0x0D, 0x3E]] =
   (new_accumulator, [Response ''OK''])"
proof -
  have "trim (to_text [0x4F, 0x4B, 0x0D, 0x0D]) = ''OK''" by code_simp
  then show ?thesis
    using prompt_reply_any_chunking [of new_accumulator "[0x4F, 0x4B, 0x0D, 0x0D]"
        "[[0x4F], [0x4B, 0x0D], [0x0D, 0x3E]]"]
    by (simp add: new_accumulator_def)
qed

text \<open>
  Whatever bytes a transport delivers, in every mode, the text handed to the engine is ASCII.
\<close>

theorem delivered_text_is_ascii:
  "list_all (\<lambda>e. ascii (event_text e)) (snd (run_feed feed_bytes a pieces))"
  using ascii_run by (auto simp: list_all_iff)

end
