(* ===== verification/RateLimit.thy ===== *)
theory RateLimit
  imports Complex_Main Prelude
begin

text \<open>
  The token bucket (\<^verbatim>\<open>src/src/rate_limit.rs\<close>). Times are seconds on the monotonic clock, passed in
  where the code reads \<^verbatim>\<open>Instant::now\<close>; \<^verbatim>\<open>f64\<close> quantities are real numbers, so rounding is not
  modelled. \<^verbatim>\<open>Duration::from_secs_f64\<close> panics on a negative or infinite argument, which here is a
  refill rate that is not positive.
\<close>

record TokenBucket =
  tb_capacity :: real
  tb_refill_rate :: real
  tb_tokens :: real
  tb_last_refill :: real

definition tb_new :: "real \<Rightarrow> real \<Rightarrow> real \<Rightarrow> TokenBucket" where
  "tb_new capacity refill_rate now =
     \<lparr>tb_capacity = capacity, tb_refill_rate = refill_rate, tb_tokens = capacity, tb_last_refill = now\<rparr>"

definition with_rate :: "real \<Rightarrow> nat \<Rightarrow> real \<Rightarrow> TokenBucket" where
  "with_rate commands_per_second burst_capacity now = tb_new (of_nat burst_capacity) commands_per_second now"

text \<open>\<^verbatim>\<open>duration_since\<close> saturates at zero.\<close>

definition refill :: "real \<Rightarrow> TokenBucket \<Rightarrow> TokenBucket" where
  "refill now b =
     (let elapsed = max 0 (now - tb_last_refill b)
      in b\<lparr>tb_tokens := min (tb_tokens b + elapsed * tb_refill_rate b) (tb_capacity b),
           tb_last_refill := now\<rparr>)"

definition try_consume :: "real \<Rightarrow> TokenBucket \<Rightarrow> bool \<times> TokenBucket" where
  "try_consume now b =
     (let b = refill now b
      in if 1 \<le> tb_tokens b then (True, b\<lparr>tb_tokens := tb_tokens b - 1\<rparr>) else (False, b))"

definition try_consume_batch :: "real \<Rightarrow> real \<Rightarrow> TokenBucket \<Rightarrow> real \<times> TokenBucket" where
  "try_consume_batch now tokens_needed b =
     (let b = refill now b; available = min (tb_tokens b) tokens_needed
      in (available, b\<lparr>tb_tokens := tb_tokens b - available\<rparr>))"

definition available_tokens :: "real \<Rightarrow> TokenBucket \<Rightarrow> real \<times> TokenBucket" where
  "available_tokens now b = (let b = refill now b in (tb_tokens b, b))"

definition can_consume :: "real \<Rightarrow> TokenBucket \<Rightarrow> bool \<times> TokenBucket" where
  "can_consume now b = (let b = refill now b in (1 \<le> tb_tokens b, b))"

definition secs_duration :: "real \<Rightarrow> real \<Rightarrow> (unit, real) outcome" where
  "secs_duration needed rate =
     (if rate = 0 \<or> needed / rate < 0 then Panic else Ok (needed / rate))"

definition time_until_next_token :: "real \<Rightarrow> TokenBucket \<Rightarrow> (unit, real) outcome \<times> TokenBucket" where
  "time_until_next_token now b =
     (let b = refill now b
      in (if 1 \<le> tb_tokens b then Ok 0 else secs_duration (1 - tb_tokens b) (tb_refill_rate b), b))"

text \<open>
  One round of the loop of \<^verbatim>\<open>consume_blocking\<close>: the token is taken, or the worker sleeps for the
  time given (at least a millisecond; an infinite wait panics).
\<close>

datatype blocking_round = Taken TokenBucket | Sleep real TokenBucket | RoundPanic

definition consume_round :: "real \<Rightarrow> TokenBucket \<Rightarrow> blocking_round" where
  "consume_round now b =
     (let b = refill now b
      in if 1 \<le> tb_tokens b then Taken (b\<lparr>tb_tokens := tb_tokens b - 1\<rparr>)
         else if tb_refill_rate b = 0 then RoundPanic
         else Sleep (max ((1 - tb_tokens b) / tb_refill_rate b) (1 / 1000)) b)"

text \<open>
  The loop with a clock that advances by exactly the requested sleep; \<open>None\<close> when the rounds given
  are used up.
\<close>

fun consume_blocking :: "nat \<Rightarrow> real \<Rightarrow> TokenBucket \<Rightarrow> (unit, real \<times> TokenBucket) outcome option" where
  "consume_blocking 0 now b = None"
| "consume_blocking (Suc fuel) now b =
     (case consume_round now b of
        Taken b' \<Rightarrow> Some (Ok (now, b'))
      | Sleep d b' \<Rightarrow> consume_blocking fuel (now + d) b'
      | RoundPanic \<Rightarrow> Some Panic)"

text \<open>A caller that tries at each of the given times.\<close>

fun consume_run :: "TokenBucket \<Rightarrow> real list \<Rightarrow> nat \<times> TokenBucket" where
  "consume_run b [] = (0, b)"
| "consume_run b (t # ts) =
     (let (ok, b1) = try_consume t b; (n, b2) = consume_run b1 ts in ((if ok then Suc n else n), b2))"

section \<open>The bucket invariant\<close>

definition bucket_ok :: "TokenBucket \<Rightarrow> bool" where
  "bucket_ok b \<longleftrightarrow> 0 \<le> tb_tokens b \<and> tb_tokens b \<le> tb_capacity b \<and> 0 \<le> tb_refill_rate b"

lemma refill_fields [simp]:
  "tb_capacity (refill now b) = tb_capacity b" "tb_refill_rate (refill now b) = tb_refill_rate b"
  "tb_last_refill (refill now b) = now"
  by (simp_all add: refill_def Let_def)

lemma refill_ok: "bucket_ok b \<Longrightarrow> bucket_ok (refill now b)"
  by (auto simp: bucket_ok_def refill_def Let_def)

lemma try_consume_ok: "bucket_ok b \<Longrightarrow> bucket_ok (snd (try_consume now b))"
  using refill_ok [of b now] by (auto simp: bucket_ok_def try_consume_def Let_def)

lemma try_consume_fields [simp]:
  "tb_capacity (snd (try_consume now b)) = tb_capacity b"
  "tb_refill_rate (snd (try_consume now b)) = tb_refill_rate b"
  "tb_last_refill (snd (try_consume now b)) = now"
  by (simp_all add: try_consume_def Let_def)

text \<open>Tokens are conserved: what is taken plus what is left never exceeds what was there and what came in.\<close>

lemma try_consume_budget:
  assumes "tb_last_refill b \<le> now"
  shows "(if fst (try_consume now b) then 1 else 0) + tb_tokens (snd (try_consume now b))
    \<le> tb_tokens b + tb_refill_rate b * (now - tb_last_refill b)"
  using assms by (simp add: try_consume_def refill_def Let_def mult.commute)

lemma consume_run_budget:
  "sorted (tb_last_refill b # ts) \<Longrightarrow> 0 \<le> tb_refill_rate b \<Longrightarrow>
   real (fst (consume_run b ts)) + tb_tokens (snd (consume_run b ts))
     \<le> tb_tokens b + tb_refill_rate b * (last (tb_last_refill b # ts) - tb_last_refill b)"
proof (induction ts arbitrary: b)
  case (Cons t ts)
  let ?b = "snd (try_consume t b)"
  have "real (fst (consume_run ?b ts)) + tb_tokens (snd (consume_run ?b ts))
     \<le> tb_tokens ?b + tb_refill_rate b * (last (t # ts) - t)"
    using Cons.IH [of ?b] Cons.prems by simp
  moreover from Cons.prems have "tb_last_refill b \<le> t" by simp
  note try_consume_budget [OF this]
  ultimately show ?case
    by (simp add: split_beta Let_def algebra_simps split: if_splits)
qed simp

lemma consume_run_ok: "bucket_ok b \<Longrightarrow> bucket_ok (snd (consume_run b ts))"
  by (induction ts arbitrary: b) (simp_all add: split_beta Let_def try_consume_ok)

section \<open>Properties\<close>

text \<open>The rate limit. Over any sequence of attempts at increasing times, the commands let through
  are at most the burst capacity plus the rate times the time that passed.
\<close>

theorem rate_limit_bound:
  assumes "bucket_ok b" and "sorted (tb_last_refill b # ts)"
  shows "real (fst (consume_run b ts))
    \<le> tb_capacity b + tb_refill_rate b * (last (tb_last_refill b # ts) - tb_last_refill b)"
proof -
  have "0 \<le> tb_tokens (snd (consume_run b ts))"
    using consume_run_ok [OF assms(1)] by (simp add: bucket_ok_def)
  moreover have "tb_tokens b \<le> tb_capacity b" "0 \<le> tb_refill_rate b"
    using assms(1) by (simp_all add: bucket_ok_def)
  ultimately show ?thesis using consume_run_budget [OF assms(2)] by linarith
qed

theorem rate_limit_bound_witness:
  "real (fst (consume_run (with_rate 2 3 0) [0, 0, 0, 0, 1])) \<le> 3 + 2 * (1 - 0)"
  using rate_limit_bound [of "with_rate 2 3 0" "[0, 0, 0, 0, 1]"]
  by (simp add: with_rate_def tb_new_def bucket_ok_def)



end
