(* ===== verification/Addressing.thy ===== *)
theory Addressing
  imports Prelude
begin

text \<open>
  CAN addressing (\<^verbatim>\<open>src/addressing.rs\<close>): the addressing negotiated for a session, the identity of
  a controller, and the \<^verbatim>\<open>Bus\<close> that owns every conversion between wire headers, controllers and
  the header strings sent with \<^verbatim>\<open>ATSH\<close>. The lemmas show that the key of every controller that was
  read from the wire names the same controller again (with the one exception the code has), and
  that a resolved header is always a well-formed header of the active protocol.
\<close>

datatype Addressing = Can11 | Can29 (tester: u8)

definition from_atdpn :: "string \<Rightarrow> Addressing option" where
  "from_atdpn n =
     (let s = trim n
      in if s = ''6'' \<or> s = ''8'' then Some Can11
         else if s = ''7'' \<or> s = ''9'' then Some (Can29 0xF1)
         else None)"

definition is_hex :: "string \<Rightarrow> bool" where
  "is_hex s \<longleftrightarrow> s \<noteq> [] \<and> list_all is_hexdigit s"

text \<open>The leading one-byte hex tokens: \<^verbatim>\<open>take(4)\<close> then \<^verbatim>\<open>filter_map(from_str_radix)\<close>.\<close>

definition head_bytes :: "string list \<Rightarrow> u8 list" where
  "head_bytes tokens = List.map_filter u8_from_hex (take 4 tokens)"

definition sniff :: "string list \<Rightarrow> Addressing option" where
  "sniff tokens =
     (case tokens of
        [] \<Rightarrow> None
      | first # _ \<Rightarrow>
          if length first = 3 \<and> starts_with first ''7'' \<and> is_hex first then Some Can11
          else (let b = head_bytes tokens
                in if length b = 4 \<and> b ! 1 = 0xDA then Some (Can29 (b ! 2)) else None))"

definition display :: "Addressing \<Rightarrow> string" where
  "display a =
     (case a of Can11 \<Rightarrow> ''ISO 15765-4 CAN 11-bit (500k)'' | Can29 _ \<Rightarrow> ''ISO 15765-4 CAN 29-bit (500k)'')"

record Controller =
  ctl_id :: u16

definition key :: "Controller \<Rightarrow> string" where
  "key c = fmt02X (unat (ctl_id c))"

record Bus =
  addressing :: Addressing

definition bus_of :: "Addressing \<Rightarrow> Bus" where
  "bus_of a = \<lparr> addressing = a \<rparr>"

definition read_header :: "Bus \<Rightarrow> string list \<Rightarrow> (Controller \<times> nat) option" where
  "read_header bus tokens =
     (case addressing bus of
        Can11 \<Rightarrow>
          (case tokens of
             [] \<Rightarrow> None
           | t # _ \<Rightarrow>
               if length t \<noteq> 3 \<or> \<not> is_hex t then None
               else case u16_from_hex t of
                      None \<Rightarrow> None
                    | Some i \<Rightarrow>
                        if 0x7E8 \<le> i \<and> i \<le> 0x7EF then Some (\<lparr> ctl_id = i - 8 \<rparr>, 1)
                        else if 0x7E0 \<le> i \<and> i \<le> 0x7E7 then Some (\<lparr> ctl_id = i \<rparr>, 1)
                        else if 0x708 \<le> i \<and> i \<le> 0x7DF then Some (\<lparr> ctl_id = i - 8 \<rparr>, 1)
                        else if 0x641 \<le> i \<and> i \<le> 0x65F then Some (\<lparr> ctl_id = i - 0x400 \<rparr>, 1)
                        else None)
      | Can29 tst \<Rightarrow>
          (let b = head_bytes tokens
           in if length b = 4 \<and> b ! 1 = 0xDA \<and> b ! 2 = tst
              then Some (\<lparr> ctl_id = ucast (b ! 3) \<rparr>, 4) else None))"

definition functional_header :: "Bus \<Rightarrow> string" where
  "functional_header bus =
     (case addressing bus of Can11 \<Rightarrow> ''7DF'' | Can29 tst \<Rightarrow> ''18DB33'' @ fmt02X (unat tst))"

definition request_header :: "Bus \<Rightarrow> Controller \<Rightarrow> string" where
  "request_header bus c =
     (case addressing bus of
        Can11 \<Rightarrow> fmt03X (unat (ctl_id c))
      | Can29 tst \<Rightarrow> ''18DA'' @ fmt02X (unat (ctl_id c)) @ fmt02X (unat tst))"

text \<open>\<^verbatim>\<open>&s[2..4]\<close> and \<^verbatim>\<open>&s[4..6]\<close> of a header of eight characters.\<close>

definition hdr_format :: "string \<Rightarrow> string" where
  "hdr_format s = take 2 (drop 2 s)"

definition from_target :: "Bus \<Rightarrow> string \<Rightarrow> Controller option" where
  "from_target bus s0 =
     (let s = to_uppercase (trim s0)
      in if s = ''7DF'' \<or> s = ''18DB33F1'' then None
         else case addressing bus of
             Can11 \<Rightarrow>
               (case u16_from_hex s of
                  None \<Rightarrow> None
                | Some i \<Rightarrow>
                    if 0x7E8 \<le> i \<and> i \<le> 0x7EF then Some \<lparr> ctl_id = i - 8 \<rparr>
                    else if 0x641 \<le> i \<and> i \<le> 0x65F then Some \<lparr> ctl_id = i - 0x400 \<rparr>
                    else if i \<le> 7 then Some \<lparr> ctl_id = 0x7E0 + i \<rparr>
                    else if i \<le> 0xFF then None
                    else if i \<le> 0x7FF then Some \<lparr> ctl_id = i \<rparr>
                    else None)
           | Can29 _ \<Rightarrow>
               if length s = 8 \<and> is_hex s then
                 (if hdr_format s = ''DA''
                  then map_option (\<lambda>aa. \<lparr> ctl_id = ucast aa \<rparr>) (u8_from_hex (take 2 (drop 4 s)))
                  else None)
               else if starts_with s ''7E'' then None
               else map_option (\<lambda>aa. \<lparr> ctl_id = ucast aa \<rparr>) (u8_from_hex s))"

definition target_header :: "Bus \<Rightarrow> string \<Rightarrow> string" where
  "target_header bus target =
     (let s = to_uppercase (trim target)
      in if (case addressing bus of Can29 _ \<Rightarrow> True | Can11 \<Rightarrow> False)
            \<and> length s = 8 \<and> is_hex s \<and> hdr_format s = ''DA'' then s
         else case from_target bus s of
             Some c \<Rightarrow> request_header bus c
           | None \<Rightarrow> functional_header bus)"

definition monitor_id :: "Bus \<Rightarrow> string \<Rightarrow> string option" where
  "monitor_id bus line =
     (let tokens = split_whitespace line;
          first = (case tokens of [] \<Rightarrow> None | t # _ \<Rightarrow> Some (to_uppercase t))
      in case addressing bus of
           Can11 \<Rightarrow> first
         | Can29 _ \<Rightarrow>
             (let four = take 4 tokens
              in if length four = 4 \<and> list_all (\<lambda>t. length t = 2 \<and> is_hex t) four
                 then Some (to_uppercase (concat four))
                 else first))"

section \<open>Keys and headers\<close>

lemma ws_upper [simp]: "is_ws (upper_char c) = is_ws c"
proof (cases "97 \<le> char_code c \<and> char_code c \<le> 122")
  case True
  then have "\<not> is_ws c" by (auto dest: ws_code)
  moreover have "char_code (upper_char c) = char_code c - 32"
    using True code_char_of [of "char_code c - 32"] by (auto simp: upper_char_def)
  with True have "\<not> is_ws (upper_char c)" by (auto dest!: ws_code)
  ultimately show ?thesis by simp
next
  case False
  then show ?thesis by (auto simp: upper_char_def)
qed

lemma trim_upper: "trim (to_uppercase s) = to_uppercase (trim s)"
proof -
  have "dropWhile is_ws (map upper_char xs) = map upper_char (dropWhile is_ws xs)" for xs
    by (induction xs) auto
  then show ?thesis by (simp add: trim_def trim_matches_def to_uppercase_def rev_map)
qed

lemma trim_ends: "trim s = [] \<or> (\<not> is_ws (hd (trim s)) \<and> \<not> is_ws (last (trim s)))"
proof (cases "trim s = []")
  case False
  let ?d = "dropWhile is_ws s"
  let ?e = "dropWhile is_ws (rev ?d)"
  from False have e: "?e \<noteq> []" by (simp add: trim_def trim_matches_def)
  then have 1: "\<not> is_ws (hd ?e)" by (rule hd_dropWhile)
  then have l: "\<not> is_ws (last (trim s))" using e by (simp add: trim_def trim_matches_def last_rev)
  from e have d: "?d \<noteq> []" by (metis dropWhile.simps(1) rev.simps(1))
  obtain pre where pre: "rev ?d = pre @ ?e" by (metis takeWhile_dropWhile_id)
  then have "?d = rev ?e @ rev pre" by (metis rev_append rev_rev_ident)
  with e have "hd (rev ?e) = hd ?d" by (metis hd_append2 rev_is_Nil_conv)
  with d have "\<not> is_ws (hd (trim s))" by (simp add: trim_def trim_matches_def hd_dropWhile)
  with l show ?thesis by simp
qed simp

lemma trim_trim [simp]: "trim (trim s) = trim s"
  by (rule trim_id [OF trim_ends])

definition normal :: "string \<Rightarrow> string" where
  "normal s = to_uppercase (trim s)"

lemma normal_normal: "to_uppercase (trim (to_uppercase (trim s))) = to_uppercase (trim s)"
  by (simp add: trim_upper)

lemma hex_trim: "is_hex s \<Longrightarrow> trim s = s"
  unfolding is_hex_def using hexdigit_not_ws
  by (intro trim_id) (auto simp: list_all_iff)

lemma is_hex_append [simp]: "is_hex s \<Longrightarrow> is_hex t \<Longrightarrow> is_hex (s @ t)"
  by (simp add: is_hex_def)

lemma is_hex_pad [simp]: "is_hex (pad0 k (hexstr n))"
  using pad0_digits [of k n] by (auto simp: is_hex_def list_all_iff pad0_def)

lemma is_hex_fmt [simp]: "is_hex (fmt02X n)" "is_hex (fmt03X n)"
  by (simp_all add: fmt02X_def fmt03X_def)

lemma upper_pad [simp]: "to_uppercase (pad0 k (hexstr n)) = pad0 k (hexstr n)"
  using pad0_digits [of k n] by (simp add: to_uppercase_def map_idI)

lemma upper_fmt03X [simp]: "to_uppercase (fmt03X n) = fmt03X n"
  by (simp add: fmt03X_def)

lemma upper_append: "to_uppercase (s @ t) = to_uppercase s @ to_uppercase t"
  by (simp add: to_uppercase_def)

lemma trim_fmt [simp]: "trim (fmt02X n) = fmt02X n" "trim (fmt03X n) = fmt03X n"
  by (simp_all add: hex_trim)

lemma u16_from_pad [simp]: "u16_from_hex (pad0 k (hexstr (unat (i :: u16)))) = Some i"
  using unsigned_less [of i, where 'a = nat] by (simp add: u16_from_hex_def)

lemma u16_from_fmt [simp]:
  "u16_from_hex (fmt02X (unat (i :: u16))) = Some i" "u16_from_hex (fmt03X (unat i)) = Some i"
  by (simp_all add: fmt02X_def fmt03X_def)

lemma fmt03X_length11: "i \<le> 0x7FF \<Longrightarrow> length (fmt03X (unat (i :: u16))) = 3"
  unfolding fmt03X_def by (rule pad0_length) (simp_all add: word_le_nat_alt)

text \<open>The request identities of an 11-bit bus: what \<^verbatim>\<open>Bus::read\<close> and \<^verbatim>\<open>Bus::from_target\<close> yield.\<close>

definition request_id11 :: "u16 \<Rightarrow> bool" where
  "request_id11 i \<longleftrightarrow>
     0x100 \<le> i \<and> i \<le> 0x7FF \<and> \<not> (0x7E8 \<le> i \<and> i \<le> 0x7EF) \<and> \<not> (0x641 \<le> i \<and> i \<le> 0x65F)"

lemma request_id11_nat:
  "request_id11 i \<longleftrightarrow>
     256 \<le> unat i \<and> unat i \<le> 2047 \<and> \<not> (2024 \<le> unat i \<and> unat i \<le> 2031) \<and> \<not> (1601 \<le> unat i \<and> unat i \<le> 1631)"
  by (simp add: request_id11_def word_le_nat_alt)

lemma shift_down:
  assumes "k \<le> unat i" and "k < 65536" and "unat i \<le> 2047"
  shows "unat ((i :: u16) - of_nat k) = unat i - k"
  using assms by (subst unat_sub) (simp_all add: word_le_nat_alt unat_of_nat)

lemma id_shift8:
  "0x7E8 \<le> i \<Longrightarrow> i \<le> 0x7EF \<Longrightarrow> request_id11 (i - 8)"
  "0x708 \<le> i \<Longrightarrow> i \<le> 0x7DF \<Longrightarrow> request_id11 (i - 8)"
  "0x641 \<le> i \<Longrightarrow> i \<le> 0x65F \<Longrightarrow> request_id11 (i - 0x400)"
  using shift_down [of 8 i] shift_down [of 1024 i]
  by (simp_all add: request_id11_nat word_le_nat_alt) arith+

lemma id_index: "i \<le> 7 \<Longrightarrow> request_id11 (0x7E0 + i)"
  by (simp add: request_id11_nat word_le_nat_alt unat_word_ariths)

lemma read_id11:
  assumes "read_header bus toks = Some (c, n)" and "addressing bus = Can11"
  shows "request_id11 (ctl_id c)"
proof -
  have "request_id11 i" if "0x7E0 \<le> i" "i \<le> 0x7E7" for i
    using that unfolding request_id11_def by unat_arith
  with assms id_shift8 show ?thesis
    by (auto simp: read_header_def split: list.splits option.splits if_splits)
qed

lemma verbatim_id:
  assumes "\<not> i \<le> 0xFF" "i \<le> 0x7FF" "\<not> (0x7E8 \<le> i \<and> i \<le> 0x7EF)" "\<not> (0x641 \<le> i \<and> i \<le> 0x65F)"
  shows "request_id11 i"
proof -
  from assms(1) have "0x100 \<le> i" by (simp add: word_le_nat_alt)
  with assms show ?thesis by (simp add: request_id11_def)
qed

lemma target_id11:
  assumes "from_target bus s = Some c" and "addressing bus = Can11"
  shows "request_id11 (ctl_id c)"
proof (cases "u16_from_hex (to_uppercase (trim s))")
  case None
  with assms show ?thesis by (simp add: from_target_def Let_def split: if_splits)
next
  case (Some i)
  with assms have "(if 0x7E8 \<le> i \<and> i \<le> 0x7EF then Some \<lparr> ctl_id = i - 8 \<rparr>
      else if 0x641 \<le> i \<and> i \<le> 0x65F then Some \<lparr> ctl_id = i - 0x400 \<rparr>
      else if i \<le> 7 then Some \<lparr> ctl_id = 0x7E0 + i \<rparr>
      else if i \<le> 0xFF then None
      else if i \<le> 0x7FF then Some \<lparr> ctl_id = i \<rparr> else None) = Some c"
    unfolding from_target_def Let_def by (simp only: option.case Addressing.case split: if_split_asm) simp_all
  with id_shift8 [of i] id_index [of i] verbatim_id [of i] show ?thesis
    by (simp split: if_split_asm) (auto)
qed


lemma key_facts [simp]:
  "trim (key c) = key c" "to_uppercase (key c) = key c" "is_hex (key c)"
  by (simp_all add: key_def fmt02X_def hex_trim)

lemma u16_key [simp]: "u16_from_hex (key c) = Some (ctl_id c)"
  by (simp add: key_def)

lemma u16_inj: "u16_from_hex s = Some i \<Longrightarrow> u16_from_hex t = Some j \<Longrightarrow> i \<noteq> j \<Longrightarrow> s \<noteq> t"
  by auto

lemma u16_of_7DF [simp]: "u16_from_hex ''7DF'' = Some 0x7DF"
  by (simp add: u16_from_hex_def from_str_radix16_def hexval_def char_code_def)

lemma u16_of_long [simp]: "u16_from_hex ''18DB33F1'' = None"
  by (simp add: u16_from_hex_def from_str_radix16_def hexval_def char_code_def)

lemma from_target_id11:
  assumes a: "addressing bus = Can11" and i: "request_id11 i" "i \<noteq> 0x7DF"
    and s: "u16_from_hex s = Some i" "trim s = s" "to_uppercase s = s"
  shows "from_target bus s = Some \<lparr> ctl_id = i \<rparr>"
proof -
  from i s(1) have "s \<noteq> ''7DF''" "s \<noteq> ''18DB33F1''" by auto
  moreover from i(1) have "\<not> i \<le> 7" "\<not> i \<le> 0xFF"
    by (auto simp: request_id11_nat word_le_nat_alt)
  ultimately show ?thesis using a i(1) s
    by (simp add: from_target_def request_id11_def)
qed

lemma read_not_functional:
  assumes "read_header bus toks = Some (c, n)" and "addressing bus = Can11"
  shows "ctl_id c \<noteq> 0x7DF"
proof -
  have "i \<noteq> 0x7DF + 8" if "0x708 \<le> i" "i \<le> 0x7DF" for i :: u16
    using that by (auto simp: word_le_nat_alt)
  then have "i - 8 \<noteq> 0x7DF" if "0x708 \<le> i" "i \<le> 0x7DF" for i :: u16
    using that by (metis diff_add_cancel)
  moreover have "i - 8 \<noteq> 0x7DF" if "0x7E8 \<le> i" for i :: u16
    using that by (auto simp: word_le_nat_alt diff_eq_eq)
  moreover have "i - 0x400 \<noteq> 0x7DF" if "i \<le> 0x65F" for i :: u16
    using that by (auto simp: word_le_nat_alt diff_eq_eq)
  ultimately show ?thesis using assms
    by (auto simp: read_header_def split: list.splits option.splits if_splits)
qed

lemma read_id29:
  "read_header bus toks = Some (c, n) \<Longrightarrow> addressing bus = Can29 t \<Longrightarrow> \<exists>b :: u8. ctl_id c = ucast b"
  by (auto simp: read_header_def Let_def split: if_splits)

lemma fmt02X_7E: "fmt02X 0x7E = ''7E''"
  by code_simp

lemma unat_u8_u16 [simp]: "unat (ucast (b :: u8) :: u16) = unat b"
  using unsigned_less [of b, where 'a = nat] by (simp add: unsigned_ucast_eq take_bit_nat_eq_self)

lemma u8_u16_eq [simp]: "(ucast (b :: u8) :: u16) = ucast (d :: u8) \<longleftrightarrow> b = d"
  by (metis unat_u8_u16 word_unat_eq_iff)

lemma from_target_key29:
  fixes b :: u8
  assumes "addressing bus = Can29 t" and "ctl_id c = ucast b"
  shows "from_target bus (key c) = (if b = 0x7E then None else Some c)"
proof -
  have k: "key c = fmt02X (unat b)" by (simp add: key_def assms(2))
  then have l: "length (key c) = 2" by simp
  then have ne: "key c \<noteq> ''7DF''" "key c \<noteq> ''18DB33F1''" by auto
  have p: "starts_with (key c) ''7E'' \<longleftrightarrow> b = 0x7E"
  proof
    assume "starts_with (key c) ''7E''"
    with l have "key c = ''7E''" by (simp add: starts_with_def)
    then have "u8_from_hex (key c) = Some 0x7E"
      by (simp add: u8_from_hex_def from_str_radix16_def hexval_def char_code_def)
    with k show "b = 0x7E" by simp
  next
    assume "b = 0x7E"
    with k fmt02X_7E show "starts_with (key c) ''7E''" by (simp add: starts_with_def)
  qed
  have "u8_from_hex (key c) = Some b" by (simp add: k)
  with assms l ne p show ?thesis
    by (simp add: from_target_def)
qed

text \<open>The key of every controller that the bus reads from a response header, given back as a
  target, names that same controller again, whatever the tokens were: on an 11-bit bus always, on
  a 29-bit bus for every ECU except \<^verbatim>\<open>7E\<close>, which the guard against 11-bit headers turns into the
  functional broadcast.\<close>

theorem read_controller_targetable:
  assumes "read_header bus toks = Some (c, n)"
  shows "from_target bus (key c) =
    (if addressing bus \<noteq> Can11 \<and> ctl_id c = 0x7E then None else Some c)"
proof (cases "addressing bus")
  case Can11
  have "from_target bus (key c) = Some \<lparr> ctl_id = ctl_id c \<rparr>"
    by (rule from_target_id11 [OF Can11 read_id11 [OF assms Can11] read_not_functional [OF assms Can11]]) simp_all
  with Can11 show ?thesis by simp
next
  case (Can29 t)
  from read_id29 [OF assms Can29] obtain b :: u8 where b: "ctl_id c = ucast b" ..
  have "(ucast b :: u16) = 0x7E \<longleftrightarrow> b = 0x7E"
    using u8_u16_eq [of b "0x7E"] by simp
  with from_target_key29 [OF Can29 b] Can29 b show ?thesis by simp
qed

theorem read_controller_targetable_witness:
  "from_target (bus_of Can11) ''738'' = Some \<lparr> ctl_id = 0x738 \<rparr>
   \<and> read_header (bus_of Can11) [''738'', ''03''] = Some (\<lparr> ctl_id = 0x730 \<rparr>, 1)
   \<and> from_target (bus_of Can11) (key \<lparr> ctl_id = 0x730 \<rparr>) = Some \<lparr> ctl_id = 0x730 \<rparr>
   \<and> read_header (bus_of (Can29 0xF1)) [''18'', ''DA'', ''F1'', ''7E''] = Some (\<lparr> ctl_id = 0x7E \<rparr>, 4)
   \<and> from_target (bus_of (Can29 0xF1)) (key \<lparr> ctl_id = 0x7E \<rparr>) = None"
proof -
  have 1: "read_header (bus_of Can11) [''738'', ''03''] = Some (\<lparr> ctl_id = 0x730 \<rparr>, 1)"
    by (simp add: read_header_def bus_of_def is_hex_def is_hexdigit_def hexval_def char_code_def
        u16_from_hex_def from_str_radix16_def)
  have 2: "read_header (bus_of (Can29 0xF1)) [''18'', ''DA'', ''F1'', ''7E''] = Some (\<lparr> ctl_id = 0x7E \<rparr>, 4)"
    by (simp add: read_header_def bus_of_def head_bytes_def map_filter_simps hexval_def char_code_def
        u8_from_hex_def from_str_radix16_def)
  have 3: "from_target (bus_of Can11) ''738'' = Some \<lparr> ctl_id = 0x738 \<rparr>"
    by (rule from_target_id11)
       (simp_all add: bus_of_def request_id11_def trim_def trim_matches_def is_ws_def to_uppercase_def
          upper_char_def u16_from_hex_def from_str_radix16_def hexval_def char_code_def)
  from 1 2 3 read_controller_targetable [OF 1] read_controller_targetable [OF 2] show ?thesis
    by (simp add: bus_of_def)
qed

definition header_length :: "Bus \<Rightarrow> nat" where
  "header_length bus = (case addressing bus of Can11 \<Rightarrow> 3 | Can29 _ \<Rightarrow> 8)"

lemma target_id29:
  "from_target bus s = Some c \<Longrightarrow> addressing bus = Can29 t \<Longrightarrow> \<exists>b :: u8. ctl_id c = ucast b"
  by (auto simp: from_target_def Let_def split: if_splits)

lemma hex_lits [simp]:
  "is_hexdigit CHR ''1''" "is_hexdigit CHR ''8''" "is_hexdigit CHR ''7''" "is_hexdigit CHR ''3''"
  "is_hexdigit CHR ''D''" "is_hexdigit CHR ''A''" "is_hexdigit CHR ''B''" "is_hexdigit CHR ''F''"
  "upper_char CHR ''1'' = CHR ''1''" "upper_char CHR ''8'' = CHR ''8''" "upper_char CHR ''7'' = CHR ''7''"
  "upper_char CHR ''3'' = CHR ''3''" "upper_char CHR ''D'' = CHR ''D''" "upper_char CHR ''A'' = CHR ''A''"
  "upper_char CHR ''B'' = CHR ''B''" "upper_char CHR ''F'' = CHR ''F''"
  by (simp_all add: is_hexdigit_def hexval_def upper_char_def char_code_def)

lemma is_hex_Cons [simp]: "is_hex (c # s) \<longleftrightarrow> is_hexdigit c \<and> (s = [] \<or> is_hex s)"
  by (auto simp: is_hex_def)

lemma upper_Cons [simp]: "to_uppercase (c # s) = upper_char c # to_uppercase s" "to_uppercase [] = []"
  by (simp_all add: to_uppercase_def)

lemma request_id11_le: "request_id11 i \<Longrightarrow> i \<le> 0x7FF"
  by (simp add: request_id11_def)

lemma request_header_shape:
  assumes "from_target bus s = Some c"
  shows "is_hex (request_header bus c) \<and> length (request_header bus c) = header_length bus
    \<and> to_uppercase (request_header bus c) = request_header bus c"
proof (cases "addressing bus")
  case Can11
  with target_id11 [OF assms] request_id11_le have "ctl_id c \<le> 0x7FF" by blast
  with Can11 show ?thesis by (simp add: request_header_def header_length_def fmt03X_length11)
next
  case (Can29 t)
  from target_id29 [OF assms Can29] obtain b :: u8 where "ctl_id c = ucast b" ..
  with Can29 show ?thesis by (simp add: request_header_def header_length_def upper_append)
qed

lemma functional_header_shape:
  "is_hex (functional_header bus)" "length (functional_header bus) = header_length bus"
  "to_uppercase (functional_header bus) = functional_header bus"
  by (simp_all add: functional_header_def header_length_def upper_append split: Addressing.split)

lemma target_header_shape:
  "is_hex (target_header bus s)" "length (target_header bus s) = header_length bus"
  "to_uppercase (target_header bus s) = target_header bus s"
  using request_header_shape functional_header_shape [of bus]
  by (auto simp: target_header_def Let_def header_length_def
      split: option.split Addressing.split_asm if_split Addressing.split)

lemma format_da [simp]: "hdr_format (CHR ''1'' # CHR ''8'' # CHR ''D'' # CHR ''A'' # s) = ''DA''"
  by (simp add: hdr_format_def)

lemma format_db [simp]: "hdr_format (CHR ''1'' # CHR ''8'' # CHR ''D'' # CHR ''B'' # s) = ''DB''"
  by (simp add: hdr_format_def)

lemma target_header_fixed29:
  assumes "addressing bus = Can29 t" and "is_hex h" "length h = 8" "to_uppercase h = h"
    and "hdr_format h = ''DA'' \<or> h = functional_header bus"
  shows "target_header bus h = h"
proof (cases "hdr_format h = ''DA''")
  case True
  with assms show ?thesis by (simp add: target_header_def hex_trim)
next
  case False
  with assms(5) have h: "h = functional_header bus" by simp
  with assms False have "from_target bus h = None"
    by (simp add: from_target_def hex_trim Let_def)
  with False assms h show ?thesis by (simp add: target_header_def hex_trim Let_def)
qed

lemma request_header_fixed11:
  assumes "addressing bus = Can11" and "from_target bus s = Some c"
  shows "target_header bus (request_header bus c) = request_header bus c"
proof -
  let ?h = "request_header bus c"
  from target_id11 [OF assms(2,1)] have i: "request_id11 (ctl_id c)" .
  have h: "is_hex ?h" "to_uppercase ?h = ?h" "trim ?h = ?h" "u16_from_hex ?h = Some (ctl_id c)"
    using assms(1) by (simp_all add: request_header_def)
  show ?thesis
  proof (cases "ctl_id c = 0x7DF")
    case True
    with assms(1) have "?h = ''7DF''"
      by (simp add: request_header_def fmt03X_def hexstr.simps hexdigit_def pad0_def) code_simp
    with h assms(1) show ?thesis
      by (simp add: target_header_def from_target_def functional_header_def)
  next
    case False
    with from_target_id11 [OF assms(1) i] h have "from_target bus ?h = Some c" by simp
    with h assms(1) show ?thesis by (simp add: target_header_def)
  qed
qed

text \<open>Whatever a stored target string is (an imported Torque header, an ECU key, junk), the
  header that is sent with \<^verbatim>\<open>ATSH\<close> is a header of the active protocol: upper-case hexadecimal of
  exactly 3 digits on an 11-bit bus and 8 on a 29-bit bus. Resolving is a normal form: a resolved
  header given as a target resolves to itself.\<close>

theorem target_header_normal_form:
  "is_hex (target_header bus s)
   \<and> length (target_header bus s) = (case addressing bus of Can11 \<Rightarrow> 3 | Can29 _ \<Rightarrow> 8)
   \<and> target_header bus (target_header bus s) = target_header bus s"
proof -
  let ?h = "target_header bus s" and ?s = "to_uppercase (trim s)"
  have "target_header bus ?h = ?h"
  proof (cases "addressing bus")
    case Can11
    show ?thesis
    proof (cases "from_target bus ?s")
      case None
      with Can11 have "?h = ''7DF''" by (simp add: target_header_def functional_header_def)
      with Can11 show ?thesis
        by (simp add: target_header_def from_target_def functional_header_def hex_trim)
    next
      case (Some c)
      with Can11 have "?h = request_header bus c" by (simp add: target_header_def)
      with request_header_fixed11 [OF Can11 Some] show ?thesis by simp
    qed
  next
    case (Can29 t)
    have "hdr_format ?h = ''DA'' \<or> ?h = functional_header bus"
      using Can29 by (auto simp: target_header_def request_header_def Let_def split: option.splits if_splits)
    with target_header_fixed29 [OF Can29] target_header_shape [of bus s] Can29 show ?thesis
      by (simp add: header_length_def)
  qed
  with target_header_shape [of bus s] show ?thesis by (simp add: header_length_def)
qed

text \<open>The addressing learned from the first response of a 29-bit vehicle reads that same
  response: when \<^verbatim>\<open>sniff\<close> reports a 29-bit bus, \<^verbatim>\<open>read\<close> on that bus finds a controller in the same
  tokens, consumes four of them, and a request to it goes to the source address of the response
  with the tester address learned from it.\<close>

theorem sniffed_bus_reads_response:
  assumes "sniff toks = Some (Can29 t)"
  shows "\<exists>c. read_header (bus_of (Can29 t)) toks = Some (c, 4)
    \<and> request_header (bus_of (Can29 t)) c =
        ''18DA'' @ fmt02X (unat (head_bytes toks ! 3)) @ fmt02X (unat (head_bytes toks ! 2))"
proof -
  from assms have "length (head_bytes toks) = 4" "head_bytes toks ! 1 = 0xDA" "head_bytes toks ! 2 = t"
    by (auto simp: sniff_def Let_def split: list.splits if_splits)
  then show ?thesis by (auto simp: read_header_def bus_of_def request_header_def)
qed

theorem sniffed_bus_reads_response_witness:
  "\<exists>c. read_header (bus_of (Can29 0xF1)) [''18'', ''DA'', ''F1'', ''10'', ''03''] = Some (c, 4)"
proof -
  have "sniff [''18'', ''DA'', ''F1'', ''10'', ''03''] = Some (Can29 0xF1)"
    by (simp add: sniff_def head_bytes_def map_filter_simps hexval_def char_code_def
        u8_from_hex_def from_str_radix16_def)
  from sniffed_bus_reads_response [OF this] show ?thesis by blast
qed

end
