(* ===== verification/LinkStatus.thy ===== *)
theory LinkStatus
  imports Prelude
begin

text \<open>
  What the wire said: the table of adapter error codes with their severities
  (\<^verbatim>\<open>src/error.rs\<close>) and the one classification of adapter lines and whole replies
  (\<^verbatim>\<open>classify_line\<close>, \<^verbatim>\<open>classify_text\<close> of \<^verbatim>\<open>src/link/mod.rs\<close>). The lemmas relate the two:
  every code that the classification can produce is in the table or is the catch-all
  \<^verbatim>\<open>ERROR\<close>, and a reply is classified by its first line that is not noise.
\<close>

section \<open>Error codes\<close>

record AdapterErrorDef =
  err_code :: string
  severity :: string

definition transient :: "string \<Rightarrow> AdapterErrorDef" where
  "transient c = \<lparr> err_code = c, severity = ''transient'' \<rparr>"

definition fatal :: "string \<Rightarrow> AdapterErrorDef" where
  "fatal c = \<lparr> err_code = c, severity = ''fatal'' \<rparr>"

definition ADAPTER_ERRORS :: "AdapterErrorDef list" where
  "ADAPTER_ERRORS =
     map transient
       [''TIMEOUT'', ''NO_DATA'', ''CAN_ERROR'', ''DATA_ERROR'', ''BUS_BUSY'', ''BUS_ERROR'',
        ''BUFFER_FULL'', ''STOPPED'', ''RX_ERROR'', ''FC_RX_TIMEOUT'', ''NO_PERIPHERAL'',
        ''ENCODING_ERROR'', ''WRITE_FAILED'', ''EMPTY_COMMAND'']
     @ map fatal
       [''NOT_CONNECTED'', ''UNABLE_TO_CONNECT'', ''LV_RESET'', ''ACT_ALERT'', ''LP_ALERT'',
        ''UART_RX_OVERFLOW'', ''OUT_OF_MEMORY'', ''DISCONNECTED'']"

definition error_severity :: "string \<Rightarrow> string" where
  "error_severity e =
     (case find (\<lambda>d. err_code d = e) ADAPTER_ERRORS of Some d \<Rightarrow> severity d | None \<Rightarrow> ''fatal'')"

definition map_adapter_response_to_error :: "string \<Rightarrow> string option" where
  "map_adapter_response_to_error response =
     (let t = to_uppercase (trim response) in
      if t = ''NO DATA'' then Some ''NO_DATA''
      else if t = ''CAN ERROR'' then Some ''CAN_ERROR''
      else if t = ''DATA ERROR'' \<or> t = ''<DATA ERROR'' then Some ''DATA_ERROR''
      else if t = ''<RX ERROR'' then Some ''RX_ERROR''
      else if t = ''BUS BUSY'' then Some ''BUS_BUSY''
      else if t = ''BUS ERROR'' then Some ''BUS_ERROR''
      else if t = ''BUFFER FULL'' then Some ''BUFFER_FULL''
      else if t = ''STOPPED'' then Some ''STOPPED''
      else if t = ''FC RX TIMEOUT'' then Some ''FC_RX_TIMEOUT''
      else if t = ''UNABLE TO CONNECT'' then Some ''UNABLE_TO_CONNECT''
      else if t = ''LV RESET'' then Some ''LV_RESET''
      else if t = ''ACT ALERT'' then Some ''ACT_ALERT''
      else if t = ''LP ALERT'' then Some ''LP_ALERT''
      else if t = ''UART RX OVERFLOW'' then Some ''UART_RX_OVERFLOW''
      else if t = ''OUT OF MEMORY'' then Some ''OUT_OF_MEMORY''
      else None)"

section \<open>Line and reply classification\<close>

datatype LinkStatus = StOk | Chatter | NoData | Stopped | Timeout | AdapterError string

definition is_no_response :: "LinkStatus \<Rightarrow> bool" where
  "is_no_response s \<longleftrightarrow> s \<noteq> StOk \<and> s \<noteq> Chatter"

definition classify_line :: "string \<Rightarrow> LinkStatus option" where
  "classify_line line =
     (let t = trim line in
      if t = [] then Some NoData
      else if starts_with t ''SEARCHING'' then Some NoData
      else if t = ''OK'' \<or> t = ''?'' \<or> starts_with t ''ELM327'' \<or> starts_with t ''STN'' then Some Chatter
      else if t = ''NO DATA'' then Some NoData
      else if t = ''STOPPED'' then Some Stopped
      else case map_adapter_response_to_error t of
          Some c \<Rightarrow> Some (AdapterError c)
        | None \<Rightarrow>
            if t = ''ERROR'' \<or> t = ''FB ERROR'' \<or> t = ''BUS INIT: ...ERROR'' then Some (AdapterError ''ERROR'')
            else None)"

text \<open>The lines of a reply, carriage returns counted as line ends, trimmed.\<close>

definition reply_lines :: "string \<Rightarrow> string list" where
  "reply_lines raw = map trim (lines (cr_to_lf raw))"

definition is_noise :: "string \<Rightarrow> bool" where
  "is_noise t \<longleftrightarrow> t = [] \<or> starts_with t ''SEARCHING''"

definition classify_text :: "string option \<Rightarrow> LinkStatus" where
  "classify_text raw =
     (case raw of
        None \<Rightarrow> Timeout
      | Some r \<Rightarrow>
          (case find (\<lambda>t. \<not> is_noise t) (reply_lines r) of
             None \<Rightarrow> NoData
           | Some t \<Rightarrow> (case classify_line t of None \<Rightarrow> StOk | Some s \<Rightarrow> s)))"

section \<open>Properties\<close>

lemma map_codes:
  "map_adapter_response_to_error r = Some c \<Longrightarrow> c \<in> set (map err_code ADAPTER_ERRORS)"
  by (auto simp: map_adapter_response_to_error_def ADAPTER_ERRORS_def Let_def fatal_def transient_def
      split: if_splits)

lemma severity_known: "error_severity e = ''fatal'' \<or> error_severity e = ''transient''"
  by (auto simp: error_severity_def ADAPTER_ERRORS_def fatal_def transient_def
      dest!: find_Some_iff [THEN iffD1] split: option.splits)

text \<open>Every adapter error that a line can be classified as carries a code of the published error
  table, so that the host's severity lookup knows it, or the catch-all \<^verbatim>\<open>ERROR\<close>, which no table
  entry matches and which therefore counts as fatal.
\<close>

theorem classified_code_has_severity:
  assumes "classify_line l = Some (AdapterError c)"
  shows "(\<exists>d \<in> set ADAPTER_ERRORS. err_code d = c \<and> error_severity c = severity d)
    \<or> (c = ''ERROR'' \<and> error_severity c = ''fatal'' \<and> c \<notin> set (map err_code ADAPTER_ERRORS))"
proof (cases "c = ''ERROR''")
  case True
  then show ?thesis by (simp add: error_severity_def ADAPTER_ERRORS_def fatal_def transient_def)
next
  case False
  with assms have "map_adapter_response_to_error (trim l) = Some c"
    by (auto simp: classify_line_def Let_def split: if_splits option.splits)
  then have "c \<in> set (map err_code ADAPTER_ERRORS)" by (rule map_codes)
  then have "find (\<lambda>d. err_code d = c) ADAPTER_ERRORS \<noteq> None"
    by (auto simp: find_None_iff)
  then obtain d where d: "find (\<lambda>d. err_code d = c) ADAPTER_ERRORS = Some d" by blast
  then have "d \<in> set ADAPTER_ERRORS" "err_code d = c"
    by (auto simp: find_Some_iff)
  with d show ?thesis by (auto simp: error_severity_def)
qed

theorem classified_code_has_severity_witness:
  "classify_line ''CAN ERROR'' = Some (AdapterError ''CAN_ERROR'')
   \<and> error_severity ''CAN_ERROR'' = ''transient''
   \<and> (\<exists>d \<in> set ADAPTER_ERRORS. err_code d = ''CAN_ERROR'' \<and> error_severity ''CAN_ERROR'' = severity d)"
proof -
  have 1: "classify_line ''CAN ERROR'' = Some (AdapterError ''CAN_ERROR'')"
    by code_simp
  have "error_severity ''CAN_ERROR'' = ''transient''" by code_simp
  with 1 classified_code_has_severity [OF 1] show ?thesis by simp
qed

text \<open>A reply is classified by its first line that is neither blank nor \<^verbatim>\<open>SEARCHING...\<close>: noise in
  front of it and anything behind it change nothing, and a reply that is only noise is \<^verbatim>\<open>NoData\<close>.
\<close>

theorem first_real_line_decides:
  assumes "reply_lines r = pre @ t # post" and "\<forall>n \<in> set pre. is_noise n" and "\<not> is_noise t"
  shows "classify_text (Some r) = (case classify_line t of None \<Rightarrow> StOk | Some s \<Rightarrow> s)
    \<and> (\<forall>q. reply_lines q = pre \<longrightarrow> classify_text (Some q) = NoData)"
proof -
  have "find (\<lambda>x. \<not> is_noise x) (pre @ t # post) = Some t"
    using assms(2,3) by (induction pre) auto
  moreover have "find (\<lambda>x. \<not> is_noise x) pre = None"
    using assms(2) by (simp add: find_None_iff)
  ultimately show ?thesis using assms(1) by (simp add: classify_text_def)
qed

theorem first_real_line_decides_witness:
  "classify_text (Some ''SEARCHING...\<newline>\<newline>STOPPED\<newline>41 0C'') = Stopped"
proof -
  have 1: "reply_lines ''SEARCHING...\<newline>\<newline>STOPPED\<newline>41 0C''
      = [''SEARCHING...'', ''''] @ ''STOPPED'' # [''41 0C'']" by code_simp
  have 2: "\<forall>n \<in> set [''SEARCHING...'', '''']. is_noise n" by code_simp
  have 3: "\<not> is_noise ''STOPPED''" by code_simp
  have "classify_line ''STOPPED'' = Some Stopped" by code_simp
  with first_real_line_decides [OF 1 2 3] show ?thesis by simp
qed

end
