(* ===== verification/ResponseParser.thy ===== *)
theory ResponseParser
  imports Addressing LinkStatus "HOL-Library.AList" "HOL-Library.Char_ord" "HOL-Library.List_Lexorder"
begin

text \<open>
  The response parser (\<^verbatim>\<open>src/response_parser.rs\<close>): cleaning of adapter text, ISO-TP assembly per
  controller, the single-line controller split, the typed parse of payloads, the echo-driven
  splitter of multi-PID replies, and the selection of one controller.

  A \<^verbatim>\<open>HashMap\<close> is an association list with distinct keys that is only read through \<open>map_of\<close> and
  written through \<open>AList.update\<close>. Where the code iterates over a hash map, the order in which the
  keys come is a parameter \<open>ord\<close> of the definition (Rust fixes no order); the lemmas ask only that
  it permutes the keys.
\<close>

section \<open>Data\<close>

record Payload =
  controller :: string
  bytes :: "u8 list"

record ControllerResponse =
  raw_hex :: string
  data_bytes :: "u8 list"
  controller_id :: string
  is_valid :: bool

datatype ParseType = PidResponse | TroubleCodes | MonitorStatus | PidSupport | Mode06

record ParsedResponse =
  parse_type :: ParseType
  all_controllers :: "(string \<times> ControllerResponse) list"

definition DEFAULT_CONTROLLER :: string where
  "DEFAULT_CONTROLLER = ''DEFAULT''"

section \<open>Text\<close>

definition is_non_data_response :: "string \<Rightarrow> bool" where
  "is_non_data_response d =
     (let t = trim d in if starts_with t ''SEARCHING'' then False else classify_line t \<noteq> None)"

definition sanitize_response :: "string \<Rightarrow> string \<Rightarrow> string" where
  "sanitize_response d command =
     join ''\<newline>''
       (filter (\<lambda>l. l \<noteq> [] \<and> \<not> starts_with l ''SEARCHING'' \<and> \<not> eq_ignore_case l command)
         (map trim (lines (cr_to_lf d))))"

definition is_at_command :: "string \<Rightarrow> bool" where
  "is_at_command command =
     (let upper = to_uppercase (trim command) in starts_with upper ''AT'' \<or> starts_with upper ''ST'')"

definition parse_command :: "string \<Rightarrow> string \<times> string" where
  "parse_command command =
     (let cmd = to_uppercase (trim command)
      in if length cmd < 2 then (cmd, []) else (take 2 cmd, drop 2 cmd))"

definition support_pid :: "string \<Rightarrow> bool" where
  "support_pid pid \<longleftrightarrow> pid = ''00'' \<or> pid = ''20'' \<or> pid = ''40'' \<or> pid = ''60''"

definition echo_byte_count :: "string \<Rightarrow> string \<Rightarrow> nat" where
  "echo_byte_count mode pid =
     (if mode = ''03'' \<or> mode = ''07'' \<or> mode = ''0A'' then 1
      else if mode = ''04'' then 1
      else if mode = ''06'' then (if support_pid pid then 2 else 1)
      else if mode = ''22'' then (if length pid = 4 then 3 else 1)
      else if pid = [] then 1 else 1 + (length pid + 1) div 2)"

definition detect_parse_type :: "string \<Rightarrow> ParseType option" where
  "detect_parse_type command =
     (if is_at_command command then None
      else let (mode, pid) = parse_command command in
        if mode = ''03'' \<or> mode = ''07'' \<or> mode = ''0A'' then Some TroubleCodes
        else if mode = ''01'' \<and> pid = ''01'' then Some MonitorStatus
        else if mode = ''01'' \<and> support_pid pid then Some PidSupport
        else if mode = ''06'' \<and> support_pid pid then Some PidSupport
        else if mode = ''09'' \<and> pid = ''00'' then Some PidSupport
        else if mode = ''06'' then Some Mode06
        else Some PidResponse)"

section \<open>Framing\<close>

text \<open>The single-frame PCI byte: dropped, the payload cut to the length it declares.\<close>

definition strip_pci_byte :: "string list \<Rightarrow> string list" where
  "strip_pci_byte tokens =
     (case tokens of
        [] \<Rightarrow> []
      | t # ts \<Rightarrow>
          (case u8_from_hex t of
             None \<Rightarrow> tokens
           | Some b \<Rightarrow>
               if drop_bit 4 b = 0 \<and> b > 0
               then (if length ts > unat b \<and> length ts \<le> 7 then take (unat b) ts else ts)
               else tokens))"

definition header_len :: "Bus \<Rightarrow> string list \<Rightarrow> nat" where
  "header_len bus tokens = (case read_header bus tokens of None \<Rightarrow> 0 | Some (_, n) \<Rightarrow> n)"

definition line_controller :: "Bus \<Rightarrow> string list \<Rightarrow> string" where
  "line_controller bus tokens =
     (case read_header bus tokens of None \<Rightarrow> DEFAULT_CONTROLLER | Some (c, _) \<Rightarrow> key c)"

text \<open>\<^verbatim>\<open>entry(k).or_default().push(l)\<close>.\<close>

definition push_entry :: "'k \<Rightarrow> 'l \<Rightarrow> ('k \<times> 'l list) list \<Rightarrow> ('k \<times> 'l list) list" where
  "push_entry k l m = AList.update k ((case map_of m k of None \<Rightarrow> [] | Some ls \<Rightarrow> ls) @ [l]) m"

definition group_lines :: "Bus \<Rightarrow> string list \<Rightarrow> (string \<times> string list) list" where
  "group_lines bus ls =
     foldl (\<lambda>m l. let tokens = split_whitespace l
                  in if tokens = [] then m else push_entry (line_controller bus tokens) l m) [] ls"

definition single_frame :: "string list \<Rightarrow> nat \<Rightarrow> string list" where
  "single_frame tokens data_start = strip_pci_byte (map to_uppercase (drop data_start tokens))"

definition is_first_frame :: "string \<Rightarrow> bool" where
  "is_first_frame t \<longleftrightarrow>
     length t = 2 \<and> (case u8_from_hex t of None \<Rightarrow> False | Some b \<Rightarrow> drop_bit 4 b = 1)"

definition unwrap_byte :: "u8 option \<Rightarrow> u8" where
  "unwrap_byte x = (case x of None \<Rightarrow> 0 | Some b \<Rightarrow> b)"

text \<open>The tokens one consecutive frame appends.\<close>

definition consecutive_data :: "Bus \<Rightarrow> string \<Rightarrow> string list" where
  "consecutive_data bus l =
     (let tokens = split_whitespace l; d_start = header_len bus tokens
      in if d_start \<ge> length tokens then []
         else (case u8_from_hex (tokens ! d_start) of
                 Some b \<Rightarrow> if drop_bit 4 b \<noteq> 2 then [] else map to_uppercase (drop (d_start + 1) tokens)
               | None \<Rightarrow> map to_uppercase (drop (d_start + 1) tokens)))"

text \<open>What the lines of one controller come to; the slice of a first frame may panic.\<close>

datatype Assembled = Single "string list" | Multi "string list" | Short | Truncated

definition assemble_controller :: "Bus \<Rightarrow> string list \<Rightarrow> Assembled" where
  "assemble_controller bus ctrl_lines =
     (let first_tokens = split_whitespace (hd ctrl_lines);
          data_start = header_len bus first_tokens
      in if length ctrl_lines < 2 \<or> data_start \<ge> length first_tokens
         then Single (single_frame first_tokens data_start)
         else if \<not> is_first_frame (first_tokens ! data_start)
         then Single (single_frame first_tokens data_start)
         else
           let pci_byte = unwrap_byte (u8_from_hex (first_tokens ! data_start));
               len_byte = unwrap_byte (u8_from_hex
                 (if data_start + 1 < length first_tokens then first_tokens ! (data_start + 1) else ''0''));
               total_len = 256 * unat (pci_byte AND 0x0F) + unat len_byte
           in if data_start + 2 > length first_tokens then Truncated
              else
                let all = map to_uppercase (drop (data_start + 2) first_tokens)
                            @ concat (map (consecutive_data bus) (tl ctrl_lines));
                    assembled = (if total_len > 0 \<and> length all > total_len then take total_len all else all)
                in if total_len > 0 \<and> length assembled < total_len then Short else Multi assembled)"

fun is_single :: "Assembled \<Rightarrow> bool" where
  "is_single (Single _) = True"
| "is_single _ = False"

fun multi_part :: "string \<times> Assembled \<Rightarrow> (string \<times> string list) option" where
  "multi_part (k, Multi ts) = Some (k, ts)"
| "multi_part _ = None"

fun single_part :: "string \<times> Assembled \<Rightarrow> (string \<times> string list) option" where
  "single_part (k, Single ts) = Some (k, ts)"
| "single_part _ = None"

type_synonym key_order = "string list \<Rightarrow> string list"

definition assemble_iso_tp ::
  "key_order \<Rightarrow> string list \<Rightarrow> Bus \<Rightarrow> ('e, (string \<times> string list) list option) outcome" where
  "assemble_iso_tp ord ls bus =
     (if length ls < 2 then Ok None
      else
        let groups = group_lines bus ls;
            parts = map (\<lambda>k. (k, assemble_controller bus (the (map_of groups k)))) (ord (map fst groups))
        in if \<exists>p \<in> set parts. snd p = Truncated then Panic
           else if \<exists>p \<in> set parts. \<not> is_single (snd p)
           then Ok (Some (List.map_filter multi_part parts @ List.map_filter single_part parts))
           else Ok None)"

lemma read_header_consumes:
  "read_header bus tokens = Some (c, n) \<Longrightarrow> 0 < n \<and> n \<le> length tokens"
proof -
  assume r: "read_header bus tokens = Some (c, n)"
  have "length (head_bytes tokens) \<le> length (take 4 tokens)"
    unfolding head_bytes_def List.map_filter_def using length_filter_le by (metis length_map)
  with r show ?thesis
    by (auto simp: read_header_def Let_def split: Addressing.split_asm list.splits option.splits if_splits)
qed

definition flush_controller ::
  "string \<Rightarrow> string list \<Rightarrow> (string \<times> string list) list \<Rightarrow> (string \<times> string list) list" where
  "flush_controller ctrl cur results =
     (if cur \<noteq> [] then results @ [(ctrl, strip_pci_byte cur)] else results)"

function split_loop ::
  "Bus \<Rightarrow> string list \<Rightarrow> string \<Rightarrow> string list \<Rightarrow> (string \<times> string list) list
     \<Rightarrow> (string \<times> string list) list" where
  "split_loop bus [] ctrl cur results = flush_controller ctrl cur results"
| "split_loop bus (t # ts) ctrl cur results =
     (case read_header bus (t # ts) of
        Some (c, consumed) \<Rightarrow>
          split_loop bus (drop consumed (t # ts)) (key c) [] (flush_controller ctrl cur results)
      | None \<Rightarrow> split_loop bus ts ctrl (cur @ [to_uppercase t]) results)"
  by pat_completeness auto
termination
  by (relation "measure (\<lambda>(_, ts, _). length ts)") (auto dest: read_header_consumes)

definition split_controllers :: "string list \<Rightarrow> Bus \<Rightarrow> (string \<times> string list) list" where
  "split_controllers tokens bus = split_loop bus tokens DEFAULT_CONTROLLER [] []"

definition frame_controllers ::
  "key_order \<Rightarrow> string \<Rightarrow> Bus \<Rightarrow> ('e, (string \<times> string list) list) outcome" where
  "frame_controllers ord clean bus =
     and_then (assemble_iso_tp ord (lines clean) bus)
       (\<lambda>a. case a of Some assembled \<Rightarrow> Ok assembled
                    | None \<Rightarrow> Ok (split_controllers (split_whitespace clean) bus))"

definition text_frames ::
  "key_order \<Rightarrow> string \<Rightarrow> string \<Rightarrow> Bus \<Rightarrow> ('e, (string \<times> string list) list option) outcome" where
  "text_frames ord command d bus =
     (if is_non_data_response d then Ok None
      else let clean = sanitize_response d command
           in if clean = [] \<or> is_non_data_response clean then Ok None
              else and_then (frame_controllers ord clean bus)
                     (\<lambda>framed. Ok (if framed = [] then None else Some framed)))"

definition text_payloads ::
  "key_order \<Rightarrow> string \<Rightarrow> string \<Rightarrow> Bus \<Rightarrow> ('e, Payload list) outcome" where
  "text_payloads ord command d bus =
     and_then (text_frames ord command d bus)
       (\<lambda>f. Ok (case f of
                  None \<Rightarrow> []
                | Some framed \<Rightarrow>
                    map (\<lambda>(c, tokens). \<lparr> controller = c, bytes = List.map_filter u8_from_hex tokens \<rparr>) framed))"

section \<open>The typed parse\<close>

definition hex_join :: "u8 list \<Rightarrow> string" where
  "hex_join bs = join '' '' (map (\<lambda>b. fmt02X (unat b)) bs)"

definition insert_payload ::
  "nat \<Rightarrow> (string \<times> ControllerResponse) list \<Rightarrow> Payload \<Rightarrow> (string \<times> ControllerResponse) list" where
  "insert_payload skip m p =
     (let d = drop skip (bytes p)
      in AList.update (controller p)
           \<lparr> raw_hex = hex_join (bytes p), data_bytes = d, controller_id = controller p, is_valid = (d \<noteq> []) \<rparr> m)"

definition from_payloads :: "string \<Rightarrow> Payload list \<Rightarrow> ParsedResponse option" where
  "from_payloads command payloads =
     (if is_at_command command \<or> payloads = [] then None
      else case detect_parse_type command of
          None \<Rightarrow> None
        | Some pt \<Rightarrow>
            let (mode, pid) = parse_command command
            in Some \<lparr> parse_type = pt,
                 all_controllers = foldl (insert_payload (echo_byte_count mode pid)) [] payloads \<rparr>)"

definition parse_response_with_bus ::
  "key_order \<Rightarrow> string \<Rightarrow> string \<Rightarrow> Bus \<Rightarrow> ('e, ParsedResponse option) outcome" where
  "parse_response_with_bus ord command d bus =
     (if is_at_command command then Ok None
      else and_then (text_payloads ord command d bus) (\<lambda>ps. Ok (from_payloads command ps)))"

definition parse_response ::
  "key_order \<Rightarrow> string \<Rightarrow> string \<Rightarrow> ('e, ParsedResponse option) outcome" where
  "parse_response ord command d = parse_response_with_bus ord command d (bus_of Can11)"

fun find_map :: "('a \<Rightarrow> 'b option) \<Rightarrow> 'a list \<Rightarrow> 'b option" where
  "find_map f [] = None"
| "find_map f (x # xs) = (case f x of None \<Rightarrow> find_map f xs | Some y \<Rightarrow> Some y)"

definition parse_response_sniffed ::
  "key_order \<Rightarrow> string \<Rightarrow> string \<Rightarrow> ('e, ParsedResponse option) outcome" where
  "parse_response_sniffed ord command d =
     (let ls = filter (\<lambda>l. l \<noteq> [] \<and> \<not> starts_with l ''SEARCHING'') (map trim (lines (cr_to_lf d)));
          a = (case find_map (\<lambda>l. sniff (split_whitespace l)) ls of None \<Rightarrow> Can11 | Some a \<Rightarrow> a)
      in parse_response_with_bus ord command d (bus_of a))"

section \<open>The multi-PID splitter\<close>

datatype ChunkSplitError = NonData | Validation string

datatype chunk_mode = Mode01 | Mode22

definition mode_text :: "chunk_mode \<Rightarrow> string" where
  "mode_text m = (case m of Mode01 \<Rightarrow> ''01'' | Mode22 \<Rightarrow> ''22'')"

definition mode_reply :: "chunk_mode \<Rightarrow> u8" where
  "mode_reply m = (case m of Mode01 \<Rightarrow> 0x41 | Mode22 \<Rightarrow> 0x62)"

definition echo_width :: "chunk_mode \<Rightarrow> nat" where
  "echo_width m = (case m of Mode01 \<Rightarrow> 1 | Mode22 \<Rightarrow> 2)"

text \<open>\<^verbatim>\<open>split_at(2)\<close> panics on a string of less than two bytes.\<close>

definition chunk_mode_of :: "(string \<times> u8) list \<Rightarrow> (ChunkSplitError, chunk_mode) outcome" where
  "chunk_mode_of members =
     (case members of
        [] \<Rightarrow> Err (Validation ''no members'')
      | (p, _) # _ \<Rightarrow>
          if length p < 2 then Panic
          else if take 2 p = ''01'' then Ok Mode01
          else if take 2 p = ''22'' then Ok Mode22
          else Err (Validation (''unchunkable mode '' @ take 2 p)))"

definition pid_suffix :: "chunk_mode \<Rightarrow> string \<Rightarrow> string" where
  "pid_suffix m pid = (case strip_prefix pid (mode_text m) of None \<Rightarrow> pid | Some s \<Rightarrow> s)"

type_synonym echo_map = "u16 \<Rightarrow> (string \<times> u8) option"

definition add_echo :: "chunk_mode \<Rightarrow> echo_map \<Rightarrow> string \<times> u8 \<Rightarrow> (ChunkSplitError, echo_map) outcome" where
  "add_echo m by_echo pl =
     (let (pid, len) = pl in
      if \<not> starts_with (to_uppercase pid) (mode_text m) then Err (Validation (''mixed-mode member '' @ pid))
      else case u16_from_hex (pid_suffix m pid) of
          None \<Rightarrow> Err (Validation (''bad member pid '' @ pid))
        | Some echo \<Rightarrow> Ok (by_echo(echo \<mapsto> (to_uppercase pid, len))))"

definition echo_bytes :: "chunk_mode \<Rightarrow> u16 \<Rightarrow> u8 list" where
  "echo_bytes m echo = (case m of Mode01 \<Rightarrow> [ucast echo] | Mode22 \<Rightarrow> [ucast (drop_bit 8 echo), ucast echo])"

definition read_echo :: "chunk_mode \<Rightarrow> u8 list \<Rightarrow> u16" where
  "read_echo m rest =
     (case m of Mode01 \<Rightarrow> ucast (rest ! 0)
      | Mode22 \<Rightarrow> push_bit 8 (ucast (rest ! 0)) OR ucast (rest ! 1))"

type_synonym split_out = "(string \<times> ParsedResponse) list"

text \<open>\<^verbatim>\<open>out.entry(pid).or_insert_with(..).all_controllers.insert(ctrl, ..)\<close>.\<close>

definition add_member :: "string \<Rightarrow> string \<Rightarrow> ControllerResponse \<Rightarrow> split_out \<Rightarrow> split_out" where
  "add_member pid ctrl r out =
     (let old = (case map_of out pid of
                   None \<Rightarrow> \<lparr> parse_type = PidResponse, all_controllers = [] \<rparr> | Some p \<Rightarrow> p)
      in AList.update pid (old \<lparr> all_controllers := AList.update ctrl r (all_controllers old) \<rparr>) out)"

text \<open>The scan of one payload; \<open>rest\<close> is the slice \<^verbatim>\<open>bytes[i..]\<close>.\<close>

function scan_members ::
  "chunk_mode \<Rightarrow> echo_map \<Rightarrow> string \<Rightarrow> u8 list \<Rightarrow> u16 list \<Rightarrow> split_out
     \<Rightarrow> (ChunkSplitError, split_out) outcome" where
  "scan_members m by_echo ctrl rest seen out =
     (if rest = [] then Ok out
      else if rest ! 0 = 0 \<and> (m = Mode22 \<or> by_echo (ucast (rest ! 0)) = None) then Ok out
      else if echo_width m > length rest then Err (Validation (''truncated echo from '' @ ctrl))
      else
        let echo = read_echo m rest in
        case by_echo echo of
          Some (pid, len) \<Rightarrow>
            if echo \<in> set seen
            then Err (Validation (''duplicate echo '' @ fmt02X (unat echo) @ '' from '' @ ctrl))
            else if echo_width m + unat len > length rest
            then Err (Validation (''truncated data for '' @ pid @ '' from '' @ ctrl))
            else
              let d = take (unat len) (drop (echo_width m) rest) in
              scan_members m by_echo ctrl (drop (echo_width m + unat len) rest) (seen @ [echo])
                (add_member pid ctrl
                   \<lparr> raw_hex = hex_join (mode_reply m # echo_bytes m echo @ d),
                     data_bytes = d, controller_id = ctrl, is_valid = True \<rparr> out)
        | None \<Rightarrow>
            if echo = 0 then Ok out
            else Err (Validation (''unknown echo '' @ fmt02X (unat echo) @ '' from '' @ ctrl)))"
  by pat_completeness auto
termination
  by (relation "measure (\<lambda>(_, _, _, rest, _). length rest)")
     (auto simp: echo_width_def split: chunk_mode.splits)

declare scan_members.simps [simp del]

definition split_payload ::
  "chunk_mode \<Rightarrow> echo_map \<Rightarrow> split_out \<Rightarrow> Payload \<Rightarrow> (ChunkSplitError, split_out) outcome" where
  "split_payload m by_echo out p =
     (case bytes p of
        b # rest \<Rightarrow>
          if b \<noteq> mode_reply m
          then Err (Validation (''controller '' @ controller p @ '' payload is not a ''
                      @ fmt02X (unat (mode_reply m)) @ '' response''))
          else scan_members m by_echo (controller p) rest [] out
      | [] \<Rightarrow> Err (Validation (''controller '' @ controller p @ '' payload is not a ''
                      @ fmt02X (unat (mode_reply m)) @ '' response'')))"

definition split_multi_pid ::
  "(string \<times> u8) list \<Rightarrow> Payload list \<Rightarrow> (ChunkSplitError, split_out) outcome" where
  "split_multi_pid members payloads =
     and_then (chunk_mode_of members) (\<lambda>m.
       if payloads = [] then Err NonData
       else and_then (try_fold (add_echo m) Map.empty members) (\<lambda>by_echo.
              try_fold (split_payload m by_echo) [] payloads))"

fun hex_payload :: "string \<times> string list \<Rightarrow> (ChunkSplitError, Payload) outcome" where
  "hex_payload (c, tokens) =
     (if \<exists>t \<in> set tokens. u8_from_hex t = None then Err (Validation (''non-hex token from '' @ c))
      else Ok \<lparr> controller = c, bytes = List.map_filter u8_from_hex tokens \<rparr>)"

definition split_multi_pid_response ::
  "key_order \<Rightarrow> (string \<times> u8) list \<Rightarrow> string \<Rightarrow> Bus \<Rightarrow> (ChunkSplitError, split_out) outcome" where
  "split_multi_pid_response ord members d bus =
     and_then (chunk_mode_of members) (\<lambda>m.
       and_then (text_frames ord (mode_text m @ concat (map (\<lambda>(p, _). pid_suffix m p) members)) d bus) (\<lambda>f.
         case f of
           None \<Rightarrow> Err NonData
         | Some framed \<Rightarrow>
             and_then (try_fold (\<lambda>ps ct. and_then (hex_payload ct) (\<lambda>p. Ok (ps @ [p]))) [] framed)
               (split_multi_pid members)))"

definition chunk_probe_capable :: "Payload list \<Rightarrow> bool" where
  "chunk_probe_capable payloads =
     (case split_multi_pid [(''010C'', 2), (''010D'', 1)] payloads of
        Ok out \<Rightarrow> map_of out ''010C'' \<noteq> None \<and> map_of out ''010D'' \<noteq> None
      | _ \<Rightarrow> False)"

section \<open>Controller selection\<close>

definition valid_entry :: "ParsedResponse \<Rightarrow> string \<Rightarrow> ControllerResponse option" where
  "valid_entry r k =
     (case map_of (all_controllers r) k of None \<Rightarrow> None | Some c \<Rightarrow> if is_valid c then Some c else None)"

definition select_controller ::
  "ParsedResponse \<Rightarrow> string option \<Rightarrow> string list \<Rightarrow> ControllerResponse option" where
  "select_controller r preferred priority =
     (case (case preferred of None \<Rightarrow> None | Some p \<Rightarrow> valid_entry r p) of
        Some c \<Rightarrow> Some c
      | None \<Rightarrow>
          (case find_map (valid_entry r) priority of
             Some c \<Rightarrow> Some c
           | None \<Rightarrow>
               (let vs = filter is_valid (map snd (all_controllers r))
                in if vs = [] then None else Some (arg_min_list controller_id vs))))"

section \<open>What vehicles send\<close>

text \<open>
  The specification side: the header tokens an adapter prints for a controller, the ISO-TP
  segmentation of a payload (ISO 15765-2: single frame up to 7 bytes, else a first frame with a
  12-bit length and 6 bytes, then consecutive frames of 7), and the text of a reply. \<open>pad\<close> is
  whatever the controller fills its last CAN frame with (nothing, zeros or stale bytes).
\<close>

definition hex_token :: "u8 \<Rightarrow> string" where
  "hex_token b = fmt02X (unat b)"

definition wire_header :: "Bus \<Rightarrow> Controller \<Rightarrow> string list" where
  "wire_header bus c =
     (case addressing bus of
        Can11 \<Rightarrow> [fmt03X (unat (ctl_id c) + 8)]
      | Can29 t \<Rightarrow> [''18'', ''DA'', fmt02X (unat t), fmt02X (unat (ctl_id c))])"

definition answers :: "Bus \<Rightarrow> Controller \<Rightarrow> bool" where
  "answers bus c =
     (case addressing bus of Can11 \<Rightarrow> 0x7E0 \<le> ctl_id c \<and> ctl_id c \<le> 0x7E7 | Can29 _ \<Rightarrow> ctl_id c \<le> 0xFF)"

definition frame_tokens :: "Bus \<Rightarrow> Controller \<times> u8 list \<Rightarrow> string list" where
  "frame_tokens bus f = wire_header bus (fst f) @ map hex_token (snd f)"

definition frame_text :: "Bus \<Rightarrow> Controller \<times> u8 list \<Rightarrow> string" where
  "frame_text bus f = join '' '' (frame_tokens bus f)"

definition reply_text :: "Bus \<Rightarrow> (Controller \<times> u8 list) list \<Rightarrow> string" where
  "reply_text bus fs = concat (map (\<lambda>f. frame_text bus f @ [CHR 0x0D]) fs)"

definition fill :: "u8 list \<Rightarrow> nat \<Rightarrow> u8 list \<Rightarrow> u8 list" where
  "fill pad k bs = bs @ take (k - length bs) pad"

function consecutive :: "u8 list \<Rightarrow> nat \<Rightarrow> u8 list \<Rightarrow> u8 list list" where
  "consecutive pad n [] = []"
| "consecutive pad n (b # bs) =
     ((0x20 OR of_nat (n mod 16)) # fill pad 7 (take 7 (b # bs))) # consecutive pad (Suc n) (drop 7 (b # bs))"
  by pat_completeness auto
termination by (relation "measure (\<lambda>(_, _, bs). length bs)") auto

definition segment :: "u8 list \<Rightarrow> u8 list \<Rightarrow> u8 list list" where
  "segment pad p =
     (if length p \<le> 7 then [of_nat (length p) # fill pad 7 p]
      else ((0x10 OR of_nat (length p div 256)) # of_nat (length p mod 256) # take 6 p)
             # consecutive pad 1 (drop 6 p))"

section \<open>Grouping by controller\<close>

lemma map_of_push: "map_of (push_entry k l m) = (map_of m)(k \<mapsto> (case map_of m k of None \<Rightarrow> [] | Some ls \<Rightarrow> ls) @ [l])"
  by (simp add: push_entry_def update_conv' fun_upd_def)

lemma group_lines_snoc:
  "group_lines bus (ls @ [l]) =
     (let tokens = split_whitespace l
      in if tokens = [] then group_lines bus ls
         else push_entry (line_controller bus tokens) l (group_lines bus ls))"
  by (simp add: group_lines_def Let_def)

definition lines_of :: "Bus \<Rightarrow> string \<Rightarrow> string list \<Rightarrow> string list" where
  "lines_of bus k ls = filter (\<lambda>l. split_whitespace l \<noteq> [] \<and> line_controller bus (split_whitespace l) = k) ls"

lemma map_of_group:
  "map_of (group_lines bus ls) k = (if lines_of bus k ls = [] then None else Some (lines_of bus k ls))"
proof (induction ls rule: rev_induct)
  case Nil
  then show ?case by (simp add: group_lines_def lines_of_def)
next
  case (snoc l ls)
  then show ?case
    by (auto simp: group_lines_snoc Let_def map_of_push lines_of_def)
qed

lemma distinct_group: "distinct (map fst (group_lines bus ls))"
proof (induction ls rule: rev_induct)
  case Nil
  then show ?case by (simp add: group_lines_def)
next
  case (snoc l ls)
  then show ?case
    by (simp add: group_lines_snoc Let_def push_entry_def distinct_update)
qed

section \<open>Tokens of a frame\<close>

lemma hex_token_facts [simp]:
  "hex_token b \<noteq> []" "length (hex_token b) = 2" "to_uppercase (hex_token b) = hex_token b"
  "u8_from_hex (hex_token b) = Some b"
  by (simp_all add: hex_token_def)

lemma hex_token_inj [simp]: "hex_token a = hex_token b \<longleftrightarrow> a = b"
  by (metis hex_token_facts(4) option.inject)

lemma hex_map_id [simp]: "List.map_filter u8_from_hex (map hex_token bs) = bs"
  by (induction bs) (simp_all add: List.map_filter_simps)

lemma upper_hex_map [simp]: "map to_uppercase (map hex_token bs) = map hex_token bs"
  by (simp add: comp_def)

lemma ctl_id_shift: "answers bus c \<Longrightarrow> addressing bus = Can11 \<Longrightarrow>
    unat (ctl_id c) + 8 = unat (ctl_id c + 8) \<and> 0x7E8 \<le> ctl_id c + 8 \<and> ctl_id c + 8 \<le> 0x7EF"
  by (simp add: answers_def word_le_nat_alt unat_word_ariths)

lemma read_wire_header:
  assumes "answers bus c"
  shows "read_header bus (wire_header bus c @ rest) = Some (c, length (wire_header bus c))"
proof (cases "addressing bus")
  case Can11
  from ctl_id_shift [OF assms Can11] have s: "unat (ctl_id c) + 8 = unat (ctl_id c + 8)"
    "0x7E8 \<le> ctl_id c + 8" "ctl_id c + 8 \<le> 0x7EF" by auto
  have le: "ctl_id c + 8 \<le> 0x7FF" by (rule order_trans [OF s(3)]) simp
  with Can11 s show ?thesis
    using fmt03X_length11 [OF le] by (simp add: read_header_def wire_header_def)
next
  case (Can29 t)
  obtain i :: u8 where i: "ctl_id c = ucast i"
  proof
    show "ctl_id c = ucast (ucast (ctl_id c) :: u8)"
      using assms Can29 unsigned_less [of "ctl_id c", where 'a = nat]
      by (simp add: answers_def word_unat_eq_iff word_le_nat_alt unsigned_ucast_eq unsigned_take_bit_eq take_bit_nat_eq_self)
  qed
  have "u8_from_hex ''18'' = Some 0x18" "u8_from_hex ''DA'' = Some 0xDA"
    by (simp_all add: u8_from_hex_def from_str_radix16_def hexval_def char_code_def)
  then have "head_bytes (wire_header bus c @ rest) = [0x18, 0xDA, t, i]"
    using Can29 i by (simp add: head_bytes_def wire_header_def List.map_filter_simps numeral_eq_Suc)
  with Can29 i show ?thesis by (simp add: read_header_def wire_header_def)
qed

lemma wire_header_tokens: "w \<in> set (wire_header bus c) \<Longrightarrow> w \<noteq> [] \<and> (\<forall>x \<in> set w. is_hexdigit x)"
  using pad0_digits [of 3 "unat (ctl_id c) + 8"]
  by (auto simp: wire_header_def fmt03X_def pad0_def dest: fmt02X_digits split: Addressing.split_asm)

lemma frame_tokens_ok:
  "w \<in> set (frame_tokens bus f) \<Longrightarrow> w \<noteq> [] \<and> (\<forall>x \<in> set w. is_hexdigit x)"
  using wire_header_tokens [of w bus "fst f"] by (auto simp: frame_tokens_def hex_token_def dest: fmt02X_digits)

lemma split_frame_text: "split_whitespace (frame_text bus f) = frame_tokens bus f"
  unfolding frame_text_def
  by (rule split_whitespace_join) (auto dest: frame_tokens_ok hexdigit_not_ws)

lemma frame_tokens_nonempty [simp]: "frame_tokens bus f \<noteq> []"
  by (simp add: frame_tokens_def wire_header_def split: Addressing.split)

lemma line_controller_frame: "answers bus (fst f) \<Longrightarrow> line_controller bus (frame_tokens bus f) = key (fst f)"
  by (simp add: line_controller_def frame_tokens_def read_wire_header)

lemma header_len_frame: "answers bus (fst f) \<Longrightarrow> header_len bus (frame_tokens bus f) = length (wire_header bus (fst f))"
  by (simp add: header_len_def frame_tokens_def read_wire_header)

lemma key_inj: "key c = key d \<longleftrightarrow> c = (d :: Controller)"
  by (metis (full_types) Controller.equality old.unit.exhaust option.inject u16_key)

lemma lines_of_frames:
  assumes "\<forall>f \<in> set fs. answers bus (fst f)"
  shows "lines_of bus (key c) (map (frame_text bus) fs) = map (frame_text bus) (filter (\<lambda>f. fst f = c) fs)"
  using assms
  by (induction fs) (auto simp: lines_of_def split_frame_text line_controller_frame key_inj)

section \<open>Assembly of one controller\<close>

lemma u8_numeral_less: "n < 256 \<Longrightarrow> unat (of_nat n :: u8) = n"
  by (simp add: unat_of_nat)

lemma strip_single:
  assumes "0 < length p" and "length p \<le> 7"
  shows "strip_pci_byte (map hex_token (of_nat (length p) # fill pad 7 p)) = map hex_token p"
proof -
  have u: "unat (of_nat (length p) :: u8) = length p" using assms(2) by (intro u8_numeral_less) simp
  have n0: "(of_nat (length p) :: u8) > 0"
    using assms u by (simp add: word_less_nat_alt)
  have "drop_bit 4 (of_nat (length p) :: u8) = 0"
    using assms(2) u by (simp add: word_unat_eq_iff drop_bit_eq_div unat_div_distrib)
  with assms u n0 show ?thesis
    by (auto simp: strip_pci_byte_def fill_def)
qed

lemma first_byte_facts:
  assumes "n < 16"
  shows "drop_bit 4 ((0x10 OR of_nat n) :: u8) = 1" "unat (((0x10 OR of_nat n) :: u8) AND 0x0F) = n"
    "drop_bit 4 ((0x20 OR of_nat n) :: u8) = 2"
proof -
  have "\<forall>n \<in> set [0..<16]. drop_bit 4 ((0x10 OR of_nat n) :: u8) = 1
      \<and> unat (((0x10 OR of_nat n) :: u8) AND 0x0F) = n \<and> drop_bit 4 ((0x20 OR of_nat n) :: u8) = 2"
    by code_simp
  with assms show "drop_bit 4 ((0x10 OR of_nat n) :: u8) = 1" "unat (((0x10 OR of_nat n) :: u8) AND 0x0F) = n"
    "drop_bit 4 ((0x20 OR of_nat n) :: u8) = 2"
    by simp_all
qed

lemma consecutive_prefix: "\<exists>t. concat (map tl (consecutive pad n bs)) = bs @ t"
proof (induction pad n bs rule: consecutive.induct)
  case (1 pad n)
  then show ?case by simp
next
  case (2 pad n b bs)
  show ?case
  proof (cases "length (b # bs) \<le> 7")
    case True
    then show ?thesis by (simp add: fill_def)
  next
    case False
    from "2.IH" obtain t where "concat (map tl (consecutive pad (Suc n) (drop 7 (b # bs)))) = drop 7 (b # bs) @ t" ..
    with False show ?thesis
      by (simp add: fill_def) (metis append_assoc append_take_drop_id)
  qed
qed

lemma consecutive_head:
  "g \<in> set (consecutive pad n bs) \<Longrightarrow> \<exists>k d. g = (0x20 OR of_nat (k mod 16)) # d"
  by (induction pad n bs rule: consecutive.induct) auto

lemma consecutive_data_frame:
  assumes "answers bus c" and "g = (0x20 OR of_nat (k mod 16)) # d"
  shows "consecutive_data bus (frame_text bus (c, g)) = map hex_token d"
proof -
  have "drop_bit 4 ((0x20 OR of_nat (k mod 16)) :: u8) = 2" by (rule first_byte_facts) simp
  with assms show ?thesis
    using header_len_frame [of bus "(c, g)"]
    by (simp add: consecutive_data_def split_frame_text) (simp add: frame_tokens_def nth_append)
qed

lemma consecutive_data_all:
  assumes "answers bus c" and "\<forall>g \<in> set gs. \<exists>k d. g = (0x20 OR of_nat (k mod 16)) # d"
  shows "concat (map (consecutive_data bus) (map (\<lambda>g. frame_text bus (c, g)) gs)) = map hex_token (concat (map tl gs))"
  using assms(2)
proof (induction gs)
  case (Cons g gs)
  then obtain k d where "g = (0x20 OR of_nat (k mod 16)) # d" by auto
  with Cons consecutive_data_frame [OF assms(1)] show ?case by simp
qed simp

lemma assemble_single:
  assumes "answers bus c" and "0 < length p" and "length p \<le> 7"
  shows "assemble_controller bus (map (\<lambda>g. frame_text bus (c, g)) (segment pad p)) = Single (map hex_token p)"
proof -
  have "single_frame (frame_tokens bus (c, g)) (length (wire_header bus c)) = strip_pci_byte (map hex_token g)" for g
    by (simp add: single_frame_def frame_tokens_def comp_def)
  with assms strip_single [of p pad] header_len_frame [of bus "(c, of_nat (length p) # fill pad 7 p)"] show ?thesis
    by (simp add: assemble_controller_def segment_def split_frame_text)
qed

lemma assemble_general:
  assumes toks: "split_whitespace l = hdr @ t1 # t2 # ds"
    and hl: "header_len bus (hdr @ t1 # t2 # ds) = length hdr"
    and ff: "is_first_frame t1" and "ls \<noteq> []"
    and n: "256 * unat (unwrap_byte (u8_from_hex t1) AND 0x0F) + unat (unwrap_byte (u8_from_hex t2)) = n" and "0 < n"
    and got: "map to_uppercase ds @ concat (map (consecutive_data bus) ls) = got"
  shows "assemble_controller bus (l # ls) = (if length got < n then Short else Multi (take n got))"
proof -
  have nth: "(hdr @ t1 # t2 # ds) ! length hdr = t1" "(hdr @ t1 # t2 # ds) ! (length hdr + 1) = t2"
    "drop (length hdr + 2) (hdr @ t1 # t2 # ds) = ds"
    by (simp_all add: nth_append)
  have "\<not> (length (l # ls) < 2 \<or> length hdr \<ge> length (hdr @ t1 # t2 # ds))" "length hdr + 1 < length (hdr @ t1 # t2 # ds)"
    "\<not> length hdr + 2 > length (hdr @ t1 # t2 # ds)"
    using assms(4) by (auto simp: Suc_le_eq)
  then have "assemble_controller bus (l # ls) =
    (let assembled = (if n > 0 \<and> length got > n then take n got else got)
     in if n > 0 \<and> length assembled < n then Short else Multi assembled)"
    unfolding assemble_controller_def Let_def list.sel toks hl nth
    using ff by (simp only: if_False if_True n got not_True_eq_False)
  with assms(6) show ?thesis by (simp add: Let_def)
qed

text \<open>The first frame of a long payload with any consecutive frames behind it.\<close>

lemma assemble_multi:
  assumes "answers bus c" and "7 < length p" and "length p \<le> 4095" and "gs \<noteq> []"
    and "\<forall>g \<in> set gs. \<exists>k d. g = (0x20 OR of_nat (k mod 16)) # d"
  shows "assemble_controller bus (map (\<lambda>g. frame_text bus (c, g)) (hd (segment pad p) # gs)) =
    (let got = take 6 p @ concat (map tl gs)
     in if length got < length p then Short else Multi (map hex_token (take (length p) got)))"
proof -
  let ?hi = "(0x10 OR of_nat (length p div 256)) :: u8"
  let ?lo = "of_nat (length p mod 256) :: u8"
  let ?ff = "?hi # ?lo # take 6 p"
  let ?got = "map hex_token (take 6 p @ concat (map tl gs))"
  have hi: "length p div 256 < 16" using assms(3) by simp
  have "assemble_controller bus (frame_text bus (c, ?ff) # map (\<lambda>g. frame_text bus (c, g)) gs) =
    (if length ?got < length p then Short else Multi (take (length p) ?got))"
  proof (rule assemble_general)
    show "split_whitespace (frame_text bus (c, ?ff)) =
        wire_header bus c @ hex_token ?hi # hex_token ?lo # map hex_token (take 6 p)"
      by (simp only: split_frame_text frame_tokens_def fst_conv snd_conv list.map)
    show "header_len bus (wire_header bus c @ hex_token ?hi # hex_token ?lo # map hex_token (take 6 p))
        = length (wire_header bus c)"
      using header_len_frame [of bus "(c, ?ff)"] assms(1) by (simp only: frame_tokens_def fst_conv snd_conv list.map)
    show "is_first_frame (hex_token ?hi)"
      using first_byte_facts(1) [OF hi] by (simp only: is_first_frame_def hex_token_facts option.case)
    have "unat (?hi AND 0x0F) = length p div 256" by (rule first_byte_facts(2) [OF hi])
    moreover have "unat ?lo = length p mod 256" by (rule u8_numeral_less) simp
    ultimately show "256 * unat (unwrap_byte (u8_from_hex (hex_token ?hi)) AND 0x0F)
        + unat (unwrap_byte (u8_from_hex (hex_token ?lo))) = length p"
      by (simp only: unwrap_byte_def hex_token_facts option.case) simp
    show "map to_uppercase (map hex_token (take 6 p))
        @ concat (map (consecutive_data bus) (map (\<lambda>g. frame_text bus (c, g)) gs)) = ?got"
      by (simp only: consecutive_data_all [OF assms(1,5)] upper_hex_map map_append)
  qed (use assms in auto)
  moreover have "hd (segment pad p) = ?ff" using assms(2) by (simp add: segment_def)
  ultimately show ?thesis by (simp only: Let_def take_map length_map list.map)
qed

lemma segment_multi:
  "7 < length p \<Longrightarrow> segment pad p = hd (segment pad p) # consecutive pad 1 (drop 6 p)"
  by (simp add: segment_def)

lemma consecutive_nonempty: "bs \<noteq> [] \<Longrightarrow> consecutive pad n bs \<noteq> []"
  by (cases bs) auto

lemma assemble_segments:
  assumes "answers bus c" and "0 < length p" and "length p \<le> 4095"
  shows "assemble_controller bus (map (\<lambda>g. frame_text bus (c, g)) (segment pad p)) =
    (if length p \<le> 7 then Single (map hex_token p) else Multi (map hex_token p))"
proof (cases "length p \<le> 7")
  case True
  with assms assemble_single show ?thesis by simp
next
  case False
  obtain t where t: "concat (map tl (consecutive pad 1 (drop 6 p))) = drop 6 p @ t"
    using consecutive_prefix by blast
  have g: "take 6 p @ concat (map tl (consecutive pad 1 (drop 6 p))) = p @ t"
    by (simp only: t append_assoc [symmetric] append_take_drop_id)
  from False have ne: "consecutive pad 1 (drop 6 p) \<noteq> []" by (intro consecutive_nonempty) simp
  have "\<forall>g \<in> set (consecutive pad 1 (drop 6 p)). \<exists>k d. g = (0x20 OR of_nat (k mod 16)) # d"
    using consecutive_head by blast
  from assemble_multi [OF assms(1) _ assms(3) ne this, of pad] False
  have "assemble_controller bus (map (\<lambda>g. frame_text bus (c, g)) (hd (segment pad p) # consecutive pad 1 (drop 6 p)))
    = Multi (map hex_token p)"
    by (simp only: g Let_def) simp
  moreover from False have "segment pad p = hd (segment pad p) # consecutive pad 1 (drop 6 p)"
    by (intro segment_multi) simp
  ultimately show ?thesis using False by metis
qed

section \<open>Replies as text\<close>

lemma frame_text_hexes: "x \<in> set (frame_text bus f) \<Longrightarrow> is_hexdigit x \<or> x = CHR '' ''"
proof -
  have "x \<in> set (join '' '' ws) \<Longrightarrow> \<forall>w \<in> set ws. \<forall>y \<in> set w. is_hexdigit y \<Longrightarrow> is_hexdigit x \<or> x = CHR '' ''" for ws
    by (induction ws rule: induct_list012) auto
  then show "x \<in> set (frame_text bus f) \<Longrightarrow> is_hexdigit x \<or> x = CHR '' ''"
    unfolding frame_text_def using frame_tokens_ok by blast
qed

lemma join_nonempty: "ws \<noteq> [] \<Longrightarrow> \<forall>w \<in> set ws. w \<noteq> [] \<Longrightarrow> join s ws \<noteq> [] \<and> hd (join s ws) = hd (hd ws) \<and> last (join s ws) = last (last ws)"
  by (induction ws rule: induct_list012) auto

lemma frame_text_ends:
  "frame_text bus f \<noteq> []" "is_hexdigit (hd (frame_text bus f))" "is_hexdigit (last (frame_text bus f))"
proof -
  have ok: "\<forall>w \<in> set (frame_tokens bus f). w \<noteq> []" using frame_tokens_ok by blast
  from join_nonempty [OF frame_tokens_nonempty ok, where s = "'' ''"]
  have j: "frame_text bus f \<noteq> []" "hd (frame_text bus f) = hd (hd (frame_tokens bus f))"
    "last (frame_text bus f) = last (last (frame_tokens bus f))" by (simp_all add: frame_text_def)
  have h: "hd (frame_tokens bus f) \<in> set (frame_tokens bus f)" and l: "last (frame_tokens bus f) \<in> set (frame_tokens bus f)"
    by simp_all
  from j(1) show "frame_text bus f \<noteq> []" .
  from j(2) frame_tokens_ok [OF h] show "is_hexdigit (hd (frame_text bus f))" by (simp add: list.set_sel(1))
  from j(3) frame_tokens_ok [OF l] show "is_hexdigit (last (frame_text bus f))" by simp
qed

lemma trim_frame_text [simp]: "trim (frame_text bus f) = frame_text bus f"
  using frame_text_ends hexdigit_not_ws by (intro trim_id) blast

lemma frame_text_plain: "x \<in> set (frame_text bus f) \<Longrightarrow> x \<noteq> CHR 0x0D \<and> x \<noteq> CHR 0x0A"
  by (auto dest!: frame_text_hexes simp: is_hexdigit_def hexval_def char_code_def)

lemma split_lines:
  assumes "\<forall>t \<in> set ts. \<forall>x \<in> set t. x \<noteq> CHR 0x0A"
  shows "split_on (\<lambda>c. c = CHR 0x0A) (concat (map (\<lambda>t. t @ [CHR 0x0A]) ts)) = ts @ [[]]"
  using assms
proof (induction ts)
  case (Cons t ts)
  then show ?case using split_on_sep [of t "\<lambda>c. c = CHR 0x0A" "CHR 0x0A"] by simp
qed simp

lemma lf_reply: "cr_to_lf (reply_text bus fs) = concat (map (\<lambda>t. t @ [CHR 0x0A]) (map (frame_text bus) fs))"
proof (induction fs)
  case Nil
  then show ?case by (simp add: cr_to_lf_def reply_text_def)
next
  case (Cons f fs)
  have "map (\<lambda>c. if c = CHR 0x0D then CHR 0x0A else c) (frame_text bus f) = frame_text bus f"
    by (rule map_idI) (auto dest: frame_text_plain)
  with Cons show ?case by (simp add: cr_to_lf_def reply_text_def)
qed

lemma strip_cr_frame [simp]: "strip_cr (frame_text bus f) = frame_text bus f"
proof -
  have "last (frame_text bus f) \<noteq> CHR 0x0D"
    by (metis frame_text_ends(1) frame_text_plain last_in_set)
  then show ?thesis by (simp add: strip_cr_def)
qed

lemma lines_reply: "map trim (lines (cr_to_lf (reply_text bus fs))) = map (frame_text bus) fs"
proof -
  have "\<forall>t \<in> set (map (frame_text bus) fs). \<forall>x \<in> set t. x \<noteq> CHR 0x0A" using frame_text_plain by auto
  from split_lines [OF this] show ?thesis
    by (simp add: lf_reply lines_def comp_def)
qed

lemma lines_join:
  assumes "fs \<noteq> []"
  shows "lines (join ''\<newline>'' (map (frame_text bus) fs)) = map (frame_text bus) fs"
proof -
  let ?ts = "map (frame_text bus) fs"
  have nl: "(''\<newline>'' :: string) = [CHR 0x0A]" by simp
  have "\<forall>w \<in> set ?ts. \<forall>x \<in> set w. \<not> x = CHR 0x0A" using frame_text_plain by auto
  then have "split_on (\<lambda>c. c = CHR 0x0A) (join [CHR 0x0A] ?ts) = ?ts"
    using assms by (intro split_on_join) auto
  moreover have "last ?ts \<noteq> []" using assms frame_text_ends(1) by (simp add: last_map)
  ultimately show ?thesis using nl by (simp add: lines_def comp_def)
qed

text \<open>Text that begins with a decimal digit is data.\<close>

lemma digit_not_status:
  assumes "trim d \<noteq> []" and "48 \<le> char_code (hd (trim d))" and "char_code (hd (trim d)) \<le> 57"
  shows "\<not> is_non_data_response d"
proof -
  obtain c cs where t: "trim d = c # cs" using assms(1) by (cases "trim d") auto
  with assms have c: "48 \<le> char_code c" "char_code c \<le> 57" by auto
  have cc: "char_code CHR ''S'' = 83" "char_code CHR ''O'' = 79" "char_code CHR ''E'' = 69" "char_code CHR ''N'' = 78"
    "char_code CHR ''F'' = 70" "char_code CHR ''B'' = 66" "char_code CHR ''?'' = 63" "char_code CHR ''C'' = 67"
    "char_code CHR ''D'' = 68" "char_code CHR ''<'' = 60" "char_code CHR ''U'' = 85" "char_code CHR ''L'' = 76"
    "char_code CHR ''A'' = 65"
    by (simp_all add: char_code_def)
  then have ne: "c \<noteq> CHR ''S''" "c \<noteq> CHR ''O''" "c \<noteq> CHR ''E''" "c \<noteq> CHR ''N''" "c \<noteq> CHR ''F''" "c \<noteq> CHR ''B''"
    "c \<noteq> CHR ''?''" "c \<noteq> CHR ''C''" "c \<noteq> CHR ''D''" "c \<noteq> CHR ''<''" "c \<noteq> CHR ''U''" "c \<noteq> CHR ''L''" "c \<noteq> CHR ''A''"
    using c by auto
  have u: "upper_char c = c" using c by (simp add: upper_char_def)
  have tt: "trim (c # cs) = c # cs" using t trim_trim [of d] by simp
  have "classify_line (c # cs) = None"
    by (simp add: classify_line_def tt Let_def starts_with_def map_adapter_response_to_error_def u ne)
  then show ?thesis
    by (simp add: is_non_data_response_def t Let_def starts_with_def ne)
qed

lemma frame_text_digit:
  assumes "answers bus (fst f)"
  shows "48 \<le> char_code (hd (frame_text bus f)) \<and> char_code (hd (frame_text bus f)) \<le> 57"
proof -
  have ok: "\<forall>w \<in> set (frame_tokens bus f). w \<noteq> []" using frame_tokens_ok by blast
  from join_nonempty [OF frame_tokens_nonempty ok, where s = "'' ''"]
  have h: "hd (frame_text bus f) = hd (hd (wire_header bus (fst f)))"
    by (simp add: frame_text_def frame_tokens_def wire_header_def split: Addressing.split)
  show ?thesis
  proof (cases "addressing bus")
    case Can11
    from ctl_id_shift [OF assms Can11] have "2024 \<le> unat (ctl_id (fst f)) + 8" "unat (ctl_id (fst f)) + 8 \<le> 2031"
      by (simp_all add: word_le_nat_alt)
    then obtain n where n: "unat (ctl_id (fst f)) + 8 = n" "112 \<le> n div 16" "n div 16 \<le> 126" "n div 256 = 7" by auto
    then have "hexstr n = [hexdigit 7, hexdigit (n div 16 mod 16), hexdigit (n mod 16)]"
      by (simp add: hexstr.simps [of n] hexstr.simps [of "n div 16"] hexstr.simps [of 7] div_mult2_eq [symmetric])
    with n Can11 h show ?thesis
      by (simp add: wire_header_def fmt03X_def pad0_def code_hexdigit)
  next
    case (Can29 t)
    with h show ?thesis by (simp add: wire_header_def char_code_def)
  qed
qed

lemma trim_reply_text:
  assumes "fs \<noteq> []"
  shows "trim (reply_text bus fs) \<noteq> [] \<and> hd (trim (reply_text bus fs)) = hd (frame_text bus (hd fs))"
proof -
  obtain f gs where fs: "fs = f # gs" using assms by (cases fs) auto
  obtain x xs where x: "frame_text bus f = x # xs" using frame_text_ends(1) [of bus f] by (cases "frame_text bus f") auto
  with frame_text_ends(2) [of bus f] have nx: "\<not> is_ws x" using hexdigit_not_ws by simp
  have r: "reply_text bus fs = x # (xs @ CHR 0x0D # reply_text bus gs)"
    by (simp add: fs x reply_text_def)
  have d: "dropWhile is_ws (reply_text bus fs) = reply_text bus fs" using nx by (simp add: r)
  have "dropWhile is_ws (ys @ [x]) = dropWhile is_ws ys @ [x] \<or> dropWhile is_ws (ys @ [x]) = [x]" for ys
    using nx by (induction ys) auto
  then obtain zs where "dropWhile is_ws (rev (xs @ CHR 0x0D # reply_text bus gs) @ [x]) = zs @ [x]"
    by (metis append_Nil)
  then have "dropWhile is_ws (rev (reply_text bus fs)) = zs @ [x]" by (simp add: r)
  then have "trim (reply_text bus fs) = x # rev zs"
    by (simp add: trim_def trim_matches_def d)
  then show ?thesis by (simp add: fs x)
qed

section \<open>Delivery of ISO-TP replies\<close>

text \<open>
  The frames on the wire (in arrival order) are an interleaving of the segmented replies of some
  controllers, each controller's frames in order.
\<close>

definition interleaves ::
  "Bus \<Rightarrow> (Controller \<Rightarrow> u8 list) \<Rightarrow> (Controller \<times> u8 list) list \<Rightarrow> (Controller \<times> u8 list) list \<Rightarrow> bool" where
  "interleaves bus pad frames replies \<longleftrightarrow>
     distinct (map fst replies)
     \<and> (\<forall>r \<in> set replies. answers bus (fst r) \<and> 0 < length (snd r) \<and> length (snd r) \<le> 4095
          \<and> map snd (filter (\<lambda>f. fst f = fst r) frames) = segment (pad (fst r)) (snd r))
     \<and> (\<forall>f \<in> set frames. fst f \<in> fst ` set replies)"

definition payload_of :: "Controller \<times> u8 list \<Rightarrow> Payload" where
  "payload_of r = \<lparr> controller = key (fst r), bytes = snd r \<rparr>"

lemma mset_map_filter: "mset xs = mset ys \<Longrightarrow> mset (List.map_filter f xs) = mset (List.map_filter f ys)"
  by (simp add: List.map_filter_def)

lemma map_filter_append [simp]: "List.map_filter f (xs @ ys) = List.map_filter f xs @ List.map_filter f ys"
  by (simp add: List.map_filter_def)

lemma filter_as_map:
  "\<forall>f \<in> set fs. fst f = c \<Longrightarrow> fs = map (\<lambda>g. (c, g)) (map snd fs)"
  by (induction fs) auto

lemma group_answers:
  assumes "interleaves bus pad frames replies" and "(c, p) \<in> set replies"
  shows "map_of (group_lines bus (map (frame_text bus) frames)) (key c)
      = Some (map (\<lambda>g. frame_text bus (c, g)) (segment (pad c) p))"
proof -
  have ans: "\<forall>f \<in> set frames. answers bus (fst f)" using assms(1) by (fastforce simp: interleaves_def)
  from assms have seg: "map snd (filter (\<lambda>f. fst f = c) frames) = segment (pad c) p"
    by (fastforce simp: interleaves_def)
  then have fl: "filter (\<lambda>f. fst f = c) frames = map (\<lambda>g. (c, g)) (segment (pad c) p)"
    using filter_as_map [of "filter (\<lambda>f. fst f = c) frames" c] by simp
  have "segment (pad c) p \<noteq> []" by (simp add: segment_def)
  then show ?thesis
    by (simp add: map_of_group lines_of_frames [OF ans] fl comp_def)
qed

lemma group_keys:
  assumes "interleaves bus pad frames replies"
  shows "mset (map fst (group_lines bus (map (frame_text bus) frames))) = mset (map (key \<circ> fst) replies)"
proof -
  let ?g = "group_lines bus (map (frame_text bus) frames)"
  have ans: "\<forall>f \<in> set frames. answers bus (fst f)" using assms by (fastforce simp: interleaves_def)
  have "inj_on key A" for A :: "Controller set" by (auto simp: inj_on_def key_inj)
  then have d: "distinct (map (key \<circ> fst) replies)"
    using assms by (simp add: interleaves_def distinct_map comp_inj_on)
  have "set (map fst ?g) = set (map (key \<circ> fst) replies)"
  proof (intro set_eqI iffI)
    fix k assume "k \<in> set (map fst ?g)"
    then have "map_of ?g k \<noteq> None" by (simp add: map_of_eq_None_iff)
    then have "lines_of bus k (map (frame_text bus) frames) \<noteq> []" by (auto simp: map_of_group split: if_splits)
    then obtain f where "f \<in> set frames" "line_controller bus (split_whitespace (frame_text bus f)) = k"
      by (auto simp: lines_of_def filter_empty_conv)
    with ans have f: "f \<in> set frames" "key (fst f) = k" by (auto simp: split_frame_text line_controller_frame)
    with assms have "fst f \<in> fst ` set replies" by (simp add: interleaves_def)
    then obtain r where "r \<in> set replies" "fst r = fst f" by (metis imageE)
    with f(2) have "r \<in> set replies" "k = (key \<circ> fst) r" by simp_all
    then show "k \<in> set (map (key \<circ> fst) replies)" unfolding set_map by (rule rev_image_eqI)
  next
    fix k assume "k \<in> set (map (key \<circ> fst) replies)"
    then obtain c p where "(c, p) \<in> set replies" "k = key c" by auto
    with group_answers [OF assms] have "map_of ?g k \<noteq> None" by simp
    then show "k \<in> set (map fst ?g)" by (simp add: map_of_eq_None_iff)
  qed
  with d distinct_group show ?thesis by (metis set_eq_iff_mset_eq_distinct)
qed

lemma assembled_parts:
  assumes "interleaves bus pad frames replies" and "\<forall>ks. mset (ord ks) = mset ks"
  shows "mset (map (\<lambda>k. (k, assemble_controller bus (the (map_of (group_lines bus (map (frame_text bus) frames)) k))))
             (ord (map fst (group_lines bus (map (frame_text bus) frames)))))
       = mset (map (\<lambda>(c, p). (key c, if length p \<le> 7 then Single (map hex_token p) else Multi (map hex_token p))) replies)"
    (is "mset (map ?f (ord (map fst ?g))) = mset (map ?h replies)")
proof -
  have "mset (map ?f (ord (map fst ?g))) = mset (map ?f (map (key \<circ> fst) replies))"
    unfolding mset_map assms(2) [THEN spec] using group_keys [OF assms(1)] by (simp only: mset_map)
  moreover have "?f (key c) = ?h (c, p)" if "(c, p) \<in> set replies" for c p
  proof -
    from assms(1) that have "answers bus c" "0 < length p" "length p \<le> 4095" by (auto simp: interleaves_def)
    then show ?thesis using assemble_segments [of bus c p "pad c"]
      by (simp add: group_answers [OF assms(1) that])
  qed
  then have "map ?f (map (key \<circ> fst) replies) = map ?h replies"
    unfolding map_map by (intro map_cong refl) (auto simp only: comp_apply split_paired_all fst_conv)
  ultimately show ?thesis by (rule trans [OF _ arg_cong [of _ _ mset]])
qed

lemma results_of_parts:
  "mset (List.map_filter multi_part (map (\<lambda>(c, p). (key c, if length p \<le> 7 then Single (map hex_token p) else Multi (map hex_token p))) rs)
       @ List.map_filter single_part (map (\<lambda>(c, p). (key c, if length p \<le> 7 then Single (map hex_token p) else Multi (map hex_token p))) rs))
   = mset (map (\<lambda>(c, p). (key c, map hex_token p)) rs)"
  by (induction rs) (auto simp: List.map_filter_simps)

lemma assemble_interleaved:
  assumes "interleaves bus pad frames replies" and ord: "\<forall>ks. mset (ord ks) = mset ks"
    and long: "\<exists>r \<in> set replies. 7 < length (snd r)"
  shows "\<exists>a. assemble_iso_tp ord (map (frame_text bus) frames) bus = Ok (Some a)
    \<and> mset a = mset (map (\<lambda>(c, p). (key c, map hex_token p)) replies)"
proof -
  let ?g = "group_lines bus (map (frame_text bus) frames)"
  let ?parts = "map (\<lambda>k. (k, assemble_controller bus (the (map_of ?g k)))) (ord (map fst ?g))"
  let ?h = "\<lambda>(c, p). (key c, if length p \<le> 7 then Single (map hex_token p) else Multi (map hex_token p))"
  have m: "mset ?parts = mset (map ?h replies)" by (rule assembled_parts [OF assms(1,2)])
  have s: "set ?parts = ?h ` set replies" by (rule trans [OF mset_eq_setD [OF m] set_map])
  from long obtain c p where r: "(c, p) \<in> set replies" "7 < length p" by auto
  have "(key c, Multi (map hex_token p)) \<in> set ?parts"
    unfolding s by (rule image_eqI [OF _ r(1)]) (use r(2) in simp)
  then have multi: "\<exists>q \<in> set ?parts. \<not> is_single (snd q)"
    by (rule rev_bexI) (simp only: snd_conv is_single.simps not_False_eq_True)
  have "snd (?h r) \<noteq> Truncated" for r by (cases r) simp
  then have nt: "\<not> (\<exists>q \<in> set ?parts. snd q = Truncated)"
    unfolding s by blast
  from assms(1) r(1) have "map snd (filter (\<lambda>f. fst f = c) frames) = segment (pad c) p"
    by (fastforce simp: interleaves_def)
  then have "length (filter (\<lambda>f. fst f = c) frames) = length (segment (pad c) p)" by (metis length_map)
  moreover have "drop 6 p \<noteq> []" using r(2) by simp
  then have "0 < length (consecutive (pad c) 1 (drop 6 p))" using consecutive_nonempty by blast
  then have "2 \<le> length (segment (pad c) p)" using r(2) by (simp add: segment_def Suc_le_eq)
  ultimately have "2 \<le> length frames" by (metis length_filter_le order_trans)
  then have "assemble_iso_tp ord (map (frame_text bus) frames) bus
      = Ok (Some (List.map_filter multi_part ?parts @ List.map_filter single_part ?parts))"
    using multi nt unfolding assemble_iso_tp_def Let_def length_map by (simp only: if_False if_True not_less [symmetric])
  moreover have "mset (List.map_filter multi_part ?parts @ List.map_filter single_part ?parts)
      = mset (map (\<lambda>(c, p). (key c, map hex_token p)) replies)"
    unfolding mset_append mset_map_filter [OF m] results_of_parts [unfolded mset_append] by (rule refl)
  ultimately show ?thesis by blast
qed

lemma sanitize_frames:
  assumes "\<forall>f \<in> set fs. \<not> eq_ignore_case (frame_text bus f) command"
  shows "sanitize_response (reply_text bus fs) command = join ''\<newline>'' (map (frame_text bus) fs)"
proof -
  have "\<not> starts_with (frame_text bus f) ''SEARCHING''" for f
  proof
    assume "starts_with (frame_text bus f) ''SEARCHING''"
    then have "hd (frame_text bus f) = CHR ''S''"
      by (cases "frame_text bus f") (auto simp: starts_with_def)
    with frame_text_ends(2) [of bus f] show False by (simp add: is_hexdigit_def hexval_def char_code_def)
  qed
  with assms frame_text_ends(1) have "\<forall>l \<in> set (map (frame_text bus) fs).
      l \<noteq> [] \<and> \<not> starts_with l ''SEARCHING'' \<and> \<not> eq_ignore_case l command"
    by simp
  then have "filter (\<lambda>l. l \<noteq> [] \<and> \<not> starts_with l ''SEARCHING'' \<and> \<not> eq_ignore_case l command) (map (frame_text bus) fs)
      = map (frame_text bus) fs"
    by (rule filter_True)
  then show ?thesis by (simp only: sanitize_response_def lines_reply)
qed

lemma frames_text_payloads:
  assumes fs: "fs \<noteq> []" "\<forall>f \<in> set fs. answers bus (fst f)"
    and cmd: "\<forall>f \<in> set fs. \<not> eq_ignore_case (frame_text bus f) command"
    and a: "(assemble_iso_tp ord (map (frame_text bus) fs) bus :: ('e, _) outcome) = Ok (Some a)" and "a \<noteq> []"
  shows "(text_payloads ord command (reply_text bus fs) bus :: ('e, _) outcome)
    = Ok (map (\<lambda>(c, tokens). \<lparr> controller = c, bytes = List.map_filter u8_from_hex tokens \<rparr>) a)"
proof -
  from trim_reply_text [OF fs(1), of bus] frame_text_digit [of bus "hd fs"] fs
  have 1: "\<not> is_non_data_response (reply_text bus fs)" by (intro digit_not_status) auto
  let ?clean = "join ''\<newline>'' (map (frame_text bus) fs)"
  have ne: "map (frame_text bus) fs \<noteq> []" "\<forall>w \<in> set (map (frame_text bus) fs). w \<noteq> []"
    using fs frame_text_ends by auto
  have j: "?clean \<noteq> []" "hd ?clean = hd (frame_text bus (hd fs))" "last ?clean = last (frame_text bus (last fs))"
    using join_nonempty [OF ne, where s = "''\<newline>''"] fs(1) by (simp_all add: hd_map last_map)
  have t: "trim ?clean = ?clean"
    using j frame_text_ends hexdigit_not_ws by (intro trim_id) metis
  have 2: "\<not> is_non_data_response ?clean"
    using frame_text_digit [of bus "hd fs"] fs j t by (intro digit_not_status) auto
  have "(frame_controllers ord ?clean bus :: ('e, _) outcome) = Ok a"
    by (simp add: frame_controllers_def lines_join [OF fs(1)] a)
  with 1 2 j(1) assms(5) show ?thesis
    by (simp add: text_payloads_def text_frames_def sanitize_frames [OF cmd])
qed

text \<open>
  C21: ISO-TP replies are reassembled exactly. Several controllers answer at once, at least one of
  them with a reply that needs several frames; their frames arrive interleaved in any way, padded
  with anything, printed by the adapter one frame a line. The parser then delivers one payload per
  controller, each the bytes that controller sent, whatever the iteration order of the hash map.
\<close>

theorem iso_tp_replies_delivered:
  assumes "interleaves bus pad frames replies" and "\<forall>ks. mset (ord ks) = mset ks"
    and "\<exists>r \<in> set replies. 7 < length (snd r)"
    and "\<forall>f \<in> set frames. \<not> eq_ignore_case (frame_text bus f) command"
  shows "\<exists>ps. (text_payloads ord command (reply_text bus frames) bus :: (unit, Payload list) outcome) = Ok ps
    \<and> mset ps = mset (map payload_of replies)"
proof -
  from assemble_interleaved [OF assms(1-3)] obtain a where
    a: "assemble_iso_tp ord (map (frame_text bus) frames) bus = (Ok (Some a) :: (unit, _) outcome)"
    "mset a = mset (map (\<lambda>(c, p). (key c, map hex_token p)) replies)" by blast
  from assms(3) a(2) have "a \<noteq> []" by auto
  from assms(1,3) have "frames \<noteq> []" by (auto simp: interleaves_def segment_def split: if_splits)
  moreover from assms(1) have "\<forall>f \<in> set frames. answers bus (fst f)" by (fastforce simp: interleaves_def)
  ultimately have "text_payloads ord command (reply_text bus frames) bus
      = (Ok (map (\<lambda>(c, tokens). \<lparr> controller = c, bytes = List.map_filter u8_from_hex tokens \<rparr>) a) :: (unit, _) outcome)"
    using assms(4) a(1) \<open>a \<noteq> []\<close> by (intro frames_text_payloads) auto
  moreover have "mset (map (\<lambda>(c, tokens). \<lparr> controller = c, bytes = List.map_filter u8_from_hex tokens \<rparr>) a)
      = mset (map payload_of replies)"
    unfolding mset_map a(2) by (auto simp: multiset.map_comp payload_of_def intro!: image_mset_cong)
  ultimately show ?thesis by blast
qed

theorem iso_tp_replies_delivered_witness:
  "\<exists>ps. (text_payloads rev ''0902''
       (reply_text (bus_of Can11)
         [(\<lparr> ctl_id = 0x7E0 \<rparr>, [0x10, 0x09, 0x49, 0x02, 0x01, 0x31, 0x47, 0x31]),
          (\<lparr> ctl_id = 0x7E2 \<rparr>, [0x03, 0x7F, 0x09, 0x12]),
          (\<lparr> ctl_id = 0x7E0 \<rparr>, [0x21, 0x4A, 0x43, 0x35, 0xAA, 0xAA, 0xAA, 0xAA])])
       (bus_of Can11) :: (unit, Payload list) outcome) = Ok ps
     \<and> mset ps = mset (map payload_of
         [(\<lparr> ctl_id = 0x7E0 \<rparr>, [0x49, 0x02, 0x01, 0x31, 0x47, 0x31, 0x4A, 0x43, 0x35]),
          (\<lparr> ctl_id = 0x7E2 \<rparr>, [0x7F, 0x09, 0x12])])"
proof (rule iso_tp_replies_delivered)
  let ?pad = "\<lambda>c. if ctl_id c = 0x7E0 then [0xAA, 0xAA, 0xAA, 0xAA] else []"
  show "interleaves (bus_of Can11) ?pad
         [(\<lparr> ctl_id = 0x7E0 \<rparr>, [0x10, 0x09, 0x49, 0x02, 0x01, 0x31, 0x47, 0x31]),
          (\<lparr> ctl_id = 0x7E2 \<rparr>, [0x03, 0x7F, 0x09, 0x12]),
          (\<lparr> ctl_id = 0x7E0 \<rparr>, [0x21, 0x4A, 0x43, 0x35, 0xAA, 0xAA, 0xAA, 0xAA])]
         [(\<lparr> ctl_id = 0x7E0 \<rparr>, [0x49, 0x02, 0x01, 0x31, 0x47, 0x31, 0x4A, 0x43, 0x35]),
          (\<lparr> ctl_id = 0x7E2 \<rparr>, [0x7F, 0x09, 0x12])]"
    by (simp add: interleaves_def answers_def bus_of_def segment_def fill_def)
  show "\<forall>f \<in> set [(\<lparr> ctl_id = 0x7E0 \<rparr>, [0x10, 0x09, 0x49, 0x02, 0x01, 0x31, 0x47, 0x31 :: u8]),
          (\<lparr> ctl_id = 0x7E2 \<rparr>, [0x03, 0x7F, 0x09, 0x12]),
          (\<lparr> ctl_id = 0x7E0 \<rparr>, [0x21, 0x4A, 0x43, 0x35, 0xAA, 0xAA, 0xAA, 0xAA])].
        \<not> eq_ignore_case (frame_text (bus_of Can11) f) ''0902''"
    by code_simp
qed simp_all

section \<open>Lost frames\<close>

lemma consecutive_count: "bs \<noteq> [] \<Longrightarrow> 7 * (length (consecutive pad n bs) - 1) < length bs"
proof (induction pad n bs rule: consecutive.induct)
  case (2 pad n b bs)
  show ?case
  proof (cases "drop 7 (b # bs) = []")
    case True
    then show ?thesis by simp
  next
    case False
    with 2 have "7 * (length (consecutive pad (Suc n) (drop 7 (b # bs))) - 1) < length (drop 7 (b # bs))" by blast
    moreover from False have "0 < length (consecutive pad (Suc n) (drop 7 (b # bs)))"
      using consecutive_nonempty by blast
    ultimately show ?thesis using False by simp
  qed
qed simp

lemma consecutive_size: "g \<in> set (consecutive pad n bs) \<Longrightarrow> length (tl g) \<le> 7"
  by (induction pad n bs rule: consecutive.induct) (auto simp: fill_def)

lemma concat_bound: "\<forall>g \<in> set gs. length (tl g) \<le> k \<Longrightarrow> length (concat (map tl gs)) \<le> k * length gs"
  by (induction gs) auto

lemma assemble_lost:
  assumes "answers bus c" and p: "7 < length p" "length p \<le> 4095" and "gs \<noteq> []"
    and gs: "set gs \<subseteq> set (consecutive pad 1 (drop 6 p))" "length gs < length (consecutive pad 1 (drop 6 p))"
  shows "assemble_controller bus (map (\<lambda>g. frame_text bus (c, g)) (hd (segment pad p) # gs)) = Short"
proof -
  have "length (concat (map tl gs)) \<le> 7 * length gs"
    using gs(1) consecutive_size by (intro concat_bound) blast
  also have "\<dots> \<le> 7 * (length (consecutive pad 1 (drop 6 p)) - 1)" using gs(2) by simp
  also have "\<dots> < length (drop 6 p)" using p(1) by (intro consecutive_count) simp
  finally have short: "length (take 6 p @ concat (map tl gs)) < length p" using p(1) by simp
  have "\<forall>g \<in> set gs. \<exists>k d. g = (0x20 OR of_nat (k mod 16)) # d"
    using gs(1) consecutive_head by blast
  from assemble_multi [OF assms(1) p assms(4) this, of pad] show ?thesis
    using short by (simp only: Let_def if_True)
qed

lemma assemble_not_truncated:
  assumes "\<forall>f \<in> set fs. answers bus (fst f) \<and> 2 \<le> length (snd f)" and "fs \<noteq> []"
  shows "assemble_controller bus (map (frame_text bus) fs) \<noteq> Truncated"
proof -
  obtain f gs where fs: "fs = f # gs" using assms(2) by (cases fs) auto
  with assms have "header_len bus (frame_tokens bus f) + 2 \<le> length (frame_tokens bus f)"
    by (simp add: header_len_frame) (simp add: frame_tokens_def)
  then show ?thesis
    by (simp add: fs assemble_controller_def Let_def split_frame_text)
qed

lemma assemble_no_panic:
  assumes "\<forall>f \<in> set fs. answers bus (fst f) \<and> 2 \<le> length (snd f)" and ord: "\<forall>ks. mset (ord ks) = mset ks"
  shows "assemble_iso_tp ord (map (frame_text bus) fs) bus \<noteq> Panic"
proof -
  let ?g = "group_lines bus (map (frame_text bus) fs)"
  have "assemble_controller bus (the (map_of ?g k)) \<noteq> Truncated" if "k \<in> set (ord (map fst ?g))" for k
  proof -
    from that ord have "k \<in> set (map fst ?g)" by (metis set_mset_mset)
    then have "map_of ?g k \<noteq> None" by (simp add: map_of_eq_None_iff)
    then have ne: "lines_of bus k (map (frame_text bus) fs) \<noteq> []" "the (map_of ?g k) = lines_of bus k (map (frame_text bus) fs)"
      by (auto simp: map_of_group split: if_splits)
    define hs where "hs = filter (\<lambda>f. line_controller bus (frame_tokens bus f) = k) fs"
    have "lines_of bus k (map (frame_text bus) fs) = map (frame_text bus) hs"
      unfolding hs_def by (induction fs) (auto simp: lines_of_def split_frame_text)
    moreover have "hs \<noteq> []" using ne(1) calculation by auto
    moreover have "\<forall>f \<in> set hs. answers bus (fst f) \<and> 2 \<le> length (snd f)" using assms(1) by (simp add: hs_def)
    ultimately show ?thesis using assemble_not_truncated ne(2) by metis
  qed
  then show ?thesis by (auto simp: assemble_iso_tp_def Let_def)
qed

lemma not_delivered:
  assumes "assemble_iso_tp ord ls bus = Ok (Some a)" and "assemble_controller bus (the (map_of (group_lines bus ls) k)) = Short"
  shows "k \<notin> fst ` set a"
proof
  assume "k \<in> fst ` set a"
  moreover have "multi_part (k', assemble_controller bus (the (map_of (group_lines bus ls) k'))) = Some (k, ts) \<Longrightarrow> False"
    "single_part (k', assemble_controller bus (the (map_of (group_lines bus ls) k'))) = Some (k, ts) \<Longrightarrow> False" for k' ts
    using assms(2) by (cases "assemble_controller bus (the (map_of (group_lines bus ls) k'))"; auto)+
  ultimately show False using assms(1)
    by (auto simp: assemble_iso_tp_def Let_def List.map_filter_def split: if_splits)
qed

lemma short_found:
  assumes "k \<in> set (map fst (group_lines bus ls))" and ord: "\<forall>ks. mset (ord ks) = mset ks" and "2 \<le> length ls"
    and "assemble_controller bus (the (map_of (group_lines bus ls) k)) = Short"
  shows "assemble_iso_tp ord ls bus \<noteq> Ok None"
proof -
  from assms(1) ord have "k \<in> set (ord (map fst (group_lines bus ls)))" by (metis set_mset_mset)
  with assms(3,4) show ?thesis by (auto simp: assemble_iso_tp_def Let_def)
qed



text \<open>When every consecutive frame is lost, the guard above does not see it: the lone first frame is
  passed through as a single frame, so its PCI and length bytes are taken for the reply and what
  follows for data.\<close>

theorem lone_first_frame_taken_as_data:
  "map_option (map snd) (map_option all_controllers
     (from_payloads ''0902''
       (case (text_payloads id ''0902''
          (reply_text (bus_of Can11) [(\<lparr> ctl_id = 0x7E0 \<rparr>, [0x10, 0x14, 0x49, 0x02, 0x01, 0x31, 0x47, 0x31])])
          (bus_of Can11) :: (unit, Payload list) outcome) of Ok ps \<Rightarrow> ps | _ \<Rightarrow> [])))
   = Some [\<lparr> raw_hex = ''10 14 49 02 01 31 47 31'', data_bytes = [0x49, 0x02, 0x01, 0x31, 0x47, 0x31],
             controller_id = ''7E0'', is_valid = True \<rparr>]"
  by code_simp

text \<open>A first frame cut off behind its PCI byte makes the slice of its data panic.\<close>

theorem truncated_first_frame_panics:
  "(parse_response id ''0902'' ''7E8 10\<newline>7E8 21 31'' :: (unit, ParsedResponse option) outcome) = Panic"
  by code_simp

text \<open>On a 29-bit bus a single-frame payload that contains \<^verbatim>\<open>DA\<close> and the tester address in a row is
  torn apart: the four tokens around them are taken for the header of another controller.\<close>

theorem data_taken_as_header_29bit:
  "(text_payloads id ''0100''
      (reply_text (bus_of (Can29 0xF1)) [(\<lparr> ctl_id = 0x10 \<rparr>, [0x06, 0x41, 0x00, 0xDA, 0xF1, 0x22, 0x33])])
      (bus_of (Can29 0xF1)) :: (unit, Payload list) outcome)
   = Ok [\<lparr> controller = ''10'', bytes = [0x41] \<rparr>, \<lparr> controller = ''22'', bytes = [0x33] \<rparr>]"
  by code_simp

end
