(* ===== verification/ChunkSplitter.thy ===== *)
theory ChunkSplitter
  imports ResponseParser
begin

text \<open>
  The multi-PID splitter of \<^verbatim>\<open>src/response_parser.rs\<close> (defined in the theory
  \<^verbatim>\<open>ResponseParser\<close>) against the reply format it is for: what the controllers answer is attributed
  to exactly the members they echoed, and whatever comes in, nothing is attributed that was not
  echoed with its learned length.
\<close>

section \<open>Replies to a multi-PID request\<close>

text \<open>
  The specification side: the reply of a controller is the reply byte, then for every member it
  answers the echo and the data, in its own order, then padding with zeros.
\<close>

definition member_pid :: "chunk_mode \<Rightarrow> u16 \<Rightarrow> string" where
  "member_pid m e = mode_text m @ (case m of Mode01 \<Rightarrow> fmt02X (unat e) | Mode22 \<Rightarrow> pad0 4 (hexstr (unat e)))"

definition encode_items :: "chunk_mode \<Rightarrow> (u16 \<times> u8 list) list \<Rightarrow> u8 list" where
  "encode_items m items = concat (map (\<lambda>(e, d). echo_bytes m e @ d) items)"

definition echo_ok :: "chunk_mode \<Rightarrow> u16 \<Rightarrow> bool" where
  "echo_ok m e = (case m of Mode01 \<Rightarrow> e \<le> 0xFF | Mode22 \<Rightarrow> drop_bit 8 e \<noteq> 0)"

lemma echo_width_pos [simp]: "0 < echo_width m"
  by (simp add: echo_width_def split: chunk_mode.split)

lemma echo_bytes_length [simp]: "length (echo_bytes m e) = echo_width m"
  by (simp add: echo_bytes_def echo_width_def split: chunk_mode.split)

lemma u16_bytes: "push_bit 8 (ucast (ucast (drop_bit 8 e) :: u8)) OR ucast (ucast e :: u8) = (e :: u16)"
  by (rule bit_word_eqI) (auto simp: bit_simps)

lemma bytes_u16:
  fixes a b :: u8
  shows "ucast (drop_bit 8 (push_bit 8 (ucast a) OR ucast b :: u16)) = a" "ucast (push_bit 8 (ucast a) OR ucast b :: u16) = b"
  by (rule bit_word_eqI; auto simp: bit_simps dest: bit_imp_le_length)+

lemma u8_u16_u8 [simp]: "(ucast (ucast (a :: u8) :: u16) :: u8) = a"
  by (rule bit_word_eqI) (auto simp: bit_simps dest: bit_imp_le_length)

lemma u8_of_small: "e \<le> 0xFF \<Longrightarrow> ucast (ucast (e :: u16) :: u8) = e"
  by (simp add: word_unat_eq_iff word_le_nat_alt unsigned_ucast_eq unsigned_take_bit_eq take_bit_nat_eq_self)

lemma read_echo_bytes: "echo_ok m e \<Longrightarrow> read_echo m (echo_bytes m e @ rest) = e"
  by (cases m) (simp_all add: read_echo_def echo_bytes_def echo_ok_def u16_bytes u8_of_small)

lemma echo_bytes_read:
  "echo_width m \<le> length rest \<Longrightarrow> echo_bytes m (read_echo m rest) = take (echo_width m) rest"
proof (cases m)
  case Mode01
  assume "echo_width m \<le> length rest"
  then obtain a as where "rest = a # as" using Mode01 by (cases rest) (auto simp: echo_width_def)
  with Mode01 show ?thesis by (simp add: echo_bytes_def read_echo_def echo_width_def)
next
  case Mode22
  assume "echo_width m \<le> length rest"
  then obtain a b as where "rest = a # b # as"
    using Mode22 by (cases rest; cases "tl rest") (auto simp: echo_width_def)
  with Mode22 bytes_u16 [of a b] show ?thesis by (simp add: echo_bytes_def read_echo_def echo_width_def)
qed

definition member_response :: "chunk_mode \<Rightarrow> string \<Rightarrow> u16 \<Rightarrow> u8 list \<Rightarrow> ControllerResponse" where
  "member_response m ctrl e d =
     \<lparr> raw_hex = hex_join (mode_reply m # echo_bytes m e @ d), data_bytes = d, controller_id = ctrl, is_valid = True \<rparr>"

section \<open>The scan\<close>

lemma scan_zeros:
  assumes "k = 0 \<or> m = Mode22 \<or> by_echo 0 = None"
  shows "scan_members m by_echo ctrl (replicate k 0) seen out = Ok out"
  using assms by (cases k) (auto simp: scan_members.simps [of m by_echo ctrl "[]"] scan_members.simps [of m by_echo ctrl "0 # _"])

lemma scan_item:
  assumes "echo_ok m e" and "by_echo e = Some (pid, len)" and "unat len = length d" and "e \<notin> set seen"
  shows "scan_members m by_echo ctrl (echo_bytes m e @ d @ rest) seen out =
    scan_members m by_echo ctrl rest (seen @ [e]) (add_member pid ctrl (member_response m ctrl e d) out)"
proof -
  let ?r = "echo_bytes m e @ d @ rest"
  have ne: "?r \<noteq> []" by (cases m) (simp_all add: echo_bytes_def)
  have lead: "\<not> (?r ! 0 = 0 \<and> (m = Mode22 \<or> by_echo (ucast (?r ! 0)) = None))"
  proof (cases m)
    case Mode01
    with assms(1,2) show ?thesis by (simp add: echo_bytes_def echo_ok_def u8_of_small)
  next
    case Mode22
    have "ucast (drop_bit 8 e) \<noteq> (0 :: u8)"
    proof
      assume 0: "ucast (drop_bit 8 e) = (0 :: u8)"
      have "drop_bit 8 e = ucast (ucast (drop_bit 8 e) :: u8)"
        by (rule bit_word_eqI) (auto simp: bit_simps dest: bit_imp_le_length)
      with 0 assms(1) Mode22 show False by (simp add: echo_ok_def)
    qed
    with Mode22 show ?thesis by (simp add: echo_bytes_def)
  qed
  show ?thesis
    using assms(2-4)
    by (subst scan_members.simps, subst if_not_P [OF ne], subst if_not_P [OF lead])
       (simp add: read_echo_bytes [OF assms(1)] member_response_def)
qed

definition add_items ::
  "chunk_mode \<Rightarrow> echo_map \<Rightarrow> string \<Rightarrow> (u16 \<times> u8 list) list \<Rightarrow> split_out \<Rightarrow> split_out" where
  "add_items m by_echo ctrl items out =
     foldl (\<lambda>o' (e, d). add_member (fst (the (by_echo e))) ctrl (member_response m ctrl e d) o') out items"

definition item_ok :: "chunk_mode \<Rightarrow> echo_map \<Rightarrow> u16 \<times> u8 list \<Rightarrow> bool" where
  "item_ok m by_echo i \<longleftrightarrow> echo_ok m (fst i) \<and> (\<exists>pid len. by_echo (fst i) = Some (pid, len) \<and> unat len = length (snd i))"

lemma scan_items:
  assumes "\<forall>i \<in> set items. item_ok m by_echo i" and "distinct (map fst items)" and "set (map fst items) \<inter> set seen = {}"
    and pad: "k = 0 \<or> m = Mode22 \<or> by_echo 0 = None"
  shows "scan_members m by_echo ctrl (encode_items m items @ replicate k 0) seen out = Ok (add_items m by_echo ctrl items out)"
  using assms(1-3)
proof (induction items arbitrary: seen out)
  case Nil
  then show ?case using scan_zeros [of k m by_echo ctrl seen out] pad by (simp add: encode_items_def add_items_def)
next
  case (Cons i items)
  obtain e d where i: "i = (e, d)" by (cases i)
  with Cons.prems(1) obtain pid len where b: "echo_ok m e" "by_echo e = Some (pid, len)" "unat len = length d"
    by (auto simp: item_ok_def)
  from Cons.prems i have "e \<notin> set seen" by simp
  from scan_item [where m = m and by_echo = by_echo, OF b this, of ctrl "encode_items m items @ replicate k 0" out]
  have "scan_members m by_echo ctrl (encode_items m (i # items) @ replicate k 0) seen out =
    scan_members m by_echo ctrl (encode_items m items @ replicate k 0) (seen @ [e])
      (add_member pid ctrl (member_response m ctrl e d) out)"
    by (simp add: encode_items_def i)
  also have "\<dots> = Ok (add_items m by_echo ctrl items (add_member pid ctrl (member_response m ctrl e d) out))"
    using Cons.prems i by (intro Cons.IH) auto
  finally show ?case by (simp add: add_items_def i b)
qed

section \<open>Looking up the result\<close>

definition lookup_member :: "split_out \<Rightarrow> string \<Rightarrow> string \<Rightarrow> ControllerResponse option" where
  "lookup_member out pid ctrl =
     (case map_of out pid of None \<Rightarrow> None | Some r \<Rightarrow> map_of (all_controllers r) ctrl)"

lemma lookup_add:
  "lookup_member (add_member pid ctrl r out) pid' ctrl' =
     (if pid' = pid \<and> ctrl' = ctrl then Some r else lookup_member out pid' ctrl')"
  by (auto simp: lookup_member_def add_member_def Let_def update_conv' split: option.split)

lemma lookup_nil [simp]: "lookup_member [] pid ctrl = None"
  by (simp add: lookup_member_def)

lemma lookup_items:
  assumes "distinct (map fst items)" and "\<forall>i \<in> set items. item_ok m by_echo i"
    and inj: "\<forall>e1 e2 p l1 l2. by_echo e1 = Some (p, l1) \<longrightarrow> by_echo e2 = Some (p, l2) \<longrightarrow> e1 = e2"
    and e: "by_echo e = Some (pid, len)"
  shows "lookup_member (add_items m by_echo ctrl items out) pid ctrl' =
    (if ctrl' = ctrl \<and> e \<in> fst ` set items
     then map_option (member_response m ctrl e) (map_of items e) else lookup_member out pid ctrl')"
  using assms(1,2)
proof (induction items arbitrary: out)
  case Nil
  then show ?case by (simp add: add_items_def)
next
  case (Cons i items)
  obtain e1 d1 where i: "i = (e1, d1)" by (cases i)
  with Cons.prems obtain p1 l1 where b: "by_echo e1 = Some (p1, l1)" by (auto simp: item_ok_def)
  with inj e have pe: "p1 = pid \<longleftrightarrow> e1 = e" by fastforce
  have "add_items m by_echo ctrl (i # items) out =
      add_items m by_echo ctrl items (add_member p1 ctrl (member_response m ctrl e1 d1) out)"
    by (simp add: add_items_def i b)
  then show ?case
    using Cons.IH [of "add_member p1 ctrl (member_response m ctrl e1 d1) out"] Cons.prems i pe
    by (auto simp: lookup_add)
qed

section \<open>Whole replies\<close>

definition payload_for :: "chunk_mode \<Rightarrow> string \<times> (u16 \<times> u8 list) list \<times> nat \<Rightarrow> Payload" where
  "payload_for m r =
     (case r of (ctrl, items, k) \<Rightarrow>
        \<lparr> controller = ctrl, bytes = mode_reply m # encode_items m items @ replicate k 0 \<rparr>)"

definition request_members :: "chunk_mode \<Rightarrow> (u16 \<times> u8) list \<Rightarrow> (string \<times> u8) list" where
  "request_members m learned = map (\<lambda>(e, l). (member_pid m e, l)) learned"

lemma strip_prefix_append [simp]: "strip_prefix (p @ s) p = Some s"
  by (simp add: strip_prefix_def starts_with_def)

lemma suffix_member [simp]: "u16_from_hex (pid_suffix m (member_pid m e)) = Some e"
  by (simp add: pid_suffix_def member_pid_def u16_from_pad split: chunk_mode.split)

lemma upper_member [simp]: "to_uppercase (member_pid m e) = member_pid m e"
proof -
  have "to_uppercase (mode_text m) = mode_text m" by (cases m) (simp_all add: mode_text_def to_uppercase_def upper_char_def char_code_def)
  then show ?thesis by (simp add: member_pid_def upper_append split: chunk_mode.split)
qed

lemma starts_member [simp]: "starts_with (member_pid m e) (mode_text m)"
  by (simp add: member_pid_def starts_with_def)

lemma member_pid_inj [simp]: "member_pid m e = member_pid m f \<longleftrightarrow> e = f"
  by (metis suffix_member option.inject)

definition echo_table :: "chunk_mode \<Rightarrow> (u16 \<times> u8) list \<Rightarrow> echo_map" where
  "echo_table m learned = (\<lambda>e. map_option (\<lambda>l. (member_pid m e, l)) (map_of learned e))"

lemma add_echo_members:
  assumes "distinct (map fst learned)" and "\<forall>e \<in> fst ` set learned. t e = None"
  shows "try_fold (add_echo m) t (request_members m learned)
    = Ok (\<lambda>e. case map_of learned e of None \<Rightarrow> t e | Some l \<Rightarrow> Some (member_pid m e, l))"
  using assms
proof (induction learned arbitrary: t)
  case Nil
  then show ?case by (simp add: request_members_def)
next
  case (Cons el learned)
  obtain e l where el: "el = (e, l)" by (cases el)
  have "add_echo m t (member_pid m e, l) = Ok (t(e \<mapsto> (member_pid m e, l)))"
    by (simp add: add_echo_def)
  moreover have "try_fold (add_echo m) (t(e \<mapsto> (member_pid m e, l))) (request_members m learned)
      = Ok (\<lambda>e'. case map_of learned e' of None \<Rightarrow> (t(e \<mapsto> (member_pid m e, l))) e' | Some l \<Rightarrow> Some (member_pid m e', l))"
    by (rule Cons.IH) (use Cons.prems el in auto)
  moreover have "map_of learned e = None" using Cons.prems(1) el by (simp add: map_of_eq_None_iff)
  ultimately show ?case
    by (auto simp: el request_members_def fun_eq_iff split: option.split)
qed

lemma add_echo_table: "distinct (map fst learned) \<Longrightarrow>
    try_fold (add_echo m) Map.empty (request_members m learned) = Ok (echo_table m learned)"
  by (subst add_echo_members) (auto simp: echo_table_def fun_eq_iff split: option.split)

lemma chunk_mode_members:
  assumes "learned \<noteq> []"
  shows "chunk_mode_of (request_members m learned) = Ok m"
proof -
  obtain e l ls where l: "learned = (e, l) # ls" using assms by (cases learned) auto
  have "take 2 (member_pid m e) = mode_text m" "\<not> length (member_pid m e) < 2"
    by (simp_all add: member_pid_def mode_text_def split: chunk_mode.split)
  with l show ?thesis
    by (cases m) (simp_all add: chunk_mode_of_def request_members_def mode_text_def)
qed

definition reply_ok :: "chunk_mode \<Rightarrow> (u16 \<times> u8) list \<Rightarrow> string \<times> (u16 \<times> u8 list) list \<times> nat \<Rightarrow> bool" where
  "reply_ok m learned r =
     (case r of (_, items, k) \<Rightarrow>
        distinct (map fst items)
        \<and> (\<forall>i \<in> set items. \<exists>l. map_of learned (fst i) = Some l \<and> unat l = length (snd i))
        \<and> (k = 0 \<or> m = Mode22 \<or> map_of learned 0 = None))"

lemma reply_items_ok:
  assumes "reply_ok m learned (ctrl, items, k)" and "\<forall>e \<in> fst ` set learned. echo_ok m e"
  shows "\<forall>i \<in> set items. item_ok m (echo_table m learned) i"
proof
  fix i assume "i \<in> set items"
  with assms(1) obtain l where l: "map_of learned (fst i) = Some l" "unat l = length (snd i)"
    by (auto simp: reply_ok_def)
  from l(1) have "fst i \<in> fst ` set learned" by (metis map_of_eq_None_iff option.distinct(1))
  with assms(2) have "echo_ok m (fst i)" by blast
  with l show "item_ok m (echo_table m learned) i" by (simp add: item_ok_def echo_table_def)
qed

definition add_replies ::
  "chunk_mode \<Rightarrow> echo_map \<Rightarrow> (string \<times> (u16 \<times> u8 list) list \<times> nat) list \<Rightarrow> split_out \<Rightarrow> split_out" where
  "add_replies m t replies out = foldl (\<lambda>o' (ctrl, items, k). add_items m t ctrl items o') out replies"

lemma split_replies:
  assumes "\<forall>r \<in> set replies. reply_ok m learned r" and "\<forall>e \<in> fst ` set learned. echo_ok m e"
  shows "try_fold (split_payload m (echo_table m learned)) out (map (payload_for m) replies)
    = Ok (add_replies m (echo_table m learned) replies out)"
  using assms(1)
proof (induction replies arbitrary: out)
  case Nil
  then show ?case by (simp add: add_replies_def)
next
  case (Cons r replies)
  obtain ctrl items k where r: "r = (ctrl, items, k)" by (cases r)
  with Cons.prems have ok: "reply_ok m learned (ctrl, items, k)" by simp
  then have pad: "k = 0 \<or> m = Mode22 \<or> echo_table m learned 0 = None" and d: "distinct (map fst items)"
    by (auto simp: reply_ok_def echo_table_def)
  have "split_payload m (echo_table m learned) out (payload_for m r)
      = Ok (add_items m (echo_table m learned) ctrl items out)"
    using scan_items [where m = m and by_echo = "echo_table m learned", OF reply_items_ok [OF ok assms(2)] d _ pad, of "[]" ctrl out]
    by (simp add: split_payload_def payload_for_def r)
  with Cons r show ?case by (simp add: add_replies_def)
qed

lemma table_inj:
  "\<forall>e1 e2 p l1 l2. echo_table m learned e1 = Some (p, l1) \<longrightarrow> echo_table m learned e2 = Some (p, l2) \<longrightarrow> e1 = e2"
  by (auto simp: echo_table_def)

lemma lookup_replies:
  assumes "\<forall>r \<in> set replies. reply_ok m learned r" and "\<forall>e \<in> fst ` set learned. echo_ok m e"
    and "distinct (map fst replies)" and e: "map_of learned e = Some l"
  shows "lookup_member (add_replies m (echo_table m learned) replies out) (member_pid m e) ctrl =
    (case map_of replies ctrl of
       None \<Rightarrow> lookup_member out (member_pid m e) ctrl
     | Some (items, _) \<Rightarrow>
         if e \<in> fst ` set items then map_option (member_response m ctrl e) (map_of items e)
         else lookup_member out (member_pid m e) ctrl)"
  using assms(1,3)
proof (induction replies arbitrary: out)
  case Nil
  then show ?case by (simp add: add_replies_def)
next
  case (Cons r replies)
  obtain c items k where r: "r = (c, items, k)" by (cases r)
  with Cons.prems have ok: "reply_ok m learned (c, items, k)" by simp
  then have d: "distinct (map fst items)" by (simp add: reply_ok_def)
  have t: "echo_table m learned e = Some (member_pid m e, l)" by (simp add: echo_table_def e)
  note li = lookup_items [OF d reply_items_ok [OF ok assms(2)] table_inj t]
  have "add_replies m (echo_table m learned) (r # replies) out =
    add_replies m (echo_table m learned) replies (add_items m (echo_table m learned) c items out)"
    by (simp add: add_replies_def r)
  moreover have "lookup_member (add_items m (echo_table m learned) c items out) (member_pid m e) ctrl =
      (if ctrl = c \<and> e \<in> fst ` set items then map_option (member_response m c e) (map_of items e)
       else lookup_member out (member_pid m e) ctrl)"
    by (rule li)
  moreover from Cons.prems r have "map_of replies c = None" by (simp add: map_of_eq_None_iff)
  moreover note Cons.IH [of "add_items m (echo_table m learned) c items out"]
  ultimately show ?case using Cons.prems
    by (cases "ctrl = c") (simp_all add: r split: option.split prod.split)
qed

lemma split_exact:
  assumes "learned \<noteq> []" and "distinct (map fst learned)" and "\<forall>e \<in> fst ` set learned. echo_ok m e"
    and "replies \<noteq> []" and "distinct (map fst replies)" and "\<forall>r \<in> set replies. reply_ok m learned r"
  shows "\<exists>out. split_multi_pid (request_members m learned) (map (payload_for m) replies) = Ok out
    \<and> (\<forall>e \<in> fst ` set learned. \<forall>ctrl.
         lookup_member out (member_pid m e) ctrl =
           (case map_of replies ctrl of
              None \<Rightarrow> None
            | Some (items, _) \<Rightarrow> map_option (member_response m ctrl e) (map_of items e)))"
proof -
  let ?out = "add_replies m (echo_table m learned) replies []"
  have "split_multi_pid (request_members m learned) (map (payload_for m) replies) = Ok ?out"
    using assms by (simp add: split_multi_pid_def chunk_mode_members add_echo_table split_replies)
  moreover have "lookup_member ?out (member_pid m e) ctrl =
      (case map_of replies ctrl of None \<Rightarrow> None
       | Some (items, _) \<Rightarrow> map_option (member_response m ctrl e) (map_of items e))"
    if "e \<in> fst ` set learned" for e ctrl
  proof -
    from that obtain l where l: "map_of learned e = Some l" by (metis map_of_eq_None_iff option.exhaust)
    have "map_of items e = None" if "e \<notin> fst ` set items" for items :: "(u16 \<times> u8 list) list"
      using that by (simp add: map_of_eq_None_iff)
    then show ?thesis
      by (auto simp: lookup_replies [OF assms(6,3,5) l] split: option.split)
  qed
  ultimately show ?thesis by blast
qed

text \<open>
  C23: the reply to a multi-PID request is split exactly. Every controller answers any subset of the
  members, in any order, with data of the learned length and any amount of zero padding; then the
  splitter succeeds, and for every member and every controller it yields that controller's data
  for that member if the controller echoed it, and nothing otherwise.
\<close>

theorem split_multi_pid_roundtrip:
  assumes "learned \<noteq> []" and "distinct (map fst learned)" and "\<forall>e \<in> fst ` set learned. echo_ok m e"
    and "replies \<noteq> []" and "distinct (map fst replies)" and "\<forall>r \<in> set replies. reply_ok m learned r"
  shows "\<exists>out. split_multi_pid (request_members m learned) (map (payload_for m) replies) = Ok out
    \<and> (\<forall>e \<in> fst ` set learned. \<forall>ctrl.
         lookup_member out (member_pid m e) ctrl =
           (case map_of replies ctrl of
              None \<Rightarrow> None
            | Some (items, _) \<Rightarrow> map_option (member_response m ctrl e) (map_of items e)))"
  by (rule split_exact [OF assms])

theorem split_multi_pid_roundtrip_witness:
  "\<exists>out. split_multi_pid (request_members Mode22 [(0xF40C, 2), (0xF405, 1)])
       (map (payload_for Mode22)
         [(''7E0'', [(0xF405, [0x50]), (0xF40C, [0x1A, 0xF8])], 3), (''7E8'', [(0xF405, [0x00])], 0)]) = Ok out
    \<and> lookup_member out (member_pid Mode22 0xF405) ''7E8'' = Some (member_response Mode22 ''7E8'' 0xF405 [0x00])
    \<and> lookup_member out (member_pid Mode22 0xF40C) ''7E8'' = None"
proof -
  have "\<exists>out. split_multi_pid (request_members Mode22 [(0xF40C, 2), (0xF405, 1)])
       (map (payload_for Mode22)
         [(''7E0'', [(0xF405, [0x50]), (0xF40C, [0x1A, 0xF8])], 3), (''7E8'', [(0xF405, [0x00])], 0)]) = Ok out
    \<and> (\<forall>e \<in> fst ` set [(0xF40C :: u16, 2 :: u8), (0xF405, 1)]. \<forall>ctrl.
         lookup_member out (member_pid Mode22 e) ctrl =
           (case map_of [(''7E0'', [(0xF405, [0x50]), (0xF40C, [0x1A, 0xF8])], 3), (''7E8'', [(0xF405, [0x00])], 0 :: nat)] ctrl of
              None \<Rightarrow> None
            | Some (items, _) \<Rightarrow> map_option (member_response Mode22 ctrl e) (map_of items e)))"
    by (rule split_multi_pid_roundtrip) (simp_all add: echo_ok_def reply_ok_def)
  then show ?thesis by fastforce
qed

section \<open>Nothing is made up\<close>

text \<open>What stands behind an entry of the result: a payload of that controller in which the member's
  echo is followed by exactly the bytes of the entry, of the learned length.\<close>

definition echoed :: "chunk_mode \<Rightarrow> echo_map \<Rightarrow> Payload list \<Rightarrow> string \<Rightarrow> string \<Rightarrow> ControllerResponse \<Rightarrow> bool" where
  "echoed m by_echo ps pid ctrl cr \<longleftrightarrow>
     (\<exists>p \<in> set ps. \<exists>e len pre post. controller p = ctrl \<and> by_echo e = Some (pid, len)
        \<and> bytes p = mode_reply m # pre @ echo_bytes m e @ data_bytes cr @ post
        \<and> length (data_bytes cr) = unat len)"

lemma split3: "xs = take a xs @ take b (drop a xs) @ drop (a + b) xs"
  using append_take_drop_id [of "a + b" xs] by (simp only: take_add append_assoc)

lemma scan_sound:
  assumes "scan_members m by_echo ctrl rest seen out = Ok out'"
    and "p \<in> set ps" and "controller p = ctrl" and "\<exists>pre. bytes p = mode_reply m # pre @ rest"
    and "\<forall>pid ctrl cr. lookup_member out pid ctrl = Some cr \<longrightarrow> echoed m by_echo ps pid ctrl cr"
  shows "\<forall>pid ctrl cr. lookup_member out' pid ctrl = Some cr \<longrightarrow> echoed m by_echo ps pid ctrl cr"
  using assms
proof (induction m by_echo ctrl rest seen out rule: scan_members.induct)
  case (1 m by_echo ctrl rest seen out)
  let ?e = "read_echo m rest"
  show ?case
  proof (cases "out' = out")
    case True
    with "1.prems"(5) show ?thesis by simp
  next
    case False
    with "1.prems"(1) obtain pid len where t: "rest \<noteq> []"
      "\<not> (rest ! 0 = 0 \<and> (m = Mode22 \<or> by_echo (ucast (rest ! 0)) = None))"
      "\<not> echo_width m > length rest" "by_echo ?e = Some (pid, len)" "?e \<notin> set seen"
      "\<not> echo_width m + unat len > length rest"
      by (subst (asm) scan_members.simps) (auto simp: Let_def split: if_splits option.splits)
    let ?d = "take (unat len) (drop (echo_width m) rest)"
    let ?rest' = "drop (echo_width m + unat len) rest"
    let ?out1 = "add_member pid ctrl \<lparr> raw_hex = hex_join (mode_reply m # echo_bytes m ?e @ ?d),
        data_bytes = ?d, controller_id = ctrl, is_valid = True \<rparr> out"
    have step: "scan_members m by_echo ctrl ?rest' (seen @ [?e]) ?out1 = Ok out'"
      using "1.prems"(1) t by (subst (asm) scan_members.simps) (simp add: Let_def)
    have r: "rest = echo_bytes m ?e @ ?d @ ?rest'"
      using split3 [of rest "echo_width m" "unat len"] echo_bytes_read [of m rest] t(3) by (simp only: not_less)
    from "1.prems"(4) obtain pre where pre: "bytes p = mode_reply m # pre @ rest" by blast
    have 1: "\<exists>pre. bytes p = mode_reply m # pre @ ?rest'"
      by (rule exI [of _ "pre @ echo_bytes m ?e @ ?d"]) (use pre r in \<open>metis append_assoc\<close>)
    have "length ?d = unat len" using t(6) by simp
    with pre r have "echoed m by_echo ps pid ctrl (\<lparr> raw_hex = h, data_bytes = ?d, controller_id = ctrl, is_valid = True \<rparr>)" for h
      unfolding echoed_def using "1.prems"(2,3) t(4) by (metis (no_types, lifting) ControllerResponse.select_convs(2))
    with "1.prems"(5) have 2: "\<forall>pid' ctrl' cr. lookup_member ?out1 pid' ctrl' = Some cr \<longrightarrow> echoed m by_echo ps pid' ctrl' cr"
      by (auto simp: lookup_add split: if_splits)
    show ?thesis
      by (rule "1.IH" [OF t(1,2,3) refl t(4) refl t(5,6) refl step "1.prems"(2,3) 1 2])
  qed
qed

lemma add_echo_origin:
  assumes "try_fold (add_echo m) t members = Ok t'" and "t' e = Some (pid, len)"
  shows "t e = Some (pid, len)
    \<or> (\<exists>q. (q, len) \<in> set members \<and> pid = to_uppercase q \<and> u16_from_hex (pid_suffix m q) = Some e)"
  using assms
proof (induction members arbitrary: t)
  case (Cons ql members)
  then obtain t1 where t1: "add_echo m t ql = Ok t1" "try_fold (add_echo m) t1 members = Ok t'"
    by (auto simp: and_then_Ok)
  from t1(1) obtain q l f where q: "ql = (q, l)" "u16_from_hex (pid_suffix m q) = Some f" "t1 = t(f \<mapsto> (to_uppercase q, l))"
    by (cases ql) (auto simp: add_echo_def split: if_splits option.splits)
  from Cons.IH [OF t1(2) Cons.prems(2)] q show ?case by (auto split: if_splits)
qed simp

lemma payloads_sound:
  assumes "try_fold (split_payload m by_echo) out qs = Ok out'" and "set qs \<subseteq> set ps"
    and "\<forall>pid ctrl cr. lookup_member out pid ctrl = Some cr \<longrightarrow> echoed m by_echo ps pid ctrl cr"
  shows "\<forall>pid ctrl cr. lookup_member out' pid ctrl = Some cr \<longrightarrow> echoed m by_echo ps pid ctrl cr"
  using assms
proof (induction qs arbitrary: out)
  case (Cons q qs)
  then obtain o1 where o1: "split_payload m by_echo out q = Ok o1" "try_fold (split_payload m by_echo) o1 qs = Ok out'"
    by (auto simp: and_then_Ok)
  from o1(1) obtain rest where "bytes q = mode_reply m # rest" "scan_members m by_echo (controller q) rest [] out = Ok o1"
    by (auto simp: split_payload_def split: list.splits if_splits)
  note q = this
  have "q \<in> set ps" using Cons.prems(2) by simp
  moreover have "\<exists>pre. bytes q = mode_reply m # pre @ rest" using q(1) by (intro exI [of _ "[]"]) simp
  ultimately have "\<forall>pid ctrl cr. lookup_member o1 pid ctrl = Some cr \<longrightarrow> echoed m by_echo ps pid ctrl cr"
    by (rule scan_sound [OF q(2) _ refl _ Cons.prems(3)])
  with Cons.IH [OF o1(2)] Cons.prems(2) show ?case by auto
qed simp

text \<open>The splitter never makes data up. Whatever members were asked for and whatever payloads came
  back, every entry of a successful result belongs to a requested member, has exactly the learned
  length of that member, and stands in a payload of that controller directly behind the member's
  echo.
\<close>

theorem split_attributes_only_echoed:
  assumes "split_multi_pid members ps = Ok out" and "lookup_member out pid ctrl = Some cr"
  shows "\<exists>m q len e p pre post. chunk_mode_of members = Ok m
    \<and> (q, len) \<in> set members \<and> pid = to_uppercase q \<and> u16_from_hex (pid_suffix m q) = Some e
    \<and> p \<in> set ps \<and> controller p = ctrl
    \<and> bytes p = mode_reply m # pre @ echo_bytes m e @ data_bytes cr @ post \<and> length (data_bytes cr) = unat len"
proof -
  from assms(1) obtain m t where m: "chunk_mode_of members = Ok m" "try_fold (add_echo m) Map.empty members = Ok t"
    "try_fold (split_payload m t) [] ps = Ok out"
    by (auto simp: split_multi_pid_def and_then_Ok split: if_splits)
  from payloads_sound [OF m(3) subset_refl] assms(2) have "echoed m t ps pid ctrl cr" by simp
  then obtain p e len pre post where p: "p \<in> set ps" "controller p = ctrl" "t e = Some (pid, len)"
    "bytes p = mode_reply m # pre @ echo_bytes m e @ data_bytes cr @ post" "length (data_bytes cr) = unat len"
    unfolding echoed_def by blast
  from add_echo_origin [OF m(2) p(3)] obtain q where
    q: "(q, len) \<in> set members" "pid = to_uppercase q" "u16_from_hex (pid_suffix m q) = Some e" by auto
  show ?thesis
    by (rule exI [of _ m], rule exI [of _ q], rule exI [of _ len], rule exI [of _ e], rule exI [of _ p],
        rule exI [of _ pre], rule exI [of _ post]) (intro conjI m(1) q p(1,2,4,5))
qed

theorem split_attributes_only_echoed_witness:
  "\<exists>out. split_multi_pid [(''010c'', 2), (''010D'', 1)] [\<lparr> controller = ''7E0'', bytes = [0x41, 0x0D, 0x21] \<rparr>] = Ok out
    \<and> (\<exists>len pre post. (''010D'', len) \<in> set [(''010c'', 2), (''010D'', 1)]
        \<and> [0x41, 0x0D, 0x21] = (0x41 :: u8) # pre @ [0x0D] @ [0x21] @ post \<and> length [0x21 :: u8] = unat (len :: u8))"
proof -
  have 1: "split_multi_pid [(''010c'', 2), (''010D'', 1)] [\<lparr> controller = ''7E0'', bytes = [0x41, 0x0D, 0x21] \<rparr>]
    = Ok [(''010D'', \<lparr> parse_type = PidResponse, all_controllers =
        [(''7E0'', \<lparr> raw_hex = ''41 0D 21'', data_bytes = [0x21], controller_id = ''7E0'', is_valid = True \<rparr>)] \<rparr>)]"
    by code_simp
  have 2: "lookup_member [(''010D'', \<lparr> parse_type = PidResponse, all_controllers =
        [(''7E0'', \<lparr> raw_hex = ''41 0D 21'', data_bytes = [0x21], controller_id = ''7E0'', is_valid = True \<rparr>)] \<rparr>)] ''010D'' ''7E0''
    = Some \<lparr> raw_hex = ''41 0D 21'', data_bytes = [0x21], controller_id = ''7E0'', is_valid = True \<rparr>"
    by (simp add: lookup_member_def)
  have "chunk_mode_of [(''010c'', 2), (''010D'', 1)] = Ok Mode01" by (simp add: chunk_mode_of_def)
  moreover have "u16_from_hex (pid_suffix Mode01 ''010D'') = Some 0x0D" by code_simp
  moreover have "to_uppercase ''010c'' = ''010C''" by code_simp
  ultimately show ?thesis
    using 1 split_attributes_only_echoed [OF 1 2]
    by (auto simp: mode_reply_def echo_bytes_def)
qed

section \<open>Selection\<close>

lemma from_payloads_fold_distinct: "distinct (map fst m) \<Longrightarrow> distinct (map fst (foldl (insert_payload k) m ps))"
  by (induction ps arbitrary: m) (simp_all add: insert_payload_def Let_def distinct_update)

lemma set_alist_update: "x \<in> set (AList.update k v m) \<Longrightarrow> x \<in> set m \<or> x = (k, v)"
  by (induction m) (auto split: if_splits)

lemma from_payloads_fold_ids:
  "\<forall>x \<in> set m. controller_id (snd x) = fst x \<Longrightarrow>
   \<forall>x \<in> set (foldl (insert_payload k) m ps). controller_id (snd x) = fst x"
proof (induction ps arbitrary: m)
  case (Cons p ps)
  have "\<forall>x \<in> set (insert_payload k m p). controller_id (snd x) = fst x"
  proof
    fix x assume "x \<in> set (insert_payload k m p)"
    then have "x \<in> set m \<or> (fst x = controller p \<and> controller_id (snd x) = controller p)"
      by (auto simp: insert_payload_def Let_def dest: set_alist_update)
    with Cons.prems show "controller_id (snd x) = fst x" by auto
  qed
  with Cons.IH show ?case by simp
qed simp

definition well_keyed :: "ParsedResponse \<Rightarrow> bool" where
  "well_keyed r \<longleftrightarrow> distinct (map fst (all_controllers r)) \<and> (\<forall>x \<in> set (all_controllers r). controller_id (snd x) = fst x)"

lemma from_payloads_well_keyed: "from_payloads command ps = Some r \<Longrightarrow> well_keyed r"
proof -
  assume "from_payloads command ps = Some r"
  then obtain k where "all_controllers r = foldl (insert_payload k) [] ps"
    by (auto simp: from_payloads_def split: if_splits option.splits prod.splits)
  then show ?thesis
    using from_payloads_fold_distinct [of "[]" k ps] from_payloads_fold_ids [of "[]" k ps] by (simp add: well_keyed_def)
qed

lemma arg_min_list_mem: "xs \<noteq> [] \<Longrightarrow> arg_min_list f xs \<in> set xs"
  by (induction f xs rule: arg_min_list.induct) (auto simp: Let_def)

lemma arg_min_list_le: "x \<in> set xs \<Longrightarrow> f (arg_min_list f xs) \<le> (f x :: 'a :: linorder)"
  by (induction f xs rule: arg_min_list.induct) (auto simp: Let_def)

lemma find_map_Some: "find_map f xs = Some y \<Longrightarrow> \<exists>x \<in> set xs. f x = Some y"
  by (induction xs) (auto split: option.splits)

lemma find_map_None: "find_map f xs = None \<longleftrightarrow> (\<forall>x \<in> set xs. f x = None)"
  by (induction xs) (auto split: option.splits)

lemma valid_entry_wk:
  assumes "well_keyed r"
  shows "valid_entry r k = Some c \<longleftrightarrow> (k, c) \<in> set (all_controllers r) \<and> is_valid c \<and> controller_id c = k"
  using assms by (fastforce simp: well_keyed_def valid_entry_def split: option.splits if_splits)

text \<open>The controller selected from a parse of payloads is one of the controllers that answered with
  data, and there is none exactly when no controller did. A preferred controller that answered
  wins; without one, and without any of the priority list, the lowest controller key wins, whatever
  the order in which the hash map yields its entries.
\<close>

theorem select_controller_picks:
  assumes "from_payloads command ps = Some r"
  shows "case select_controller r preferred priority of
      None \<Rightarrow> \<forall>k. valid_entry r k = None
    | Some c \<Rightarrow> valid_entry r (controller_id c) = Some c
        \<and> (\<forall>p d. preferred = Some p \<and> valid_entry r p = Some d \<longrightarrow> c = d)
        \<and> (((\<forall>p. preferred = Some p \<longrightarrow> valid_entry r p = None) \<and> (\<forall>p \<in> set priority. valid_entry r p = None))
            \<longrightarrow> (\<forall>k d. valid_entry r k = Some d \<longrightarrow> controller_id c \<le> k))"
proof -
  note wk = from_payloads_well_keyed [OF assms]
  note ve = valid_entry_wk [OF wk]
  let ?vs = "filter is_valid (map snd (all_controllers r))"
  have vs: "c \<in> set ?vs \<longleftrightarrow> (\<exists>k. valid_entry r k = Some c)" for c
    using wk by (force simp: ve well_keyed_def)
  have self: "valid_entry r k = Some c \<Longrightarrow> valid_entry r (controller_id c) = Some c" for k c by (simp add: ve)
  consider (pref) p c where "preferred = Some p" "valid_entry r p = Some c" "select_controller r preferred priority = Some c"
    | (prio) c p where "\<forall>p. preferred = Some p \<longrightarrow> valid_entry r p = None" "p \<in> set priority" "valid_entry r p = Some c"
        "select_controller r preferred priority = Some c"
    | (low) "\<forall>p. preferred = Some p \<longrightarrow> valid_entry r p = None" "\<forall>p \<in> set priority. valid_entry r p = None"
        "?vs \<noteq> []" "select_controller r preferred priority = Some (arg_min_list controller_id ?vs)"
    | (none) "?vs = []" "select_controller r preferred priority = None"
  proof (cases "case preferred of None \<Rightarrow> None | Some p \<Rightarrow> valid_entry r p")
    case (Some c)
    with that(1) show ?thesis by (auto simp: select_controller_def split: option.splits)
  next
    case None
    then have n: "\<forall>p. preferred = Some p \<longrightarrow> valid_entry r p = None" by (auto split: option.splits)
    show ?thesis
    proof (cases "find_map (valid_entry r) priority")
      case (Some c)
      with that(2) [OF n] None show ?thesis by (auto simp: select_controller_def dest: find_map_Some)
    next
      case None
      with that(3,4) n \<open>(case preferred of None \<Rightarrow> None | Some p \<Rightarrow> valid_entry r p) = None\<close> show ?thesis
        by (cases "?vs = []") (auto simp: select_controller_def find_map_None Let_def)
    qed
  qed
  then show ?thesis
  proof cases
    case pref
    then show ?thesis using self by auto
  next
    case prio
    then show ?thesis using self by auto
  next
    case low
    let ?c = "arg_min_list controller_id ?vs"
    from arg_min_list_mem [OF low(3)] vs obtain k where k: "valid_entry r k = Some ?c" by blast
    have "controller_id ?c \<le> k'" if "valid_entry r k' = Some d" for k' d
    proof -
      from that vs have "d \<in> set ?vs" by blast
      then have "controller_id ?c \<le> controller_id d" by (rule arg_min_list_le)
      with that show ?thesis by (simp add: ve)
    qed
    with low k self show ?thesis by auto
  next
    case none
    then have "valid_entry r k = None" for k using vs by (metis not_None_eq empty_iff list.set(1))
    with none show ?thesis by simp
  qed
qed

theorem select_controller_picks_witness:
  "\<exists>r. from_payloads ''010C'' [\<lparr> controller = ''7E1'', bytes = [0x41, 0x0C, 0x1A, 0xF8] \<rparr>,
         \<lparr> controller = ''7E8'', bytes = [0x7F, 0x01] \<rparr>, \<lparr> controller = ''7E0'', bytes = [0x41, 0x0C, 0, 0] \<rparr>] = Some r
    \<and> map_option controller_id (select_controller r (Some ''7E8'') []) = Some ''7E0''
    \<and> (\<forall>k d. valid_entry r k = Some d \<longrightarrow> ''7E0'' \<le> k)"
proof -
  define r where "r = the (from_payloads ''010C'' [\<lparr> controller = ''7E1'', bytes = [0x41, 0x0C, 0x1A, 0xF8] \<rparr>,
         \<lparr> controller = ''7E8'', bytes = [0x7F, 0x01] \<rparr>, \<lparr> controller = ''7E0'', bytes = [0x41, 0x0C, 0, 0] \<rparr>])"
  have "from_payloads ''010C'' [\<lparr> controller = ''7E1'', bytes = [0x41, 0x0C, 0x1A, 0xF8] \<rparr>,
         \<lparr> controller = ''7E8'', bytes = [0x7F, 0x01] \<rparr>, \<lparr> controller = ''7E0'', bytes = [0x41, 0x0C, 0, 0] \<rparr>] \<noteq> None"
    by code_simp
  then have 1: "from_payloads ''010C'' [\<lparr> controller = ''7E1'', bytes = [0x41, 0x0C, 0x1A, 0xF8] \<rparr>,
         \<lparr> controller = ''7E8'', bytes = [0x7F, 0x01] \<rparr>, \<lparr> controller = ''7E0'', bytes = [0x41, 0x0C, 0, 0] \<rparr>] = Some r"
    by (simp add: r_def)
  have 2: "valid_entry r ''7E8'' = None" unfolding r_def by code_simp
  have 3: "map_option controller_id (select_controller r (Some ''7E8'') []) = Some ''7E0''" unfolding r_def by code_simp
  then obtain c where c: "select_controller r (Some ''7E8'') [] = Some c" "controller_id c = ''7E0''" by auto
  from select_controller_picks [OF 1, of "Some ''7E8''" "[]"] c 2 have "\<forall>k d. valid_entry r k = Some d \<longrightarrow> ''7E0'' \<le> k"
    by simp
  with 1 3 show ?thesis by blast
qed

end
