(* ===== verification/PidParsers.thy ===== *)
theory PidParsers
  imports Prelude
begin

text \<open>
  The four decoders of special replies (\<^verbatim>\<open>src/pid_support_parser.rs\<close>,
  \<^verbatim>\<open>src/trouble_code_parser.rs\<close>, \<^verbatim>\<open>src/mode06_parser.rs\<close>,
  \<^verbatim>\<open>src/monitor_status_parser.rs\<close>), each shown to invert the encoding of SAE J1979.
\<close>

section \<open>Supported PIDs\<close>

record PidSupportResult =
  ps_mode :: string
  base_offset :: u16
  supported_pids :: "string list"

definition support_bits :: "string \<Rightarrow> u16 \<Rightarrow> nat \<times> u8 \<Rightarrow> string list" where
  "support_bits mode base ib =
     (let (byte_idx, byte) = ib in
      map (\<lambda>bt. mode @ fmt02X (unat (base + of_nat byte_idx * 8 + of_nat bt + 1)))
        (filter (\<lambda>bt. byte AND drop_bit bt 0x80 \<noteq> 0) [0..<8]))"

definition parse_supported_pids :: "u8 list \<Rightarrow> string \<Rightarrow> u16 \<Rightarrow> PidSupportResult" where
  "parse_supported_pids bs mode base =
     \<lparr> ps_mode = mode, base_offset = base,
       supported_pids = concat (map (support_bits mode base) (List.enumerate 0 (take 4 bs))) \<rparr>"

section \<open>Trouble codes\<close>

record TroubleCodeResult =
  dtc_total :: nat
  codes :: "string list"

definition DTC_PREFIXES :: string where
  "DTC_PREFIXES = ''PCBU''"

definition decode_dtc :: "u8 \<Rightarrow> u8 \<Rightarrow> string option" where
  "decode_dtc a b =
     (if a = 0 \<and> b = 0 then None
      else Some (DTC_PREFIXES ! unat (drop_bit 6 a)
             # hexstr (unat (drop_bit 4 a AND 0x03)) @ hexstr (unat (a AND 0x0F))
               @ hexstr (unat (drop_bit 4 b)) @ hexstr (unat (b AND 0x0F))))"

fun decode_pair :: "u8 list \<Rightarrow> string option" where
  "decode_pair [a, b] = decode_dtc a b"
| "decode_pair _ = None"

definition parse_dtcs :: "u8 list \<Rightarrow> TroubleCodeResult" where
  "parse_dtcs bs =
     (case bs of
        [] \<Rightarrow> \<lparr> dtc_total = 0, codes = [] \<rparr>
      | n # pairs \<Rightarrow>
          \<lparr> dtc_total = unat n,
            codes = List.map_filter decode_pair (takeWhile (\<lambda>c. length c \<ge> 2) (chunks 2 pairs)) \<rparr>)"

section \<open>Mode 06\<close>

record Mode06TestResult =
  mid :: u8
  tid :: u8
  uasid :: u8
  test_value :: u16
  min_limit :: u16
  max_limit :: u16

definition u16_of_be :: "u8 \<Rightarrow> u8 \<Rightarrow> u16" where
  "u16_of_be a b = push_bit 8 (ucast a) OR ucast b"

definition decode_block :: "u8 list \<Rightarrow> Mode06TestResult" where
  "decode_block c =
     \<lparr> mid = c ! 0, tid = c ! 1, uasid = c ! 2, test_value = u16_of_be (c ! 3) (c ! 4),
       min_limit = u16_of_be (c ! 5) (c ! 6), max_limit = u16_of_be (c ! 7) (c ! 8) \<rparr>"

definition parse_mode06 :: "u8 list \<Rightarrow> Mode06TestResult list" where
  "parse_mode06 bs = map decode_block (takeWhile (\<lambda>c. \<not> length c < 9) (chunks 9 bs))"

section \<open>Monitor status\<close>

record ContinuousMonitors =
  misfire :: bool
  fuel_system :: bool
  component_monitor :: bool

record NonContinuousMonitors =
  catalyst :: "bool option"
  heated_catalyst :: "bool option"
  evap_system :: "bool option"
  secondary_air :: "bool option"
  oxygen_sensor :: "bool option"
  oxygen_sensor_heater :: "bool option"
  egr_system :: "bool option"
  nmhc_catalyst :: "bool option"
  nox_aftertreatment :: "bool option"
  boost_pressure :: "bool option"
  exhaust_sensor :: "bool option"
  pm_filter :: "bool option"
  egr_vvt :: "bool option"

record MonitorStatusResult =
  mil_on :: bool
  dtc_count :: u8
  engine_type :: string
  continuous_monitors :: ContinuousMonitors
  non_continuous_availability :: NonContinuousMonitors
  non_continuous_completeness :: NonContinuousMonitors

definition parse_gasoline_monitors :: "u8 \<Rightarrow> NonContinuousMonitors" where
  "parse_gasoline_monitors b =
     \<lparr> catalyst = Some (b AND 0x01 \<noteq> 0), heated_catalyst = Some (b AND 0x02 \<noteq> 0),
       evap_system = Some (b AND 0x04 \<noteq> 0), secondary_air = Some (b AND 0x08 \<noteq> 0),
       oxygen_sensor = Some (b AND 0x20 \<noteq> 0), oxygen_sensor_heater = Some (b AND 0x40 \<noteq> 0),
       egr_system = Some (b AND 0x80 \<noteq> 0),
       nmhc_catalyst = None, nox_aftertreatment = None, boost_pressure = None,
       exhaust_sensor = None, pm_filter = None, egr_vvt = None \<rparr>"

definition parse_diesel_monitors :: "u8 \<Rightarrow> NonContinuousMonitors" where
  "parse_diesel_monitors b =
     \<lparr> catalyst = None, heated_catalyst = None, evap_system = None, secondary_air = None,
       oxygen_sensor = None, oxygen_sensor_heater = None, egr_system = None,
       nmhc_catalyst = Some (b AND 0x01 \<noteq> 0), nox_aftertreatment = Some (b AND 0x02 \<noteq> 0),
       boost_pressure = Some (b AND 0x08 \<noteq> 0), exhaust_sensor = Some (b AND 0x20 \<noteq> 0),
       pm_filter = Some (b AND 0x40 \<noteq> 0), egr_vvt = Some (b AND 0x80 \<noteq> 0) \<rparr>"

definition parse_monitor_status :: "u8 list \<Rightarrow> MonitorStatusResult option" where
  "parse_monitor_status bs =
     (if length bs < 4 then None
      else
        let a = bs ! 0; b = bs ! 1; c = bs ! 2; d = bs ! 3;
            is_diesel = (b AND 0x08 \<noteq> 0);
            (availability, completeness) =
              (if is_diesel then (parse_diesel_monitors c, parse_diesel_monitors d)
               else (parse_gasoline_monitors c, parse_gasoline_monitors d))
        in Some \<lparr> mil_on = (a AND 0x80 \<noteq> 0), dtc_count = a AND 0x7F,
             engine_type = (if is_diesel then ''diesel'' else ''gasoline''),
             continuous_monitors = \<lparr> misfire = (b AND 0x01 \<noteq> 0), fuel_system = (b AND 0x02 \<noteq> 0),
               component_monitor = (b AND 0x04 \<noteq> 0) \<rparr>,
             non_continuous_availability = availability,
             non_continuous_completeness = completeness \<rparr>)"

section \<open>Properties\<close>

lemma mask_bit: "bt < 8 \<Longrightarrow> (b :: u8) AND drop_bit bt 0x80 \<noteq> 0 \<longleftrightarrow> bit b (7 - bt)"
proof -
  assume "bt < 8"
  then have "drop_bit bt (0x80 :: u8) = push_bit (7 - bt) 1"
    by (intro bit_word_eqI) (auto simp: bit_simps bit_numeral_rec numeral_eq_Suc less_Suc_eq)
  then show ?thesis by (simp add: bit_iff_and_push_bit_not_eq_0)
qed

lemma enumerate_bits:
  "concat (map (\<lambda>(i, b). map (\<lambda>bt. f (8 * i + bt)) (filter (\<lambda>bt. bit b (7 - bt)) [0..<8])) (List.enumerate k bs))
   = map f (filter (\<lambda>n. bit (bs ! (n div 8 - k)) (7 - n mod 8)) [8 * k..<8 * (k + length bs)])"
proof (induction bs arbitrary: k)
  case (Cons b bs)
  have r: "[8 * k..<8 * (k + length (b # bs))] = [8 * k..<8 * Suc k] @ [8 * Suc k..<8 * (Suc k + length bs)]"
    using upt_add_eq_append [of "8 * k" "8 * Suc k" "8 * length bs"] by (simp add: algebra_simps)
  have e: "[8 * k..<8 * Suc k] = map (\<lambda>bt. 8 * k + bt) [0..<8]"
    by (simp add: map_add_upt [symmetric] add.commute)
  have l: "map f (filter (\<lambda>n. bit ((b # bs) ! (n div 8 - k)) (7 - n mod 8)) [8 * k..<8 * Suc k])
     = map (\<lambda>bt. f (8 * k + bt)) (filter (\<lambda>bt. bit b (7 - bt)) [0..<8])"
    unfolding e filter_map map_map comp_def
    by (intro arg_cong2 [of _ _ _ _ map] refl filter_cong ext) auto
  have h: "map f (filter (\<lambda>n. bit ((b # bs) ! (n div 8 - k)) (7 - n mod 8)) [8 * Suc k..<8 * (Suc k + length bs)])
     = map f (filter (\<lambda>n. bit (bs ! (n div 8 - Suc k)) (7 - n mod 8)) [8 * Suc k..<8 * (Suc k + length bs)])"
    by (intro arg_cong [of _ _ "map f"] filter_cong refl) (auto simp: nth_Cons' div_le_mono Suc_diff_Suc)
  show ?case
    by (simp only: r enumerate_simps list.map prod.case concat.simps Cons.IH filter_append map_append l h)
qed simp

text \<open>The supported PIDs are exactly the set bits of the bitmap, most significant bit of the first
  byte first, numbered from the base offset plus one; bytes behind the fourth are ignored.
\<close>

theorem supported_pids_are_the_bits:
  "supported_pids (parse_supported_pids bs mode base) =
     map (\<lambda>n. mode @ fmt02X (unat (base + of_nat n + 1)))
       (filter (\<lambda>n. bit (bs ! (n div 8)) (7 - n mod 8)) [0..<8 * min 4 (length bs)])"
proof -
  let ?f = "\<lambda>n. mode @ fmt02X (unat (base + of_nat n + 1))"
  have "support_bits mode base = (\<lambda>(i, b). map (\<lambda>bt. ?f (8 * i + bt)) (filter (\<lambda>bt. bit b (7 - bt)) [0..<8]))"
  proof (rule ext, clarify)
    fix i :: nat and b :: u8
    have "filter (\<lambda>bt. b AND drop_bit bt 0x80 \<noteq> 0) [0..<8] = filter (\<lambda>bt. bit b (7 - bt)) [0..<8]"
      by (rule filter_cong) (simp_all only: mask_bit atLeastLessThan_iff set_upt)
    then show "support_bits mode base (i, b) = map (\<lambda>bt. ?f (8 * i + bt)) (filter (\<lambda>bt. bit b (7 - bt)) [0..<8])"
      by (simp only: support_bits_def Let_def prod.case of_nat_add of_nat_mult) (simp add: algebra_simps)
  qed
  then have "supported_pids (parse_supported_pids bs mode base) =
      map ?f (filter (\<lambda>n. bit (take 4 bs ! (n div 8)) (7 - n mod 8)) [0..<8 * length (take 4 bs)])"
    using enumerate_bits [of ?f 0 "take 4 bs"] by (simp only: parse_supported_pids_def PidSupportResult.simps) simp
  also have "filter (\<lambda>n. bit (take 4 bs ! (n div 8)) (7 - n mod 8)) [0..<8 * length (take 4 bs)] =
      filter (\<lambda>n. bit (bs ! (n div 8)) (7 - n mod 8)) [0..<8 * min 4 (length bs)]"
    by (rule filter_cong) (auto simp: min.commute)
  finally show ?thesis .
qed

text \<open>The encoding of a trouble code: the specification inverse of \<^verbatim>\<open>decode_dtc\<close>.\<close>

definition dtc_bytes :: "string \<Rightarrow> (u8 \<times> u8) option" where
  "dtc_bytes s =
     (case s of [p, d1, d2, d3, d4] \<Rightarrow>
        (case (hexval d1, hexval d2, hexval d3, hexval d4) of
           (Some a, Some b, Some c, Some d) \<Rightarrow>
             (let k = (if p = CHR ''P'' then 0 else if p = CHR ''C'' then 1 else if p = CHR ''B'' then 2 else 3)
              in Some (of_nat (64 * k + 16 * a + b), of_nat (16 * c + d)))
         | _ \<Rightarrow> None)
      | _ \<Rightarrow> None)"

lemma hexstr_digit: "n < 16 \<Longrightarrow> hexstr n = [hexdigit n]"
  by (simp add: hexstr.simps)

lemma div64: "64 * (n div 64) + 16 * (n div 16 mod 4) + n mod 16 = (n :: nat)"
proof -
  have "n div 64 = n div 16 div 4" using div_mult2_eq [of n 16 4] by simp
  then have "4 * (n div 64) + n div 16 mod 4 = n div 16" by simp
  then have "16 * (4 * (n div 64) + n div 16 mod 4) + n mod 16 = n" by simp
  then show ?thesis by (simp add: distrib_left)
qed

lemma u8_split: "unat (a :: u8) = 64 * unat (drop_bit 6 a) + 16 * unat (drop_bit 4 a AND 3) + unat (a AND 0x0F)"
  "unat (drop_bit 6 a) < 4" "unat (drop_bit 4 a AND 3) < 4" "unat (a AND 0x0F) < 16"
  "unat a = 16 * unat (drop_bit 4 a) + unat (a AND 0x0F)" "unat (drop_bit 4 a) < 16"
proof -
  have m: "unat (x AND 3) = unat x mod 4" "unat (x AND 0x0F) = unat x mod 16" for x :: u8
    using take_bit_eq_mask [of 2 x] take_bit_eq_mask [of 4 x] unsigned_take_bit_eq [of 2 x, where 'a = nat]
      unsigned_take_bit_eq [of 4 x, where 'a = nat]
    by (simp_all add: mask_eq_exp_minus_1 and.commute take_bit_eq_mod)
  have d: "unat (drop_bit 6 a) = unat a div 64" "unat (drop_bit 4 a) = unat a div 16"
    by (simp_all add: unsigned_drop_bit_eq drop_bit_eq_div unat_div_distrib)
  have l: "unat a < 256" using unsigned_less [of a, where 'a = nat] by simp
  show "unat a = 64 * unat (drop_bit 6 a) + 16 * unat (drop_bit 4 a AND 3) + unat (a AND 0x0F)"
    "unat (drop_bit 6 a) < 4" "unat (drop_bit 4 a AND 3) < 4" "unat (a AND 0x0F) < 16"
    "unat a = 16 * unat (drop_bit 4 a) + unat (a AND 0x0F)" "unat (drop_bit 4 a) < 16"
    unfolding m d using l div64 [of "unat a"] by simp_all
qed

lemma prefix_cases: "k < 4 \<Longrightarrow> (let p = DTC_PREFIXES ! k in
    (if p = CHR ''P'' then 0 else if p = CHR ''C'' then 1 else if p = CHR ''B'' then 2 else 3 :: nat)) = k"
  by (auto simp: DTC_PREFIXES_def numeral_eq_Suc less_Suc_eq)

lemma dtc_inverse:
  assumes "decode_dtc a b = Some s"
  shows "dtc_bytes s = Some (a, b) \<and> length s = 5"
proof -
  note A = u8_split [of a] and B = u8_split [of b]
  from assms A(2-4) B(4,6) have s: "s = [DTC_PREFIXES ! unat (drop_bit 6 a), hexdigit (unat (drop_bit 4 a AND 3)),
      hexdigit (unat (a AND 0x0F)), hexdigit (unat (drop_bit 4 b)), hexdigit (unat (b AND 0x0F))]"
    by (simp add: decode_dtc_def hexstr_digit split: if_splits)
  have "of_nat (64 * unat (drop_bit 6 a) + 16 * unat (drop_bit 4 a AND 3) + unat (a AND 0x0F)) = a"
    "of_nat (16 * unat (drop_bit 4 b) + unat (b AND 0x0F)) = b"
    unfolding A(1) [symmetric] B(5) [symmetric] by simp_all
  with prefix_cases [OF A(2)] A(3,4) B(4,6) show ?thesis
    unfolding s dtc_bytes_def Let_def by (simp only: list.case hexval_hexdigit option.case prod.case) simp
qed

text \<open>Trouble codes survive the wire. From the count byte and any pairs of bytes, zero pairs as
  padding and a dangling byte included, the decoder yields one five-character code per pair that is
  not padding, in order, and the code's own encoding is that pair again.
\<close>

theorem dtcs_roundtrip:
  "codes (parse_dtcs (n # concat (map (\<lambda>(a, b). [a, b]) ps) @ take 1 dangling))
     = List.map_filter (\<lambda>(a, b). decode_dtc a b) ps
   \<and> map dtc_bytes (codes (parse_dtcs (n # concat (map (\<lambda>(a, b). [a, b]) ps) @ take 1 dangling)))
     = map Some (filter (\<lambda>p. p \<noteq> (0, 0)) ps)"
proof -
  let ?bs = "map (\<lambda>(a, b). [a, b :: u8]) ps"
  have "chunks 2 (concat ?bs @ take 1 dangling) = ?bs @ chunks 2 (take 1 dangling)"
    by (rule chunks_blocks) auto
  moreover have "takeWhile (\<lambda>c. length c \<ge> 2) (chunks 2 (take 1 dangling)) = []"
    by (cases dangling) (simp_all add: chunks_short)
  moreover have "takeWhile (\<lambda>c. length c \<ge> 2) (?bs @ xs) = ?bs @ takeWhile (\<lambda>c. length c \<ge> 2) xs" for xs
    by (rule takeWhile_append2) auto
  ultimately have c: "codes (parse_dtcs (n # concat ?bs @ take 1 dangling)) = List.map_filter decode_pair ?bs"
    by (simp add: parse_dtcs_def)
  also have "\<dots> = List.map_filter (\<lambda>(a, b). decode_dtc a b) ps"
    by (induction ps) (auto simp: List.map_filter_simps split: option.split)
  finally have 1: "codes (parse_dtcs (n # concat ?bs @ take 1 dangling)) = List.map_filter (\<lambda>(a, b). decode_dtc a b) ps" .
  have "map dtc_bytes (List.map_filter (\<lambda>(a, b). decode_dtc a b) ps) = map Some (filter (\<lambda>p. p \<noteq> (0, 0)) ps)"
  proof (induction ps)
    case (Cons p ps)
    then show ?case
      by (cases p; cases "decode_dtc (fst p) (snd p)")
         (auto simp: List.map_filter_simps dtc_inverse decode_dtc_def split: if_splits)
  qed (simp add: List.map_filter_simps)
  with 1 show ?thesis by simp
qed

definition block_bytes :: "Mode06TestResult \<Rightarrow> u8 list" where
  "block_bytes r =
     [mid r, tid r, uasid r, ucast (drop_bit 8 (test_value r)), ucast (test_value r),
      ucast (drop_bit 8 (min_limit r)), ucast (min_limit r), ucast (drop_bit 8 (max_limit r)), ucast (max_limit r)]"

lemma u16_be_inverse [simp]: "u16_of_be (ucast (drop_bit 8 w)) (ucast w) = w"
  unfolding u16_of_be_def by (rule bit_word_eqI) (auto simp: bit_simps)

text \<open>Mode 06 results survive the wire: the nine-byte blocks of any list of results, followed by an
  incomplete block, decode to exactly that list.
\<close>

theorem mode06_roundtrip:
  assumes "length rest < 9"
  shows "parse_mode06 (concat (map block_bytes rs) @ rest) = rs"
proof -
  have "chunks 9 (concat (map block_bytes rs) @ rest) = map block_bytes rs @ chunks 9 rest"
    by (rule chunks_blocks) (auto simp: block_bytes_def)
  moreover have "takeWhile (\<lambda>c. \<not> length c < 9) (chunks 9 rest) = []"
    using assms by (cases rest) (simp_all add: chunks_short)
  moreover have "takeWhile (\<lambda>c. \<not> length c < 9) (map block_bytes rs @ xs) = map block_bytes rs @ takeWhile (\<lambda>c. \<not> length c < 9) xs" for xs
    by (rule takeWhile_append2) (auto simp: block_bytes_def)
  moreover have "decode_block (block_bytes r) = r" for r
    by (simp add: decode_block_def block_bytes_def)
  ultimately show ?thesis by (simp add: parse_mode06_def comp_def)
qed

theorem mode06_roundtrip_witness:
  "parse_mode06 (concat (map block_bytes [\<lparr> mid = 1, tid = 0x80, uasid = 0x0A, test_value = 0x0B33, min_limit = 0, max_limit = 0x1234 \<rparr>]) @ [2, 3])
   = [\<lparr> mid = 1, tid = 0x80, uasid = 0x0A, test_value = 0x0B33, min_limit = 0, max_limit = 0x1234 \<rparr>]"
  by (rule mode06_roundtrip) simp

text \<open>The monitor status is read bit for bit: lamp, count, engine type and the two sets of flags of
  that engine type, the flags of the other engine type absent. A set bit of the fourth byte, which
  in J1979 means that the monitor is not complete, is reported as \<^verbatim>\<open>true\<close> completeness, and bits
  4 to 6 of the second byte are not read.
\<close>

theorem monitor_status_bits:
  "parse_monitor_status (a # b # c # d # rest) =
     Some \<lparr> mil_on = bit a 7, dtc_count = take_bit 7 a,
       engine_type = (if bit b 3 then ''diesel'' else ''gasoline''),
       continuous_monitors = \<lparr> misfire = bit b 0, fuel_system = bit b 1, component_monitor = bit b 2 \<rparr>,
       non_continuous_availability = (if bit b 3 then parse_diesel_monitors c else parse_gasoline_monitors c),
       non_continuous_completeness = (if bit b 3 then parse_diesel_monitors d else parse_gasoline_monitors d) \<rparr>
   \<and> parse_monitor_status (a # b # c # d # rest) = parse_monitor_status [a, b AND 0x0F, c, d]
   \<and> (egr_system (parse_gasoline_monitors d) = Some (bit d 7) \<and> catalyst (parse_gasoline_monitors d) = Some (bit d 0))"
proof -
  have m: "x AND 0x80 \<noteq> 0 \<longleftrightarrow> bit x 7" "x AND 0x08 \<noteq> 0 \<longleftrightarrow> bit x 3" "x AND 0x01 \<noteq> 0 \<longleftrightarrow> bit x 0"
    "x AND 0x02 \<noteq> 0 \<longleftrightarrow> bit x 1" "x AND 0x04 \<noteq> 0 \<longleftrightarrow> bit x 2" for x :: u8
    using mask_bit [of 0 x] mask_bit [of 4 x] mask_bit [of 7 x] mask_bit [of 6 x] mask_bit [of 5 x]
    by (simp_all add: drop_bit_eq_div)
  have t: "a AND 0x7F = take_bit 7 a" by (simp add: take_bit_eq_mask mask_eq_exp_minus_1)
  have b: "bit (b AND 0x0F) 0 = bit b 0" "bit (b AND 0x0F) (Suc 0) = bit b (Suc 0)" "bit (b AND 0x0F) 2 = bit b 2"
    "bit (b AND 0x0F) 3 = bit b 3"
    by (simp_all add: bit_simps bit_numeral_rec)
  show ?thesis
    unfolding parse_monitor_status_def parse_gasoline_monitors_def Let_def
    by (simp add: m t b)
qed

end
