(* ===== verification/LengthCache.thy ===== *)
theory LengthCache
  imports ChunkSplitter
begin

text \<open>
  The learned PID lengths (\<^verbatim>\<open>src/length_cache.rs\<close>): the cache with its file, and the learning of
  a length from a plain single-PID reply. The disk is a map from paths to contents; a content is
  the JSON of a map or text that does not parse as one (\<^verbatim>\<open>serde_json\<close> is trusted to read back
  what it wrote, and a write is taken to succeed: the code ignores its result).
\<close>

datatype file_content = Json "string \<Rightarrow> u8 option" | Unreadable

type_synonym disk = "string \<Rightarrow> file_content option"

record LengthCache =
  lengths :: "string \<Rightarrow> u8 option"
  store_file :: "string option"

definition lc_new :: LengthCache where
  "lc_new = \<lparr> lengths = Map.empty, store_file = None \<rparr>"

definition lengths_path :: "string \<Rightarrow> string \<Rightarrow> string" where
  "lengths_path cache_path vin = cache_path @ ''/'' @ vin @ ''.lengths''"

definition load_for_vin :: "string \<Rightarrow> string \<Rightarrow> disk \<Rightarrow> LengthCache \<Rightarrow> LengthCache" where
  "load_for_vin cache_path vin d c =
     \<lparr> lengths = (case d (lengths_path cache_path vin) of Some (Json m) \<Rightarrow> m | _ \<Rightarrow> Map.empty),
       store_file = Some (lengths_path cache_path vin) \<rparr>"

definition lc_get :: "LengthCache \<Rightarrow> string \<Rightarrow> u8 option" where
  "lc_get c pid = lengths c (to_uppercase pid)"

definition persist :: "LengthCache \<Rightarrow> disk \<Rightarrow> disk" where
  "persist c d = (case store_file c of None \<Rightarrow> d | Some f \<Rightarrow> d(f \<mapsto> Json (lengths c)))"

definition lc_put :: "string \<Rightarrow> u8 \<Rightarrow> LengthCache \<Rightarrow> disk \<Rightarrow> LengthCache \<times> disk" where
  "lc_put k len c d = (let c' = c \<lparr> lengths := (lengths c)(k \<mapsto> len) \<rparr> in (c', persist c' d))"

definition lc_seed :: "string \<Rightarrow> u8 \<Rightarrow> LengthCache \<Rightarrow> disk \<Rightarrow> LengthCache \<times> disk" where
  "lc_seed pid len c d =
     (let k = to_uppercase pid in if lengths c k \<noteq> None then (c, d) else lc_put k len c d)"

definition lc_record :: "string \<Rightarrow> u8 \<Rightarrow> LengthCache \<Rightarrow> disk \<Rightarrow> LengthCache \<times> disk" where
  "lc_record pid len c d =
     (let k = to_uppercase pid in if lengths c k = Some len then (c, d) else lc_put k len c d)"

definition lc_invalidate :: "string \<Rightarrow> LengthCache \<Rightarrow> disk \<Rightarrow> LengthCache \<times> disk" where
  "lc_invalidate pid c d =
     (let k = to_uppercase pid
      in if lengths c k \<noteq> None
         then (let c' = c \<lparr> lengths := (lengths c)(k := None) \<rparr> in (c', persist c' d))
         else (c, d))"

definition observed_len :: "string \<Rightarrow> Payload list \<Rightarrow> u8 option" where
  "observed_len pid0 payloads =
     (let pid = to_uppercase pid0;
          hex = (\<lambda>i. u8_from_hex (take 2 (drop i pid)));
          echo = (if take 2 pid = ''01'' \<and> length pid = 4
                  then (case hex 2 of None \<Rightarrow> None | Some a \<Rightarrow> Some [0x41, a])
                  else if take 2 pid = ''22'' \<and> length pid = 6
                  then (case (hex 2, hex 4) of (Some a, Some b) \<Rightarrow> Some [0x62, a, b] | _ \<Rightarrow> None)
                  else None)
      in case echo of
           None \<Rightarrow> None
         | Some e \<Rightarrow>
             (case find (\<lambda>p. take (length e) (bytes p) = e) payloads of
                None \<Rightarrow> None
              | Some p \<Rightarrow>
                  (let n = length (bytes p) - length e
                   in if n = 0 \<or> n > 255 then None else Some (of_nat n))))"

section \<open>The file follows the cache\<close>

datatype lc_op = Seed string u8 | Record string u8 | Invalidate string

fun lc_step :: "lc_op \<Rightarrow> LengthCache \<times> disk \<Rightarrow> LengthCache \<times> disk" where
  "lc_step (Seed p l) (c, d) = lc_seed p l c d"
| "lc_step (Record p l) (c, d) = lc_record p l c d"
| "lc_step (Invalidate p) (c, d) = lc_invalidate p c d"

text \<open>What a restart would load from the file.\<close>

definition on_disk :: "disk \<Rightarrow> string \<Rightarrow> string \<Rightarrow> u8 option" where
  "on_disk d f = (case d f of Some (Json m) \<Rightarrow> m | _ \<Rightarrow> Map.empty)"

definition synced :: "string \<Rightarrow> LengthCache \<times> disk \<Rightarrow> bool" where
  "synced f cd \<longleftrightarrow> store_file (fst cd) = Some f \<and> on_disk (snd cd) f = lengths (fst cd)"

lemma lc_step_synced: "synced f cd \<Longrightarrow> synced f (lc_step op cd)"
  by (cases op; cases cd)
     (auto simp: synced_def on_disk_def lc_seed_def lc_record_def lc_invalidate_def lc_put_def persist_def Let_def)

text \<open>Learned lengths survive a restart. After a vehicle's lengths were loaded, any run of seeds,
  observations and invalidations leaves a file from which a fresh cache for that vehicle loads
  exactly the lengths in memory; another vehicle's cache never sees them.
\<close>

theorem lengths_survive_restart:
  assumes "(c, d') = fold lc_step ops (load_for_vin path vin d c0, d)"
  shows "lengths (load_for_vin path vin d' lc_new) = lengths c
    \<and> (length vin2 = length vin \<and> vin2 \<noteq> vin \<longrightarrow>
         lengths (load_for_vin path vin2 d' lc_new) = lengths (load_for_vin path vin2 d lc_new))"
proof -
  let ?f = "lengths_path path vin"
  have "synced ?f (load_for_vin path vin d c0, d)"
    by (simp add: synced_def on_disk_def load_for_vin_def)
  then have "synced ?f (fold lc_step ops (load_for_vin path vin d c0, d))"
    by (induction ops arbitrary: d c0 rule: rev_induct) (auto intro: lc_step_synced)
  with assms have s: "synced ?f (c, d')" by simp
  have keep: "store_file (fst cd) = Some ?f \<Longrightarrow> g \<noteq> ?f \<Longrightarrow>
      snd (fold lc_step ops cd) g = snd cd g \<and> store_file (fst (fold lc_step ops cd)) = Some ?f" for g cd
  proof (induction ops rule: rev_induct)
    case (snoc op ops)
    then show ?case
      by (cases op; cases "fold lc_step ops cd")
         (auto simp: lc_seed_def lc_record_def lc_invalidate_def lc_put_def persist_def Let_def)
  qed simp
  have "vin2 \<noteq> vin \<Longrightarrow> length vin2 = length vin \<Longrightarrow> lengths_path path vin2 \<noteq> ?f"
    by (simp add: lengths_path_def)
  with keep [of "(load_for_vin path vin d c0, d)" "lengths_path path vin2"] assms [symmetric]
  have "vin2 \<noteq> vin \<Longrightarrow> length vin2 = length vin \<Longrightarrow> d' (lengths_path path vin2) = d (lengths_path path vin2)"
    by (simp add: load_for_vin_def)
  with s show ?thesis by (simp add: synced_def on_disk_def load_for_vin_def)
qed

theorem lengths_survive_restart_witness:
  "lengths (load_for_vin ''c'' ''V1''
     (snd (fold lc_step [Record ''010c'' 2, Seed ''010C'' 9, Record ''010D'' 3, Invalidate ''010d'']
        (load_for_vin ''c'' ''V1'' Map.empty lc_new, Map.empty))) lc_new) ''010C'' = Some 2"
proof -
  define r where "r = fold lc_step [Record ''010c'' 2, Seed ''010C'' 9, Record ''010D'' 3, Invalidate ''010d'']
        (load_for_vin ''c'' ''V1'' Map.empty lc_new, Map.empty)"
  have "(fst r, snd r) = fold lc_step [Record ''010c'' 2, Seed ''010C'' 9, Record ''010D'' 3, Invalidate ''010d'']
        (load_for_vin ''c'' ''V1'' Map.empty lc_new, Map.empty)" by (simp add: r_def)
  from lengths_survive_restart [OF this, of "[]"]
  have "lengths (load_for_vin ''c'' ''V1'' (snd r) lc_new) = lengths (fst r)" by simp
  moreover have "lengths (fst r) ''010C'' = Some 2"
    unfolding r_def by code_simp
  ultimately show ?thesis by (simp add: r_def)
qed

section \<open>Learning and slicing agree\<close>

lemma pad0_Suc:
  assumes "0 < k"
  shows "pad0 (Suc k) (hexstr n) = pad0 k (hexstr (n div 16)) @ [hexdigit (n mod 16)]"
proof (cases "n < 16")
  case True
  have "hexdigit 0 = CHR ''0''" by code_simp
  moreover from assms obtain j where "k = Suc j" by (cases k) auto
  ultimately show ?thesis
    using True by (simp add: pad0_def hexstr.simps [of n] hexstr.simps [of 0] replicate_append_same)
next
  case False
  then show ?thesis by (simp add: pad0_def hexstr.simps [of n])
qed

lemma pad0_one: "n < 16 \<Longrightarrow> pad0 1 (hexstr n) = [hexdigit n]"
  by (simp add: pad0_def hexstr.simps)

lemma pad0_four: "pad0 4 (hexstr n) = pad0 2 (hexstr (n div 256)) @ pad0 2 (hexstr (n mod 256))"
proof -
  have d: "n div 16 div 16 = n div 256" by (simp add: div_mult2_eq [symmetric])
  have m: "n div 16 mod 16 = n mod 256 div 16" "n mod 16 = n mod 256 mod 16"
    using mod_mult2_eq [of n 16 16] by (simp_all add: mod_mod_cancel)
  have 1: "pad0 4 (hexstr n) = pad0 3 (hexstr (n div 16)) @ [hexdigit (n mod 16)]"
    using pad0_Suc [of 3 n] by simp
  have 2: "pad0 3 (hexstr (n div 16)) = pad0 2 (hexstr (n div 256)) @ [hexdigit (n mod 256 div 16)]"
    using pad0_Suc [of 2 "n div 16"] by (simp add: d m(1))
  have "n mod 256 div 16 < 16" by (simp add: div_less_iff_less_mult)
  then have 3: "pad0 2 (hexstr (n mod 256)) = [hexdigit (n mod 256 div 16), hexdigit (n mod 256 mod 16)]"
    using pad0_Suc [of 1 "n mod 256"] pad0_one [of "n mod 256 div 16"] by (simp only: Suc_1 [symmetric]) simp
  show ?thesis by (simp only: 1 2 3 m(2) append_assoc append_Cons append_Nil)
qed

text \<open>The echo that \<^verbatim>\<open>observed_len\<close> looks for is the one the splitter scans for.\<close>

definition observed_echo :: "string \<Rightarrow> u8 list option" where
  "observed_echo pid =
     (let hex = (\<lambda>i. u8_from_hex (take 2 (drop i pid)))
      in if take 2 pid = ''01'' \<and> length pid = 4
         then (case hex 2 of None \<Rightarrow> None | Some a \<Rightarrow> Some [0x41, a])
         else if take 2 pid = ''22'' \<and> length pid = 6
         then (case (hex 2, hex 4) of (Some a, Some b) \<Rightarrow> Some [0x62, a, b] | _ \<Rightarrow> None)
         else None)"

lemma echo_of_member:
  assumes "echo_ok m e"
  shows "observed_echo (member_pid m e) = Some (mode_reply m # echo_bytes m e)"
proof (cases m)
  case Mode01
  with assms have "unat e < 256" by (simp add: echo_ok_def word_le_nat_alt)
  then have "u8_from_hex (fmt02X (unat e)) = Some (of_nat (unat e))" "length (fmt02X (unat e)) = 2"
    by (simp_all add: u8_from_hex_fmt_nat fmt02X_length)
  with Mode01 show ?thesis
    by (simp add: observed_echo_def member_pid_def mode_text_def mode_reply_def echo_bytes_def Let_def)
next
  case Mode22
  have l: "unat e < 65536" using unsigned_less [of e, where 'a = nat] by simp
  then have d: "unat e div 256 < 256" by simp
  have f: "pad0 4 (hexstr (unat e)) = fmt02X (unat e div 256) @ fmt02X (unat e mod 256)"
    by (simp only: pad0_four fmt02X_def)
  have u: "u8_from_hex (fmt02X (unat e div 256)) = Some (of_nat (unat e div 256))"
    "u8_from_hex (fmt02X (unat e mod 256)) = Some (of_nat (unat e mod 256))"
    "length (fmt02X (unat e div 256)) = 2" "length (fmt02X (unat e mod 256)) = 2"
    using d by (simp_all add: u8_from_hex_fmt_nat fmt02X_length)
  have w: "of_nat (unat e div 256) = (ucast (drop_bit 8 e) :: u8)" "of_nat (unat e mod 256) = (ucast e :: u8)"
    using d by (simp_all add: word_unat_eq_iff unsigned_ucast_eq unat_of_nat unsigned_take_bit_eq
        drop_bit_eq_div unat_div_distrib take_bit_eq_mod)
  with Mode22 u show ?thesis
    by (simp add: observed_echo_def member_pid_def mode_text_def mode_reply_def echo_bytes_def Let_def f)
qed

lemma observed_len_echo:
  "observed_len pid ps =
     (case observed_echo (to_uppercase pid) of
        None \<Rightarrow> None
      | Some e \<Rightarrow>
          (case find (\<lambda>p. take (length e) (bytes p) = e) ps of
             None \<Rightarrow> None
           | Some p \<Rightarrow>
               (let n = length (bytes p) - length e in if n = 0 \<or> n > 255 then None else Some (of_nat n))))"
  by (simp only: observed_len_def observed_echo_def Let_def)

text \<open>What is learned from a solo reply is what the splitter needs. When a length is learned for a
  member from some payloads, one of them is a reply to that member whose data has that length, and
  the splitter given the learned length takes exactly that data out of it.
\<close>

theorem learned_length_slices:
  assumes "echo_ok m e" and "observed_len (member_pid m e) ps = Some l"
  shows "\<exists>p \<in> set ps. \<exists>d out. bytes p = mode_reply m # echo_bytes m e @ d \<and> unat l = length d \<and> 0 < length d
    \<and> split_multi_pid [(member_pid m e, l)] [p] = Ok out
    \<and> lookup_member out (member_pid m e) (controller p) = Some (member_response m (controller p) e d)"
proof -
  let ?e = "mode_reply m # echo_bytes m e"
  from assms obtain p where p: "find (\<lambda>p. take (length ?e) (bytes p) = ?e) ps = Some p"
    "0 < length (bytes p) - length ?e" "length (bytes p) - length ?e \<le> 255" "l = of_nat (length (bytes p) - length ?e)"
    by (auto simp: observed_len_echo echo_of_member Let_def split: option.splits if_splits)
  define d where "d = drop (length ?e) (bytes p)"
  from p(1) have ps: "p \<in> set ps" "take (length ?e) (bytes p) = ?e" by (auto simp: find_Some_iff)
  then have b: "bytes p = mode_reply m # echo_bytes m e @ d"
    unfolding d_def by (metis append_Cons append_take_drop_id)
  have len: "length (bytes p) - length ?e = length d" by (simp only: d_def length_drop)
  from p(2-4) have l: "unat l = length d" "0 < length d"
    unfolding len by (simp_all add: unat_of_nat)
  have "p = payload_for m (controller p, [(e, d)], 0)"
    using b by (simp add: payload_for_def encode_items_def)
  moreover have "\<exists>out. split_multi_pid (request_members m [(e, l)]) (map (payload_for m) [(controller p, [(e, d)], 0)]) = Ok out
    \<and> (\<forall>e' \<in> fst ` set [(e, l)]. \<forall>ctrl.
         lookup_member out (member_pid m e') ctrl =
           (case map_of [(controller p, [(e, d)], 0 :: nat)] ctrl of
              None \<Rightarrow> None
            | Some (items, _) \<Rightarrow> map_option (member_response m ctrl e') (map_of items e')))"
    by (rule split_exact) (use assms(1) l in \<open>simp_all add: reply_ok_def\<close>)
  ultimately obtain out where o: "split_multi_pid [(member_pid m e, l)] [p] = Ok out"
    "\<forall>ctrl. lookup_member out (member_pid m e) ctrl =
       (case map_of [(controller p, [(e, d)], 0 :: nat)] ctrl of
          None \<Rightarrow> None | Some (items, _) \<Rightarrow> map_option (member_response m ctrl e) (map_of items e))"
    by (auto simp only: request_members_def list.map prod.case list.set image_insert image_empty fst_conv
        ball_simps simp_thms)
  from o(2) have "lookup_member out (member_pid m e) (controller p) = Some (member_response m (controller p) e d)"
    by simp
  with b l ps(1) o(1) show ?thesis by blast
qed

theorem learned_length_slices_witness:
  "observed_len (member_pid Mode01 0x0C)
     [\<lparr> controller = ''7E8'', bytes = [0x7F, 1, 0x12] \<rparr>, \<lparr> controller = ''7E0'', bytes = [0x41, 0x0C, 0x1A, 0xF8] \<rparr>] = Some 2
   \<and> (\<exists>p \<in> set [\<lparr> controller = ''7E8'', bytes = [0x7F, 1, 0x12] \<rparr>, \<lparr> controller = ''7E0'', bytes = [0x41, 0x0C, 0x1A, 0xF8] \<rparr>].
        \<exists>d. bytes p = 0x41 # 0x0C # d \<and> length d = 2)"
proof -
  have 1: "observed_len (member_pid Mode01 0x0C)
     [\<lparr> controller = ''7E8'', bytes = [0x7F, 1, 0x12] \<rparr>, \<lparr> controller = ''7E0'', bytes = [0x41, 0x0C, 0x1A, 0xF8] \<rparr>] = Some 2"
    by code_simp
  have 2: "echo_ok Mode01 0x0C" by (simp add: echo_ok_def)
  from learned_length_slices [OF 2 1] 1 show ?thesis
    by (fastforce simp: mode_reply_def echo_bytes_def)
qed

end
