(* ===== verification/ElmWire.thy ===== *)
theory ElmWire
  imports ChunkSplitter
begin

text \<open>
  The text dialect of the link (the pure half of \<^verbatim>\<open>src/link/elm.rs\<close>, and \<^verbatim>\<open>LinkReply\<close> of
  \<^verbatim>\<open>src/link/mod.rs\<close>): how member PIDs become the wire string, how the reply text becomes typed
  replies, one per pipe segment, and how one line of monitor output becomes an event. The clock
  that stamps a monitored frame is a parameter.
\<close>

section \<open>Typed replies\<close>

record LinkReply =
  status :: LinkStatus
  parsed :: "ParsedResponse option"
  faulted :: bool
  payloads :: "Payload list"
  raw :: string

record WireReply =
  wr_raw :: string
  segments :: "LinkReply list"

definition reply_from_payloads :: "string \<Rightarrow> LinkStatus \<Rightarrow> bool \<Rightarrow> Payload list \<Rightarrow> string \<Rightarrow> LinkReply" where
  "reply_from_payloads command st flt ps txt =
     \<lparr> status = st, parsed = from_payloads command ps, faulted = flt, payloads = ps, raw = txt \<rparr>"

definition timeout_reply :: LinkReply where
  "timeout_reply = \<lparr> status = Timeout, parsed = None, faulted = False, payloads = [], raw = [] \<rparr>"

definition ack_reply :: LinkReply where
  "ack_reply = \<lparr> status = Chatter, parsed = None, faulted = False, payloads = [], raw = ''OK'' \<rparr>"

definition parsed_for :: "LinkReply \<Rightarrow> string \<Rightarrow> ParsedResponse option" where
  "parsed_for r command = from_payloads command (payloads r)"

definition answered :: "LinkReply \<Rightarrow> bool" where
  "answered r \<longleftrightarrow> status r \<noteq> Timeout"

definition is_data :: "LinkReply \<Rightarrow> bool" where
  "is_data r \<longleftrightarrow> status r = StOk"

definition is_clean :: "LinkReply \<Rightarrow> bool" where
  "is_clean r \<longleftrightarrow> answered r \<and> \<not> faulted r"

definition clean_parsed :: "LinkReply \<Rightarrow> ParsedResponse option" where
  "clean_parsed r = (if faulted r then None else parsed r)"

section \<open>The wire\<close>

text \<open>Indexing an empty segment, and slicing two bytes off a shorter member, panic.\<close>

definition join_chunk_wire :: "string list \<Rightarrow> ('e, string) outcome" where
  "join_chunk_wire members =
     (case members of
        [] \<Rightarrow> Panic
      | [p] \<Rightarrow> Ok p
      | p # _ \<Rightarrow>
          if length p < 2 then Panic
          else (let mode = take 2 p
                in Ok (mode @ concat (map (\<lambda>q. case strip_prefix q mode of None \<Rightarrow> q | Some s \<Rightarrow> s) members))))"

fun map_outcome :: "('a \<Rightarrow> ('e, 'b) outcome) \<Rightarrow> 'a list \<Rightarrow> ('e, 'b list) outcome" where
  "map_outcome f [] = Ok []"
| "map_outcome f (x # xs) = and_then (f x) (\<lambda>y. and_then (map_outcome f xs) (\<lambda>ys. Ok (y # ys)))"

definition encode_wire :: "string list list \<Rightarrow> ('e, string) outcome" where
  "encode_wire segs = and_then (map_outcome join_chunk_wire segs) (\<lambda>ws. Ok (join ''|'' ws))"

definition is_pipe :: "char \<Rightarrow> bool" where
  "is_pipe c \<longleftrightarrow> c = CHR ''|''"

definition split_pipe_segments :: "string \<Rightarrow> string list" where
  "split_pipe_segments blob =
     map (trim_matches (\<lambda>c. c = CHR 0x0D \<or> c = CHR 0x0A \<or> c = CHR '' '')) (split_on is_pipe blob)"

definition decode_segment :: "key_order \<Rightarrow> string \<Rightarrow> string \<Rightarrow> Bus \<Rightarrow> ('e, LinkReply) outcome" where
  "decode_segment ord wire txt bus =
     and_then (text_payloads ord wire txt bus) (\<lambda>ps.
       Ok (reply_from_payloads wire (classify_text (Some txt))
             (contains txt ''NO DATA'' \<or> contains txt ''ERROR'') ps txt))"

definition decode_wire :: "key_order \<Rightarrow> string \<Rightarrow> string \<Rightarrow> Bus \<Rightarrow> ('e, WireReply) outcome" where
  "decode_wire ord command txt bus =
     and_then
       (if contains command ''|''
        then map_outcome (\<lambda>(seg, wire). decode_segment ord wire seg bus)
               (zip (split_pipe_segments txt) (split_on is_pipe command))
        else and_then (decode_segment ord command txt bus) (\<lambda>r. Ok [r]))
       (\<lambda>rs. Ok \<lparr> wr_raw = txt, segments = rs \<rparr>)"

section \<open>Monitor lines\<close>

record Frame =
  frame_id :: string
  extended :: bool
  ts_us :: nat
  frame_data :: "u8 list"
  frame_raw :: string

datatype LinkEvent = FrameEvent Frame | StoppedEvent | TextEvent string

definition hex_byte_token :: "string \<Rightarrow> bool" where
  "hex_byte_token t \<longleftrightarrow> length t = 2 \<and> is_hex t"

definition monitor_header :: "Bus \<Rightarrow> string list \<Rightarrow> (string \<times> bool \<times> nat) option" where
  "monitor_header bus tokens =
     (if (case addressing bus of Can29 _ \<Rightarrow> True | Can11 \<Rightarrow> False) \<and> length tokens \<ge> 4
           \<and> list_all hex_byte_token (take 4 tokens)
      then Some (to_uppercase (concat (take 4 tokens)), True, 4)
      else if length (tokens ! 0) = 3 \<and> is_hex (tokens ! 0) then Some (to_uppercase (tokens ! 0), False, 1)
      else if length (tokens ! 0) = 8 \<and> is_hex (tokens ! 0) then Some (to_uppercase (tokens ! 0), True, 1)
      else None)"

definition parse_monitor_line :: "nat \<Rightarrow> string \<Rightarrow> Bus \<Rightarrow> LinkEvent option" where
  "parse_monitor_line now line0 bus =
     (let line = trim (dropWhile (\<lambda>c. c = CHR ''>'') (trim line0)) in
      if line = [] then None
      else if contains (to_uppercase line) ''STOPPED'' then Some StoppedEvent
      else
        let tokens = split_whitespace line in
        case monitor_header bus tokens of
          None \<Rightarrow> Some (TextEvent line)
        | Some (i, ext, n) \<Rightarrow>
            (let rest = drop n tokens in
             if rest = [] \<or> \<not> list_all hex_byte_token rest then Some (TextEvent line)
             else Some (FrameEvent \<lparr> frame_id = i, extended = ext, ts_us = now,
                    frame_data = List.map_filter u8_from_hex rest, frame_raw = line \<rparr>)))"

section \<open>Wire properties\<close>

lemma map_outcome_Ok: "map_outcome f xs = Ok ys \<longleftrightarrow> list_all2 (\<lambda>x y. f x = Ok y) xs ys"
  by (induction xs arbitrary: ys) (auto simp: and_then_Ok list_all2_Cons1)

lemma join_chunk_no_pipe:
  "join_chunk_wire ms = Ok w \<Longrightarrow> \<forall>m \<in> set ms. \<forall>c \<in> set m. \<not> is_pipe c \<Longrightarrow> \<forall>c \<in> set w. \<not> is_pipe c"
  by (auto simp: join_chunk_wire_def Let_def strip_prefix_def split: list.splits if_splits option.splits
      dest!: in_set_takeD in_set_dropD)

lemma contains_char: "contains s [c] \<longleftrightarrow> c \<in> set s"
  by (induction s) (auto simp: starts_with_def)

lemma join_pipe_set: "CHR ''|'' \<in> set (join ''|'' ws) \<longleftrightarrow> 2 \<le> length ws \<or> (\<exists>w \<in> set ws. CHR ''|'' \<in> set w)"
  by (induction ws rule: induct_list012) auto

definition strip_segment :: "string \<Rightarrow> string" where
  "strip_segment t = trim_matches (\<lambda>c. c = CHR 0x0D \<or> c = CHR 0x0A \<or> c = CHR '' '') t"

lemma split_join_pipe:
  assumes "ws \<noteq> []" and "\<forall>w \<in> set ws. CHR ''|'' \<notin> set w"
  shows "split_on is_pipe (join ''|'' ws) = ws"
proof (rule split_on_join)
  show "\<forall>w \<in> set ws. \<forall>x \<in> set w. \<not> is_pipe x" using assms(2) by (auto simp: is_pipe_def)
qed (use assms(1) in \<open>simp_all add: is_pipe_def\<close>)

text \<open>Pipe segments are positional. For a wire of several segments whose members contain no pipe
  character, and a reply that mirrors the pipes (with any number of segments up to that of the
  wire), segment \<open>j\<close> of the reply is decoded, trimmed, as the reply to the chunk of segment \<open>j\<close> of
  the request and to nothing else.
\<close>

theorem pipe_segments_positional:
  assumes "(encode_wire segs :: (unit, string) outcome) = Ok w" and "2 \<le> length segs"
    and "\<forall>seg \<in> set segs. \<forall>p \<in> set seg. CHR ''|'' \<notin> set p"
    and "texts \<noteq> []" and "\<forall>t \<in> set texts. CHR ''|'' \<notin> set t"
  shows "\<exists>ws. list_all2 (\<lambda>seg c. (join_chunk_wire seg :: (unit, string) outcome) = Ok c) segs ws
    \<and> (decode_wire ord w (join ''|'' texts) bus :: (unit, WireReply) outcome) =
        and_then (map_outcome (\<lambda>(t, c). decode_segment ord c (strip_segment t) bus) (zip texts ws))
          (\<lambda>rs. Ok \<lparr> wr_raw = join ''|'' texts, segments = rs \<rparr>)"
proof -
  from assms(1) obtain ws where ws: "(map_outcome join_chunk_wire segs :: (unit, _) outcome) = Ok ws" "w = join ''|'' ws"
    by (auto simp: encode_wire_def and_then_Ok)
  then have l2: "list_all2 (\<lambda>seg c. (join_chunk_wire seg :: (unit, string) outcome) = Ok c) segs ws" by (simp add: map_outcome_Ok)
  then have len: "length ws = length segs" by (simp add: list_all2_lengthD)
  have np: "\<forall>c \<in> set ws. CHR ''|'' \<notin> set c"
  proof
    fix c assume "c \<in> set ws"
    then obtain i where i: "i < length ws" "ws ! i = c" by (auto simp: in_set_conv_nth)
    with l2 len have "(join_chunk_wire (segs ! i) :: (unit, string) outcome) = Ok c" "segs ! i \<in> set segs" by (auto simp: list_all2_conv_all_nth)
    with join_chunk_no_pipe [of "segs ! i" c] assms(3) show "CHR ''|'' \<notin> set c" by (auto simp: is_pipe_def)
  qed
  have wne: "ws \<noteq> []" using len assms(2) by auto
  have "contains w ''|''" using len assms(2) by (simp add: ws(2) contains_char join_pipe_set)
  moreover have "split_on is_pipe w = ws" unfolding ws(2) by (rule split_join_pipe [OF wne np])
  moreover have "split_pipe_segments (join ''|'' texts) = map strip_segment texts"
    by (simp add: split_pipe_segments_def split_join_pipe [OF assms(4,5)] strip_segment_def [abs_def])
  moreover have "map_outcome (\<lambda>(seg, wire). decode_segment ord wire seg bus) (zip (map strip_segment ts) cs)
     = (map_outcome (\<lambda>(t, c). decode_segment ord c (strip_segment t) bus) (zip ts cs) :: (unit, LinkReply list) outcome)" for ts cs
    by (induction ts cs rule: list_induct2') simp_all
  ultimately show ?thesis using l2 by (auto simp: decode_wire_def)
qed

theorem pipe_segments_positional_witness:
  "\<exists>ws. list_all2 (\<lambda>seg c. (join_chunk_wire seg :: (unit, string) outcome) = Ok c) [[''010C'', ''010D''], [''22F40C'']] ws
    \<and> (decode_wire id ''010C0D|22F40C'' (join ''|'' [''7E8 06 41 0C 1A F8 0D 20'', ''NO DATA'']) (bus_of Can11) :: (unit, WireReply) outcome) =
        and_then (map_outcome (\<lambda>(t, c). decode_segment id c (strip_segment t) (bus_of Can11))
            (zip [''7E8 06 41 0C 1A F8 0D 20'', ''NO DATA''] ws))
          (\<lambda>rs. Ok \<lparr> wr_raw = join ''|'' [''7E8 06 41 0C 1A F8 0D 20'', ''NO DATA''], segments = rs \<rparr>)"
proof (rule pipe_segments_positional)
  show "(encode_wire [[''010C'', ''010D''], [''22F40C'']] :: (unit, string) outcome) = Ok ''010C0D|22F40C''" by code_simp
qed simp_all

section \<open>Monitored frames\<close>

lemma upper_hexdigit_char: "is_hexdigit c \<Longrightarrow> is_hexdigit (upper_char c)"
  by (simp add: is_hexdigit_def)

lemma no_stopped:
  assumes "\<forall>c \<in> set s. is_hexdigit c \<or> c = CHR '' ''"
  shows "\<not> contains (to_uppercase s) ''STOPPED''"
proof -
  have S: "\<not> (is_hexdigit CHR ''S'' \<or> CHR ''S'' = CHR '' '')" by (simp add: is_hexdigit_def hexval_def char_code_def)
  have sp: "upper_char CHR '' '' = CHR '' ''" by (simp add: upper_char_def char_code_def)
  have "\<forall>c \<in> set t. is_hexdigit c \<or> c = CHR '' '' \<Longrightarrow> \<not> contains t ''STOPPED''" for t
    using S by (induction t) (auto simp: starts_with_def)
  moreover have "\<forall>c \<in> set (to_uppercase s). is_hexdigit c \<or> c = CHR '' ''"
    using assms sp by (auto simp: to_uppercase_def upper_hexdigit_char)
  ultimately show ?thesis by blast
qed

lemma hex_token_byte [simp]: "hex_byte_token (hex_token b)"
  by (simp add: hex_byte_token_def hex_token_def)

lemma wire_header_upper: "answers bus c \<Longrightarrow> to_uppercase (concat (wire_header bus c)) = concat (wire_header bus c)"
  by (simp add: wire_header_def upper_append split: Addressing.split)

lemma wire_header_shape:
  assumes "answers bus c"
  shows "case addressing bus of
      Can11 \<Rightarrow> \<exists>h. wire_header bus c = [h] \<and> length h = 3 \<and> is_hex h
    | Can29 _ \<Rightarrow> length (wire_header bus c) = 4 \<and> list_all hex_byte_token (wire_header bus c)"
proof (cases "addressing bus")
  case Can11
  from ctl_id_shift [OF assms Can11] have s: "unat (ctl_id c) + 8 = unat (ctl_id c + 8)" "ctl_id c + 8 \<le> 0x7EF" by auto
  have "ctl_id c + 8 \<le> 0x7FF" by (rule order_trans [OF s(2)]) simp
  with s(1) show ?thesis using Can11 fmt03X_length11 [of "ctl_id c + 8"] by (simp add: wire_header_def)
next
  case (Can29 t)
  with assms have "unat (ctl_id c) < 256" by (simp add: answers_def word_le_nat_alt)
  moreover have "hex_byte_token ''18''" "hex_byte_token ''DA''" by code_simp+
  ultimately show ?thesis using Can29 by (simp add: wire_header_def hex_byte_token_def fmt02X_length)
qed

text \<open>A monitored CAN frame survives the text of the adapter. The line that prints a frame of a
  controller, behind any number of prompts and blanks, parses to exactly that frame: its bytes,
  its width flag, its text, and as id the key that \<^verbatim>\<open>Bus::monitor_id\<close> computes for the same line.
\<close>

theorem monitor_frame_roundtrip:
  assumes "answers bus (fst f)" and "snd f \<noteq> []"
  shows "parse_monitor_line now (replicate k CHR ''>'' @ '' '' @ frame_text bus f) bus =
      Some (FrameEvent \<lparr> frame_id = concat (wire_header bus (fst f)), extended = (addressing bus \<noteq> Can11),
        ts_us = now, frame_data = snd f, frame_raw = frame_text bus f \<rparr>)
    \<and> monitor_id bus (frame_text bus f) = Some (concat (wire_header bus (fst f)))"
proof -
  let ?l = "frame_text bus f"
  obtain x xs where x: "?l = x # xs" using frame_text_ends(1) [of bus f] by (cases ?l) auto
  with frame_text_ends(2) [of bus f] have hx: "is_hexdigit x" by simp
  then have xg: "x \<noteq> CHR ''>''" "\<not> is_ws x"
    using hexdigit_not_ws by (auto simp: is_hexdigit_def hexval_def char_code_def)
  have t1: "trim ('' '' @ ?l) = ?l"
  proof -
    have "dropWhile is_ws ('' '' @ ?l) = ?l" using xg x by (simp add: is_ws_def)
    moreover have "dropWhile is_ws ?l = ?l" using xg x by simp
    ultimately show ?thesis using trim_frame_text [of bus f] by (simp only: trim_def trim_matches_def)
  qed
  have nws: "\<not> is_ws (last ?l)" using frame_text_ends(3) [of bus f] hexdigit_not_ws by blast
  have "trim (dropWhile (\<lambda>c. c = CHR ''>'') (trim (replicate k CHR ''>'' @ '' '' @ ?l))) = ?l"
  proof (cases k)
    case 0
    then show ?thesis using t1 xg x trim_frame_text [of bus f] by simp
  next
    case (Suc j)
    have "trim (replicate k CHR ''>'' @ '' '' @ ?l) = replicate k CHR ''>'' @ '' '' @ ?l"
      using nws frame_text_ends(1) [of bus f] Suc by (intro trim_id) (simp add: is_ws_def)
    moreover have "dropWhile (\<lambda>c. c = CHR ''>'') (replicate k CHR ''>'' @ '' '' @ ?l) = '' '' @ ?l"
      by (induction k) simp_all
    ultimately show ?thesis using t1 by simp
  qed
  note line = this
  have ns: "\<not> contains (to_uppercase ?l) ''STOPPED''"
    using frame_text_hexes by (intro no_stopped) blast
  let ?h = "wire_header bus (fst f)"
  have toks: "split_whitespace ?l = ?h @ map hex_token (snd f)"
    by (simp add: split_frame_text frame_tokens_def)
  have all: "list_all hex_byte_token (map hex_token (snd f))" by (simp add: list_all_iff)
  have hdr: "monitor_header bus (?h @ map hex_token (snd f)) = Some (concat ?h, addressing bus \<noteq> Can11, length ?h)"
    using wire_header_shape [OF assms(1)] wire_header_upper [OF assms(1)]
    by (auto simp: monitor_header_def split: Addressing.split_asm)
  have "monitor_id bus ?l = Some (concat ?h)"
    using wire_header_shape [OF assms(1)] wire_header_upper [OF assms(1)]
    by (auto simp: monitor_id_def toks Let_def hex_byte_token_def [abs_def] split: Addressing.split_asm)
  moreover have "parse_monitor_line now (replicate k CHR ''>'' @ '' '' @ ?l) bus =
      Some (FrameEvent \<lparr> frame_id = concat ?h, extended = (addressing bus \<noteq> Can11),
        ts_us = now, frame_data = snd f, frame_raw = ?l \<rparr>)"
    unfolding parse_monitor_line_def Let_def line toks hdr
    using ns all assms(2) frame_text_ends(1) by simp
  ultimately show ?thesis by blast
qed

theorem monitor_frame_roundtrip_witness:
  "parse_monitor_line 7 (replicate 1 CHR ''>'' @ '' '' @ frame_text (bus_of Can11) (\<lparr> ctl_id = 0x7E0 \<rparr>, [2, 0x41])) (bus_of Can11) =
     Some (FrameEvent \<lparr> frame_id = concat (wire_header (bus_of Can11) \<lparr> ctl_id = 0x7E0 \<rparr>), extended = False,
        ts_us = 7, frame_data = [2, 0x41], frame_raw = ''7E8 02 41'' \<rparr>)"
proof -
  have 1: "answers (bus_of Can11) (fst (\<lparr> ctl_id = 0x7E0 \<rparr>, [2, 0x41 :: u8]))" by (simp add: answers_def bus_of_def)
  have 2: "snd (\<lparr> ctl_id = 0x7E0 \<rparr>, [2, 0x41 :: u8]) \<noteq> []" by simp
  have 3: "frame_text (bus_of Can11) (\<lparr> ctl_id = 0x7E0 \<rparr>, [2, 0x41]) = ''7E8 02 41''" by code_simp
  from monitor_frame_roundtrip [OF 1 2, of 7 1] show ?thesis unfolding 3 by (simp add: bus_of_def)
qed

end
