(* ===== verification/Acquisition.thy ===== *)
theory Acquisition
  imports LengthCache ElmWire
begin

text \<open>
  Acquisition (\<^verbatim>\<open>src/acquisition.rs\<close>): the admission policy, the greedy grouping of due picks
  into wire segments, and the poll plugin with its capability state. The locale states what the
  grouping needs of a policy; it is interpreted on the admission of the code.
\<close>

record DuePick =
  dp_pid :: string
  dp_controller :: "string option"
  dp_timeout :: "u32 option"

record NextCommand =
  wire :: string
  nc_segments :: "string list list"
  target :: "string option"
  timeout_ms :: "u32 option"

definition members :: "NextCommand \<Rightarrow> string list" where
  "members c = concat (nc_segments c)"

definition CHUNK_MAX_PIDS :: nat where "CHUNK_MAX_PIDS = 6"
definition MODE22_CHUNK_MAX_DIDS :: nat where "MODE22_CHUNK_MAX_DIDS = 2"
definition PIPE_MAX_SEGMENTS :: nat where "PIPE_MAX_SEGMENTS = 12"

datatype Mode22ChunkState = Disabled | Untried | Capable | Refused

definition is_plain_mode01_data_pid :: "string \<Rightarrow> bool" where
  "is_plain_mode01_data_pid pid \<longleftrightarrow>
     (let p = to_uppercase (trim pid) in
      length p = 4 \<and> starts_with p ''01'' \<and> u8_from_hex (drop 2 p) \<noteq> None
      \<and> drop 2 p \<notin> {''00'', ''20'', ''40'', ''60'', ''01''})"

definition is_plain_mode22_data_pid :: "string \<Rightarrow> bool" where
  "is_plain_mode22_data_pid pid \<longleftrightarrow>
     (let p = to_uppercase (trim pid) in
      length p = 6 \<and> starts_with p ''22'' \<and> u16_from_hex (drop 2 p) \<noteq> None
      \<and> \<not> starts_with (drop 2 p) ''F2'' \<and> \<not> starts_with (drop 2 p) ''00'')"

section \<open>Admission and grouping\<close>

datatype ChunkClass = Class01 | Class22

record Admission =
  max_segments :: nat
  chunk_limit :: nat
  chunk22_limit :: nat
  length_cache :: "LengthCache option"
  chunk_excluded :: "string set"

definition single_admission :: Admission where
  "single_admission =
     \<lparr> max_segments = 1, chunk_limit = 1, chunk22_limit = 1, length_cache = None, chunk_excluded = {} \<rparr>"

definition chunk_class :: "Admission \<Rightarrow> string \<Rightarrow> ChunkClass option" where
  "chunk_class a pid =
     (let admitted = to_uppercase (trim pid) \<notin> chunk_excluded a
            \<and> (case length_cache a of None \<Rightarrow> False | Some c \<Rightarrow> lc_get c pid \<noteq> None)
      in if chunk_limit a > 1 \<and> is_plain_mode01_data_pid pid
         then (if admitted then Some Class01 else None)
         else if chunk22_limit a > 1 \<and> is_plain_mode22_data_pid pid
         then (if admitted then Some Class22 else None)
         else None)"

definition is_chunk_member :: "Admission \<Rightarrow> string \<Rightarrow> bool" where
  "is_chunk_member a pid \<longleftrightarrow> chunk_class a pid \<noteq> None"

definition class_limit :: "Admission \<Rightarrow> ChunkClass \<Rightarrow> nat" where
  "class_limit a c = (case c of Class01 \<Rightarrow> chunk_limit a | Class22 \<Rightarrow> chunk22_limit a)"

definition chunk_target :: "ChunkClass \<Rightarrow> DuePick \<Rightarrow> string option" where
  "chunk_target c p = (case c of Class01 \<Rightarrow> None | Class22 \<Rightarrow> dp_controller p)"

text \<open>
  One pick joins the first open chunk of its class and target, or opens a new one behind the
  others. The function is generic in what distinguishes chunks, so that the locale below can speak
  about it.
\<close>

fun place :: "('k \<Rightarrow> nat) \<Rightarrow> 'k \<Rightarrow> 'p \<Rightarrow> ('k \<times> 'p list) list \<Rightarrow> ('k \<times> 'p list) list" where
  "place limit k p [] = [(k, [p])]"
| "place limit k p ((k', m) # cs) =
     (if k' = k \<and> length m < limit k then (k', m @ [p]) # cs else (k', m) # place limit k p cs)"

fun group_step ::
  "('p \<Rightarrow> 'k option) \<Rightarrow> ('k \<Rightarrow> nat) \<Rightarrow> ('k \<times> 'p list) list \<times> 'p list \<Rightarrow> 'p \<Rightarrow> ('k \<times> 'p list) list \<times> 'p list" where
  "group_step kind limit (cs, solos) p =
     (case kind p of Some k \<Rightarrow> (place limit k p cs, solos) | None \<Rightarrow> (cs, solos @ [p]))"

definition group_by :: "('p \<Rightarrow> 'k option) \<Rightarrow> ('k \<Rightarrow> nat) \<Rightarrow> 'p list \<Rightarrow> 'p list list" where
  "group_by kind limit due =
     (let (cs, solos) = foldl (group_step kind limit) ([], []) due
      in map snd cs @ map (\<lambda>p. [p]) solos)"

type_synonym chunk_kind = "ChunkClass \<times> string option"

definition pick_kind :: "Admission \<Rightarrow> DuePick \<Rightarrow> chunk_kind option" where
  "pick_kind a p = map_option (\<lambda>c. (c, chunk_target c p)) (chunk_class a (dp_pid p))"

definition kind_limit :: "Admission \<Rightarrow> chunk_kind \<Rightarrow> nat" where
  "kind_limit a k = class_limit a (fst k)"

definition group :: "Admission \<Rightarrow> DuePick list \<Rightarrow> DuePick list list" where
  "group a due = group_by (pick_kind a) (kind_limit a) due"

definition admit :: "Admission \<Rightarrow> DuePick list \<Rightarrow> DuePick \<Rightarrow> bool" where
  "admit a already candidate \<longleftrightarrow> length (group a (already @ [candidate])) \<le> max_segments a"

section \<open>The poll plugin\<close>

record PollPlugin =
  pp_pipe_limit :: nat
  pp_chunk_limit :: nat
  pp_cache :: LengthCache
  pp_excluded :: "string set"
  pp_chunk22 :: Mode22ChunkState
  pp_chunk22_cap :: nat

definition poll_new :: "LengthCache \<Rightarrow> PollPlugin" where
  "poll_new c =
     \<lparr> pp_pipe_limit = 1, pp_chunk_limit = 1, pp_cache = c, pp_excluded = {}, pp_chunk22 = Disabled,
       pp_chunk22_cap = MODE22_CHUNK_MAX_DIDS \<rparr>"

definition pp_chunk22_limit :: "PollPlugin \<Rightarrow> nat" where
  "pp_chunk22_limit p =
     (let limit = (case pp_chunk22 p of Disabled \<Rightarrow> 1 | Refused \<Rightarrow> 1 | Untried \<Rightarrow> MODE22_CHUNK_MAX_DIDS
                   | Capable \<Rightarrow> MODE22_CHUNK_MAX_DIDS)
      in min limit (max (pp_chunk22_cap p) 1))"

definition max_picks :: "PollPlugin \<Rightarrow> nat" where
  "max_picks p = pp_pipe_limit p * max (pp_chunk_limit p) (pp_chunk22_limit p)"

definition set_pipe_capable :: "bool \<Rightarrow> PollPlugin \<Rightarrow> PollPlugin" where
  "set_pipe_capable capable p = p \<lparr> pp_pipe_limit := (if capable then PIPE_MAX_SEGMENTS else 1) \<rparr>"

definition set_chunk_capable :: "bool \<Rightarrow> PollPlugin \<Rightarrow> PollPlugin" where
  "set_chunk_capable capable p =
     (let q = p \<lparr> pp_chunk_limit := (if capable then CHUNK_MAX_PIDS else 1) \<rparr>
      in if capable then q
         else q \<lparr> pp_excluded := {}, pp_chunk22 := Disabled, pp_chunk22_cap := MODE22_CHUNK_MAX_DIDS \<rparr>)"

definition exclude_from_chunks :: "string \<Rightarrow> PollPlugin \<Rightarrow> PollPlugin" where
  "exclude_from_chunks pid p = p \<lparr> pp_excluded := insert (to_uppercase (trim pid)) (pp_excluded p) \<rparr>"

definition clamp_chunk :: "PollPlugin \<Rightarrow> PollPlugin \<times> nat" where
  "clamp_chunk p =
     (let q = p \<lparr> pp_chunk_limit := max (pp_chunk_limit p div 2) 1, pp_chunk22_cap := max (pp_chunk22_cap p div 2) 1 \<rparr>
      in (q, pp_chunk_limit q))"

definition set_chunk_cap :: "nat \<Rightarrow> PollPlugin \<Rightarrow> PollPlugin" where
  "set_chunk_cap cap p =
     p \<lparr> pp_chunk_limit := min (pp_chunk_limit p) (max cap 1), pp_chunk22_cap := min (pp_chunk22_cap p) (max cap 1) \<rparr>"

definition set_mode22_enabled :: "bool \<Rightarrow> PollPlugin \<Rightarrow> PollPlugin" where
  "set_mode22_enabled enabled p = p \<lparr> pp_chunk22 := (if enabled then Untried else Disabled) \<rparr>"

definition note_mode22_chunk_outcome :: "bool \<Rightarrow> nat \<Rightarrow> PollPlugin \<Rightarrow> PollPlugin \<times> bool" where
  "note_mode22_chunk_outcome ok sz p =
     (let nxt = (if ok then Capable else Refused) in (p \<lparr> pp_chunk22 := nxt \<rparr>, pp_chunk22 p \<noteq> nxt))"

definition admission :: "PollPlugin \<Rightarrow> Admission" where
  "admission p =
     \<lparr> max_segments = pp_pipe_limit p, chunk_limit = pp_chunk_limit p, chunk22_limit = pp_chunk22_limit p,
       length_cache = Some (pp_cache p), chunk_excluded = pp_excluded p \<rparr>"

definition max_timeout :: "DuePick list \<Rightarrow> u32 option" where
  "max_timeout due = (case List.map_filter dp_timeout due of [] \<Rightarrow> None | t # ts \<Rightarrow> Some (foldl max t ts))"

definition next_command :: "PollPlugin \<Rightarrow> DuePick list \<Rightarrow> ('e, NextCommand option) outcome" where
  "next_command p due =
     (case due of
        [] \<Rightarrow> Ok None
      | [d] \<Rightarrow> Ok (Some \<lparr> wire = dp_pid d, nc_segments = [[dp_pid d]], target = dp_controller d,
                          timeout_ms = dp_timeout d \<rparr>)
      | d # _ \<Rightarrow>
          (let groups = group (admission p) due;
               segs = map (\<lambda>g. let seg = map dp_pid g in if length seg > 1 then sort seg else seg) groups
           in and_then (encode_wire segs) (\<lambda>w.
                Ok (Some \<lparr> wire = w, nc_segments = segs, target = dp_controller d, timeout_ms = max_timeout due \<rparr>))))"

section \<open>What every grouping policy gives\<close>

text \<open>
  The contract between the grouping and a policy: a pick of some kind may share a segment, so the
  limit of its kind is at least two.
\<close>

locale grouping_policy =
  fixes kind :: "'p \<Rightarrow> 'k option" and limit :: "'k \<Rightarrow> nat"
  assumes limit_pos: "kind p = Some k \<Longrightarrow> 0 < limit k"
begin

definition chunk_ok :: "'k \<times> 'p list \<Rightarrow> bool" where
  "chunk_ok c \<longleftrightarrow> snd c \<noteq> [] \<and> length (snd c) \<le> limit (fst c) \<and> (\<forall>p \<in> set (snd c). kind p = Some (fst c))"

definition well_placed :: "('k \<times> 'p list) list \<Rightarrow> bool" where
  "well_placed cs \<longleftrightarrow> list_all chunk_ok cs"

lemma place_ok: "kind p = Some k \<Longrightarrow> well_placed cs \<Longrightarrow> well_placed (place limit k p cs)"
  unfolding well_placed_def
proof (induction cs)
  case Nil
  then show ?case using limit_pos [of p k] by (simp add: chunk_ok_def)
next
  case (Cons c cs)
  then show ?case by (cases c) (auto simp: chunk_ok_def)
qed

lemma place_mset: "mset (concat (map snd (place limit k p cs))) = add_mset p (mset (concat (map snd cs)))"
  by (induction limit k p cs rule: place.induct) auto

lemma place_grows: "length cs \<le> length (place limit k p cs)"
  by (induction limit k p cs rule: place.induct) auto

lemma fold_ok:
  assumes "foldl (group_step kind limit) (cs, solos) due = (cs', solos')" and "well_placed cs" and "\<forall>p \<in> set solos. kind p = None"
  shows "well_placed cs' \<and> (\<forall>p \<in> set solos'. kind p = None)
    \<and> mset (concat (map snd cs')) + mset solos' = mset (concat (map snd cs)) + mset solos + mset due
    \<and> length cs + length solos \<le> length cs' + length solos'"
  using assms
proof (induction due arbitrary: cs solos)
  case (Cons p due)
  show ?case
  proof (cases "kind p")
    case None
    with Cons.prems Cons.IH [of cs "solos @ [p]"] show ?thesis by fastforce
  next
    case (Some k)
    with Cons.prems have "foldl (group_step kind limit) (place limit k p cs, solos) due = (cs', solos')" by simp
    from Cons.IH [OF this place_ok [OF Some Cons.prems(2)] Cons.prems(3)] place_mset [of k p cs] place_grows [of cs k p]
    show ?thesis by simp
  qed
qed simp

lemma group_perm: "mset (concat (group_by kind limit due)) = mset due"
proof -
  obtain cs solos where f: "foldl (group_step kind limit) ([], []) due = (cs, solos)" by fastforce
  have "concat (map (\<lambda>p. [p]) solos) = solos" by (induction solos) auto
  with fold_ok [OF f] show ?thesis by (simp add: group_by_def f well_placed_def)
qed

lemma group_segments:
  assumes "seg \<in> set (group_by kind limit due)"
  shows "(\<exists>p. seg = [p] \<and> kind p = None)
    \<or> (\<exists>k. seg \<noteq> [] \<and> length seg \<le> limit k \<and> (\<forall>p \<in> set seg. kind p = Some k))"
proof -
  obtain cs solos where f: "foldl (group_step kind limit) ([], []) due = (cs, solos)" by fastforce
  with fold_ok [OF f] assms show ?thesis
    by (auto simp: group_by_def well_placed_def list_all_iff chunk_ok_def)
qed

lemma group_grows: "length (group_by kind limit due) \<le> length (group_by kind limit (due @ rest))"
proof -
  obtain cs solos where f: "foldl (group_step kind limit) ([], []) due = (cs, solos)" by fastforce
  obtain cs' solos' where g: "foldl (group_step kind limit) (cs, solos) rest = (cs', solos')" by fastforce
  have "foldl (group_step kind limit) ([], []) (due @ rest) = (cs', solos')" using f g by simp
  moreover from fold_ok [OF f] have "well_placed cs" "\<forall>p \<in> set solos. kind p = None" by (simp_all add: well_placed_def)
  ultimately show ?thesis using f fold_ok [OF g] by (simp add: group_by_def)
qed

text \<open>Picks that were admitted one after the other still fit together.\<close>

lemma admitted_fit:
  assumes "\<forall>i < length due. i \<ge> 1 \<longrightarrow> length (group_by kind limit (take i due @ [due ! i])) \<le> n" and "1 \<le> n"
  shows "length (group_by kind limit due) \<le> n"
proof (cases "length due \<le> 1")
  case True
  have p: "length (place limit k p []) = 1" for k p by simp
  from True assms(2) show ?thesis
    by (cases due) (auto simp: group_by_def split: option.split)
next
  case False
  then obtain i where i: "length due = Suc i" "1 \<le> i" by (cases due) (auto simp: Suc_le_eq)
  then have "take i due @ [due ! i] = due" by (simp add: take_Suc_conv_app_nth [symmetric])
  with assms(1) i show ?thesis by (metis lessI)
qed

end

lemma chunk_class_limit: "chunk_class a pid = Some c \<Longrightarrow> 1 < class_limit a c"
  by (auto simp: chunk_class_def class_limit_def Let_def split: if_splits)

interpretation picks: grouping_policy "pick_kind a" "kind_limit a" for a
  by unfold_locales (auto simp: pick_kind_def kind_limit_def dest: chunk_class_limit)

section \<open>The exchange\<close>

definition sorted_segment :: "DuePick list \<Rightarrow> string list" where
  "sorted_segment g = (let seg = map dp_pid g in if length seg > 1 then sort seg else seg)"

lemma sorted_segment_mset [simp]: "mset (sorted_segment g) = mset (map dp_pid g)"
  by (simp add: sorted_segment_def Let_def)

lemma sorted_segment_set [simp]: "set (sorted_segment g) = dp_pid ` set g" "length (sorted_segment g) = length g"
  by (simp_all add: sorted_segment_def Let_def)

lemma concat_segments: "mset (concat (map sorted_segment gs)) = mset (map dp_pid (concat gs))"
  by (induction gs) simp_all

lemma trim_length: "length (trim s) \<le> length s"
  unfolding trim_def trim_matches_def
  by (metis length_dropWhile_le length_rev order_trans)

lemma plain_length:
  "is_plain_mode01_data_pid p \<Longrightarrow> 2 \<le> length p" "is_plain_mode22_data_pid p \<Longrightarrow> 2 \<le> length p"
  using trim_length [of p] by (auto simp: is_plain_mode01_data_pid_def is_plain_mode22_data_pid_def Let_def)

lemma class_plain:
  "chunk_class a p = Some Class01 \<Longrightarrow> is_plain_mode01_data_pid p" "chunk_class a p = Some Class22 \<Longrightarrow> is_plain_mode22_data_pid p"
  by (auto simp: chunk_class_def Let_def split: if_splits)

lemma class_length: "chunk_class a p = Some c \<Longrightarrow> 2 \<le> length p"
  using class_plain plain_length by (cases c) blast+

lemma join_no_panic: "seg \<noteq> [] \<Longrightarrow> length seg = 1 \<or> (\<forall>p \<in> set seg. 2 \<le> length p) \<Longrightarrow> \<exists>w. join_chunk_wire seg = Ok w"
  by (auto simp: join_chunk_wire_def Let_def not_less split: list.split)

lemma encode_no_panic:
  assumes "\<forall>seg \<in> set segs. seg \<noteq> [] \<and> (length seg = 1 \<or> (\<forall>p \<in> set seg. 2 \<le> length p))"
  shows "\<exists>w. (encode_wire segs :: ('e, _) outcome) = Ok w"
proof -
  have "\<exists>ws. (map_outcome join_chunk_wire segs :: ('e, _) outcome) = Ok ws"
    using assms
  proof (induction segs)
    case (Cons seg segs)
    then obtain ws where "(map_outcome join_chunk_wire segs :: ('e, _) outcome) = Ok ws" by auto
    moreover from Cons.prems obtain w where "(join_chunk_wire seg :: ('e, _) outcome) = Ok w" using join_no_panic [of seg] by auto
    ultimately show ?case by simp
  qed simp
  then show ?thesis by (auto simp: encode_wire_def)
qed

text \<open>A segment as the code means it: one pick of any kind, or a chunk of one mode.\<close>

definition segment_ok :: "Admission \<Rightarrow> DuePick list \<Rightarrow> bool" where
  "segment_ok a g \<longleftrightarrow>
     length g = 1
     \<or> (g \<noteq> [] \<and> length g \<le> chunk_limit a \<and> (\<forall>p \<in> set g. chunk_class a (dp_pid p) = Some Class01))
     \<or> (g \<noteq> [] \<and> length g \<le> chunk22_limit a \<and> (\<exists>t. \<forall>p \<in> set g. chunk_class a (dp_pid p) = Some Class22 \<and> dp_controller p = t))"

lemma group_segment_ok:
  assumes "g \<in> set (group a due)"
  shows "segment_ok a g"
proof -
  from picks.group_segments [of g a due] assms
  consider p where "g = [p]" | k where "g \<noteq> []" "length g \<le> kind_limit a k" "\<forall>p \<in> set g. pick_kind a p = Some k"
    by (auto simp: group_def)
  then show ?thesis
  proof cases
    case 1
    then show ?thesis by (simp add: segment_ok_def)
  next
    case (2 k)
    obtain c t where k: "k = (c, t)" by (cases k)
    with 2(3) have "\<forall>p \<in> set g. chunk_class a (dp_pid p) = Some c \<and> chunk_target c p = t"
      by (auto simp: pick_kind_def)
    with 2(1,2) k show ?thesis
      by (cases c) (auto simp: segment_ok_def kind_limit_def class_limit_def chunk_target_def)
  qed
qed

lemma next_command_groups:
  assumes "due \<noteq> []"
  shows "\<exists>w gs. (next_command p due :: ('e, _) outcome) = Ok (Some \<lparr> wire = w, nc_segments = map sorted_segment gs,
      target = dp_controller (hd due), timeout_ms = max_timeout due \<rparr>)
    \<and> (gs = group (admission p) due \<or> (\<exists>d. due = [d] \<and> gs = [[d]])) \<and> mset (concat gs) = mset due
    \<and> (\<forall>g \<in> set gs. segment_ok (admission p) g)"
proof (cases "tl due = []")
  case True
  with assms obtain d where d: "due = [d]" by (cases due) auto
  then have "max_timeout due = dp_timeout d"
    by (cases "dp_timeout d") (simp_all add: max_timeout_def List.map_filter_simps)
  with d show ?thesis
    by (intro exI [of _ "dp_pid d"] exI [of _ "[[d]]"])
       (simp add: next_command_def sorted_segment_def segment_ok_def)
next
  case False
  then obtain d e ds where d: "due = d # e # ds" using assms by (cases due; cases "tl due") auto
  let ?gs = "group (admission p) due"
  have "\<forall>seg \<in> set (map sorted_segment ?gs). seg \<noteq> [] \<and> (length seg = 1 \<or> (\<forall>q \<in> set seg. 2 \<le> length q))"
  proof
    fix seg assume "seg \<in> set (map sorted_segment ?gs)"
    then obtain g where g: "seg = sorted_segment g" "g \<in> set ?gs" by auto
    from group_segment_ok [OF g(2)] class_length show "seg \<noteq> [] \<and> (length seg = 1 \<or> (\<forall>q \<in> set seg. 2 \<le> length q))"
      unfolding segment_ok_def g(1)
      by (metis imageE length_0_conv sorted_segment_set(1,2) zero_neq_one)
  qed
  from encode_no_panic [OF this] obtain w where w: "(encode_wire (map sorted_segment ?gs) :: ('e, _) outcome) = Ok w" by blast
  have "next_command p due = (Ok (Some \<lparr> wire = w, nc_segments = map sorted_segment ?gs,
      target = dp_controller d, timeout_ms = max_timeout due \<rparr>) :: ('e, _) outcome)"
    using w by (simp add: next_command_def d sorted_segment_def [abs_def] Let_def)
  moreover have "mset (concat ?gs) = mset due" unfolding group_def by (rule picks.group_perm)
  ultimately show ?thesis using group_segment_ok d by (metis list.sel(1))
qed

section \<open>The plugin's capability state\<close>

datatype poll_op =
  SetPipe bool | SetChunk bool | Exclude string | Clamp | SetCap nat | SetMode22 bool | NoteMode22 bool nat | Learn LengthCache

fun poll_step :: "PollPlugin \<Rightarrow> poll_op \<Rightarrow> PollPlugin" where
  "poll_step p (SetPipe b) = set_pipe_capable b p"
| "poll_step p (SetChunk b) = set_chunk_capable b p"
| "poll_step p (Exclude pid) = exclude_from_chunks pid p"
| "poll_step p Clamp = fst (clamp_chunk p)"
| "poll_step p (SetCap n) = set_chunk_cap n p"
| "poll_step p (SetMode22 b) = set_mode22_enabled b p"
| "poll_step p (NoteMode22 b n) = fst (note_mode22_chunk_outcome b n p)"
| "poll_step p (Learn c) = p \<lparr> pp_cache := c \<rparr>"

definition poll_ok :: "PollPlugin \<Rightarrow> bool" where
  "poll_ok p \<longleftrightarrow> 1 \<le> pp_pipe_limit p \<and> pp_pipe_limit p \<le> 12 \<and> 1 \<le> pp_chunk_limit p \<and> pp_chunk_limit p \<le> 6
     \<and> 1 \<le> pp_chunk22_cap p \<and> pp_chunk22_cap p \<le> 2"

lemma poll_step_ok: "poll_ok p \<Longrightarrow> poll_ok (poll_step p op)"
  by (cases op)
     (auto simp: poll_ok_def set_pipe_capable_def set_chunk_capable_def exclude_from_chunks_def clamp_chunk_def
       set_chunk_cap_def set_mode22_enabled_def note_mode22_chunk_outcome_def Let_def PIPE_MAX_SEGMENTS_def
       CHUNK_MAX_PIDS_def MODE22_CHUNK_MAX_DIDS_def)

lemma poll_run_ok: "poll_ok (foldl poll_step (poll_new c) ops)"
proof (induction ops rule: rev_induct)
  case Nil
  then show ?case by (simp add: poll_ok_def poll_new_def MODE22_CHUNK_MAX_DIDS_def)
qed (simp add: poll_step_ok)

lemma chunk22_limit_le: "pp_chunk22_limit p \<le> 2"
  by (simp add: pp_chunk22_limit_def Let_def MODE22_CHUNK_MAX_DIDS_def split: Mode22ChunkState.split)

text \<open>The picks an exchange is made of: the first is unconditional, every later one was admitted.\<close>

definition admitted_picks :: "Admission \<Rightarrow> DuePick list \<Rightarrow> bool" where
  "admitted_picks a due \<longleftrightarrow> due \<noteq> [] \<and> (\<forall>i < length due. i \<ge> 1 \<longrightarrow> admit a (take i due) (due ! i))"

text \<open>Whatever was probed, clamped, capped or learned before, an exchange built from admitted picks
  is well formed. It never panics, accounts for every pick exactly once, uses at most as many
  segments as the adapter has pipes (12 at most), and each segment is one pick or a chunk of one
  mode: up to 6 plain Mode 01 data PIDs, or up to 2 plain Mode 22 DIDs for one controller, every
  chunk member with a learned length.
\<close>

theorem exchange_well_formed:
  assumes "p = foldl poll_step (poll_new c) ops" and "admitted_picks (admission p) due"
  shows "\<exists>cmd gs. (next_command p due :: (unit, _) outcome) = Ok (Some cmd)
    \<and> mset (members cmd) = mset (map dp_pid due) \<and> target cmd = dp_controller (hd due)
    \<and> length (nc_segments cmd) \<le> 12 \<and> length (nc_segments cmd) \<le> pp_pipe_limit p
    \<and> nc_segments cmd = map sorted_segment gs
    \<and> (\<forall>g \<in> set gs. length g = 1
        \<or> ((\<forall>d \<in> set g. lc_get (pp_cache p) (dp_pid d) \<noteq> None)
           \<and> ((length g \<le> 6 \<and> (\<forall>d \<in> set g. is_plain_mode01_data_pid (dp_pid d)))
            \<or> (length g \<le> 2 \<and> (\<exists>t. \<forall>d \<in> set g. is_plain_mode22_data_pid (dp_pid d) \<and> dp_controller d = t)))))"
proof -
  from assms(2) have "due \<noteq> []" by (simp add: admitted_picks_def)
  from next_command_groups [where 'e = unit and p = p, OF this] obtain w gs where
    n: "(next_command p due :: (unit, _) outcome) = Ok (Some \<lparr> wire = w, nc_segments = map sorted_segment gs,
      target = dp_controller (hd due), timeout_ms = max_timeout due \<rparr>)"
    "gs = group (admission p) due \<or> (\<exists>d. due = [d] \<and> gs = [[d]])" "mset (concat gs) = mset due"
    "\<forall>g \<in> set gs. segment_ok (admission p) g" by blast
  have ok: "poll_ok p" unfolding assms(1) by (rule poll_run_ok)
  have "length (group (admission p) due) \<le> pp_pipe_limit p"
    unfolding group_def
    by (rule picks.admitted_fit)
       (use assms(2) ok in \<open>auto simp: admitted_picks_def admit_def group_def admission_def poll_ok_def\<close>)
  with n(2) ok have len: "length gs \<le> pp_pipe_limit p" by (auto simp: poll_ok_def)
  have learned: "chunk_class (admission p) q = Some k \<Longrightarrow> lc_get (pp_cache p) q \<noteq> None" for q k
    by (auto simp: chunk_class_def admission_def Let_def split: if_splits)
  have seg: "length g = 1
        \<or> ((\<forall>d \<in> set g. lc_get (pp_cache p) (dp_pid d) \<noteq> None)
           \<and> ((length g \<le> 6 \<and> (\<forall>d \<in> set g. is_plain_mode01_data_pid (dp_pid d)))
            \<or> (length g \<le> 2 \<and> (\<exists>t. \<forall>d \<in> set g. is_plain_mode22_data_pid (dp_pid d) \<and> dp_controller d = t))))"
    if "g \<in> set gs" for g
  proof -
    from n(4) that have "segment_ok (admission p) g" by blast
    moreover have "chunk_limit (admission p) \<le> 6" "chunk22_limit (admission p) \<le> 2"
      using ok chunk22_limit_le by (simp_all add: admission_def poll_ok_def)
    ultimately show ?thesis
      unfolding segment_ok_def using learned class_plain [of "admission p"] by (meson order_trans)
  qed
  show ?thesis
    using n(1,3) len ok seg
    by (intro exI [of _ "\<lparr> wire = w, nc_segments = map sorted_segment gs,
          target = dp_controller (hd due), timeout_ms = max_timeout due \<rparr>"] exI [of _ gs])
       (simp add: members_def concat_segments poll_ok_def)
qed

theorem exchange_well_formed_witness:
  "\<exists>cmd gs. (next_command (foldl poll_step (poll_new lc_new)
        [SetPipe True, SetChunk True, Learn \<lparr> lengths = [''010C'' \<mapsto> 2, ''010D'' \<mapsto> 1], store_file = None \<rparr>])
      [\<lparr> dp_pid = ''010D'', dp_controller = None, dp_timeout = None \<rparr>, \<lparr> dp_pid = ''0105'', dp_controller = None, dp_timeout = None \<rparr>,
       \<lparr> dp_pid = ''010C'', dp_controller = None, dp_timeout = None \<rparr>] :: (unit, _) outcome) = Ok (Some cmd)
    \<and> mset (members cmd) = mset [''010D'', ''0105'', ''010C''] \<and> length (nc_segments cmd) \<le> 12 \<and> nc_segments cmd = map sorted_segment gs"
proof -
  let ?p = "foldl poll_step (poll_new lc_new)
        [SetPipe True, SetChunk True, Learn \<lparr> lengths = [''010C'' \<mapsto> 2, ''010D'' \<mapsto> 1], store_file = None \<rparr>]"
  have "admitted_picks (admission ?p)
      [\<lparr> dp_pid = ''010D'', dp_controller = None, dp_timeout = None \<rparr>, \<lparr> dp_pid = ''0105'', dp_controller = None, dp_timeout = None \<rparr>,
       \<lparr> dp_pid = ''010C'', dp_controller = None, dp_timeout = None \<rparr>]"
    by code_simp
  from exchange_well_formed [OF refl this] show ?thesis by fastforce
qed

section \<open>Chunks the splitter takes\<close>

lemma upper_low: "char_code (upper_char a) < 65 \<Longrightarrow> upper_char a = a"
  by (auto simp: upper_char_def code_char_of split: if_splits)

lemma upper_digit: "char_code d < 65 \<Longrightarrow> upper_char a = d \<Longrightarrow> a = d"
  using upper_low [of a] by auto

lemma hexnum_upper: "hexnum acc (to_uppercase s) = hexnum acc s"
  by (induction acc s rule: hexnum.induct) (auto simp: to_uppercase_def split: option.split)

lemma radix_upper: "from_str_radix16 mx (to_uppercase s) = from_str_radix16 mx s"
proof (cases s)
  case Nil
  then show ?thesis by (simp add: from_str_radix16_def)
next
  case (Cons c cs)
  have plus: "upper_char c = CHR ''+'' \<longleftrightarrow> c = CHR ''+''"
  proof
    assume "upper_char c = CHR ''+''"
    then show "c = CHR ''+''" by (rule upper_digit [rotated]) (simp add: char_code_def)
  qed (simp add: upper_char_def char_code_def)
  have "hexnum 0 (upper_char c # to_uppercase cs) = hexnum 0 (c # cs)" "hexnum 0 (to_uppercase cs) = hexnum 0 cs"
    using hexnum_upper [of 0 "c # cs"] hexnum_upper [of 0 cs] by simp_all
  then show ?thesis using Cons plus
    by (simp add: from_str_radix16_def Let_def del: hexnum.simps) (simp add: to_uppercase_def)
qed

lemma radix_wider: "from_str_radix16 mx s = Some n \<Longrightarrow> mx \<le> mx' \<Longrightarrow> from_str_radix16 mx' s = Some n"
  by (auto simp: from_str_radix16_def Let_def split: if_splits option.splits)

lemma starts_two: "starts_with p [c, d] \<Longrightarrow> \<exists>s. p = c # d # s"
  by (cases p; cases "tl p") (auto simp: starts_with_def)

lemma mode_prefix:
  assumes "starts_with (to_uppercase p) (mode_text m)"
  shows "take 2 p = mode_text m \<and> pid_suffix m p = drop 2 p"
proof -
  obtain c d where m: "mode_text m = [c, d]" "char_code c < 65" "char_code d < 65"
    by (cases m) (simp_all add: mode_text_def char_code_def)
  with assms starts_two obtain s where "to_uppercase p = c # d # s" by metis
  then obtain a b r where p: "p = a # b # r" "upper_char a = c" "upper_char b = d"
    by (cases p; cases "tl p") (auto simp: to_uppercase_def)
  with m upper_digit have "a = c" "b = d" by blast+
  with p m show ?thesis by (simp add: pid_suffix_def strip_prefix_def starts_with_def)
qed

definition class_mode :: "ChunkClass \<Rightarrow> chunk_mode" where
  "class_mode c = (case c of Class01 \<Rightarrow> Mode01 | Class22 \<Rightarrow> Mode22)"

lemma upper_drop: "drop n (to_uppercase p) = to_uppercase (drop n p)"
  by (simp add: to_uppercase_def drop_map)

lemma radix_member:
  assumes "starts_with (to_uppercase p) (mode_text m)" and "from_str_radix16 mx (drop 2 (to_uppercase p)) = Some n" and "mx \<le> 65535"
  shows "\<exists>e. u16_from_hex (pid_suffix m p) = Some e"
proof -
  have "from_str_radix16 65535 (drop 2 p) = Some n"
    using radix_wider [OF assms(2,3)] by (simp only: upper_drop radix_upper)
  moreover have "pid_suffix m p = drop 2 p" using mode_prefix [OF assms(1)] by (rule conjunct2)
  ultimately show ?thesis by (simp only: u16_from_hex_def option.map) blast
qed

lemma class_member:
  assumes "chunk_class a p = Some c" and "trim p = p"
  shows "starts_with (to_uppercase p) (mode_text (class_mode c)) \<and> (\<exists>e. u16_from_hex (pid_suffix (class_mode c) p) = Some e)"
proof (cases c)
  case Class01
  with assms class_plain(1) [of a p] have u: "starts_with (to_uppercase p) ''01''" "u8_from_hex (drop 2 (to_uppercase p)) \<noteq> None"
    by (auto simp: is_plain_mode01_data_pid_def Let_def)
  have s: "starts_with (to_uppercase p) (mode_text Mode01)" using u(1) by (simp add: mode_text_def)
  from u(2) obtain n where n: "from_str_radix16 255 (drop 2 (to_uppercase p)) = Some n" by (auto simp: u8_from_hex_def)
  from radix_member [OF s n] s Class01 show ?thesis by (simp add: class_mode_def)
next
  case Class22
  with assms class_plain(2) [of a p] have u: "starts_with (to_uppercase p) ''22''" "u16_from_hex (drop 2 (to_uppercase p)) \<noteq> None"
    by (auto simp: is_plain_mode22_data_pid_def Let_def)
  have s: "starts_with (to_uppercase p) (mode_text Mode22)" using u(1) by (simp add: mode_text_def)
  from u(2) obtain n where n: "from_str_radix16 65535 (drop 2 (to_uppercase p)) = Some n" by (auto simp: u16_from_hex_def)
  from radix_member [OF s n] s Class22 show ?thesis by (simp add: class_mode_def)
qed

lemma add_echo_all:
  assumes "\<forall>p \<in> fst ` set ms. starts_with (to_uppercase p) (mode_text m) \<and> (\<exists>e. u16_from_hex (pid_suffix m p) = Some e)"
  shows "\<exists>t'. try_fold (add_echo m) t ms = Ok t'"
  using assms
proof (induction ms arbitrary: t)
  case (Cons x ms)
  obtain p l where x: "x = (p, l)" by (cases x)
  with Cons.prems obtain e where "starts_with (to_uppercase p) (mode_text m)" "u16_from_hex (pid_suffix m p) = Some e" by auto
  then have "add_echo m t x = Ok (t(e \<mapsto> (to_uppercase p, l)))" by (simp add: add_echo_def x)
  with Cons show ?case by simp
qed simp

lemma class_chunk_mode:
  assumes "ms \<noteq> []" and "\<forall>p \<in> fst ` set ms. starts_with (to_uppercase p) (mode_text m)"
  shows "chunk_mode_of ms = Ok m"
proof -
  obtain p l r where ms: "ms = (p, l) # r" using assms(1) by (cases ms) auto
  with assms(2) mode_prefix [of p m] have "take 2 p = mode_text m" by simp
  moreover have "length (mode_text m) = 2" by (simp add: mode_text_def split: chunk_mode.split)
  ultimately have "take 2 p = mode_text m" "\<not> length p < 2" by (auto simp: min_def split: if_splits dest: arg_cong [of _ _ length])
  with ms show ?thesis by (cases m) (simp_all add: chunk_mode_of_def mode_text_def)
qed

text \<open>Every chunk the poll plugin puts on the wire is one the splitter can take apart. For a segment
  of several members, with whatever lengths the engine pairs them with, the splitter finds one mode
  and a table entry for every member, so that it can only fail for what the payloads hold.
\<close>

theorem chunk_accepted_by_splitter:
  assumes "(next_command p due :: (unit, _) outcome) = Ok (Some cmd)" and "\<forall>d \<in> set due. trim (dp_pid d) = dp_pid d"
    and "seg \<in> set (nc_segments cmd)" and "1 < length seg"
  shows "\<exists>m t. \<forall>ps. ps \<noteq> [] \<longrightarrow>
    split_multi_pid (map (\<lambda>q. (q, len q)) seg) ps = try_fold (split_payload m t) [] ps"
proof -
  from assms(1) have "due \<noteq> []" by (auto simp: next_command_def)
  from next_command_groups [where 'e = unit and p = p, OF this] obtain w gs where
    n: "(next_command p due :: (unit, _) outcome) = Ok (Some \<lparr> wire = w, nc_segments = map sorted_segment gs,
      target = dp_controller (hd due), timeout_ms = max_timeout due \<rparr>)"
    "mset (concat gs) = mset due" "\<forall>g \<in> set gs. segment_ok (admission p) g" by blast
  from n(1) assms(1) have "nc_segments cmd = map sorted_segment gs" by simp
  with assms(3) n(2,3) obtain g where
    g: "seg = sorted_segment g" "g \<in> set gs" "mset (concat gs) = mset due" "segment_ok (admission p) g" by auto
  from g(1) assms(4) have l: "1 < length g" by simp
  with g(4) obtain c where c: "\<forall>d \<in> set g. chunk_class (admission p) (dp_pid d) = Some c"
    by (auto simp: segment_ok_def)
  have sub: "set g \<subseteq> set due" using g(2,3) by (metis UN_upper set_concat mset_eq_setD)
  let ?ms = "map (\<lambda>q. (q, len q)) seg"
  have ok: "\<forall>q \<in> fst ` set ?ms. starts_with (to_uppercase q) (mode_text (class_mode c))
      \<and> (\<exists>e. u16_from_hex (pid_suffix (class_mode c) q) = Some e)"
  proof
    fix q assume "q \<in> fst ` set ?ms"
    then obtain d where "d \<in> set g" "q = dp_pid d" by (auto simp: g(1))
    with c sub assms(2) class_member [of "admission p" q c]
    show "starts_with (to_uppercase q) (mode_text (class_mode c)) \<and> (\<exists>e. u16_from_hex (pid_suffix (class_mode c) q) = Some e)"
      by auto
  qed
  obtain t where t: "try_fold (add_echo (class_mode c)) Map.empty ?ms = Ok t" using add_echo_all [OF ok] by blast
  have ne: "?ms \<noteq> []" using assms(4) by auto
  have "chunk_mode_of ?ms = Ok (class_mode c)" by (rule class_chunk_mode [OF ne]) (use ok in blast)
  with t show ?thesis
    by (intro exI [of _ "class_mode c"] exI [of _ t]) (simp add: split_multi_pid_def)
qed

theorem chunk_accepted_by_splitter_witness:
  "\<exists>m t. \<forall>ps. ps \<noteq> [] \<longrightarrow>
    split_multi_pid (map (\<lambda>q. (q, 2)) [''22F405'', ''22F40C'']) ps = try_fold (split_payload m t) [] ps"
proof -
  let ?p = "foldl poll_step (poll_new lc_new)
        [SetMode22 True, Learn \<lparr> lengths = [''22F40C'' \<mapsto> 2, ''22F405'' \<mapsto> 1], store_file = None \<rparr>]"
  let ?due = "[\<lparr> dp_pid = ''22F40C'', dp_controller = None, dp_timeout = None \<rparr>,
      \<lparr> dp_pid = ''22F405'', dp_controller = None, dp_timeout = None \<rparr>]"
  have 1: "(next_command ?p ?due :: (unit, _) outcome) = Ok (Some \<lparr> wire = ''22F405F40C'',
      nc_segments = [[''22F405'', ''22F40C'']], target = None, timeout_ms = None \<rparr>)"
    by code_simp
  have 2: "\<forall>d \<in> set ?due. trim (dp_pid d) = dp_pid d" by code_simp
  show ?thesis by (rule chunk_accepted_by_splitter [OF 1 2]) simp_all
qed

end
