(* ===== verification/PidRegistry.thy ===== *)
theory PidRegistry
  imports Prelude "HOL-Library.AList" "HOL-Library.Char_ord" "HOL-Library.List_Lexorder" Complex_Main
begin

text \<open>
  The global PID registry (\<^verbatim>\<open>src/pid_registry.rs\<close>): which subscriptions want which PID, the
  controller a PID goes to, and the cache of last replies. The locale \<open>pid_index\<close> is the contract
  the subscription manager relies on: the registry is an index from PIDs to subscriptions.

  Hash maps whose entries are listed are association lists; the order in which the code would see
  them is a parameter. The clock is an argument.
\<close>

type_synonym uuid = nat

record CachedPIDResponse =
  cached_text :: string
  timestamp :: real
  ttl_ms :: nat

definition cache_valid :: "real \<Rightarrow> CachedPIDResponse \<Rightarrow> bool" where
  "cache_valid now c \<longleftrightarrow> (now - timestamp c) * 1000 < real (ttl_ms c)"

record Registry =
  pid_subscriptions :: "(string \<times> uuid set) list"
  pid_cache :: "string \<Rightarrow> CachedPIDResponse option"
  pid_controllers :: "string \<Rightarrow> string option"
  default_ttl_ms :: nat

definition registry_new :: "nat \<Rightarrow> Registry" where
  "registry_new ttl =
     \<lparr> pid_subscriptions = [], pid_cache = Map.empty, pid_controllers = Map.empty, default_ttl_ms = ttl \<rparr>"

definition wanting :: "Registry \<Rightarrow> string \<Rightarrow> uuid set" where
  "wanting r pid = (case map_of (pid_subscriptions r) pid of None \<Rightarrow> {} | Some s \<Rightarrow> s)"

definition register_pid_subscription :: "string \<Rightarrow> uuid \<Rightarrow> string option \<Rightarrow> Registry \<Rightarrow> Registry" where
  "register_pid_subscription pid sid target r =
     (let r1 = r \<lparr> pid_subscriptions := AList.update pid (insert sid (wanting r pid)) (pid_subscriptions r) \<rparr>
      in case target of None \<Rightarrow> r1 | Some c \<Rightarrow> r1 \<lparr> pid_controllers := (pid_controllers r1)(pid \<mapsto> c) \<rparr>)"

definition forget_pid :: "string \<Rightarrow> Registry \<Rightarrow> Registry" where
  "forget_pid pid r =
     r \<lparr> pid_subscriptions := AList.delete pid (pid_subscriptions r),
         pid_cache := (pid_cache r)(pid := None), pid_controllers := (pid_controllers r)(pid := None) \<rparr>"

definition unregister_pid_subscription :: "string \<Rightarrow> uuid \<Rightarrow> Registry \<Rightarrow> Registry" where
  "unregister_pid_subscription pid sid r =
     (case map_of (pid_subscriptions r) pid of
        None \<Rightarrow> r
      | Some s \<Rightarrow>
          if s - {sid} = {} then forget_pid pid r
          else r \<lparr> pid_subscriptions := AList.update pid (s - {sid}) (pid_subscriptions r) \<rparr>)"

definition unregister_subscription :: "uuid \<Rightarrow> Registry \<Rightarrow> Registry" where
  "unregister_subscription sid r =
     (let emptied = map (\<lambda>(p, s). (p, s - {sid})) (pid_subscriptions r);
          r1 = r \<lparr> pid_subscriptions := emptied \<rparr>
      in foldl (\<lambda>q p. forget_pid p q) r1 (map fst (filter (\<lambda>(p, s). s = {}) emptied)))"

text \<open>Grouped by controller, sorted within a controller; \<open>ord\<close> is the order in which the groups come.\<close>

definition get_unique_pids :: "(string option list \<Rightarrow> string option list) \<Rightarrow> Registry \<Rightarrow> (string \<times> string option) list" where
  "get_unique_pids ord r =
     (let pids = map fst (pid_subscriptions r)
      in concat (map (\<lambda>c. map (\<lambda>p. (p, c)) (sort (filter (\<lambda>p. pid_controllers r p = c) pids)))
           (ord (remdups (map (pid_controllers r) pids)))))"

definition cache_pid_response :: "real \<Rightarrow> string \<Rightarrow> string \<Rightarrow> nat option \<Rightarrow> Registry \<Rightarrow> Registry" where
  "cache_pid_response now pid txt ttl r =
     r \<lparr> pid_cache := (pid_cache r)(pid \<mapsto>
        \<lparr> cached_text = txt, timestamp = now, ttl_ms = (case ttl of None \<Rightarrow> default_ttl_ms r | Some t \<Rightarrow> t) \<rparr>) \<rparr>"

definition get_cached_pid_response :: "real \<Rightarrow> string \<Rightarrow> Registry \<Rightarrow> CachedPIDResponse option" where
  "get_cached_pid_response now pid r =
     (case pid_cache r pid of None \<Rightarrow> None | Some c \<Rightarrow> if cache_valid now c then Some c else None)"

definition clear_expired_cache :: "real \<Rightarrow> Registry \<Rightarrow> Registry" where
  "clear_expired_cache now r =
     r \<lparr> pid_cache := (\<lambda>p. case pid_cache r p of None \<Rightarrow> None | Some c \<Rightarrow> if cache_valid now c then Some c else None) \<rparr>"

definition get_pid_controller :: "string \<Rightarrow> Registry \<Rightarrow> string option" where
  "get_pid_controller pid r = pid_controllers r pid"

definition is_pid_subscribed :: "string \<Rightarrow> Registry \<Rightarrow> bool" where
  "is_pid_subscribed pid r \<longleftrightarrow> map_of (pid_subscriptions r) pid \<noteq> None"

definition get_pid_subscription_count :: "string \<Rightarrow> Registry \<Rightarrow> nat" where
  "get_pid_subscription_count pid r = card (wanting r pid)"

definition unique_pid_count :: "Registry \<Rightarrow> nat" where
  "unique_pid_count r = length (pid_subscriptions r)"

definition total_subscription_count :: "Registry \<Rightarrow> nat" where
  "total_subscription_count r = sum_list (map (\<lambda>(_, s). card s) (pid_subscriptions r))"

definition get_all_pids :: "Registry \<Rightarrow> string list" where
  "get_all_pids r = sort (map fst (pid_subscriptions r))"

definition clear_cache :: "Registry \<Rightarrow> Registry" where
  "clear_cache r = r \<lparr> pid_cache := Map.empty \<rparr>"

definition set_default_ttl :: "nat \<Rightarrow> Registry \<Rightarrow> Registry" where
  "set_default_ttl ttl r = r \<lparr> default_ttl_ms := ttl \<rparr>"

section \<open>The index contract\<close>

text \<open>
  What a client may rely on: entries come and go one by one, dropping a subscription drops all of
  its entries, and the listing is exactly the PIDs somebody wants, each once.
\<close>

locale pid_index =
  fixes subs_of :: "'r \<Rightarrow> 'p \<Rightarrow> 'u set"
    and reg :: "'p \<Rightarrow> 'u \<Rightarrow> 't \<Rightarrow> 'r \<Rightarrow> 'r"
    and unreg :: "'p \<Rightarrow> 'u \<Rightarrow> 'r \<Rightarrow> 'r"
    and unreg_all :: "'u \<Rightarrow> 'r \<Rightarrow> 'r"
    and inv :: "'r \<Rightarrow> bool"
  assumes reg_law: "inv r \<Longrightarrow> inv (reg p u t r) \<and> subs_of (reg p u t r) = (subs_of r)(p := insert u (subs_of r p))"
    and unreg_law: "inv r \<Longrightarrow> inv (unreg p u r) \<and> subs_of (unreg p u r) = (subs_of r)(p := subs_of r p - {u})"
    and unreg_all_law: "inv r \<Longrightarrow> inv (unreg_all u r) \<and> subs_of (unreg_all u r) = (\<lambda>p. subs_of r p - {u})"
begin

text \<open>The registry mirrors what each subscription holds.\<close>

definition mirrors :: "'r \<Rightarrow> ('u \<Rightarrow> 'p set) \<Rightarrow> bool" where
  "mirrors r holds \<longleftrightarrow> inv r \<and> (\<forall>p u. u \<in> subs_of r p \<longleftrightarrow> p \<in> holds u)"

lemma mirrors_reg: "mirrors r holds \<Longrightarrow> mirrors (reg p u t r) (holds(u := insert p (holds u)))"
  by (auto simp: mirrors_def reg_law)

lemma mirrors_unreg: "mirrors r holds \<Longrightarrow> mirrors (unreg p u r) (holds(u := holds u - {p}))"
  by (auto simp: mirrors_def unreg_law)

lemma mirrors_unreg_all: "mirrors r holds \<Longrightarrow> mirrors (unreg_all u r) (holds(u := {}))"
  by (auto simp: mirrors_def unreg_all_law)

lemma mirrors_cong: "mirrors r holds \<Longrightarrow> (\<And>u. holds u = holds' u) \<Longrightarrow> mirrors r holds'"
  by (simp add: mirrors_def)

lemma mirrors_reg_list:
  "mirrors r holds \<Longrightarrow> mirrors (foldl (\<lambda>q p. reg p u t q) r ps) (holds(u := holds u \<union> set ps))"
proof (induction ps arbitrary: r holds)
  case Nil
  then show ?case by (simp add: mirrors_cong)
next
  case (Cons p ps)
  have "mirrors (foldl (\<lambda>q p. reg p u t q) (reg p u t r) ps) (holds(u := holds u \<union> set (p # ps)))"
    by (rule mirrors_cong [OF Cons.IH [OF mirrors_reg [OF Cons.prems]]]) simp
  then show ?case by (simp only: foldl.simps)
qed

lemma mirrors_unreg_list:
  "mirrors r holds \<Longrightarrow> mirrors (foldl (\<lambda>q p. unreg p u q) r ps) (holds(u := holds u - set ps))"
proof (induction ps arbitrary: r holds)
  case Nil
  then show ?case by (simp add: mirrors_cong)
next
  case (Cons p ps)
  have "mirrors (foldl (\<lambda>q p. unreg p u q) (unreg p u r) ps) (holds(u := holds u - set (p # ps)))"
    by (rule mirrors_cong [OF Cons.IH [OF mirrors_unreg [OF Cons.prems]]]) auto
  then show ?case by (simp only: foldl.simps)
qed

end

section \<open>The registry provides it\<close>

text \<open>The invariant: one entry per PID, never an empty one, and no controller left behind.\<close>

abbreviation index :: "Registry \<Rightarrow> string \<Rightarrow> uuid set option" where
  "index r \<equiv> map_of (pid_subscriptions r)"

definition registry_inv :: "Registry \<Rightarrow> bool" where
  "registry_inv r \<longleftrightarrow>
     distinct (map fst (pid_subscriptions r)) \<and> (\<forall>p. index r p \<noteq> Some {})
     \<and> (\<forall>p. pid_controllers r p \<noteq> None \<longrightarrow> index r p \<noteq> None)"

lemma registry_inv_new: "registry_inv (registry_new ttl)"
  by (simp add: registry_inv_def registry_new_def)

lemma register_index:
  "index (register_pid_subscription p u t r) = (index r)(p \<mapsto> insert u (wanting r p))"
  "distinct (map fst (pid_subscriptions r)) \<Longrightarrow> distinct (map fst (pid_subscriptions (register_pid_subscription p u t r)))"
  by (auto simp: register_pid_subscription_def Let_def update_conv' distinct_update split: option.split)

lemma register_controller:
  "pid_controllers (register_pid_subscription p u t r) q = (if q = p \<and> t \<noteq> None then t else pid_controllers r q)"
  by (auto simp: register_pid_subscription_def Let_def split: option.split)

lemma register_law:
  assumes "registry_inv r"
  shows "registry_inv (register_pid_subscription p u t r)
    \<and> wanting (register_pid_subscription p u t r) = (wanting r)(p := insert u (wanting r p))"
  using assms
  by (auto simp: registry_inv_def register_index register_controller wanting_def fun_eq_iff simp del: not_None_eq)

lemma forget_index:
  "index (forget_pid p r) = (index r)(p := None)"
  "distinct (map fst (pid_subscriptions r)) \<Longrightarrow> distinct (map fst (pid_subscriptions (forget_pid p r)))"
  "pid_controllers (forget_pid p r) = (pid_controllers r)(p := None)"
  by (simp_all add: forget_pid_def delete_conv' distinct_delete)

lemma unregister_law:
  assumes "registry_inv r"
  shows "registry_inv (unregister_pid_subscription p u r)
    \<and> wanting (unregister_pid_subscription p u r) = (wanting r)(p := wanting r p - {u})"
proof (cases "index r p")
  case None
  with assms show ?thesis by (auto simp: unregister_pid_subscription_def wanting_def fun_eq_iff)
next
  case (Some s)
  show ?thesis
  proof (cases "s - {u} = {}")
    case True
    then have "unregister_pid_subscription p u r = forget_pid p r"
      using Some by (simp add: unregister_pid_subscription_def)
    with True Some assms show ?thesis
      by (auto simp: registry_inv_def wanting_def fun_eq_iff forget_index simp del: not_None_eq)
  next
    case False
    then have "unregister_pid_subscription p u r =
        r \<lparr> pid_subscriptions := AList.update p (s - {u}) (pid_subscriptions r) \<rparr>"
      using Some by (simp add: unregister_pid_subscription_def)
    with False Some assms show ?thesis
      by (auto simp: registry_inv_def wanting_def fun_eq_iff update_conv' distinct_update simp del: not_None_eq)
  qed
qed

lemma forget_list_index:
  "index (foldl (\<lambda>q p. forget_pid p q) r ps) p = (if p \<in> set ps then None else index r p)"
  by (induction ps arbitrary: r) (simp_all add: forget_index)

lemma forget_list_distinct:
  "distinct (map fst (pid_subscriptions r)) \<Longrightarrow> distinct (map fst (pid_subscriptions (foldl (\<lambda>q p. forget_pid p q) r ps)))"
  by (induction ps arbitrary: r) (simp_all add: forget_index)

lemma forget_list_controllers:
  "pid_controllers (foldl (\<lambda>q p. forget_pid p q) r ps) p = (if p \<in> set ps then None else pid_controllers r p)"
  by (induction ps arbitrary: r) (simp_all add: forget_index)

lemma unregister_all_law:
  assumes "registry_inv r"
  shows "registry_inv (unregister_subscription u r)
    \<and> wanting (unregister_subscription u r) = (\<lambda>p. wanting r p - {u})"
proof -
  let ?m = "map (\<lambda>(p, s). (p, s - {u})) (pid_subscriptions r)"
  let ?dead = "map fst (filter (\<lambda>(p, s). s = {}) ?m)"
  let ?r1 = "r \<lparr> pid_subscriptions := ?m \<rparr>"
  let ?q = "foldl (\<lambda>q p. forget_pid p q) ?r1 ?dead"
  have q: "unregister_subscription u r = ?q" by (simp add: unregister_subscription_def Let_def)
  have d: "distinct (map fst ?m)" using assms by (simp add: registry_inv_def comp_def case_prod_beta)
  have m: "map_of ?m p = map_option (\<lambda>s. s - {u}) (index r p)" for p
    by (simp add: map_of_map)
  have "p \<in> set ?dead \<longleftrightarrow> (p, {}) \<in> set ?m" for p
    by (simp only: set_map set_filter image_iff) auto
  then have dead: "p \<in> set ?dead \<longleftrightarrow> map_of ?m p = Some {}" for p
    using map_of_eq_Some_iff [OF d, of p "{}"] by blast
  have i: "index ?q p = (if map_of ?m p = Some {} then None else map_of ?m p)" for p
    by (simp only: forget_list_index dead) simp
  have c: "pid_controllers ?q p = (if map_of ?m p = Some {} then None else pid_controllers r p)" for p
    by (simp only: forget_list_controllers dead) simp
  have "distinct (map fst (pid_subscriptions ?q))" by (rule forget_list_distinct) (use d in simp)
  moreover have "index ?q p \<noteq> Some {}" for p by (simp add: i)
  moreover have "index ?q p \<noteq> None" if "pid_controllers ?q p \<noteq> None" for p
    using that assms by (auto simp: i c m registry_inv_def split: if_splits)
  ultimately have "registry_inv ?q" by (simp only: registry_inv_def) blast
  moreover have "wanting ?q p = wanting r p - {u}" for p
    by (cases "index r p") (simp_all add: wanting_def i m)
  ultimately show ?thesis unfolding q by blast
qed

interpretation idx: pid_index wanting register_pid_subscription unregister_pid_subscription unregister_subscription registry_inv
  by unfold_locales (fact register_law unregister_law unregister_all_law)+

section \<open>What the scheduler sees\<close>

lemma set_unique_pids:
  assumes "\<forall>xs. mset (ord xs) = mset xs"
  shows "set (get_unique_pids ord r) = {(p, pid_controllers r p) | p. p \<in> fst ` set (pid_subscriptions r)}"
proof -
  have "set (ord xs) = set xs" for xs by (metis assms set_mset_mset)
  then show ?thesis by (auto simp: get_unique_pids_def)
qed

lemma index_wanting: "registry_inv r \<Longrightarrow> p \<in> fst ` set (pid_subscriptions r) \<longleftrightarrow> wanting r p \<noteq> {}"
  by (auto simp: registry_inv_def wanting_def map_of_eq_None_iff split: option.split dest: map_of_eq_None_iff [THEN iffD2])

text \<open>
  The listing that every poll starts from is exact. In a registry that keeps its invariant,
  whatever the order of the hash maps, it has every PID that some subscription wants, with the
  controller registered for it, exactly once, and nothing else.
\<close>

theorem unique_pids_exact:
  assumes "registry_inv r" and "\<forall>xs. mset (ord xs) = mset xs"
  shows "set (get_unique_pids ord r) = {(p, get_pid_controller p r) | p. wanting r p \<noteq> {}}
    \<and> distinct (map fst (get_unique_pids ord r)) \<and> length (get_unique_pids ord r) = unique_pid_count r"
proof -
  let ?pids = "map fst (pid_subscriptions r)"
  let ?f = "\<lambda>c. sort (filter (\<lambda>p. pid_controllers r p = c) ?pids)"
  let ?cs = "ord (remdups (map (pid_controllers r) ?pids))"
  have d: "distinct ?pids" using assms(1) by (simp add: registry_inv_def)
  have m: "map fst (get_unique_pids ord r) = concat (map ?f ?cs)"
    by (simp add: get_unique_pids_def Let_def map_concat comp_def)
  have dc: "distinct ?cs" by (metis assms(2) distinct_remdups mset_eq_imp_distinct_iff)
  have "distinct (concat (map ?f cs))" if "distinct cs" for cs
    using that d by (induction cs) auto
  with dc m have 1: "distinct (map fst (get_unique_pids ord r))" by simp
  have s: "set (get_unique_pids ord r) = {(p, get_pid_controller p r) | p. wanting r p \<noteq> {}}"
    using set_unique_pids [OF assms(2)] index_wanting [OF assms(1)] by (simp add: get_pid_controller_def)
  have "fst ` {(p, pid_controllers r p) | p. p \<in> A} = A" for A by force
  then have "set (map fst (get_unique_pids ord r)) = set ?pids"
    by (simp only: set_map set_unique_pids [OF assms(2)])
  with 1 d have "length (map fst (get_unique_pids ord r)) = length ?pids" by (metis distinct_card)
  with 1 s show ?thesis by (simp add: unique_pid_count_def)
qed

theorem unique_pids_exact_witness:
  "set (get_unique_pids rev (unregister_pid_subscription ''0105'' 1 (register_pid_subscription ''0105'' 1 None
       (register_pid_subscription ''010C'' 1 (Some ''7E0'') (registry_new 1000))))) =
   {(p, get_pid_controller p (unregister_pid_subscription ''0105'' 1 (register_pid_subscription ''0105'' 1 None
       (register_pid_subscription ''010C'' 1 (Some ''7E0'') (registry_new 1000))))) | p.
     wanting (unregister_pid_subscription ''0105'' 1 (register_pid_subscription ''0105'' 1 None
       (register_pid_subscription ''010C'' 1 (Some ''7E0'') (registry_new 1000)))) p \<noteq> {}}"
proof -
  have "registry_inv (unregister_pid_subscription ''0105'' 1 (register_pid_subscription ''0105'' 1 None
       (register_pid_subscription ''010C'' 1 (Some ''7E0'') (registry_new 1000))))"
    by (intro unregister_law [THEN conjunct1] register_law [THEN conjunct1] registry_inv_new)
  from unique_pids_exact [OF this, of rev] show ?thesis by simp
qed

end
