(* ===== verification/Subscription.thy ===== *)
theory Subscription
  imports PidRegistry Acquisition
begin

text \<open>
  The subscription manager (\<^verbatim>\<open>src/subscription.rs\<close>): subscriptions and their life cycle, the
  weighted fair scheduler that picks the next PIDs to poll, and the accounting of completed
  commands. The manager owns the PID registry and uses it through the contract \<open>pid_index\<close>.

  The clock is an argument. The subscription table is an association list whose order stands for
  the iteration order of the hash map; the order of the controller groups of the registry listing
  is the parameter \<open>ord\<close>. The change callback of the host is not modelled: it only observes.
\<close>

section \<open>Tiers\<close>

datatype RefreshTier = Fast | Medium | Slow

definition divisor :: "RefreshTier \<Rightarrow> nat" where
  "divisor t = (case t of Fast \<Rightarrow> 1 | Medium \<Rightarrow> 3 | Slow \<Rightarrow> 10)"

definition tier_from_u8 :: "u8 \<Rightarrow> RefreshTier" where
  "tier_from_u8 v = (if v = 1 then Fast else if v = 10 then Slow else Medium)"

type_synonym tier_map = "string \<Rightarrow> RefreshTier option"

definition resolve_tier :: "string \<Rightarrow> tier_map \<Rightarrow> RefreshTier" where
  "resolve_tier pid tiers =
     (case tiers pid of
        Some t \<Rightarrow> t
      | None \<Rightarrow>
          (let p = to_uppercase (trim pid)
           in if length p = 6 \<and> starts_with p ''22F4''
              then (case tiers (''01'' @ drop 4 p) of Some t \<Rightarrow> t | None \<Rightarrow> Medium)
              else Medium))"

definition default_pid_tiers :: tier_map where
  "default_pid_tiers pid =
     (if pid \<in> {''010C'', ''010D'', ''0111'', ''0110'', ''0104''} then Some Fast
      else if pid \<in> {''0105'', ''015C'', ''0133'', ''012F'', ''011F'', ''0131'', ''0902'', ''090A'', ''0142''} then Some Slow
      else None)"

section \<open>State\<close>

datatype SubscriptionState = Active | Paused | Cancelled | Completed | ErrorState string

datatype SubscriptionError =
    SubscriptionNotFound uuid
  | InvalidPID string
  | ControllerNotAvailable string
  | AlreadyExists
  | NotActive
  | PlatformError string

record Subscription =
  sub_id :: uuid
  name :: "string option"
  pids :: "string set"
  target_controller :: "string option"
  state :: SubscriptionState
  created_at :: real
  last_active :: "real option"
  host_paused :: bool
  pid_run_counts :: "string \<Rightarrow> nat option option"
  pid_execution_counts :: "string \<Rightarrow> nat option"
  pid_responses :: "string \<Rightarrow> (string \<times> real) option"
  is_run_once_only :: bool
  sub_timeout :: "u32 option"
  pid_tiers :: tier_map

record AuditEntry =
  action :: string
  audit_sub :: "uuid option"
  audit_name :: "string option"
  audit_pids :: "string list"
  audit_target :: "string option"
  audit_time :: real

record CommandCompletedResult =
  completed_subscription :: "uuid option"
  pid_mismatch :: bool
  response_pid :: "string option"

record Manager =
  subscriptions :: "(uuid \<times> Subscription) list"
  registry :: Registry
  max_subscriptions :: nat
  in_flight_pids :: "string set"
  streamed_pids :: "string set"
  pid_schedule_ticks :: "(string \<times> nat) list"
  response_mismatch_count :: nat
  response_total_count :: nat
  audit_log :: "AuditEntry list"
  max_audit_entries :: nat

definition manager_new :: "Registry \<Rightarrow> nat \<Rightarrow> Manager" where
  "manager_new r n =
     \<lparr> subscriptions = [], registry = r, max_subscriptions = n, in_flight_pids = {}, streamed_pids = {},
       pid_schedule_ticks = [], response_mismatch_count = 0, response_total_count = 0, audit_log = [],
       max_audit_entries = 200 \<rparr>"

type_synonym 'a reply = "Manager \<times> (SubscriptionError + 'a)"

definition get_sub :: "uuid \<Rightarrow> Manager \<Rightarrow> Subscription option" where
  "get_sub i m = map_of (subscriptions m) i"

definition put_sub :: "uuid \<Rightarrow> Subscription \<Rightarrow> Manager \<Rightarrow> Manager" where
  "put_sub i s m = m \<lparr> subscriptions := AList.update i s (subscriptions m) \<rparr>"

section \<open>Audit log\<close>

definition push_audit :: "AuditEntry \<Rightarrow> Manager \<Rightarrow> Manager" where
  "push_audit e m =
     (let l = (if length (audit_log m) \<ge> max_audit_entries m then drop 1 (audit_log m) else audit_log m)
      in m \<lparr> audit_log := l @ [e] \<rparr>)"

definition touch_and_audit :: "real \<Rightarrow> uuid \<Rightarrow> string \<Rightarrow> string list \<Rightarrow> Manager \<Rightarrow> Manager" where
  "touch_and_audit now i act ps m =
     (case get_sub i m of
        None \<Rightarrow> m
      | Some s \<Rightarrow>
          push_audit \<lparr> action = act, audit_sub = Some i, audit_name = name s, audit_pids = ps,
              audit_target = target_controller s, audit_time = now \<rparr>
            (put_sub i (s \<lparr> last_active := Some now \<rparr>) m))"

definition log_audit_event :: "real \<Rightarrow> string \<Rightarrow> string option \<Rightarrow> string list \<Rightarrow> Manager \<Rightarrow> Manager" where
  "log_audit_event now act nm ps m =
     push_audit \<lparr> action = act, audit_sub = None, audit_name = nm, audit_pids = ps, audit_target = None,
       audit_time = now \<rparr> m"

definition get_audit_log :: "nat \<Rightarrow> Manager \<Rightarrow> AuditEntry list" where
  "get_audit_log n m = take n (rev (audit_log m))"

section \<open>Life cycle\<close>

definition create_subscription :: "uuid \<Rightarrow> real \<Rightarrow> string option \<Rightarrow> Manager \<Rightarrow> uuid reply" where
  "create_subscription fresh now nm m =
     (if length (subscriptions m) \<ge> max_subscriptions m then (m, Inl AlreadyExists)
      else (put_sub fresh
              \<lparr> sub_id = fresh, name = nm, pids = {}, target_controller = None, state = Paused, created_at = now,
                last_active = None, host_paused = False, pid_run_counts = Map.empty,
                pid_execution_counts = Map.empty, pid_responses = Map.empty, is_run_once_only = False,
                sub_timeout = None, pid_tiers = default_pid_tiers \<rparr> m, Inr fresh))"

definition set_subscription_timeout :: "uuid \<Rightarrow> u32 \<Rightarrow> Manager \<Rightarrow> unit reply" where
  "set_subscription_timeout i t m =
     (case get_sub i m of
        None \<Rightarrow> (m, Inl (SubscriptionNotFound i))
      | Some s \<Rightarrow> (put_sub i (s \<lparr> sub_timeout := Some t \<rparr>) m, Inr ()))"

definition start_subscription :: "real \<Rightarrow> uuid \<Rightarrow> Manager \<Rightarrow> unit reply" where
  "start_subscription now i m =
     (case get_sub i m of
        None \<Rightarrow> (m, Inl (SubscriptionNotFound i))
      | Some s0 \<Rightarrow>
          (let s = s0 \<lparr> host_paused := False \<rparr> in
           case state s of
             Active \<Rightarrow> (put_sub i s m, Inr ())
           | Paused \<Rightarrow> (put_sub i (s \<lparr> state := Active, last_active := Some now \<rparr>) m, Inr ())
           | _ \<Rightarrow> (put_sub i s m, Inl NotActive)))"

definition pause_subscription :: "uuid \<Rightarrow> Manager \<Rightarrow> unit reply" where
  "pause_subscription i m =
     (case get_sub i m of
        None \<Rightarrow> (m, Inl (SubscriptionNotFound i))
      | Some s \<Rightarrow>
          if state s = Cancelled then (m, Inl NotActive)
          else (put_sub i (s \<lparr> state := Paused, host_paused := True \<rparr>) m, Inr ()))"

definition pause_all_active :: "Manager \<Rightarrow> Manager \<times> uuid list" where
  "pause_all_active m =
     (m \<lparr> subscriptions := map (\<lambda>(i, s). (i, if state s = Active then s \<lparr> state := Paused \<rparr> else s)) (subscriptions m) \<rparr>,
      map fst (filter (\<lambda>(i, s). state s = Active) (subscriptions m)))"

definition resume_one :: "uuid \<Rightarrow> Manager \<Rightarrow> Manager" where
  "resume_one i m =
     (case get_sub i m of
        None \<Rightarrow> m
      | Some s \<Rightarrow> if state s = Paused \<and> \<not> host_paused s then put_sub i (s \<lparr> state := Active \<rparr>) m else m)"

definition resume_many :: "uuid list \<Rightarrow> Manager \<Rightarrow> Manager" where
  "resume_many ids m = foldl (\<lambda>q i. resume_one i q) m ids"

definition cancel_subscription :: "uuid \<Rightarrow> Manager \<Rightarrow> unit reply" where
  "cancel_subscription i m =
     (case get_sub i m of
        None \<Rightarrow> (m, Inl (SubscriptionNotFound i))
      | Some _ \<Rightarrow>
          (m \<lparr> subscriptions := AList.delete i (subscriptions m),
               registry := unregister_subscription i (registry m) \<rparr>, Inr ()))"

section \<open>PIDs\<close>

definition digit_char :: "char \<Rightarrow> bool" where
  "digit_char c \<longleftrightarrow> 48 \<le> char_code c \<and> char_code c \<le> 57"

text \<open>\<^verbatim>\<open>split_once(' ')\<close>.\<close>

definition split_once_space :: "string \<Rightarrow> (string \<times> string) option" where
  "split_once_space s =
     (let h = takeWhile (\<lambda>c. c \<noteq> CHR '' '') s
      in if length h = length s then None else Some (h, drop (length h + 1) s))"

definition hex_request :: "string \<Rightarrow> bool" where
  "hex_request h \<longleftrightarrow> 2 \<le> length h \<and> length h \<le> 26 \<and> length h mod 2 = 0 \<and> list_all is_hexdigit h"

definition valid_plain :: "string \<Rightarrow> bool" where
  "valid_plain cmd =
     (let t = trim (to_uppercase cmd) in
      if starts_with t ''AT'' then length t \<ge> 3
      else if starts_with t ''ST'' then length t \<ge> 3
      else (case split_once_space t of
              Some (h, tl') \<Rightarrow> if length tl' \<le> 2 \<and> list_all digit_char tl' then hex_request h else False
            | None \<Rightarrow> hex_request t))"

text \<open>The recursion of the code is one level deep: a segment of a split at pipes has no pipe.\<close>

definition is_valid_pid_static :: "string \<Rightarrow> bool" where
  "is_valid_pid_static cmd =
     (let t = trim (to_uppercase cmd) in
      if contains t ''|''
      then list_all (\<lambda>seg. trim seg \<noteq> [] \<and> valid_plain seg) (split_on is_pipe t)
      else valid_plain cmd)"

definition seed_tick :: "Manager \<Rightarrow> nat" where
  "seed_tick m =
     (let act = \<Union> (pids ` snd ` set (subscriptions m));
          ts = map snd (filter (\<lambda>(p, _). p \<in> act) (pid_schedule_ticks m))
      in if ts = [] then 0 else Min (set ts))"

definition lookup_run_count :: "(string \<Rightarrow> nat option option) option \<Rightarrow> string \<Rightarrow> nat option" where
  "lookup_run_count counts pid =
     (case counts of None \<Rightarrow> None | Some c \<Rightarrow> (case c pid of None \<Rightarrow> None | Some n \<Rightarrow> n))"

definition add_one_pid :: "(string \<Rightarrow> nat option option) option \<Rightarrow> Subscription \<Rightarrow> string \<Rightarrow> Subscription" where
  "add_one_pid counts s pid =
     s \<lparr> pids := insert pid (pids s),
         pid_run_counts := (pid_run_counts s)(pid \<mapsto> lookup_run_count counts pid),
         pid_execution_counts := (pid_execution_counts s)(pid \<mapsto> 0) \<rparr>"

definition add_pids_with_run_counts ::
  "real \<Rightarrow> uuid \<Rightarrow> string list \<Rightarrow> string option \<Rightarrow> (string \<Rightarrow> nat option option) option \<Rightarrow> Manager \<Rightarrow> unit reply" where
  "add_pids_with_run_counts now i ps tgt counts m =
     (let seed = seed_tick m in
      case get_sub i m of
        None \<Rightarrow> (m, Inl (SubscriptionNotFound i))
      | Some s \<Rightarrow>
          if state s = Cancelled then (m, Inl NotActive)
          else (case find (\<lambda>p. \<not> is_valid_pid_static p) ps of
              Some p \<Rightarrow> (m, Inl (InvalidPID p))
            | None \<Rightarrow>
                (let s1 = foldl (add_one_pid counts) s ps;
                     s2 = (if ps \<noteq> [] \<and> list_all (\<lambda>p. lookup_run_count counts p \<noteq> None) ps
                           then s1 \<lparr> is_run_once_only := True \<rparr> else s1);
                     s3 = (case tgt of None \<Rightarrow> s2 | Some c \<Rightarrow> s2 \<lparr> target_controller := Some c \<rparr>);
                     m1 = put_sub i s3 m;
                     m2 = m1 \<lparr> pid_schedule_ticks := foldl (\<lambda>ts p. AList.update p seed ts) (pid_schedule_ticks m) ps,
                               registry := foldl (\<lambda>r p. register_pid_subscription p i tgt r) (registry m) ps \<rparr>
                 in (touch_and_audit now i ''add'' ps m2, Inr ()))))"

definition add_pids_to_subscription :: "real \<Rightarrow> uuid \<Rightarrow> string list \<Rightarrow> string option \<Rightarrow> Manager \<Rightarrow> unit reply" where
  "add_pids_to_subscription now i ps tgt m = add_pids_with_run_counts now i ps tgt None m"

definition remove_pids :: "real \<Rightarrow> uuid \<Rightarrow> string list \<Rightarrow> Manager \<Rightarrow> unit reply" where
  "remove_pids now i ps m =
     (case get_sub i m of
        None \<Rightarrow> (m, Inl (SubscriptionNotFound i))
      | Some s \<Rightarrow>
          if state s = Cancelled then (m, Inl NotActive)
          else
            (let m1 = put_sub i (s \<lparr> pids := pids s - set ps \<rparr>) m;
                 m2 = m1 \<lparr> registry := foldl (\<lambda>r p. unregister_pid_subscription p i r) (registry m) ps \<rparr>
             in (touch_and_audit now i ''remove'' ps m2, Inr ())))"

definition set_pid_tiers :: "uuid \<Rightarrow> (string \<times> RefreshTier) list \<Rightarrow> Manager \<Rightarrow> unit reply" where
  "set_pid_tiers i ts m =
     (case get_sub i m of
        None \<Rightarrow> (m, Inl (SubscriptionNotFound i))
      | Some s \<Rightarrow> (put_sub i (s \<lparr> pid_tiers := foldl (\<lambda>f (p, t). f(p \<mapsto> t)) (pid_tiers s) ts \<rparr>) m, Inr ()))"

definition set_streamed_pids :: "string set \<Rightarrow> Manager \<Rightarrow> Manager" where
  "set_streamed_pids ps m = m \<lparr> streamed_pids := ps \<rparr>"

definition clear_in_flight :: "Manager \<Rightarrow> Manager" where
  "clear_in_flight m = m \<lparr> in_flight_pids := {} \<rparr>"

section \<open>Scheduling\<close>

definition owning_active_sub :: "string \<Rightarrow> Manager \<Rightarrow> Subscription option" where
  "owning_active_sub pid m =
     map_option snd (find (\<lambda>(_, s). pid \<in> pids s \<and> state s = Active) (subscriptions m))"

definition run_limit_reached :: "Subscription \<Rightarrow> string \<Rightarrow> bool" where
  "run_limit_reached s pid =
     (case pid_run_counts s pid of
        Some (Some limit) \<Rightarrow> (case pid_execution_counts s pid of None \<Rightarrow> 0 | Some n \<Rightarrow> n) \<ge> limit
      | _ \<Rightarrow> False)"

definition tick_of :: "Manager \<Rightarrow> string \<Rightarrow> nat" where
  "tick_of m pid = (case map_of (pid_schedule_ticks m) pid of None \<Rightarrow> 0 | Some t \<Rightarrow> t)"

type_synonym pick = "DuePick \<times> nat"

definition eligible_pick :: "Manager \<Rightarrow> string \<times> string option \<Rightarrow> pick option" where
  "eligible_pick m pc =
     (let (pid, ctrl) = pc in
      if pid \<in> in_flight_pids m \<or> pid \<in> streamed_pids m then None
      else (case owning_active_sub pid m of
              None \<Rightarrow> None
            | Some s \<Rightarrow>
                if run_limit_reached s pid then None
                else Some (\<lparr> dp_pid = pid, dp_controller = ctrl, dp_timeout = sub_timeout s \<rparr>, tick_of m pid)))"

fun better :: "pick option \<Rightarrow> pick option \<Rightarrow> pick option" where
  "better best None = best"
| "better None (Some c) = Some c"
| "better (Some b) (Some c) = (if snd c < snd b then Some c else Some b)"

type_synonym group_order = "string option list \<Rightarrow> string option list"

definition peek_next_eligible :: "group_order \<Rightarrow> Manager \<Rightarrow> pick option" where
  "peek_next_eligible ord m =
     foldl (\<lambda>best pc. better best (eligible_pick m pc)) None (get_unique_pids ord (registry m))"

definition commit_divisor :: "Manager \<Rightarrow> string \<Rightarrow> nat" where
  "commit_divisor m pid =
     divisor (case find (\<lambda>(_, s). pid \<in> pids s) (subscriptions m) of
                Some (_, s) \<Rightarrow> resolve_tier pid (pid_tiers s) | None \<Rightarrow> Medium)"

definition commit_pick :: "string \<Rightarrow> Manager \<Rightarrow> Manager" where
  "commit_pick pid m =
     m \<lparr> pid_schedule_ticks := AList.update pid (tick_of m pid + commit_divisor m pid) (pid_schedule_ticks m),
         in_flight_pids := insert pid (in_flight_pids m) \<rparr>"

definition get_next_command :: "group_order \<Rightarrow> Manager \<Rightarrow> Manager \<times> DuePick option" where
  "get_next_command ord m =
     (case peek_next_eligible ord m of
        None \<Rightarrow> (m, None)
      | Some (d, _) \<Rightarrow> (commit_pick (dp_pid d) m, Some d))"

fun pick_loop ::
  "group_order \<Rightarrow> Admission \<Rightarrow> nat \<Rightarrow> DuePick list \<Rightarrow> string option option \<Rightarrow> nat option \<Rightarrow> Manager
     \<Rightarrow> Manager \<times> DuePick list" where
  "pick_loop ord a 0 picked tgt sweep m = (m, picked)"
| "pick_loop ord a (Suc n) picked tgt sweep m =
     (case peek_next_eligible ord m of
        None \<Rightarrow> (m, picked)
      | Some (d, tick) \<Rightarrow>
          if (case sweep of None \<Rightarrow> False | Some t \<Rightarrow> tick > t) then (m, picked)
          else if (case tgt of None \<Rightarrow> False | Some t \<Rightarrow> t \<noteq> dp_controller d) then (m, picked)
          else if picked \<noteq> [] \<and> \<not> admit a picked d then (m, picked)
          else pick_loop ord a n (picked @ [d])
                 (case tgt of None \<Rightarrow> Some (dp_controller d) | Some t \<Rightarrow> Some t)
                 (case sweep of None \<Rightarrow> Some tick | Some t \<Rightarrow> Some t)
                 (commit_pick (dp_pid d) m))"

definition get_next_commands :: "group_order \<Rightarrow> nat \<Rightarrow> Admission \<Rightarrow> Manager \<Rightarrow> Manager \<times> DuePick list" where
  "get_next_commands ord n a m = pick_loop ord a (max n 1) [] None None m"

definition active_continuous_pids :: "Manager \<Rightarrow> (string \<times> string option) set" where
  "active_continuous_pids m =
     {(p, target_controller s) | i s p. (i, s) \<in> set (subscriptions m) \<and> state s = Active \<and> p \<in> pids s
        \<and> (case pid_run_counts s p of Some (Some _) \<Rightarrow> False | _ \<Rightarrow> True)}"

section \<open>Completion\<close>

definition hex_pair :: "string \<Rightarrow> bool" where
  "hex_pair t \<longleftrightarrow> length t = 2 \<and> list_all is_hexdigit t"

fun extract_tokens :: "string list \<Rightarrow> string option" where
  "extract_tokens (t # u # ts) =
     (if (t = ''41'' \<or> t = ''49'') \<and> hex_pair u
      then Some (to_uppercase ((if t = ''41'' then ''01'' else ''09'') @ u))
      else if (t = ''62'' \<or> t = ''64'') \<and> ts \<noteq> [] \<and> hex_pair u \<and> hex_pair (hd ts)
      then Some (to_uppercase ((if t = ''62'' then ''22'' else ''24'') @ u @ hd ts))
      else extract_tokens (u # ts))"
| "extract_tokens _ = None"

definition extract_pid_from_response :: "string \<Rightarrow> string option" where
  "extract_pid_from_response response = extract_tokens (split_whitespace response)"

definition mode_of :: "string \<Rightarrow> string" where
  "mode_of pid = (if length pid < 2 then [] else take 2 pid)"

definition cross_checkable :: "string \<Rightarrow> bool" where
  "cross_checkable pid \<longleftrightarrow>
     CHR ''|'' \<notin> set pid \<and> CHR '' '' \<notin> set pid
     \<and> (let md = mode_of pid in
        if md = ''01'' \<or> md = ''09'' then length pid = 4
        else if md = ''22'' \<or> md = ''24'' then length pid = 6 else False)"

text \<open>The PID a completion is accounted to, whether it differs, what was parsed.\<close>

definition attribute :: "string \<Rightarrow> string option \<Rightarrow> string \<times> bool \<times> string option" where
  "attribute pid response =
     (case response of
        None \<Rightarrow> (pid, False, None)
      | Some d \<Rightarrow>
          (case extract_pid_from_response d of
             None \<Rightarrow> (pid, False, None)
           | Some rp \<Rightarrow>
               if cross_checkable pid \<and> length rp \<ge> 2 \<and> take 2 rp = mode_of pid
               then (if rp \<noteq> pid then (rp, True, Some rp) else (pid, False, Some rp))
               else (pid, False, None)))"

definition count_response :: "string \<times> bool \<times> string option \<Rightarrow> Manager \<Rightarrow> Manager" where
  "count_response a m =
     (case a of
        (_, mism, Some _) \<Rightarrow>
          m \<lparr> response_total_count := response_total_count m + 1,
              response_mismatch_count := response_mismatch_count m + (if mism then 1 else 0) \<rparr>
      | _ \<Rightarrow> m)"

definition complete_in_sub ::
  "string \<Rightarrow> string option \<Rightarrow> real \<Rightarrow> uuid \<Rightarrow> Subscription \<times> Registry \<Rightarrow> Subscription \<times> Registry" where
  "complete_in_sub pid response ts i sr =
     (let (s, r) = sr in
      if pid \<in> pids s \<and> state s = Active then
        (let current = (case pid_execution_counts s pid of None \<Rightarrow> 0 | Some n \<Rightarrow> n) + 1;
             s1 = s \<lparr> pid_execution_counts := (pid_execution_counts s)(pid \<mapsto> current) \<rparr>;
             s2 = (case response of None \<Rightarrow> s1 | Some d \<Rightarrow> s1 \<lparr> pid_responses := (pid_responses s1)(pid \<mapsto> (d, ts)) \<rparr>);
             (s3, r3) = (case pid_run_counts s2 pid of
                 Some (Some limit) \<Rightarrow>
                   if current \<ge> limit
                   then (s2 \<lparr> pids := pids s2 - {pid} \<rparr>, unregister_pid_subscription pid i r) else (s2, r)
               | _ \<Rightarrow> (s2, r));
             s4 = (if pid \<notin> pids s3
                   then s3 \<lparr> pid_run_counts := (pid_run_counts s3)(pid := None),
                             pid_execution_counts := (pid_execution_counts s3)(pid := None) \<rparr> else s3)
         in (s4, r3))
      else (s, r))"

fun complete_all ::
  "string \<Rightarrow> string option \<Rightarrow> real \<Rightarrow> (uuid \<times> Subscription) list \<Rightarrow> Registry
     \<Rightarrow> (uuid \<times> Subscription) list \<times> Registry" where
  "complete_all pid response ts [] r = ([], r)"
| "complete_all pid response ts ((i, s) # ss) r =
     (let (s', r') = complete_in_sub pid response ts i (s, r);
          (ss', r'') = complete_all pid response ts ss r'
      in ((i, s') # ss', r''))"

definition run_once_done :: "Subscription \<Rightarrow> bool" where
  "run_once_done s \<longleftrightarrow> is_run_once_only s \<and> state s = Active \<and> pids s = {}"

definition check_and_mark_subscription_complete :: "Manager \<Rightarrow> Manager \<times> uuid option" where
  "check_and_mark_subscription_complete m =
     (case find (\<lambda>(_, s). run_once_done s) (subscriptions m) of
        None \<Rightarrow> (m, None)
      | Some (i, s) \<Rightarrow> (put_sub i (s \<lparr> state := Completed \<rparr>) m, Some i))"

definition command_completed :: "string \<Rightarrow> string option \<Rightarrow> real \<Rightarrow> Manager \<Rightarrow> Manager \<times> CommandCompletedResult" where
  "command_completed pid response ts m =
     (let a = attribute pid response;
          m1 = count_response a m;
          m2 = m1 \<lparr> in_flight_pids := in_flight_pids m1 - {pid} \<rparr>;
          (ss, r) = complete_all (fst a) response ts (subscriptions m2) (registry m2);
          (m3, finished) = check_and_mark_subscription_complete (m2 \<lparr> subscriptions := ss, registry := r \<rparr>)
      in (m3, \<lparr> completed_subscription = finished, pid_mismatch = fst (snd a), response_pid = snd (snd a) \<rparr>))"

section \<open>The registry mirrors the subscriptions\<close>

text \<open>What each subscription holds, read off the table; the manager's part of the index contract.\<close>

definition holds :: "(uuid \<times> Subscription) list \<Rightarrow> uuid \<Rightarrow> string set" where
  "holds ss i = (case map_of ss i of None \<Rightarrow> {} | Some s \<Rightarrow> pids s)"

text \<open>A held PID has its counters, and a limited one still has a run to go.\<close>

definition sub_ok :: "Subscription \<Rightarrow> bool" where
  "sub_ok s \<longleftrightarrow> (\<forall>p \<in> pids s. \<exists>c n. pid_run_counts s p = Some c \<and> pid_execution_counts s p = Some n
     \<and> (case c of None \<Rightarrow> True | Some limit \<Rightarrow> n < limit \<or> limit = 0))"

lemma sub_ok_cong:
  "pids s = pids t \<Longrightarrow> pid_run_counts s = pid_run_counts t \<Longrightarrow> pid_execution_counts s = pid_execution_counts t \<Longrightarrow>
   sub_ok s = sub_ok t"
  by (simp add: sub_ok_def)

definition manager_inv :: "Manager \<Rightarrow> bool" where
  "manager_inv m \<longleftrightarrow>
     distinct (map fst (subscriptions m))
     \<and> idx.mirrors (registry m) (holds (subscriptions m))
     \<and> (\<forall>(i, s) \<in> set (subscriptions m). sub_ok s)
     \<and> length (subscriptions m) \<le> max_subscriptions m
     \<and> length (audit_log m) \<le> max_audit_entries m \<and> 0 < max_audit_entries m"

datatype Op =
    Create uuid real "string option"
  | SetTimeout uuid u32
  | Start real uuid
  | Pause uuid
  | PauseAllActive
  | ResumeMany "uuid list"
  | Cancel uuid
  | AddPids real uuid "string list" "string option" "(string \<Rightarrow> nat option option) option"
  | RemovePids real uuid "string list"
  | SetTiers uuid "(string \<times> RefreshTier) list"
  | SetStreamed "string set"
  | ClearInFlight
  | NextCommand_op group_order
  | NextCommands group_order nat Admission
  | CompletedOp string "string option" real
  | LogAudit real string "string option" "string list"

fun exec_op :: "Op \<Rightarrow> Manager \<Rightarrow> Manager" where
  "exec_op (Create i now nm) m = fst (create_subscription i now nm m)"
| "exec_op (SetTimeout i t) m = fst (set_subscription_timeout i t m)"
| "exec_op (Start now i) m = fst (start_subscription now i m)"
| "exec_op (Pause i) m = fst (pause_subscription i m)"
| "exec_op PauseAllActive m = fst (pause_all_active m)"
| "exec_op (ResumeMany ids) m = resume_many ids m"
| "exec_op (Cancel i) m = fst (cancel_subscription i m)"
| "exec_op (AddPids now i ps tgt counts) m = fst (add_pids_with_run_counts now i ps tgt counts m)"
| "exec_op (RemovePids now i ps) m = fst (remove_pids now i ps m)"
| "exec_op (SetTiers i ts) m = fst (set_pid_tiers i ts m)"
| "exec_op (SetStreamed ps) m = set_streamed_pids ps m"
| "exec_op ClearInFlight m = clear_in_flight m"
| "exec_op (NextCommand_op ord) m = fst (get_next_command ord m)"
| "exec_op (NextCommands ord n a) m = fst (get_next_commands ord n a m)"
| "exec_op (CompletedOp pid resp ts) m = fst (command_completed pid resp ts m)"
| "exec_op (LogAudit now act nm ps) m = log_audit_event now act nm ps m"

text \<open>A new subscription gets an identifier that was never used: the version 4 UUID of the code.\<close>

inductive reachable :: "nat \<Rightarrow> nat \<Rightarrow> Manager \<Rightarrow> bool" for ttl mx where
  initial: "reachable ttl mx (manager_new (registry_new ttl) mx)"
| op: "reachable ttl mx m \<Longrightarrow> (\<And>i now nm. opn = Create i now nm \<Longrightarrow> get_sub i m = None) \<Longrightarrow>
     reachable ttl mx (exec_op opn m)"

inductive_cases reachableE: "reachable ttl mx m"

subsection \<open>One subscription at a time\<close>

named_theorems manager_fields

lemma put_sub_fields [simp, manager_fields]:
  "registry (put_sub i s m) = registry m" "audit_log (put_sub i s m) = audit_log m"
  "max_audit_entries (put_sub i s m) = max_audit_entries m" "max_subscriptions (put_sub i s m) = max_subscriptions m"
  "in_flight_pids (put_sub i s m) = in_flight_pids m" "streamed_pids (put_sub i s m) = streamed_pids m"
  "pid_schedule_ticks (put_sub i s m) = pid_schedule_ticks m"
  "subscriptions (put_sub i s m) = AList.update i s (subscriptions m)"
  by (simp_all add: put_sub_def)

lemma get_put [simp]: "get_sub j (put_sub i s m) = (if j = i then Some s else get_sub j m)"
  by (simp add: get_sub_def put_sub_def update_conv')

lemma length_update: "map_of al k \<noteq> None \<Longrightarrow> length (AList.update k v al) = length al"
  by (induction al) auto

lemma length_update_new: "map_of al k = None \<Longrightarrow> length (AList.update k v al) = Suc (length al)"
  by (induction al) auto

lemma set_update_subset: "set (AList.update k v al) \<subseteq> insert (k, v) (set al)"
  by (induction al) auto

lemma holds_update: "holds (AList.update i s ss) = (holds ss)(i := pids s)"
  by (auto simp: holds_def update_conv' fun_eq_iff)

lemma holds_get: "get_sub i m = Some s \<Longrightarrow> holds (subscriptions m) i = pids s"
  by (simp add: holds_def get_sub_def)

lemma inv_sub: "manager_inv m \<Longrightarrow> get_sub i m = Some s \<Longrightarrow> sub_ok s"
  by (auto simp: manager_inv_def get_sub_def dest!: map_of_SomeD)

text \<open>Rewriting one subscription, whatever it holds afterwards, if the registry follows.\<close>

lemma inv_put:
  assumes inv: "manager_inv m" and s: "get_sub i m = Some s" and ok: "sub_ok s'"
    and r: "idx.mirrors r ((holds (subscriptions m))(i := pids s'))"
    and m': "subscriptions m' = AList.update i s' (subscriptions m)" "registry m' = r"
      "max_subscriptions m' = max_subscriptions m" "audit_log m' = audit_log m"
      "max_audit_entries m' = max_audit_entries m"
  shows "manager_inv m'"
proof -
  have "\<forall>(j, t) \<in> set (AList.update i s' (subscriptions m)). sub_ok t"
    using set_update_subset [of i s' "subscriptions m"] inv ok by (auto simp: manager_inv_def)
  moreover have "length (AList.update i s' (subscriptions m)) = length (subscriptions m)"
    by (rule length_update) (use s in \<open>simp add: get_sub_def\<close>)
  ultimately show ?thesis
    using inv r m' by (simp add: manager_inv_def holds_update distinct_update)
qed

text \<open>The same with the PIDs and their counters left alone.\<close>

lemma inv_put_same:
  assumes "manager_inv m" "get_sub i m = Some s" "pids s' = pids s" "pid_run_counts s' = pid_run_counts s"
    "pid_execution_counts s' = pid_execution_counts s"
  shows "manager_inv (put_sub i s' m)"
proof (rule inv_put [OF assms(1,2)])
  show "sub_ok s'" using inv_sub [OF assms(1,2)] assms(3-5) by (simp add: sub_ok_def)
  show "idx.mirrors (registry m) ((holds (subscriptions m))(i := pids s'))"
    using assms(1,3) holds_get [OF assms(2)] by (auto simp: manager_inv_def fun_upd_idem)
qed simp_all

lemma inv_push_audit: "manager_inv m \<Longrightarrow> manager_inv (push_audit e m)"
  by (auto simp: manager_inv_def push_audit_def Let_def)

lemma inv_touch: "manager_inv m \<Longrightarrow> manager_inv (touch_and_audit now i act ps m)"
  by (auto simp: touch_and_audit_def intro!: inv_push_audit inv_put_same split: option.split)

lemma inv_schedule:
  "manager_inv m \<Longrightarrow> manager_inv (m \<lparr> pid_schedule_ticks := t, in_flight_pids := f \<rparr>)"
  "manager_inv m \<Longrightarrow> manager_inv (m \<lparr> in_flight_pids := f \<rparr>)"
  "manager_inv m \<Longrightarrow> manager_inv (m \<lparr> streamed_pids := f \<rparr>)"
  "manager_inv m \<Longrightarrow> manager_inv (m \<lparr> pid_schedule_ticks := t \<rparr>)"
  by (simp_all add: manager_inv_def)


subsection \<open>Every operation keeps the invariant\<close>

lemma inv_new: "manager_inv (manager_new (registry_new ttl) mx)"
  by (simp add: manager_inv_def manager_new_def idx.mirrors_def registry_inv_new holds_def)
     (simp add: wanting_def registry_new_def)

lemma inv_create:
  assumes "manager_inv m" "get_sub i m = None"
  shows "manager_inv (fst (create_subscription i now nm m))"
proof (cases "length (subscriptions m) \<ge> max_subscriptions m")
  case True
  with assms show ?thesis by (simp add: create_subscription_def)
next
  case False
  obtain s where c: "fst (create_subscription i now nm m) = put_sub i s m" and s: "pids s = {}"
    using False by (auto simp: create_subscription_def)
  have h: "holds (subscriptions m) i = {}" using assms(2) by (simp add: holds_def get_sub_def)
  have "(holds (subscriptions m))(i := {}) = holds (subscriptions m)" using h by (rule fun_upd_idem)
  moreover have "length (AList.update i s (subscriptions m)) \<le> max_subscriptions m"
    using False assms(2) by (simp add: length_update_new get_sub_def)
  moreover have "sub_ok s" using s by (simp add: sub_ok_def)
  then have "\<forall>(j, t) \<in> set (AList.update i s (subscriptions m)). sub_ok t"
    using set_update_subset [of i s "subscriptions m"] assms(1) by (auto simp: manager_inv_def)
  ultimately show ?thesis
    using assms(1) s by (simp add: c manager_inv_def holds_update distinct_update)
qed

lemma inv_set_timeout: "manager_inv m \<Longrightarrow> manager_inv (fst (set_subscription_timeout i t m))"
  by (auto simp: set_subscription_timeout_def intro!: inv_put_same split: option.split)

lemma inv_start: "manager_inv m \<Longrightarrow> manager_inv (fst (start_subscription now i m))"
  by (auto simp: start_subscription_def Let_def intro!: inv_put_same split: option.split SubscriptionState.split)

lemma inv_pause: "manager_inv m \<Longrightarrow> manager_inv (fst (pause_subscription i m))"
  by (auto simp: pause_subscription_def intro!: inv_put_same split: option.split)

lemma inv_resume_one: "manager_inv m \<Longrightarrow> manager_inv (resume_one i m)"
  by (auto simp: resume_one_def intro!: inv_put_same split: option.split)

lemma inv_resume: "manager_inv m \<Longrightarrow> manager_inv (resume_many ids m)"
  unfolding resume_many_def by (induction ids arbitrary: m) (simp_all add: inv_resume_one)

lemma inv_set_tiers: "manager_inv m \<Longrightarrow> manager_inv (fst (set_pid_tiers i ts m))"
  by (auto simp: set_pid_tiers_def intro!: inv_put_same split: option.split)

text \<open>Replacing the whole table by one of the same size.\<close>

lemma inv_table:
  assumes "manager_inv m" "distinct (map fst ss)" "idx.mirrors r (holds ss)" "\<forall>(i, s) \<in> set ss. sub_ok s"
    "length ss = length (subscriptions m)"
  shows "manager_inv (m \<lparr> subscriptions := ss, registry := r \<rparr>)"
    and "r = registry m \<Longrightarrow> manager_inv (m \<lparr> subscriptions := ss \<rparr>)"
  using assms by (simp_all add: manager_inv_def)

lemma holds_map_state:
  assumes "\<And>s. pids (f s) = pids s"
  shows "holds (map (\<lambda>(i, s). (i, f s)) ss) = holds ss"
  by (induction ss) (auto simp: holds_def fun_eq_iff assms)

lemma inv_pause_all:
  assumes "manager_inv m"
  shows "manager_inv (fst (pause_all_active m))"
proof -
  let ?f = "\<lambda>s. if state s = Active then s \<lparr> state := Paused \<rparr> else s"
  let ?ss = "map (\<lambda>(i, s). (i, ?f s)) (subscriptions m)"
  have h: "holds ?ss = holds (subscriptions m)" by (rule holds_map_state) simp
  have k: "map fst ?ss = map fst (subscriptions m)" by (induction "subscriptions m") auto
  have "sub_ok (?f s) = sub_ok s" for s by (rule sub_ok_cong) simp_all
  then have ok: "\<forall>(i, s) \<in> set ?ss. sub_ok s"
    using assms by (auto simp: manager_inv_def)
  have d: "distinct (map fst ?ss)" using assms by (simp only: k manager_inv_def)
  have "idx.mirrors (registry m) (holds ?ss)" using assms by (simp only: h manager_inv_def)
  with inv_table [OF assms d _ ok] show ?thesis by (simp add: pause_all_active_def)
qed

lemma inv_cancel:
  assumes "manager_inv m"
  shows "manager_inv (fst (cancel_subscription i m))"
proof (cases "get_sub i m")
  case None
  with assms show ?thesis by (simp add: cancel_subscription_def)
next
  case (Some s)
  have "holds (AList.delete i (subscriptions m)) = (holds (subscriptions m))(i := {})"
    by (auto simp: holds_def delete_conv' fun_eq_iff)
  moreover have "set (AList.delete i (subscriptions m)) \<subseteq> set (subscriptions m)"
    by (auto simp: AList.delete_eq)
  moreover have "length (AList.delete i (subscriptions m)) \<le> length (subscriptions m)"
    by (rule length_delete_le)
  ultimately show ?thesis
    using assms Some idx.mirrors_unreg_all [of "registry m" "holds (subscriptions m)" i]
    by (auto simp: cancel_subscription_def manager_inv_def distinct_delete)
qed

lemma add_list_fields:
  "pids (foldl (add_one_pid counts) s ps) = pids s \<union> set ps"
  "state (foldl (add_one_pid counts) s ps) = state s"
  "host_paused (foldl (add_one_pid counts) s ps) = host_paused s"
  "q \<in> set ps \<Longrightarrow> pid_run_counts (foldl (add_one_pid counts) s ps) q = Some (lookup_run_count counts q)"
  "q \<in> set ps \<Longrightarrow> pid_execution_counts (foldl (add_one_pid counts) s ps) q = Some 0"
  "q \<notin> set ps \<Longrightarrow> pid_run_counts (foldl (add_one_pid counts) s ps) q = pid_run_counts s q"
  "q \<notin> set ps \<Longrightarrow> pid_execution_counts (foldl (add_one_pid counts) s ps) q = pid_execution_counts s q"
  by (induction ps rule: rev_induct) (auto simp: add_one_pid_def)

lemma add_list_ok:
  assumes "sub_ok s"
  shows "sub_ok (foldl (add_one_pid counts) s ps)"
  unfolding sub_ok_def
proof
  fix q
  assume q: "q \<in> pids (foldl (add_one_pid counts) s ps)"
  show "\<exists>c n. pid_run_counts (foldl (add_one_pid counts) s ps) q = Some c
      \<and> pid_execution_counts (foldl (add_one_pid counts) s ps) q = Some n
      \<and> (case c of None \<Rightarrow> True | Some limit \<Rightarrow> n < limit \<or> limit = 0)"
    using q assms
    by (cases "q \<in> set ps") (auto simp: add_list_fields sub_ok_def split: option.split)
qed

lemma inv_add:
  assumes "manager_inv m"
  shows "manager_inv (fst (add_pids_with_run_counts now i ps tgt counts m))"
proof (cases "get_sub i m")
  case None
  with assms show ?thesis by (simp add: add_pids_with_run_counts_def Let_def)
next
  case (Some s)
  show ?thesis
  proof (cases "state s = Cancelled \<or> find (\<lambda>p. \<not> is_valid_pid_static p) ps \<noteq> None")
    case True
    with Some assms show ?thesis by (auto simp: add_pids_with_run_counts_def Let_def split: option.split)
  next
    case False
    let ?s1 = "foldl (add_one_pid counts) s ps"
    let ?s2 = "if ps \<noteq> [] \<and> list_all (\<lambda>p. lookup_run_count counts p \<noteq> None) ps then ?s1 \<lparr> is_run_once_only := True \<rparr> else ?s1"
    let ?s3 = "case tgt of None \<Rightarrow> ?s2 | Some c \<Rightarrow> ?s2 \<lparr> target_controller := Some c \<rparr>"
    let ?m2 = "put_sub i ?s3 m \<lparr> pid_schedule_ticks := foldl (\<lambda>ts p. AList.update p (seed_tick m) ts) (pid_schedule_ticks m) ps,
       registry := foldl (\<lambda>r p. register_pid_subscription p i tgt r) (registry m) ps \<rparr>"
    have p: "pids ?s3 = pids s \<union> set ps" by (simp add: add_list_fields split: option.split)
    have ok: "sub_ok ?s3"
      using add_list_ok [OF inv_sub [OF assms Some], of counts ps]
      by (subst sub_ok_cong [of _ ?s1]) (simp_all split: option.split)
    have "manager_inv ?m2"
    proof (rule inv_put [OF assms Some ok])
      show "idx.mirrors (foldl (\<lambda>r p. register_pid_subscription p i tgt r) (registry m) ps)
          ((holds (subscriptions m))(i := pids ?s3))"
        unfolding p holds_get [OF Some, symmetric]
        by (rule idx.mirrors_reg_list) (use assms in \<open>simp add: manager_inv_def\<close>)
    qed simp_all
    then have "manager_inv (touch_and_audit now i ''add'' ps ?m2)" by (rule inv_touch)
    with False Some show ?thesis by (simp add: add_pids_with_run_counts_def Let_def del: not_None_eq)
  qed
qed

lemma inv_remove:
  assumes "manager_inv m"
  shows "manager_inv (fst (remove_pids now i ps m))"
proof (cases "get_sub i m")
  case None
  with assms show ?thesis by (simp add: remove_pids_def)
next
  case (Some s)
  show ?thesis
  proof (cases "state s = Cancelled")
    case True
    with Some assms show ?thesis by (simp add: remove_pids_def)
  next
    case False
    let ?s = "s \<lparr> pids := pids s - set ps \<rparr>"
    let ?m2 = "put_sub i ?s m \<lparr> registry := foldl (\<lambda>r p. unregister_pid_subscription p i r) (registry m) ps \<rparr>"
    have "manager_inv ?m2"
    proof (rule inv_put [OF assms Some])
      show "sub_ok ?s" using inv_sub [OF assms Some] by (simp add: sub_ok_def)
      show "idx.mirrors (foldl (\<lambda>r p. unregister_pid_subscription p i r) (registry m) ps)
          ((holds (subscriptions m))(i := pids ?s))"
        using idx.mirrors_unreg_list [of "registry m" "holds (subscriptions m)" i ps] assms
        by (simp add: manager_inv_def holds_get [OF Some])
    qed simp_all
    then have "manager_inv (touch_and_audit now i ''remove'' ps ?m2)" by (rule inv_touch)
    with False Some show ?thesis by (simp add: remove_pids_def Let_def)
  qed
qed


lemma complete_in_sub_other [simp]:
  "pid \<notin> pids s \<or> state s \<noteq> Active \<Longrightarrow> complete_in_sub pid resp ts i (s, r) = (s, r)"
  by (auto simp: complete_in_sub_def)

text \<open>The two ways a completion goes: the run limit is reached, or it is not.\<close>

definition executions :: "Subscription \<Rightarrow> string \<Rightarrow> nat" where
  "executions s pid = (case pid_execution_counts s pid of None \<Rightarrow> 0 | Some n \<Rightarrow> n)"

definition last_run :: "Subscription \<Rightarrow> string \<Rightarrow> bool" where
  "last_run s pid \<longleftrightarrow> (\<exists>limit. pid_run_counts s pid = Some (Some limit) \<and> limit \<le> executions s pid + 1)"

lemma complete_in_sub_held:
  assumes "pid \<in> pids s" "state s = Active"
  shows "complete_in_sub pid resp ts i (s, r) =
    (if last_run s pid
     then (s \<lparr> pids := pids s - {pid}, pid_run_counts := (pid_run_counts s)(pid := None),
               pid_execution_counts := (pid_execution_counts s)(pid := None),
               pid_responses := (case resp of None \<Rightarrow> pid_responses s | Some d \<Rightarrow> (pid_responses s)(pid \<mapsto> (d, ts))) \<rparr>,
           unregister_pid_subscription pid i r)
     else (s \<lparr> pid_execution_counts := (pid_execution_counts s)(pid \<mapsto> executions s pid + 1),
               pid_responses := (case resp of None \<Rightarrow> pid_responses s | Some d \<Rightarrow> (pid_responses s)(pid \<mapsto> (d, ts))) \<rparr>, r))"
  using assms
  by (cases "pid_run_counts s pid"; cases resp)
     (auto simp: complete_in_sub_def last_run_def executions_def Let_def split: option.split)

lemma complete_in_sub_ok:
  assumes "sub_ok s"
  shows "sub_ok (fst (complete_in_sub pid resp ts i (s, r)))"
proof (cases "pid \<in> pids s \<and> state s = Active")
  case True
  then obtain c n where "pid_run_counts s pid = Some c" "pid_execution_counts s pid = Some n"
    using assms by (auto simp: sub_ok_def)
  with True show ?thesis
    using assms by (cases c) (auto simp: complete_in_sub_held sub_ok_def last_run_def executions_def)
next
  case False
  then show ?thesis using assms by (subst complete_in_sub_other) auto
qed

lemma complete_in_sub_fields:
  "state (fst (complete_in_sub pid resp ts i (s, r))) = state s"
  "host_paused (fst (complete_in_sub pid resp ts i (s, r))) = host_paused s"
  "is_run_once_only (fst (complete_in_sub pid resp ts i (s, r))) = is_run_once_only s"
  "pid_tiers (fst (complete_in_sub pid resp ts i (s, r))) = pid_tiers s"
  "pids (fst (complete_in_sub pid resp ts i (s, r))) \<subseteq> pids s"
  by (cases "pid \<in> pids s \<and> state s = Active"; auto simp: complete_in_sub_held)+

lemma complete_in_sub_mirrors:
  assumes "idx.mirrors r h" "h i = pids s"
  shows "idx.mirrors (snd (complete_in_sub pid resp ts i (s, r)))
    (h(i := pids (fst (complete_in_sub pid resp ts i (s, r)))))"
proof (cases "pid \<in> pids s \<and> state s = Active")
  case True
  then show ?thesis
    using assms idx.mirrors_unreg [OF assms(1), of pid i]
    by (simp add: complete_in_sub_held fun_upd_idem)
next
  case False
  then have "complete_in_sub pid resp ts i (s, r) = (s, r)" by (intro complete_in_sub_other) auto
  then show ?thesis using assms by (simp add: fun_upd_idem)
qed

text \<open>A completion rewrites the table pointwise.\<close>

lemma complete_in_sub_registry:
  "fst (complete_in_sub pid resp ts i (s, r)) = fst (complete_in_sub pid resp ts i (s, r0))"
  by (cases "pid \<in> pids s \<and> state s = Active") (auto simp: complete_in_sub_held)

lemma complete_all_table:
  "fst (complete_all pid resp ts ss r) = map (\<lambda>(i, s). (i, fst (complete_in_sub pid resp ts i (s, r0)))) ss"
proof (induction ss arbitrary: r)
  case (Cons e ss)
  obtain i s where e: "e = (i, s)" by (cases e)
  obtain s' r' where c: "complete_in_sub pid resp ts i (s, r) = (s', r')" by fastforce
  obtain ss' r'' where d: "complete_all pid resp ts ss r' = (ss', r'')" by fastforce
  have "s' = fst (complete_in_sub pid resp ts i (s, r0))"
    using complete_in_sub_registry [of pid resp ts i s r r0] c by simp
  then show ?case using Cons [of r'] by (simp add: e c d)
qed simp

lemma complete_all_mirrors:
  assumes "idx.mirrors r h" "distinct (map fst ss)" "\<forall>(i, s) \<in> set ss. h i = pids s"
  shows "idx.mirrors (snd (complete_all pid resp ts ss r))
    (\<lambda>u. case map_of (fst (complete_all pid resp ts ss r)) u of None \<Rightarrow> h u | Some s \<Rightarrow> pids s)"
  using assms
proof (induction ss arbitrary: r h)
  case (Cons e ss)
  obtain i s where e: "e = (i, s)" by (cases e)
  obtain s' r' where c: "complete_in_sub pid resp ts i (s, r) = (s', r')" by fastforce
  obtain ss' r'' where d: "complete_all pid resp ts ss r' = (ss', r'')" by fastforce
  have k: "map fst ss' = map fst ss"
    using complete_all_table [of pid resp ts ss r' r'] d by (simp add: comp_def case_prod_beta)
  have i: "i \<notin> fst ` set ss" using Cons.prems(2) by (simp add: e)
  then have n: "map_of ss' i = None"
    by (metis k map_of_eq_None_iff set_map)
  have "idx.mirrors r' (h(i := pids s'))"
    using complete_in_sub_mirrors [OF Cons.prems(1), of i s pid resp ts] Cons.prems(3) by (simp add: e c)
  moreover have "\<forall>(j, t) \<in> set ss. (h(i := pids s')) j = pids t"
    using Cons.prems(3) i by (force simp: e)
  moreover have "distinct (map fst ss)" using Cons.prems(2) by (simp add: e)
  ultimately have "idx.mirrors (snd (complete_all pid resp ts ss r'))
      (\<lambda>u. case map_of (fst (complete_all pid resp ts ss r')) u of None \<Rightarrow> (h(i := pids s')) u | Some s \<Rightarrow> pids s)"
    by (intro Cons.IH)
  then have "idx.mirrors r'' (\<lambda>u. case map_of ss' u of None \<Rightarrow> (h(i := pids s')) u | Some s \<Rightarrow> pids s)"
    unfolding d fst_conv snd_conv .
  then have "idx.mirrors r'' (\<lambda>u. case map_of ((i, s') # ss') u of None \<Rightarrow> h u | Some s \<Rightarrow> pids s)"
    by (rule idx.mirrors_cong) (simp add: n split: option.split)
  then show ?case by (simp add: e c d)
qed simp


lemma inv_complete_all:
  assumes "manager_inv m" and c: "complete_all pid resp ts (subscriptions m) (registry m) = (ss, r)"
  shows "manager_inv (m \<lparr> subscriptions := ss, registry := r \<rparr>)"
proof (rule inv_table(1) [OF assms(1)])
  have t: "ss = map (\<lambda>(i, s). (i, fst (complete_in_sub pid resp ts i (s, registry m)))) (subscriptions m)"
    using complete_all_table [of pid resp ts "subscriptions m" "registry m" "registry m"] c by simp
  then have k: "map fst ss = map fst (subscriptions m)" by (simp add: comp_def case_prod_beta)
  from k assms(1) show d: "distinct (map fst ss)" by (simp add: manager_inv_def)
  from t show "length ss = length (subscriptions m)" by simp
  show "\<forall>(i, s) \<in> set ss. sub_ok s"
    using assms(1) by (auto simp: t manager_inv_def intro!: complete_in_sub_ok)
  have dm: "distinct (map fst (subscriptions m))" using assms(1) by (simp add: manager_inv_def)
  have "\<forall>(i, s) \<in> set (subscriptions m). holds (subscriptions m) i = pids s"
    using dm by (auto simp: holds_def)
  moreover have "idx.mirrors (registry m) (holds (subscriptions m))" using assms(1) by (simp add: manager_inv_def)
  ultimately have "idx.mirrors r (\<lambda>u. case map_of ss u of None \<Rightarrow> holds (subscriptions m) u | Some s \<Rightarrow> pids s)"
    using complete_all_mirrors [OF _ dm, of "registry m" "holds (subscriptions m)" pid resp ts] unfolding c fst_conv snd_conv
    by blast
  then show "idx.mirrors r (holds ss)"
  proof (rule idx.mirrors_cong)
    fix u
    have "map_of ss u = None \<longleftrightarrow> map_of (subscriptions m) u = None"
      by (simp only: map_of_eq_None_iff flip: set_map k)
    then show "(case map_of ss u of None \<Rightarrow> holds (subscriptions m) u | Some s \<Rightarrow> pids s) = holds ss u"
      by (auto simp: holds_def split: option.split)
  qed
qed

lemma find_entry:
  "distinct (map fst al) \<Longrightarrow> find (\<lambda>(_, s). P s) al = Some (i, s) \<Longrightarrow> map_of al i = Some s \<and> P s"
  by (auto simp: find_Some_iff in_set_conv_nth intro!: map_of_is_SomeI)

lemma inv_check:
  assumes "manager_inv m"
  shows "manager_inv (fst (check_and_mark_subscription_complete m))"
proof (cases "find (\<lambda>(_, s). run_once_done s) (subscriptions m)")
  case None
  with assms show ?thesis by (simp add: check_and_mark_subscription_complete_def)
next
  case (Some e)
  obtain i s where e: "e = (i, s)" by (cases e)
  have "get_sub i m = Some s"
    using find_entry [of "subscriptions m" run_once_done i s] Some assms by (simp add: e get_sub_def manager_inv_def)
  then have "manager_inv (put_sub i (s \<lparr> state := Completed \<rparr>) m)"
    using assms by (auto intro: inv_put_same)
  with Some e show ?thesis by (simp add: check_and_mark_subscription_complete_def)
qed

lemma count_response_fields [simp, manager_fields]:
  "subscriptions (count_response a m) = subscriptions m" "registry (count_response a m) = registry m"
  "audit_log (count_response a m) = audit_log m" "max_audit_entries (count_response a m) = max_audit_entries m"
  "max_subscriptions (count_response a m) = max_subscriptions m" "in_flight_pids (count_response a m) = in_flight_pids m"
  "streamed_pids (count_response a m) = streamed_pids m" "pid_schedule_ticks (count_response a m) = pid_schedule_ticks m"
  by (simp_all add: count_response_def split: prod.split option.split)

lemma inv_completed:
  assumes "manager_inv m"
  shows "manager_inv (fst (command_completed pid resp ts m))"
proof -
  let ?a = "attribute pid resp"
  let ?m2 = "count_response ?a m \<lparr> in_flight_pids := in_flight_pids (count_response ?a m) - {pid} \<rparr>"
  have "manager_inv ?m2" using assms by (simp add: manager_inv_def)
  obtain ss r where c: "complete_all (fst ?a) resp ts (subscriptions ?m2) (registry ?m2) = (ss, r)" by fastforce
  have "manager_inv (?m2 \<lparr> subscriptions := ss, registry := r \<rparr>)"
    by (rule inv_complete_all [OF \<open>manager_inv ?m2\<close> c])
  then have "manager_inv (fst (check_and_mark_subscription_complete (?m2 \<lparr> subscriptions := ss, registry := r \<rparr>)))"
    by (rule inv_check)
  with c show ?thesis by (simp add: command_completed_def Let_def case_prod_beta)
qed

lemma inv_commit: "manager_inv m \<Longrightarrow> manager_inv (commit_pick pid m)"
  by (simp add: commit_pick_def manager_inv_def)

lemma inv_pick_loop: "manager_inv m \<Longrightarrow> manager_inv (fst (pick_loop ord a n picked t sweep m))"
  by (induction ord a n picked t sweep m rule: pick_loop.induct)
     (simp_all add: inv_commit split: option.split)

lemma inv_step:
  assumes "manager_inv m" "\<And>i now nm. opn = Create i now nm \<Longrightarrow> get_sub i m = None"
  shows "manager_inv (exec_op opn m)"
  using assms
  by (cases opn)
     (simp_all add: inv_create inv_set_timeout inv_start inv_pause inv_pause_all inv_resume inv_cancel inv_add inv_remove
        inv_set_tiers inv_completed inv_pick_loop get_next_commands_def set_streamed_pids_def clear_in_flight_def
        inv_schedule log_audit_event_def inv_push_audit get_next_command_def inv_commit split: option.split prod.split)

lemma reachable_inv: "reachable ttl mx m \<Longrightarrow> manager_inv m"
  by (induction rule: reachable.induct) (auto intro: inv_new inv_step)

end
