(* ===== verification/Scheduler.thy ===== *)
theory Scheduler
  imports Subscription
begin

text \<open>
  The weighted fair scheduler of the subscription manager: what an exchange picks, that polling is
  fair to the refresh tiers and that nobody starves. The definitions it is about are those of
  \<open>Subscription\<close>; the rounds at the end are the loop the session runs: pick, exchange, complete.
\<close>

section \<open>The scheduler\<close>

text \<open>A committed pick is out of the race and its clock moves on; nothing else changes.\<close>

definition commits :: "DuePick list \<Rightarrow> Manager \<Rightarrow> Manager" where
  "commits ds m = foldl (\<lambda>q d. commit_pick (dp_pid d) q) m ds"

lemma commit_fields [simp]:
  "subscriptions (commit_pick p m) = subscriptions m" "registry (commit_pick p m) = registry m"
  "streamed_pids (commit_pick p m) = streamed_pids m" "in_flight_pids (commit_pick p m) = insert p (in_flight_pids m)"
  by (simp_all add: commit_pick_def)

lemma commit_tick: "tick_of (commit_pick p m) q = tick_of m q + (if q = p then commit_divisor m p else 0)"
  by (simp add: commit_pick_def tick_of_def update_conv')

lemma commit_divisor_cong: "subscriptions m = subscriptions m' \<Longrightarrow> commit_divisor m p = commit_divisor m' p"
  by (simp add: commit_divisor_def)

lemma commits_simps [simp]:
  "commits [] m = m" "commits (d # ds) m = commits ds (commit_pick (dp_pid d) m)"
  "commits (ds @ es) m = commits es (commits ds m)"
  by (simp_all add: commits_def)

lemma commits_fields [simp]:
  "subscriptions (commits ds m) = subscriptions m" "registry (commits ds m) = registry m"
  "streamed_pids (commits ds m) = streamed_pids m"
  "in_flight_pids (commits ds m) = in_flight_pids m \<union> dp_pid ` set ds"
  by (induction ds arbitrary: m) simp_all

lemma commits_tick:
  "distinct (map dp_pid ds) \<Longrightarrow>
   tick_of (commits ds m) p = tick_of m p + (if p \<in> dp_pid ` set ds then commit_divisor m p else 0)"
  by (induction ds arbitrary: m)
     (auto simp: commit_tick commit_divisor_cong [of "commit_pick _ _"])

lemma owning_cong: "subscriptions m = subscriptions m' \<Longrightarrow> owning_active_sub p m = owning_active_sub p m'"
  by (simp add: owning_active_sub_def)

lemma eligible_commits:
  assumes "distinct (map dp_pid ds)"
  shows "eligible_pick (commits ds m) pc = (if fst pc \<in> dp_pid ` set ds then None else eligible_pick m pc)"
  using assms owning_cong [of "commits ds m" m "fst pc"]
  by (cases pc) (auto simp: eligible_pick_def commits_tick split: option.split)

lemma better_Some: "better b (Some c) \<noteq> None"
  by (cases b) auto

lemma fold_better:
  "foldl (\<lambda>b x. better b (f x)) b0 xs = r \<Longrightarrow>
   (case r of
      None \<Rightarrow> b0 = None \<and> (\<forall>x \<in> set xs. f x = None)
    | Some (d, t) \<Rightarrow> (b0 = Some (d, t) \<or> (\<exists>x \<in> set xs. f x = Some (d, t)))
        \<and> (\<forall>x \<in> set xs. \<forall>d' t'. f x = Some (d', t') \<longrightarrow> t \<le> t')
        \<and> (\<forall>d' t'. b0 = Some (d', t') \<longrightarrow> t \<le> t'))"
proof (induction xs arbitrary: b0)
  case Nil
  then show ?case by (auto split: option.split)
next
  case (Cons x xs)
  from Cons.IH [of "better b0 (f x)"] Cons.prems show ?case
    by (cases "f x"; cases b0; cases r) (auto split: if_splits prod.splits)
qed

lemma peek_None: "peek_next_eligible ord m = None \<longleftrightarrow> (\<forall>pc \<in> set (get_unique_pids ord (registry m)). eligible_pick m pc = None)"
proof -
  let ?L = "get_unique_pids ord (registry m)"
  from fold_better [of "eligible_pick m" None ?L, OF refl]
  show ?thesis by (auto simp: peek_next_eligible_def split: option.splits prod.splits)
qed

lemma peek_Some:
  assumes "peek_next_eligible ord m = Some (d, t)"
  shows "\<exists>pc \<in> set (get_unique_pids ord (registry m)). eligible_pick m pc = Some (d, t)"
    and "pc \<in> set (get_unique_pids ord (registry m)) \<Longrightarrow> eligible_pick m pc = Some (d', t') \<Longrightarrow> t \<le> t'"
  using fold_better [of "eligible_pick m" None "get_unique_pids ord (registry m)", OF refl] assms
  by (auto simp: peek_next_eligible_def)

text \<open>The picks made so far, seen from the state the exchange started from.\<close>

definition picks_of :: "group_order \<Rightarrow> Admission \<Rightarrow> Manager \<Rightarrow> DuePick list \<Rightarrow> bool" where
  "picks_of ord a m ds \<longleftrightarrow>
     distinct (map dp_pid ds)
     \<and> (\<forall>d \<in> set ds. \<exists>pc \<in> set (get_unique_pids ord (registry m)). \<exists>t. eligible_pick m pc = Some (d, t)
          \<and> (\<forall>pc' \<in> set (get_unique_pids ord (registry m)). \<forall>d' t'. eligible_pick m pc' = Some (d', t') \<longrightarrow> t \<le> t'))
     \<and> (\<forall>d \<in> set ds. dp_controller d = dp_controller (hd ds))
     \<and> (\<forall>k < length ds. k \<ge> 1 \<longrightarrow> admit a (take k ds) (ds ! k))"

lemma eligible_pid: "eligible_pick m pc = Some (d, t) \<Longrightarrow> dp_pid d = fst pc \<and> dp_controller d = snd pc
    \<and> t = tick_of m (fst pc) \<and> fst pc \<notin> in_flight_pids m \<and> fst pc \<notin> streamed_pids m"
  by (auto simp: eligible_pick_def split: if_splits option.splits prod.splits)

lemma picks_snoc:
  assumes ds: "picks_of ord a m ds" and p: "peek_next_eligible ord (commits ds m) = Some (d, t)"
    and s: "ds \<noteq> [] \<Longrightarrow> t \<le> tick_of m (dp_pid (hd ds))"
    and c: "ds \<noteq> [] \<Longrightarrow> dp_controller d = dp_controller (hd ds)"
    and adm: "ds \<noteq> [] \<Longrightarrow> admit a ds d"
  shows "picks_of ord a m (ds @ [d])" and "t = tick_of m (dp_pid d)"
proof -
  let ?L = "get_unique_pids ord (registry m)"
  have dd: "distinct (map dp_pid ds)" using ds by (simp add: picks_of_def)
  obtain pc where pc: "pc \<in> set ?L" "eligible_pick (commits ds m) pc = Some (d, t)"
    using peek_Some(1) [OF p] by auto
  then have el: "eligible_pick m pc = Some (d, t)" and new: "dp_pid d \<notin> dp_pid ` set ds"
    by (auto simp: eligible_commits [OF dd] split: if_splits dest: eligible_pid)
  show "t = tick_of m (dp_pid d)" using eligible_pid [OF el] by simp
  have "t \<le> t'" if h: "pc' \<in> set ?L" "eligible_pick m pc' = Some (d', t')" for pc' d' t'
  proof (cases "fst pc' \<in> dp_pid ` set ds")
    case False
    with h peek_Some(2) [OF p, of pc'] show ?thesis by (simp add: eligible_commits [OF dd])
  next
    case True
    then have "ds \<noteq> []" by auto
    then have "hd ds \<in> set ds" by simp
    then obtain pc0 t0 where e0: "eligible_pick m pc0 = Some (hd ds, t0)" "t0 \<le> t'"
      using ds h unfolding picks_of_def by blast
    then have "tick_of m (dp_pid (hd ds)) = t0" using eligible_pid [OF e0(1)] by simp
    with s [OF \<open>ds \<noteq> []\<close>] e0(2) show ?thesis by simp
  qed
  with pc(1) el have new_ok: "\<exists>pc \<in> set ?L. \<exists>t. eligible_pick m pc = Some (d, t)
      \<and> (\<forall>pc' \<in> set ?L. \<forall>d' t'. eligible_pick m pc' = Some (d', t') \<longrightarrow> t \<le> t')" by blast
  have old_ok: "\<forall>d \<in> set ds. \<exists>pc \<in> set ?L. \<exists>t. eligible_pick m pc = Some (d, t)
      \<and> (\<forall>pc' \<in> set ?L. \<forall>d' t'. eligible_pick m pc' = Some (d', t') \<longrightarrow> t \<le> t')"
    using ds unfolding picks_of_def by (elim conjE)
  have "\<forall>k < length (ds @ [d]). k \<ge> 1 \<longrightarrow> admit a (take k (ds @ [d])) ((ds @ [d]) ! k)"
    using ds adm by (cases "ds = []") (auto simp: picks_of_def nth_append less_Suc_eq)
  moreover have "\<forall>e \<in> set (ds @ [d]). dp_controller e = dp_controller (hd (ds @ [d]))"
    using ds c by (cases ds) (auto simp: picks_of_def)
  moreover have "distinct (map dp_pid (ds @ [d]))" using dd new by simp
  moreover have "\<forall>d \<in> insert d (set ds). \<exists>pc \<in> set ?L. \<exists>t. eligible_pick m pc = Some (d, t)
      \<and> (\<forall>pc' \<in> set ?L. \<forall>d' t'. eligible_pick m pc' = Some (d', t') \<longrightarrow> t \<le> t')"
    using new_ok old_ok by blast
  moreover have "set (ds @ [d]) = insert d (set ds)" by simp
  ultimately show "picks_of ord a m (ds @ [d])"
    unfolding picks_of_def by (intro conjI) (simp_all only:)
qed

lemma pick_loop_spec:
  assumes "picks_of ord a m ds" "tgt = (if ds = [] then None else Some (dp_controller (hd ds)))"
    "sweep = (if ds = [] then None else Some (tick_of m (dp_pid (hd ds))))"
  shows "\<exists>es. pick_loop ord a n ds tgt sweep (commits ds m) = (commits (ds @ es) m, ds @ es)
    \<and> picks_of ord a m (ds @ es) \<and> length es \<le> n
    \<and> (0 < n \<longrightarrow> ds = [] \<longrightarrow> es = [] \<longrightarrow> peek_next_eligible ord m = None)"
  using assms
proof (induction n arbitrary: ds tgt sweep)
  case 0
  then show ?case by (intro exI [of _ "[]"]) simp
next
  case (Suc n)
  show ?case
  proof (cases "peek_next_eligible ord (commits ds m)")
    case None
    with Suc.prems show ?thesis by (intro exI [of _ "[]"]) auto
  next
    case (Some dt)
    obtain d t where dt: "dt = (d, t)" by (cases dt)
    let ?stop = "ds \<noteq> [] \<and> (t > tick_of m (dp_pid (hd ds)) \<or> dp_controller d \<noteq> dp_controller (hd ds) \<or> \<not> admit a ds d)"
    show ?thesis
    proof (cases ?stop)
      case True
      with Suc.prems Some show ?thesis by (intro exI [of _ "[]"]) (auto simp: dt)
    next
      case False
      have p: "picks_of ord a m (ds @ [d])" "t = tick_of m (dp_pid d)"
        using picks_snoc [OF Suc.prems(1) Some [unfolded dt]] False by auto
      let ?t = "if ds @ [d] = [] then None else Some (dp_controller (hd (ds @ [d])))"
      let ?s = "if ds @ [d] = [] then None else Some (tick_of m (dp_pid (hd (ds @ [d]))))"
      have "pick_loop ord a (Suc n) ds tgt sweep (commits ds m) = pick_loop ord a n (ds @ [d]) ?t ?s (commits (ds @ [d]) m)"
        using Suc.prems(2,3) Some False p(2) by (cases ds) (auto simp: dt)
      moreover obtain es where "pick_loop ord a n (ds @ [d]) ?t ?s (commits (ds @ [d]) m) =
          (commits ((ds @ [d]) @ es) m, (ds @ [d]) @ es)" "picks_of ord a m ((ds @ [d]) @ es)" "length es \<le> n"
        using Suc.IH [OF p(1) refl refl] by blast
      ultimately show ?thesis by (intro exI [of _ "d # es"]) simp
    qed
  qed
qed

lemma next_commands_spec:
  assumes "get_next_commands ord n a m = (m', ds)"
  shows "picks_of ord a m ds" "m' = commits ds m" "length ds \<le> max n 1"
    "ds = [] \<longleftrightarrow> peek_next_eligible ord m = None"
proof -
  have "picks_of ord a m []" by (simp add: picks_of_def)
  then obtain es where e: "pick_loop ord a (max n 1) [] None None m = (commits es m, es)" "picks_of ord a m es"
      "length es \<le> max n 1" "es = [] \<Longrightarrow> peek_next_eligible ord m = None"
    using pick_loop_spec [of ord a m "[]" None None "max n 1"] by auto
  then show "picks_of ord a m ds" "m' = commits ds m" "length ds \<le> max n 1"
    using assms by (auto simp: get_next_commands_def)
  have "es = []" if "peek_next_eligible ord m = None"
    using e(1) that by (cases "max n 1") (auto simp: max_def split: if_splits)
  then show "ds = [] \<longleftrightarrow> peek_next_eligible ord m = None"
    using e assms by (auto simp: get_next_commands_def)
qed

section \<open>What a completion leaves alone\<close>

text \<open>One subscription before and after a completion.\<close>

definition settled :: "Subscription \<Rightarrow> Subscription \<Rightarrow> bool" where
  "settled s s' \<longleftrightarrow>
     pids s' \<subseteq> pids s \<and> pid_tiers s' = pid_tiers s \<and> sub_timeout s' = sub_timeout s
     \<and> is_run_once_only s' = is_run_once_only s
     \<and> (state s' \<noteq> state s \<longrightarrow> pids s' = {} \<and> state s' = Completed)
     \<and> (state s \<noteq> Active \<longrightarrow> s' = s)
     \<and> (\<forall>p \<in> pids s'. pid_run_counts s' p = pid_run_counts s p)
     \<and> (\<forall>p \<in> pids s. pid_run_counts s p = Some None \<longrightarrow> p \<in> pids s')"

definition settled_table :: "Manager \<Rightarrow> Manager \<Rightarrow> bool" where
  "settled_table m m' \<longleftrightarrow>
     list_all2 (\<lambda>(i, s) (j, s'). i = j \<and> settled s s') (subscriptions m) (subscriptions m')"

lemma settled_refl [simp]: "settled s s"
  by (simp add: settled_def)

lemma settled_trans: "settled s t \<Longrightarrow> settled t u \<Longrightarrow> settled s u"
  unfolding settled_def by (smt (verit) subset_empty subset_iff)

lemma settled_table_refl [simp]: "settled_table m m"
  by (auto simp: settled_table_def intro: list_all2_refl)

lemma settled_table_trans: "settled_table m m' \<Longrightarrow> settled_table m' m'' \<Longrightarrow> settled_table m m''"
  unfolding settled_table_def
  by (erule list_all2_trans [rotated], assumption) (auto intro: settled_trans)

lemma settled_complete: "settled s (fst (complete_in_sub pid resp ts i (s, r)))"
proof (cases "pid \<in> pids s \<and> state s = Active")
  case True
  then show ?thesis by (auto simp: complete_in_sub_held settled_def last_run_def)
next
  case False
  then show ?thesis by (subst complete_in_sub_other) auto
qed

lemma settled_complete_all:
  "settled_table m (m \<lparr> subscriptions := fst (complete_all pid resp ts (subscriptions m) r) \<rparr>)"
  by (auto simp: settled_table_def complete_all_table [of pid resp ts _ r r] list_all2_map2 settled_complete
      intro!: list_all2_refl)

lemma AList_update_list_all2:
  assumes "distinct (map fst al)" "map_of al i = Some s" "settled s s'"
  shows "list_all2 (\<lambda>(i, s) (j, s'). i = j \<and> settled s s') al (AList.update i s' al)"
  using assms by (induction al) (auto intro!: list_all2_refl split: if_splits)

lemma settled_check:
  assumes "distinct (map fst (subscriptions m))"
  shows "settled_table m (fst (check_and_mark_subscription_complete m))"
proof (cases "find (\<lambda>(_, s). run_once_done s) (subscriptions m)")
  case None
  then show ?thesis by (simp add: check_and_mark_subscription_complete_def)
next
  case (Some e)
  obtain i s where e: "e = (i, s)" by (cases e)
  have s: "map_of (subscriptions m) i = Some s" "run_once_done s"
    using find_entry [OF assms, of run_once_done i s] Some by (simp_all add: e)
  then have "settled s (s \<lparr> state := Completed \<rparr>)" by (simp add: settled_def run_once_done_def)
  with Some e show ?thesis
    by (simp add: check_and_mark_subscription_complete_def settled_table_def AList_update_list_all2 [OF assms s(1)])
qed

lemma check_fields [simp]:
  "in_flight_pids (fst (check_and_mark_subscription_complete m)) = in_flight_pids m"
  "streamed_pids (fst (check_and_mark_subscription_complete m)) = streamed_pids m"
  "pid_schedule_ticks (fst (check_and_mark_subscription_complete m)) = pid_schedule_ticks m"
  by (auto simp: check_and_mark_subscription_complete_def split: option.split)

lemma complete_all_keys: "map fst (fst (complete_all pid resp ts ss r)) = map fst ss"
  by (simp add: complete_all_table [of pid resp ts ss r r] comp_def case_prod_beta)

lemma completed_effect:
  assumes "distinct (map fst (subscriptions m))"
  shows "settled_table m (fst (command_completed pid resp ts m))"
    and "in_flight_pids (fst (command_completed pid resp ts m)) = in_flight_pids m - {pid}"
    and "streamed_pids (fst (command_completed pid resp ts m)) = streamed_pids m"
    and "pid_schedule_ticks (fst (command_completed pid resp ts m)) = pid_schedule_ticks m"
proof -
  let ?a = "attribute pid resp"
  let ?m2 = "count_response ?a m \<lparr> in_flight_pids := in_flight_pids m - {pid} \<rparr>"
  let ?c = "complete_all (fst ?a) resp ts (subscriptions m) (registry m)"
  let ?m3 = "?m2 \<lparr> subscriptions := fst ?c, registry := snd ?c \<rparr>"
  have r: "fst (command_completed pid resp ts m) = fst (check_and_mark_subscription_complete ?m3)"
    by (simp add: command_completed_def Let_def case_prod_beta)
  have "settled_table m ?m3"
    using settled_complete_all [of m "fst ?a" resp ts "registry m"] by (simp add: settled_table_def)
  moreover have "settled_table ?m3 (fst (check_and_mark_subscription_complete ?m3))"
    by (rule settled_check) (use assms in \<open>simp add: complete_all_keys\<close>)
  ultimately show "settled_table m (fst (command_completed pid resp ts m))"
    unfolding r by (rule settled_table_trans)
  show "in_flight_pids (fst (command_completed pid resp ts m)) = in_flight_pids m - {pid}"
    "streamed_pids (fst (command_completed pid resp ts m)) = streamed_pids m"
    "pid_schedule_ticks (fst (command_completed pid resp ts m)) = pid_schedule_ticks m"
    by (simp_all add: r)
qed

text \<open>Completing a list of picks, one after the other.\<close>

definition finish :: "(DuePick \<Rightarrow> string option) \<Rightarrow> real \<Rightarrow> DuePick list \<Rightarrow> Manager \<Rightarrow> Manager" where
  "finish resp ts ds m = foldl (\<lambda>q d. fst (command_completed (dp_pid d) (resp d) ts q)) m ds"

lemma tick_of_cong: "pid_schedule_ticks m = pid_schedule_ticks m' \<Longrightarrow> tick_of m p = tick_of m' p"
  by (simp add: tick_of_def)

lemma finish_effect_all:
  assumes "manager_inv m"
  shows "manager_inv (finish resp ts ds m) \<and> settled_table m (finish resp ts ds m)
    \<and> in_flight_pids (finish resp ts ds m) = in_flight_pids m - dp_pid ` set ds
    \<and> streamed_pids (finish resp ts ds m) = streamed_pids m
    \<and> pid_schedule_ticks (finish resp ts ds m) = pid_schedule_ticks m"
  using assms
proof (induction ds arbitrary: m)
  case (Cons d ds)
  let ?m = "fst (command_completed (dp_pid d) (resp d) ts m)"
  have step: "finish resp ts (d # ds) m = finish resp ts ds ?m" by (simp add: finish_def)
  have dm: "distinct (map fst (subscriptions m))" using Cons.prems by (simp add: manager_inv_def)
  note eff = completed_effect [OF dm, of "dp_pid d" "resp d" ts]
  note ih = Cons.IH [OF inv_completed [OF Cons.prems, of "dp_pid d" "resp d" ts]]
  have "settled_table m (finish resp ts ds ?m)"
    by (rule settled_table_trans [OF eff(1)]) (use ih in blast)
  with ih show ?case by (simp add: step eff(2-4)) blast
qed (simp add: finish_def)

lemma finish_effect:
  assumes "manager_inv m"
  shows "manager_inv (finish resp ts ds m)" "settled_table m (finish resp ts ds m)"
    "in_flight_pids (finish resp ts ds m) = in_flight_pids m - dp_pid ` set ds"
    "streamed_pids (finish resp ts ds m) = streamed_pids m"
    "tick_of (finish resp ts ds m) p = tick_of m p"
  using finish_effect_all [OF assms, of resp ts ds] by (simp_all add: tick_of_def)

section \<open>Rounds of polling\<close>

text \<open>
  One round: the picks of one exchange are taken and then all of them complete, whatever their
  replies were. Between rounds nothing is in flight: the adapter answers one exchange at a time.
\<close>

record Round =
  r_order :: group_order
  r_max :: nat
  r_admission :: Admission
  r_reply :: "DuePick \<Rightarrow> string option"
  r_time :: real

definition round_picks :: "Round \<Rightarrow> Manager \<Rightarrow> DuePick list" where
  "round_picks r m = snd (get_next_commands (r_order r) (r_max r) (r_admission r) m)"

definition poll_round :: "Round \<Rightarrow> Manager \<Rightarrow> Manager" where
  "poll_round r m =
     (let (m', ds) = get_next_commands (r_order r) (r_max r) (r_admission r) m
      in finish (r_reply r) (r_time r) ds m')"

fun poll_rounds :: "Round list \<Rightarrow> Manager \<Rightarrow> Manager" where
  "poll_rounds [] m = m"
| "poll_rounds (r # rs) m = poll_rounds rs (poll_round r m)"

text \<open>How often a PID was polled.\<close>

fun polls :: "Round list \<Rightarrow> Manager \<Rightarrow> string \<Rightarrow> nat" where
  "polls [] m p = 0"
| "polls (r # rs) m p = (if p \<in> dp_pid ` set (round_picks r m) then 1 else 0) + polls rs (poll_round r m) p"

definition permutes :: "group_order \<Rightarrow> bool" where
  "permutes ord \<longleftrightarrow> (\<forall>xs. mset (ord xs) = mset xs)"

text \<open>The PIDs polling serves, and what the next exchange may take of them.\<close>

definition served :: "Manager \<Rightarrow> string set" where
  "served m = {p. p \<notin> streamed_pids m \<and> (\<exists>(i, s) \<in> set (subscriptions m). state s = Active \<and> p \<in> pids s)}"

definition due :: "Manager \<Rightarrow> string \<Rightarrow> bool" where
  "due m p \<longleftrightarrow> p \<notin> in_flight_pids m \<and> p \<notin> streamed_pids m
     \<and> (case owning_active_sub p m of None \<Rightarrow> False | Some s \<Rightarrow> \<not> run_limit_reached s p)"

lemma owning_Some:
  "owning_active_sub p m = Some s \<Longrightarrow> \<exists>i. (i, s) \<in> set (subscriptions m) \<and> state s = Active \<and> p \<in> pids s"
  by (auto simp: owning_active_sub_def find_Some_iff in_set_conv_nth) metis

lemma owning_None: "owning_active_sub p m = None \<longleftrightarrow> (\<forall>(i, s) \<in> set (subscriptions m). \<not> (state s = Active \<and> p \<in> pids s))"
  by (auto simp: owning_active_sub_def find_None_iff)

lemma due_served: "due m p \<Longrightarrow> p \<in> served m"
  by (auto simp: due_def served_def split: option.splits dest!: owning_Some)

lemma listed:
  assumes "manager_inv m" "permutes ord" "(i, s) \<in> set (subscriptions m)" "p \<in> pids s"
  shows "(p, pid_controllers (registry m) p) \<in> set (get_unique_pids ord (registry m))"
proof -
  have "distinct (map fst (subscriptions m))" using assms(1) by (simp add: manager_inv_def)
  then have "holds (subscriptions m) i = pids s" using assms(3) by (simp add: holds_def)
  with assms(1,4) have "i \<in> wanting (registry m) p" and inv: "registry_inv (registry m)"
    by (auto simp: manager_inv_def idx.mirrors_def)
  then have "wanting (registry m) p \<noteq> {}" by blast
  then have "p \<in> fst ` set (pid_subscriptions (registry m))" using index_wanting [OF inv] by blast
  with set_unique_pids [of ord "registry m"] assms(2) show ?thesis by (auto simp: permutes_def)
qed

lemma due_eligible:
  assumes "manager_inv m" "permutes ord"
  shows "due m p \<longleftrightarrow> (\<exists>pc \<in> set (get_unique_pids ord (registry m)). \<exists>d. eligible_pick m pc = Some (d, tick_of m p) \<and> dp_pid d = p)"
proof
  assume d: "due m p"
  then obtain s where s: "owning_active_sub p m = Some s" "\<not> run_limit_reached s p"
    by (auto simp: due_def split: option.splits)
  obtain i where "(i, s) \<in> set (subscriptions m)" "p \<in> pids s" using owning_Some [OF s(1)] by blast
  then have "(p, pid_controllers (registry m) p) \<in> set (get_unique_pids ord (registry m))"
    by (rule listed [OF assms])
  moreover have "\<exists>d'. eligible_pick m (p, pid_controllers (registry m) p) = Some (d', tick_of m p) \<and> dp_pid d' = p"
    using d s by (simp add: due_def eligible_pick_def)
  ultimately show "\<exists>pc \<in> set (get_unique_pids ord (registry m)). \<exists>d. eligible_pick m pc = Some (d, tick_of m p) \<and> dp_pid d = p"
    by blast
next
  assume "\<exists>pc \<in> set (get_unique_pids ord (registry m)). \<exists>d. eligible_pick m pc = Some (d, tick_of m p) \<and> dp_pid d = p"
  then show "due m p"
    by (auto simp: due_def eligible_pick_def split: if_splits option.splits)
qed

text \<open>What an exchange picks, in the terms of the manager alone.\<close>

lemma picks_due:
  assumes m: "manager_inv m" and ord: "permutes ord" and g: "get_next_commands ord n a m = (m', ds)"
  shows "d \<in> set ds \<Longrightarrow> due m (dp_pid d)"
    and "d \<in> set ds \<Longrightarrow> due m q \<Longrightarrow> tick_of m (dp_pid d) \<le> tick_of m q"
    and "ds = [] \<longleftrightarrow> (\<forall>q. \<not> due m q)"
proof -
  note sp = next_commands_spec [OF g]
  let ?L = "get_unique_pids ord (registry m)"
  {
    assume "d \<in> set ds"
    then obtain pc t where pc: "pc \<in> set ?L" "eligible_pick m pc = Some (d, t)"
      and least: "\<forall>pc' \<in> set ?L. \<forall>d' t'. eligible_pick m pc' = Some (d', t') \<longrightarrow> t \<le> t'"
      using sp(1) unfolding picks_of_def by blast
    have t: "t = tick_of m (dp_pid d)" using eligible_pid [OF pc(2)] by simp
    with pc show "due m (dp_pid d)" using due_eligible [OF m ord] by blast
    show "tick_of m (dp_pid d) \<le> tick_of m q" if "due m q"
      using that least t due_eligible [OF m ord, of q] by blast
  }
  show "ds = [] \<longleftrightarrow> (\<forall>q. \<not> due m q)"
  proof
    assume "ds = []"
    then have "\<forall>pc \<in> set ?L. eligible_pick m pc = None" using sp(4) peek_None by blast
    then show "\<forall>q. \<not> due m q" using due_eligible [OF m ord] by fastforce
  next
    assume no: "\<forall>q. \<not> due m q"
    show "ds = []"
    proof (rule ccontr)
      assume "ds \<noteq> []"
      then obtain pc t where "eligible_pick m pc = Some (hd ds, t)" "pc \<in> set ?L"
        using sp(1) hd_in_set unfolding picks_of_def by blast
      moreover then have "t = tick_of m (dp_pid (hd ds))" using eligible_pid by fastforce
      ultimately show False using no due_eligible [OF m ord] by blast
    qed
  qed
qed


lemma divisor_range: "1 \<le> commit_divisor m p" "commit_divisor m p \<le> 10"
  by (simp_all add: commit_divisor_def divisor_def split: RefreshTier.split)

lemma inv_commits: "manager_inv m \<Longrightarrow> manager_inv (commits ds m)"
  by (induction ds arbitrary: m) (simp_all add: inv_commit)

lemma round_effect:
  assumes "manager_inv m" "in_flight_pids m = {}"
  shows "manager_inv (poll_round r m)" "settled_table m (poll_round r m)"
    "in_flight_pids (poll_round r m) = {}" "streamed_pids (poll_round r m) = streamed_pids m"
    "tick_of (poll_round r m) p =
       tick_of m p + (if p \<in> dp_pid ` set (round_picks r m) then commit_divisor m p else 0)"
proof -
  obtain m' ds where g: "get_next_commands (r_order r) (r_max r) (r_admission r) m = (m', ds)" by fastforce
  note sp = next_commands_spec [OF g]
  have r: "poll_round r m = finish (r_reply r) (r_time r) ds (commits ds m)" and ds: "round_picks r m = ds"
    using g sp(2) by (simp_all add: poll_round_def round_picks_def)
  note eff = finish_effect [OF inv_commits [OF assms(1), of ds], of "r_reply r" "r_time r" ds]
  have "settled_table m (commits ds m)" by (auto simp: settled_table_def intro!: list_all2_refl)
  then show "settled_table m (poll_round r m)" unfolding r by (rule settled_table_trans [OF _ eff(2)])
  have "distinct (map dp_pid ds)" using sp(1) by (simp add: picks_of_def)
  then show "tick_of (poll_round r m) p =
       tick_of m p + (if p \<in> dp_pid ` set (round_picks r m) then commit_divisor m p else 0)"
    by (simp add: r ds eff(5) commits_tick)
  show "manager_inv (poll_round r m)" "in_flight_pids (poll_round r m) = {}"
    "streamed_pids (poll_round r m) = streamed_pids m"
    by (simp_all add: r eff(1,3,4) assms(2))
qed

definition continuous_for :: "Manager \<Rightarrow> string \<Rightarrow> bool" where
  "continuous_for m p \<longleftrightarrow>
     (\<forall>(i, s) \<in> set (subscriptions m). state s = Active \<and> p \<in> pids s \<longrightarrow> pid_run_counts s p = Some None)"

lemma settled_back:
  assumes "settled_table m m'" "(i, s') \<in> set (subscriptions m')"
  shows "\<exists>s. (i, s) \<in> set (subscriptions m) \<and> settled s s'"
  using assms unfolding settled_table_def
  by (fastforce simp: list_all2_conv_all_nth in_set_conv_nth)

lemma settled_forth:
  assumes "settled_table m m'" "(i, s) \<in> set (subscriptions m)"
  shows "\<exists>s'. (i, s') \<in> set (subscriptions m') \<and> settled s s'"
  using assms unfolding settled_table_def
  by (fastforce simp: list_all2_conv_all_nth in_set_conv_nth)

lemma settled_served:
  assumes "settled_table m m'" "streamed_pids m' = streamed_pids m"
  shows "served m' \<subseteq> served m"
proof
  fix p
  assume "p \<in> served m'"
  then obtain i s' where s': "(i, s') \<in> set (subscriptions m')" "state s' = Active" "p \<in> pids s'" "p \<notin> streamed_pids m"
    by (auto simp: served_def assms(2))
  obtain s where "(i, s) \<in> set (subscriptions m)" "settled s s'" using settled_back [OF assms(1) s'(1)] by blast
  moreover then have "state s = Active" "p \<in> pids s" using s' by (auto simp: settled_def)
  ultimately show "p \<in> served m" using s'(4) by (auto simp: served_def)
qed

lemma settled_continuous:
  assumes "settled_table m m'" "continuous_for m p"
  shows "continuous_for m' p"
  unfolding continuous_for_def
proof clarify
  fix i s'
  assume s': "(i, s') \<in> set (subscriptions m')" "state s' = Active" "p \<in> pids s'"
  obtain s where s: "(i, s) \<in> set (subscriptions m)" "settled s s'" using settled_back [OF assms(1) s'(1)] by blast
  with s' have "state s = Active" "p \<in> pids s" "pid_run_counts s' p = pid_run_counts s p"
    by (auto simp: settled_def)
  with s assms(2) show "pid_run_counts s' p = Some None" by (fastforce simp: continuous_for_def)
qed

lemma settled_stays:
  assumes "settled_table m m'" "streamed_pids m' = streamed_pids m" "continuous_for m p" "p \<in> served m"
  shows "p \<in> served m'"
proof -
  obtain i s where s: "(i, s) \<in> set (subscriptions m)" "state s = Active" "p \<in> pids s" "p \<notin> streamed_pids m"
    using assms(4) by (auto simp: served_def)
  obtain s' where s': "(i, s') \<in> set (subscriptions m')" "settled s s'" using settled_forth [OF assms(1) s(1)] by blast
  have "pid_run_counts s p = Some None" using s assms(3) by (fastforce simp: continuous_for_def)
  with s s' have "p \<in> pids s'" by (simp add: settled_def)
  moreover then have "state s' = Active" using s s' by (auto simp: settled_def)
  ultimately show ?thesis using s'(1) s(4) by (auto simp: served_def assms(2))
qed

lemma served_due:
  assumes "in_flight_pids m = {}" "continuous_for m p" "p \<in> served m"
  shows "due m p"
proof -
  obtain s where s: "owning_active_sub p m = Some s"
    using assms(3) owning_None [of p m] by (cases "owning_active_sub p m") (auto simp: served_def)
  then obtain i where "(i, s) \<in> set (subscriptions m)" "state s = Active" "p \<in> pids s" using owning_Some by blast
  then have "pid_run_counts s p = Some None" using assms(2) by (fastforce simp: continuous_for_def)
  with s assms(1,3) show ?thesis by (simp add: due_def served_def run_limit_reached_def)
qed

lemma finite_served:
  assumes "manager_inv m"
  shows "finite (served m)"
proof (rule finite_subset)
  show "served m \<subseteq> fst ` set (get_unique_pids id (registry m))"
    using listed [OF assms, of id] by (force simp: served_def permutes_def)
qed simp

section \<open>Nobody starves\<close>

text \<open>How many rounds the others can go first: each of them up to where its clock passes that of \<open>p\<close>.\<close>

definition wait :: "Manager \<Rightarrow> string \<Rightarrow> nat" where
  "wait m p = (\<Sum>q \<in> served m. tick_of m p + 1 - tick_of m q)"

lemma wait_decreases:
  assumes m: "manager_inv m" "in_flight_pids m = {}" and ord: "permutes (r_order r)"
    and p: "continuous_for m p" "p \<in> served m" "p \<notin> dp_pid ` set (round_picks r m)"
  shows "wait (poll_round r m) p < wait m p"
proof -
  let ?m = "poll_round r m"
  note eff = round_effect [OF m, of r]
  obtain m' where g: "get_next_commands (r_order r) (r_max r) (r_admission r) m = (m', round_picks r m)"
    unfolding round_picks_def by (metis prod.collapse)
  note pd = picks_due [OF m(1) ord g]
  have "due m p" by (rule served_due [OF m(2) p(1,2)])
  then obtain d where d: "d \<in> set (round_picks r m)" using pd(3) by fastforce
  let ?q = "dp_pid d"
  have q: "?q \<in> served m" "tick_of m ?q \<le> tick_of m p"
    using due_served [OF pd(1) [OF d]] pd(2) [OF d \<open>due m p\<close>] by auto
  have tp: "tick_of ?m p = tick_of m p" using p(3) by (simp add: eff(5))
  have mono: "tick_of m x \<le> tick_of ?m x" for x by (simp add: eff(5))
  have "tick_of m ?q < tick_of ?m ?q" using d divisor_range(1) [of m ?q] by (auto simp: eff(5))
  then have less: "(\<Sum>x \<in> served m. tick_of m p + 1 - tick_of ?m x) < (\<Sum>x \<in> served m. tick_of m p + 1 - tick_of m x)"
    by (intro sum_strict_mono_ex1 finite_served [OF m(1)])
       (use q mono in \<open>auto intro!: bexI [of _ ?q] diff_le_mono2 diff_less_mono2\<close>)
  have "wait ?m p \<le> (\<Sum>x \<in> served m. tick_of m p + 1 - tick_of ?m x)"
    unfolding wait_def tp by (rule sum_mono2 [OF finite_served [OF m(1)] settled_served [OF eff(2,4)]]) simp
  with less show ?thesis by (simp add: wait_def)
qed

lemma polled_within:
  assumes "manager_inv m" "in_flight_pids m = {}" "\<forall>r \<in> set rs. permutes (r_order r)"
    "continuous_for m p" "p \<in> served m" "wait m p \<le> length rs"
  shows "0 < polls rs m p"
  using assms
proof (induction rs arbitrary: m)
  case Nil
  have "tick_of m p + 1 - tick_of m p \<le> wait m p"
    unfolding wait_def by (rule member_le_sum) (use Nil.prems finite_served in auto)
  with Nil.prems(6) show ?case by simp
next
  case (Cons r rs)
  show ?case
  proof (cases "p \<in> dp_pid ` set (round_picks r m)")
    case False
    note eff = round_effect [OF Cons.prems(1,2), of r]
    have "wait (poll_round r m) p < wait m p"
      by (rule wait_decreases) (use Cons.prems False in auto)
    then have "0 < polls rs (poll_round r m) p"
      by (intro Cons.IH eff settled_continuous [OF eff(2)] settled_stays [OF eff(2,4)])
         (use Cons.prems in auto)
    then show ?thesis by simp
  qed simp
qed

section \<open>Shares of the tiers\<close>

lemma find_all2:
  assumes "list_all2 R xs ys" "\<And>x y. R x y \<Longrightarrow> P x = P y \<and> (P x \<longrightarrow> f x = f y)"
  shows "map_option f (find P xs) = map_option f (find P ys)"
  using assms(1) by (induction rule: list_all2_induct) (auto dest!: assms(2))

lemma settled_divisor:
  assumes "settled_table m m'" "continuous_for m p"
  shows "commit_divisor m' p = commit_divisor m p"
proof -
  let ?P = "\<lambda>(_ :: uuid, s :: Subscription). p \<in> pids s"
  let ?R = "\<lambda>(i, s) (j, s'). i = (j :: uuid) \<and> settled s s'"
  have "map_option (\<lambda>e. pid_tiers (snd e)) (find ?P (subscriptions m)) =
      map_option (\<lambda>e. pid_tiers (snd e)) (find ?P (subscriptions m'))"
  proof (rule find_all2 [where R = "\<lambda>x y. ?R x y \<and> x \<in> set (subscriptions m)"])
    show "list_all2 (\<lambda>x y. ?R x y \<and> x \<in> set (subscriptions m)) (subscriptions m) (subscriptions m')"
      using assms(1) by (simp add: settled_table_def list_all2_conv_all_nth)
  next
    fix x y
    assume r: "?R x y \<and> x \<in> set (subscriptions m)"
    obtain i s s' where x: "x = (i, s)" "y = (i, s')" "settled s s'" using r by (cases x; cases y) auto
    have "p \<in> pids s \<Longrightarrow> p \<in> pids s'"
    proof (cases "state s = Active")
      case True
      assume "p \<in> pids s"
      with True r x have "pid_run_counts s p = Some None" using assms(2) by (fastforce simp: continuous_for_def)
      with x(3) \<open>p \<in> pids s\<close> show "p \<in> pids s'" by (simp add: settled_def)
    next
      case False
      assume "p \<in> pids s"
      with False x(3) show "p \<in> pids s'" by (simp add: settled_def)
    qed
    moreover have "p \<in> pids s' \<Longrightarrow> p \<in> pids s" "pid_tiers s = pid_tiers s'" using x(3) by (auto simp: settled_def)
    ultimately show "?P x = ?P y \<and> (?P x \<longrightarrow> pid_tiers (snd x) = pid_tiers (snd y))" by (auto simp: x)
  qed
  then show ?thesis
    by (auto simp: commit_divisor_def split: option.splits)
qed

definition spread :: "Manager \<Rightarrow> bool" where
  "spread m \<longleftrightarrow> (\<forall>p \<in> served m. \<forall>q \<in> served m. tick_of m p \<le> tick_of m q + 10)"

definition all_continuous :: "Manager \<Rightarrow> bool" where
  "all_continuous m \<longleftrightarrow> (\<forall>p \<in> served m. continuous_for m p)"

lemma round_spread:
  assumes m: "manager_inv m" "in_flight_pids m = {}" and ord: "permutes (r_order r)"
    and c: "all_continuous m" and s: "spread m"
  shows "spread (poll_round r m)"
  unfolding spread_def
proof clarify
  fix p q
  assume "p \<in> served (poll_round r m)" "q \<in> served (poll_round r m)"
  note eff = round_effect [OF m, of r]
  have pq: "p \<in> served m" "q \<in> served m"
    using \<open>p \<in> served (poll_round r m)\<close> \<open>q \<in> served (poll_round r m)\<close> settled_served [OF eff(2,4)] by auto
  obtain m' where g: "get_next_commands (r_order r) (r_max r) (r_admission r) m = (m', round_picks r m)"
    unfolding round_picks_def by (metis prod.collapse)
  have "due m q" by (rule served_due) (use m(2) c pq in \<open>auto simp: all_continuous_def\<close>)
  show "tick_of (poll_round r m) p \<le> tick_of (poll_round r m) q + 10"
  proof (cases "p \<in> dp_pid ` set (round_picks r m)")
    case True
    then have "tick_of m p \<le> tick_of m q" using picks_due(2) [OF m(1) ord g _ \<open>due m q\<close>] by auto
    then show ?thesis using True divisor_range(2) [of m p] by (simp add: eff(5))
  next
    case False
    have "tick_of m p \<le> tick_of m q + 10" using s pq by (simp add: spread_def)
    then show ?thesis using False by (simp add: eff(5))
  qed
qed

lemma round_keeps:
  assumes "manager_inv m" "in_flight_pids m = {}"
  shows "all_continuous m \<Longrightarrow> all_continuous (poll_round r m)"
    and "all_continuous m \<Longrightarrow> p \<in> served m \<Longrightarrow> p \<in> served (poll_round r m)"
proof -
  note eff = round_effect [OF assms, of r]
  show "all_continuous m \<Longrightarrow> all_continuous (poll_round r m)"
    using settled_served [OF eff(2,4)] settled_continuous [OF eff(2)] by (auto simp: all_continuous_def)
  show "all_continuous m \<Longrightarrow> p \<in> served m \<Longrightarrow> p \<in> served (poll_round r m)"
    by (rule settled_stays [OF eff(2,4)]) (auto simp: all_continuous_def)
qed

lemma rounds_ticks:
  assumes "manager_inv m" "in_flight_pids m = {}" "continuous_for m p"
  shows "tick_of (poll_rounds rs m) p = tick_of m p + commit_divisor m p * polls rs m p"
  using assms
proof (induction rs arbitrary: m)
  case (Cons r rs)
  note eff = round_effect [OF Cons.prems(1,2), of r]
  have "tick_of (poll_rounds rs (poll_round r m)) p =
      tick_of (poll_round r m) p + commit_divisor (poll_round r m) p * polls rs (poll_round r m) p"
    by (intro Cons.IH eff settled_continuous [OF eff(2) Cons.prems(3)])
  then show ?case by (simp add: eff(5) settled_divisor [OF eff(2) Cons.prems(3)])
qed simp

lemma rounds_spread:
  assumes "manager_inv m" "in_flight_pids m = {}" "\<forall>r \<in> set rs. permutes (r_order r)"
    "all_continuous m" "spread m" "p \<in> served m" "q \<in> served m"
  shows "tick_of (poll_rounds rs m) p \<le> tick_of (poll_rounds rs m) q + 10"
  using assms
proof (induction rs arbitrary: m)
  case Nil
  then show ?case by (simp add: spread_def)
next
  case (Cons r rs)
  note eff = round_effect [OF Cons.prems(1,2), of r]
  have "tick_of (poll_rounds rs (poll_round r m)) p \<le> tick_of (poll_rounds rs (poll_round r m)) q + 10"
    by (rule Cons.IH [OF eff(1,3)])
       (use Cons.prems in \<open>auto intro: round_keeps round_spread\<close>)
  then show ?case by simp
qed

lemma stale_goes_first:
  assumes "manager_inv m" "in_flight_pids m = {}" "\<forall>r \<in> set rs. permutes (r_order r)"
    "continuous_for m q" "q \<in> served m" "tick_of m q + 10 * length rs \<le> tick_of m p"
  shows "polls rs m p = 0"
  using assms
proof (induction rs arbitrary: m)
  case (Cons r rs)
  note eff = round_effect [OF Cons.prems(1,2), of r]
  obtain m' where g: "get_next_commands (r_order r) (r_max r) (r_admission r) m = (m', round_picks r m)"
    unfolding round_picks_def by (metis prod.collapse)
  have "permutes (r_order r)" using Cons.prems(3) by simp
  have "due m q" by (rule served_due [OF Cons.prems(2,4,5)])
  then have p: "p \<notin> dp_pid ` set (round_picks r m)"
    using picks_due(2) [OF Cons.prems(1) \<open>permutes (r_order r)\<close> g] Cons.prems(6) by fastforce
  have "polls rs (poll_round r m) p = 0"
    by (rule Cons.IH [OF eff(1,3)])
       (use Cons.prems p divisor_range(2) [of m q] in
         \<open>auto simp: eff(5) intro: settled_continuous [OF eff(2)] settled_stays [OF eff(2,4)]\<close>)
  with p show ?case by simp
qed simp


section \<open>The promises of the scheduler\<close>

text \<open>
  C30: what an exchange picks from any reachable state is due and most overdue: nothing in flight or
  streamed, every PID held by an active subscription that still has runs left, no other due PID
  with a lower tick, one target, at most the requested number, each PID once; and it picks
  something whenever anything is due. Exactly the picks become in flight and only their ticks move.
\<close>

theorem picks_are_most_overdue:
  assumes "reachable ttl mx m" and "permutes ord" and "get_next_commands ord n a m = (m', ds)"
  shows "(\<forall>d \<in> set ds. due m (dp_pid d) \<and> dp_controller d = dp_controller (hd ds)
            \<and> (\<forall>q. due m q \<longrightarrow> tick_of m (dp_pid d) \<le> tick_of m q))
    \<and> distinct (map dp_pid ds) \<and> length ds \<le> max n 1 \<and> (ds = [] \<longleftrightarrow> (\<forall>q. \<not> due m q))
    \<and> in_flight_pids m' = in_flight_pids m \<union> dp_pid ` set ds
    \<and> (\<forall>p. tick_of m' p = tick_of m p + (if p \<in> dp_pid ` set ds then commit_divisor m p else 0))"
proof -
  note pd = picks_due [OF reachable_inv [OF assms(1)] assms(2,3)]
  note sp = next_commands_spec [OF assms(3)]
  have "distinct (map dp_pid ds)" "\<forall>d \<in> set ds. dp_controller d = dp_controller (hd ds)"
    using sp(1) unfolding picks_of_def by blast+
  then show ?thesis using pd sp(2,3) by (simp add: commits_tick)
qed

text \<open>
  C31: nobody starves. In every reachable state with nothing in flight, a PID an active subscription
  polls without a run limit, and whose tick is at most 10 ahead of the others, is polled within
  \<open>11 * n\<close> rounds, \<open>n\<close> the number of served PIDs, whatever the replies are and however the hash
  map is iterated.
\<close>

theorem no_starvation:
  assumes "reachable ttl mx m" "in_flight_pids m = {}" "\<forall>r \<in> set rs. permutes (r_order r)"
    and "p \<in> served m" "continuous_for m p" "\<forall>q \<in> served m. tick_of m p \<le> tick_of m q + 10"
    and "11 * card (served m) \<le> length rs"
  shows "0 < polls rs m p"
proof (rule polled_within [OF reachable_inv [OF assms(1)] assms(2,3,5,4)])
  have "wait m p \<le> (\<Sum>q \<in> served m. 11)"
    unfolding wait_def by (rule sum_mono) (use assms(6) in fastforce)
  with assms(7) show "wait m p \<le> length rs" by simp
qed


text \<open>A stale tick goes first. A served PID whose tick lies far below another's, as after a long
  pause of its subscription, keeps that other PID from being polled at all for as many rounds as
  a tenth of the gap: resuming does not re-seed the ticks the way adding a PID does.
\<close>

theorem stale_tick_monopolises:
  assumes "reachable ttl mx m" "in_flight_pids m = {}" "\<forall>r \<in> set rs. permutes (r_order r)"
    and "continuous_for m q" "q \<in> served m" "tick_of m q + 10 * length rs \<le> tick_of m p"
  shows "polls rs m p = 0"
  by (rule stale_goes_first [OF reachable_inv [OF assms(1)] assms(2-6)])

subsection \<open>A concrete session\<close>

definition demo :: Manager where
  "demo = exec_op (Start 0 7) (exec_op (AddPids 0 7 [''010C'', ''0105''] None None)
     (exec_op (Create 7 0 None) (manager_new (registry_new 1000) 4)))"

definition demo_round :: Round where
  "demo_round = \<lparr> r_order = (\<lambda>xs. xs), r_max = 1, r_admission = single_admission, r_reply = (\<lambda>_. None), r_time = 0 \<rparr>"

lemma served_code: "served m = \<Union> (set (map (\<lambda>(i, s). if state s = Active then pids s else {}) (subscriptions m))) - streamed_pids m"
  by (force simp: served_def split: if_splits)

lemma demo_reachable: "reachable 1000 4 demo"
  unfolding demo_def
  by (intro reachable.op reachable.initial) (simp_all add: manager_new_def get_sub_def)

lemma demo_served: "served demo = {''010C'', ''0105''}"
  unfolding served_code by code_simp

lemma demo_facts: "in_flight_pids demo = {}" "streamed_pids demo = {}" "permutes (r_order demo_round)"
  "continuous_for demo ''010C''" "continuous_for demo ''0105''" "tick_of demo ''010C'' = 0" "tick_of demo ''0105'' = 0"
  "commit_divisor demo ''010C'' = 1" "commit_divisor demo ''0105'' = 10"
  subgoal by code_simp
  subgoal by code_simp
  subgoal by (simp add: permutes_def demo_round_def)
  subgoal by code_simp
  subgoal by code_simp
  subgoal by code_simp
  subgoal by code_simp
  subgoal by code_simp
  subgoal by code_simp
  done


theorem picks_are_most_overdue_witness:
  "case get_next_commands (\<lambda>xs. xs) 1 single_admission demo of
     (m', []) \<Rightarrow> False
   | (m', d # ds) \<Rightarrow> due demo (dp_pid d) \<and> tick_of demo (dp_pid d) \<le> tick_of demo ''010C''"
proof -
  have o: "permutes (\<lambda>xs. xs)" by (simp add: permutes_def)
  have "due demo ''010C''" by code_simp
  moreover obtain m' ds where g: "get_next_commands (\<lambda>xs. xs) 1 single_admission demo = (m', ds)" by fastforce
  ultimately show ?thesis
    using picks_are_most_overdue [OF demo_reachable o g] by (cases ds) auto
qed

theorem no_starvation_witness: "0 < polls (replicate 22 demo_round) demo ''0105''"
  by (rule no_starvation [OF demo_reachable])
     (simp_all add: demo_facts demo_served)


text \<open>A stream serves one PID while the other is polled, then the stream ends.\<close>

definition demo_poll :: "Manager \<Rightarrow> Manager" where
  "demo_poll m = exec_op (CompletedOp ''0105'' None 0) (exec_op (NextCommand_op (\<lambda>xs. xs)) m)"

definition demo_resumed :: Manager where
  "demo_resumed = exec_op (SetStreamed {}) (demo_poll (demo_poll (exec_op (SetStreamed {''010C''}) demo)))"

lemma reachable_create: "reachable ttl mx m \<Longrightarrow> get_sub i m = None \<Longrightarrow> reachable ttl mx (exec_op (Create i now nm) m)"
  by (rule reachable.op) auto

lemma reachable_other: "reachable ttl mx m \<Longrightarrow> (\<And>i now nm. opn \<noteq> Create i now nm) \<Longrightarrow> reachable ttl mx (exec_op opn m)"
  by (rule reachable.op) auto

lemma demo_resumed_reachable: "reachable 1000 4 demo_resumed"
  unfolding demo_resumed_def demo_poll_def
  by (intro reachable_other demo_reachable) simp_all

lemma demo_resumed_facts:
  "in_flight_pids demo_resumed = {}" "''010C'' \<in> served demo_resumed" "continuous_for demo_resumed ''010C''"
  "tick_of demo_resumed ''010C'' = 0" "tick_of demo_resumed ''0105'' = 20"
  subgoal by code_simp
  subgoal unfolding served_code by code_simp
  subgoal by code_simp
  subgoal by code_simp
  subgoal by code_simp
  done

theorem stale_tick_monopolises_witness: "polls [demo_round, demo_round] demo_resumed ''0105'' = 0"
  by (rule stale_tick_monopolises [OF demo_resumed_reachable, where q = "''010C''"])
     (simp_all add: demo_facts demo_resumed_facts)

end
