(* ===== verification/Lifecycle.thy ===== *)
theory Lifecycle
  imports Scheduler
begin

text \<open>
  Subscriptions through their life: the registry stays an index of them, the host's pause is
  respected, run limits are exact. The definitions it is about are those of \<open>Subscription\<close>.
\<close>

section \<open>One subscription through an operation\<close>

lemma get_commit [simp]: "get_sub i (commit_pick p m) = get_sub i m"
  by (simp add: get_sub_def commit_pick_def)

lemma get_pick_loop [simp]: "get_sub i (fst (pick_loop ord a n picked t sweep m)) = get_sub i m"
  by (induction ord a n picked t sweep m rule: pick_loop.induct) (simp_all split: option.split)

lemma pick_loop_table [simp]: "subscriptions (fst (pick_loop ord a n picked t sweep m)) = subscriptions m"
  by (induction ord a n picked t sweep m rule: pick_loop.induct) (simp_all split: option.split)

lemma get_push_audit [simp]: "get_sub i (push_audit e m) = get_sub i m"
  by (simp add: push_audit_def get_sub_def Let_def)

lemma get_touch:
  "get_sub i (touch_and_audit now j act ps m) =
     (if i = j then map_option (\<lambda>s. s \<lparr> last_active := Some now \<rparr>) (get_sub i m) else get_sub i m)"
  by (simp add: touch_and_audit_def split: option.split)

lemma map_of_pointwise: "map_of (map (\<lambda>(i, s). (i, f i s)) al) i = map_option (f i) (map_of al i)"
  by (induction al) auto

text \<open>The subscription after a completion, before and after the completion check.\<close>

lemma get_completed:
  assumes "distinct (map fst (subscriptions m))" "get_sub i m = Some s"
    and "s1 = fst (complete_in_sub (fst (attribute pid resp)) resp ts i (s, registry m))"
  shows "\<exists>s2. get_sub i (fst (command_completed pid resp ts m)) = Some s2
    \<and> (s2 = s1 \<or> run_once_done s1 \<and> s2 = s1 \<lparr> state := Completed \<rparr>)"
proof -
  let ?a = "attribute pid resp"
  let ?c = "complete_all (fst ?a) resp ts (subscriptions m) (registry m)"
  let ?m3 = "count_response ?a m \<lparr> in_flight_pids := in_flight_pids m - {pid}, subscriptions := fst ?c, registry := snd ?c \<rparr>"
  have r: "fst (command_completed pid resp ts m) = fst (check_and_mark_subscription_complete ?m3)"
    by (simp add: command_completed_def Let_def case_prod_beta)
  have t: "fst ?c = map (\<lambda>(i, s). (i, fst (complete_in_sub (fst ?a) resp ts i (s, registry m)))) (subscriptions m)"
    by (rule complete_all_table)
  have g: "get_sub i ?m3 = Some s1"
    using assms(2) by (simp add: get_sub_def t map_of_pointwise assms(3))
  have d: "distinct (map fst (subscriptions ?m3))"
    using assms(1) by (simp add: t comp_def case_prod_beta)
  show ?thesis
  proof (cases "find (\<lambda>(_, s). run_once_done s) (subscriptions ?m3)")
    case None
    then have "fst (check_and_mark_subscription_complete ?m3) = ?m3"
      by (simp add: check_and_mark_subscription_complete_def)
    with g r show ?thesis by simp
  next
    case (Some e)
    obtain j u where e: "e = (j, u)" by (cases e)
    have u: "get_sub j ?m3 = Some u" "run_once_done u"
      using find_entry [OF d, of run_once_done j u] Some by (simp_all add: e get_sub_def)
    have "fst (check_and_mark_subscription_complete ?m3) = put_sub j (u \<lparr> state := Completed \<rparr>) ?m3"
      using Some e by (simp add: check_and_mark_subscription_complete_def)
    with g r u show ?thesis by (cases "i = j") auto
  qed
qed

lemma get_completed_None:
  assumes "distinct (map fst (subscriptions m))" "get_sub i m = None"
  shows "get_sub i (fst (command_completed pid resp ts m)) = None"
proof -
  let ?a = "attribute pid resp"
  let ?c = "complete_all (fst ?a) resp ts (subscriptions m) (registry m)"
  let ?m3 = "count_response ?a m \<lparr> in_flight_pids := in_flight_pids m - {pid}, subscriptions := fst ?c, registry := snd ?c \<rparr>"
  have r: "fst (command_completed pid resp ts m) = fst (check_and_mark_subscription_complete ?m3)"
    by (simp add: command_completed_def Let_def case_prod_beta)
  have t: "fst ?c = map (\<lambda>(i, s). (i, fst (complete_in_sub (fst ?a) resp ts i (s, registry m)))) (subscriptions m)"
    by (rule complete_all_table)
  have g: "get_sub i ?m3 = None" using assms(2) by (simp add: get_sub_def t map_of_pointwise)
  have d: "distinct (map fst (subscriptions ?m3))"
    using assms(1) by (simp add: t comp_def case_prod_beta)
  show ?thesis
  proof (cases "find (\<lambda>(_, s). run_once_done s) (subscriptions ?m3)")
    case None
    with g r show ?thesis by (simp add: check_and_mark_subscription_complete_def)
  next
    case (Some e)
    obtain j u where e: "e = (j, u)" by (cases e)
    have u: "get_sub j ?m3 = Some u"
      using find_entry [OF d, of run_once_done j u] Some by (simp_all add: e get_sub_def)
    have "fst (check_and_mark_subscription_complete ?m3) = put_sub j (u \<lparr> state := Completed \<rparr>) ?m3"
      using Some e by (simp add: check_and_mark_subscription_complete_def)
    with g r u show ?thesis by auto
  qed
qed

section \<open>Who may wake a paused subscription\<close>

definition paused_by_host :: "uuid \<Rightarrow> Manager \<Rightarrow> bool" where
  "paused_by_host i m \<longleftrightarrow>
     distinct (map fst (subscriptions m))
     \<and> (case get_sub i m of None \<Rightarrow> True | Some s \<Rightarrow> state s = Paused \<and> host_paused s)"

lemma paused_put:
  assumes "paused_by_host i m" "j = i \<Longrightarrow> state s = Paused \<and> host_paused s"
  shows "paused_by_host i (put_sub j s m)"
  using assms by (auto simp: paused_by_host_def distinct_update)

lemma paused_sub: "paused_by_host i m \<Longrightarrow> get_sub i m = Some s \<Longrightarrow> state s = Paused \<and> host_paused s"
  by (simp add: paused_by_host_def)

lemma paused_cong:
  "subscriptions m' = subscriptions m \<Longrightarrow> paused_by_host i m' = paused_by_host i m"
  by (simp add: paused_by_host_def get_sub_def)

lemma paused_resume: "paused_by_host i m \<Longrightarrow> paused_by_host i (resume_many ids m)"
  unfolding resume_many_def
proof (induction ids arbitrary: m)
  case (Cons j ids)
  have "paused_by_host i (resume_one j m)"
    using Cons.prems by (auto simp: resume_one_def intro!: paused_put dest: paused_sub split: option.split)
  with Cons.IH show ?case by simp
qed simp

lemma paused_push: "paused_by_host i (push_audit e m) = paused_by_host i m"
  by (rule paused_cong) (simp add: push_audit_def Let_def)

lemma paused_touch: "paused_by_host i m \<Longrightarrow> paused_by_host i (touch_and_audit now j act ps m)"
  by (auto simp: touch_and_audit_def paused_push intro!: paused_put dest: paused_sub split: option.split)

lemma paused_completed:
  assumes "paused_by_host i m"
  shows "paused_by_host i (fst (command_completed pid resp ts m))"
proof -
  have d: "distinct (map fst (subscriptions m))" using assms by (simp add: paused_by_host_def)
  have d': "distinct (map fst (subscriptions (fst (command_completed pid resp ts m))))"
    using d by (simp add: command_completed_def Let_def case_prod_beta check_and_mark_subscription_complete_def
        complete_all_table [of _ _ _ _ "registry m" "registry m"] comp_def distinct_update split: option.split)
  show ?thesis
  proof (cases "get_sub i m")
    case None
    with d' get_completed_None [OF d None, of pid resp ts] show ?thesis by (simp add: paused_by_host_def)
  next
    case (Some s)
    have s: "state s = Paused" "host_paused s" using paused_sub [OF assms Some] by auto
    then have "fst (complete_in_sub (fst (attribute pid resp)) resp ts i (s, registry m)) = s" by simp
    with get_completed [OF d Some refl, of pid resp ts] s d' show ?thesis
      by (auto simp: paused_by_host_def run_once_done_def)
  qed
qed


lemma paused_cancel:
  assumes "paused_by_host i m"
  shows "paused_by_host i (fst (cancel_subscription j m))"
proof (cases "get_sub j m")
  case None
  with assms show ?thesis by (simp add: cancel_subscription_def)
next
  case (Some s)
  have "get_sub i (fst (cancel_subscription j m)) = (if i = j then None else get_sub i m)"
    using Some by (simp add: cancel_subscription_def get_sub_def delete_conv')
  moreover have "distinct (map fst (subscriptions (fst (cancel_subscription j m))))"
    using assms Some by (simp add: cancel_subscription_def paused_by_host_def distinct_delete)
  ultimately show ?thesis using assms by (simp add: paused_by_host_def)
qed

lemma paused_pause_all:
  assumes "paused_by_host i m"
  shows "paused_by_host i (fst (pause_all_active m))"
proof -
  have "get_sub i (fst (pause_all_active m)) =
      map_option (\<lambda>s. if state s = Active then s \<lparr> state := Paused \<rparr> else s) (get_sub i m)"
    by (simp add: get_sub_def pause_all_active_def map_of_pointwise [of "\<lambda>_ s. if state s = Active then s \<lparr> state := Paused \<rparr> else s"])
  moreover have "map fst (subscriptions (fst (pause_all_active m))) = map fst (subscriptions m)"
    by (simp add: pause_all_active_def comp_def case_prod_beta)
  ultimately show ?thesis using assms by (auto simp: paused_by_host_def split: option.splits)
qed

lemma paused_add:
  assumes "paused_by_host i m"
  shows "paused_by_host i (fst (add_pids_with_run_counts now j ps tgt counts m))"
proof (cases "get_sub j m")
  case None
  with assms show ?thesis by (simp add: add_pids_with_run_counts_def Let_def)
next
  case (Some s)
  let ?s1 = "foldl (add_one_pid counts) s ps"
  let ?s2 = "if ps \<noteq> [] \<and> list_all (\<lambda>p. lookup_run_count counts p \<noteq> None) ps then ?s1 \<lparr> is_run_once_only := True \<rparr> else ?s1"
  let ?s3 = "case tgt of None \<Rightarrow> ?s2 | Some c \<Rightarrow> ?s2 \<lparr> target_controller := Some c \<rparr>"
  let ?m2 = "put_sub j ?s3 m \<lparr> pid_schedule_ticks := foldl (\<lambda>ts p. AList.update p (seed_tick m) ts) (pid_schedule_ticks m) ps,
     registry := foldl (\<lambda>r p. register_pid_subscription p j tgt r) (registry m) ps \<rparr>"
  have "state ?s3 = state s" "host_paused ?s3 = host_paused s" by (simp_all add: add_list_fields split: option.split)
  with paused_sub [OF assms] Some have "paused_by_host i (put_sub j ?s3 m)"
    by (intro paused_put [OF assms]) auto
  then have "paused_by_host i ?m2" by (subst paused_cong [where m = "put_sub j ?s3 m"]) simp_all
  then have "paused_by_host i (touch_and_audit now j ''add'' ps ?m2)" by (rule paused_touch)
  with assms Some show ?thesis by (auto simp: add_pids_with_run_counts_def Let_def simp del: not_None_eq split: option.split)
qed

lemma paused_remove:
  assumes "paused_by_host i m"
  shows "paused_by_host i (fst (remove_pids now j ps m))"
proof (cases "get_sub j m")
  case None
  with assms show ?thesis by (simp add: remove_pids_def)
next
  case (Some s)
  let ?m2 = "put_sub j (s \<lparr> pids := pids s - set ps \<rparr>) m
    \<lparr> registry := foldl (\<lambda>r p. unregister_pid_subscription p j r) (registry m) ps \<rparr>"
  have "paused_by_host i (put_sub j (s \<lparr> pids := pids s - set ps \<rparr>) m)"
    by (rule paused_put [OF assms]) (use paused_sub [OF assms] Some in auto)
  then have "paused_by_host i ?m2" by (subst paused_cong [where m = "put_sub j (s \<lparr> pids := pids s - set ps \<rparr>) m"]) simp_all
  then have "paused_by_host i (touch_and_audit now j ''remove'' ps ?m2)" by (rule paused_touch)
  with assms Some show ?thesis by (simp add: remove_pids_def Let_def)
qed

text \<open>Every operation except starting that subscription, or making a new one under its name.\<close>

fun wakes :: "uuid \<Rightarrow> Op \<Rightarrow> bool" where
  "wakes i (Start now j) \<longleftrightarrow> j = i"
| "wakes i (Create j now nm) \<longleftrightarrow> j = i"
| "wakes i _ \<longleftrightarrow> False"

lemma paused_op:
  assumes "paused_by_host i m" "\<not> wakes i opn"
  shows "paused_by_host i (exec_op opn m)"
proof (cases opn)
  case (SetTimeout j t)
  with assms(1) show ?thesis
    by (auto simp: set_subscription_timeout_def intro!: paused_put dest: paused_sub split: option.split)
next
  case (Create j now nm)
  with assms show ?thesis by (auto simp: create_subscription_def intro!: paused_put)
next
  case (Start now j)
  with assms show ?thesis
    by (auto simp: start_subscription_def Let_def intro!: paused_put split: option.split SubscriptionState.split)
next
  case (Pause j)
  with assms(1) show ?thesis by (auto simp: pause_subscription_def intro!: paused_put split: option.split)
next
  case (SetTiers j ts)
  with assms(1) show ?thesis
    by (auto simp: set_pid_tiers_def intro!: paused_put dest: paused_sub split: option.split)
next
  case (NextCommand_op ord)
  have "subscriptions (exec_op opn m) = subscriptions m"
    by (simp add: NextCommand_op get_next_command_def split: option.split prod.split)
  with assms(1) show ?thesis by (simp add: paused_by_host_def get_sub_def)
next
  case (NextCommands ord n a)
  have "subscriptions (exec_op opn m) = subscriptions m" by (simp add: NextCommands get_next_commands_def)
  with assms(1) show ?thesis by (simp add: paused_by_host_def get_sub_def)
next
  case (SetStreamed ps)
  with assms(1) show ?thesis by (simp add: paused_by_host_def get_sub_def set_streamed_pids_def)
next
  case ClearInFlight
  with assms(1) show ?thesis by (simp add: paused_by_host_def get_sub_def clear_in_flight_def)
next
  case (LogAudit now act nm ps)
  with assms(1) show ?thesis by (simp add: log_audit_event_def paused_push)
qed (use assms(1) in \<open>simp_all only: exec_op.simps paused_pause_all paused_resume paused_cancel paused_add paused_remove
      paused_completed\<close>)

lemma paused_ops:
  "paused_by_host i m \<Longrightarrow> \<forall>opn \<in> set ops. \<not> wakes i opn \<Longrightarrow> paused_by_host i (foldl (\<lambda>q opn. exec_op opn q) m ops)"
  by (induction ops arbitrary: m) (simp_all add: paused_op)

section \<open>Run limits\<close>

definition complete_run :: "string \<Rightarrow> (string option \<times> real) list \<Rightarrow> Manager \<Rightarrow> Manager" where
  "complete_run pid rs m = foldl (\<lambda>q (resp, ts). fst (command_completed pid resp ts q)) m rs"

lemma run_step:
  assumes m: "manager_inv m" "get_sub i m = Some s" "state s = Active" "pid \<in> pids s"
    and n: "pid_run_counts s pid = Some (Some n)" "fst (attribute pid resp) = pid"
  shows "executions s pid + 1 < n \<Longrightarrow> \<exists>s2. get_sub i (fst (command_completed pid resp ts m)) = Some s2
      \<and> state s2 = Active \<and> pid \<in> pids s2 \<and> pid_run_counts s2 pid = Some (Some n) \<and> executions s2 pid = executions s pid + 1"
    and "n \<le> executions s pid + 1 \<Longrightarrow> \<exists>s2. get_sub i (fst (command_completed pid resp ts m)) = Some s2 \<and> pid \<notin> pids s2"
proof -
  have d: "distinct (map fst (subscriptions m))" using m(1) by (simp add: manager_inv_def)
  have l: "last_run s pid \<longleftrightarrow> n \<le> executions s pid + 1" using n(1) by (simp add: last_run_def)
  note g = get_completed [OF d m(2) refl, of pid resp ts] n(2) complete_in_sub_held [OF m(4,3), of resp ts i "registry m"]
  show "executions s pid + 1 < n \<Longrightarrow> \<exists>s2. get_sub i (fst (command_completed pid resp ts m)) = Some s2
      \<and> state s2 = Active \<and> pid \<in> pids s2 \<and> pid_run_counts s2 pid = Some (Some n) \<and> executions s2 pid = executions s pid + 1"
    using g l m n(1) by (auto simp: run_once_done_def executions_def)
  show "n \<le> executions s pid + 1 \<Longrightarrow> \<exists>s2. get_sub i (fst (command_completed pid resp ts m)) = Some s2 \<and> pid \<notin> pids s2"
    using g l by auto
qed

lemma dropped_step:
  assumes "manager_inv m" "get_sub i m = Some s" "pid \<notin> pids s"
  shows "\<exists>s2. get_sub i (fst (command_completed pid' resp ts m)) = Some s2 \<and> pid \<notin> pids s2"
proof -
  have d: "distinct (map fst (subscriptions m))" using assms(1) by (simp add: manager_inv_def)
  show ?thesis
    using get_completed [OF d assms(2) refl, of pid' resp ts] complete_in_sub_fields(5) [of "fst (attribute pid' resp)" resp ts i s "registry m"]
      assms(3) by fastforce
qed

lemma complete_run_inv: "manager_inv m \<Longrightarrow> manager_inv (complete_run pid rs m)"
  unfolding complete_run_def by (induction rs arbitrary: m) (auto intro: inv_completed)

lemma dropped_stays:
  assumes "manager_inv m" "get_sub i m = Some s" "pid \<notin> pids s"
  shows "\<exists>s2. get_sub i (complete_run pid' rs m) = Some s2 \<and> pid \<notin> pids s2"
  using assms
proof (induction rs arbitrary: m s)
  case (Cons e rs)
  obtain resp ts where e: "e = (resp, ts)" by (cases e)
  let ?m = "fst (command_completed pid' resp ts m)"
  obtain s2 where "get_sub i ?m = Some s2" "pid \<notin> pids s2"
    using dropped_step [OF Cons.prems, of pid' resp ts] by blast
  from Cons.IH [OF inv_completed [OF Cons.prems(1)] this] show ?case by (simp add: complete_run_def e)
qed (simp add: complete_run_def)

lemma limited_run:
  assumes "manager_inv m" "get_sub i m = Some s" "state s = Active" "pid \<in> pids s"
    and "pid_run_counts s pid = Some (Some n)" "\<forall>(resp, ts) \<in> set rs. fst (attribute pid resp) = pid"
    and "executions s pid < n"
  shows "\<exists>s2. get_sub i (complete_run pid rs m) = Some s2
    \<and> (pid \<in> pids s2 \<longleftrightarrow> executions s pid + length rs < n)"
  using assms
proof (induction rs arbitrary: m s)
  case Nil
  then show ?case by (simp add: complete_run_def)
next
  case (Cons e rs)
  obtain resp ts where e: "e = (resp, ts)" by (cases e)
  let ?m = "fst (command_completed pid resp ts m)"
  have a: "fst (attribute pid resp) = pid" using Cons.prems(6) by (simp add: e)
  have c: "complete_run pid (e # rs) m = complete_run pid rs ?m" by (simp add: complete_run_def e)
  have inv: "manager_inv ?m" by (rule inv_completed [OF Cons.prems(1)])
  note step = run_step [OF Cons.prems(1-5) a]
  show ?case
  proof (cases "executions s pid + 1 < n")
    case True
    obtain s2 where "get_sub i ?m = Some s2" "state s2 = Active" "pid \<in> pids s2"
        "pid_run_counts s2 pid = Some (Some n)" and x: "executions s2 pid = executions s pid + 1"
      using step(1) [OF True] by blast
    moreover have "\<forall>(resp, ts) \<in> set rs. fst (attribute pid resp) = pid" using Cons.prems(6) by simp
    ultimately have "\<exists>s3. get_sub i (complete_run pid rs ?m) = Some s3
        \<and> (pid \<in> pids s3 \<longleftrightarrow> executions s2 pid + length rs < n)"
      using True by (intro Cons.IH [OF inv]) auto
    then show ?thesis by (simp add: c x)
  next
    case False
    then obtain s2 where "get_sub i ?m = Some s2" "pid \<notin> pids s2" using step(2) by fastforce
    from dropped_stays [OF inv this] False show ?thesis by (auto simp: c)
  qed
qed


section \<open>What the manager promises\<close>

text \<open>
  C33: in every reachable state the registry is an exact index of the subscriptions: a PID is
  registered for a subscription iff that subscription holds it; a held PID with a run limit has
  runs left (or the limit 0); the subscriptions and the audit log stay within their capacities.
\<close>

theorem registry_mirrors_subscriptions:
  assumes "reachable ttl mx m"
  shows "(\<forall>p i. i \<in> wanting (registry m) p \<longleftrightarrow> (\<exists>s. get_sub i m = Some s \<and> p \<in> pids s))
    \<and> (\<forall>p. is_pid_subscribed p (registry m) \<longleftrightarrow> (\<exists>i s. get_sub i m = Some s \<and> p \<in> pids s))
    \<and> (\<forall>i s p limit. get_sub i m = Some s \<and> p \<in> pids s \<and> pid_run_counts s p = Some (Some limit)
         \<longrightarrow> executions s p < limit \<or> limit = 0)
    \<and> length (subscriptions m) \<le> max_subscriptions m \<and> length (audit_log m) \<le> max_audit_entries m"
proof -
  note inv = reachable_inv [OF assms]
  have h: "p \<in> holds (subscriptions m) i \<longleftrightarrow> (\<exists>s. get_sub i m = Some s \<and> p \<in> pids s)" for p i
    by (simp add: holds_def get_sub_def split: option.split)
  have r: "registry_inv (registry m)" and w: "i \<in> wanting (registry m) p \<longleftrightarrow> p \<in> holds (subscriptions m) i" for p i
    using inv by (simp_all add: manager_inv_def idx.mirrors_def)
  have "is_pid_subscribed p (registry m) \<longleftrightarrow> wanting (registry m) p \<noteq> {}" for p
    using r by (auto simp: is_pid_subscribed_def wanting_def registry_inv_def split: option.split)
  then have "is_pid_subscribed p (registry m) \<longleftrightarrow> (\<exists>i s. get_sub i m = Some s \<and> p \<in> pids s)" for p
    using w [of _ p] h [of p] by auto
  moreover have "executions s p < limit \<or> limit = 0"
    if "get_sub i m = Some s" "p \<in> pids s" "pid_run_counts s p = Some (Some limit)" for i s p limit
    using inv_sub [OF inv that(1)] that(2,3) by (fastforce simp: sub_ok_def executions_def)
  ultimately show ?thesis using w h inv unfolding manager_inv_def by blast
qed

theorem registry_mirrors_subscriptions_witness:
  "is_pid_subscribed ''010C'' (registry demo) \<longleftrightarrow> (\<exists>i s. get_sub i demo = Some s \<and> ''010C'' \<in> pids s)"
  using registry_mirrors_subscriptions [OF demo_reachable] by blast

text \<open>
  C34: a subscription the host paused stays paused until the host starts it: whatever operations
  come in between (acquisition pauses and resumes that name it, completions, PIDs added or removed,
  exchanges), it is still paused by the host, or cancelled.
\<close>

theorem host_pause_holds:
  assumes "reachable ttl mx m" "get_sub i m = Some s" "state s \<noteq> Cancelled" "\<forall>opn \<in> set ops. \<not> wakes i opn"
    and "m' = foldl (\<lambda>q opn. exec_op opn q) (exec_op (Pause i) m) ops"
  shows "case get_sub i m' of None \<Rightarrow> True | Some s' \<Rightarrow> state s' = Paused \<and> host_paused s'"
proof -
  have "distinct (map fst (subscriptions m))" using reachable_inv [OF assms(1)] by (simp add: manager_inv_def)
  with assms(2,3) have "paused_by_host i (exec_op (Pause i) m)"
    by (simp add: paused_by_host_def pause_subscription_def distinct_update)
  from paused_ops [OF this assms(4)] show ?thesis by (simp add: assms(5) paused_by_host_def)
qed

lemma demo_sub:
  "\<exists>s. get_sub 7 demo = Some s \<and> state s = Active \<and> pids s = {''010C'', ''0105''}"
proof -
  have "case get_sub 7 demo of None \<Rightarrow> False | Some s \<Rightarrow> state s = Active \<and> pids s = {''010C'', ''0105''}"
    by code_simp
  then show ?thesis by (simp split: option.splits)
qed

theorem host_pause_holds_witness:
  "case get_sub 7 (foldl (\<lambda>q opn. exec_op opn q) (exec_op (Pause 7) demo)
       [ResumeMany [7], PauseAllActive, ResumeMany [7], AddPids 0 7 [''010D''] None None]) of
     None \<Rightarrow> True | Some s' \<Rightarrow> state s' = Paused \<and> host_paused s'"
proof -
  obtain s where s: "get_sub 7 demo = Some s" "state s = Active" using demo_sub by blast
  then have "state s \<noteq> Cancelled" by simp
  with s(1) show ?thesis by (rule host_pause_holds [OF demo_reachable _ _ _ refl]) simp
qed

text \<open>
  C35: a PID added with a run limit \<open>n\<close> is accounted exactly \<open>n\<close> times: of the completions attributed
  to it, the first \<open>n - 1\<close> leave it in its subscription, and from the \<open>n\<close>-th on it is gone, from the
  subscription and from the registry.
\<close>

theorem run_limit_exact:
  assumes "reachable ttl mx m" "get_sub i m = Some s" "state s = Active" "pid \<in> pids s"
    and "pid_run_counts s pid = Some (Some n)" "executions s pid < n"
    and "\<forall>(resp, ts) \<in> set rs. fst (attribute pid resp) = pid"
  shows "((\<exists>s'. get_sub i (complete_run pid rs m) = Some s' \<and> pid \<in> pids s') \<longleftrightarrow> executions s pid + length rs < n)
    \<and> (i \<in> wanting (registry (complete_run pid rs m)) pid \<longleftrightarrow> executions s pid + length rs < n)"
proof -
  note inv = reachable_inv [OF assms(1)]
  note l = limited_run [OF inv assms(2-5,7,6)]
  then have *: "(\<exists>s'. get_sub i (complete_run pid rs m) = Some s' \<and> pid \<in> pids s') \<longleftrightarrow> executions s pid + length rs < n"
    by auto
  have "i \<in> wanting (registry (complete_run pid rs m)) pid \<longleftrightarrow> pid \<in> holds (subscriptions (complete_run pid rs m)) i"
    using complete_run_inv [OF inv, of pid rs] by (simp add: manager_inv_def idx.mirrors_def)
  also have "\<dots> \<longleftrightarrow> (\<exists>s'. get_sub i (complete_run pid rs m) = Some s' \<and> pid \<in> pids s')"
    by (simp add: holds_def get_sub_def split: option.split)
  finally show ?thesis using * by blast
qed

definition demo_limited :: Manager where
  "demo_limited = exec_op (Start 0 7) (exec_op (AddPids 0 7 [''0902''] None (Some [''0902'' \<mapsto> Some 2]))
     (exec_op (Create 7 0 None) (manager_new (registry_new 1000) 4)))"

lemma demo_fresh: "reachable 1000 4 (exec_op (Create 7 0 None) (manager_new (registry_new 1000) 4))"
  by (rule reachable_create [OF reachable.initial]) (simp add: manager_new_def get_sub_def)

lemma demo_limited_reachable: "reachable 1000 4 demo_limited"
  unfolding demo_limited_def
  by (rule reachable_other, rule reachable_other, rule demo_fresh) (rule Op.distinct)+

theorem run_limit_exact_witness:
  "7 \<in> wanting (registry (complete_run ''0902'' [(None, 1)] demo_limited)) ''0902''
   \<and> 7 \<notin> wanting (registry (complete_run ''0902'' [(Some ''49 02 01 31'', 1), (Some ''49 02 01 31'', 2)] demo_limited)) ''0902''"
proof -
  have "case get_sub 7 demo_limited of None \<Rightarrow> False | Some s \<Rightarrow> state s = Active \<and> ''0902'' \<in> pids s
      \<and> pid_run_counts s ''0902'' = Some (Some 2) \<and> executions s ''0902'' = 0"
    by code_simp
  then obtain s where s: "get_sub 7 demo_limited = Some s" "state s = Active" "''0902'' \<in> pids s"
      "pid_run_counts s ''0902'' = Some (Some 2)" "executions s ''0902'' = 0"
    by (auto split: option.splits)
  have "fst (attribute ''0902'' (Some ''49 02 01 31'')) = ''0902''" "fst (attribute ''0902'' None) = ''0902''"
    by code_simp+
  with run_limit_exact [OF demo_limited_reachable s(1-4), of "[(None, 1)]"]
    run_limit_exact [OF demo_limited_reachable s(1-4), of "[(Some ''49 02 01 31'', 1), (Some ''49 02 01 31'', 2)]"] s(5)
  show ?thesis by simp
qed

text \<open>A finished subscription cannot be started, as the code says, but pausing it first makes it
  startable: pausing is refused only for cancelled ones, so a completed or failed one becomes active again.
\<close>

theorem finished_restarts_via_pause:
  assumes "get_sub i m = Some s" "state s = Completed \<or> state s = ErrorState e"
  shows "snd (start_subscription now i m) = Inl NotActive
    \<and> snd (start_subscription now i (fst (pause_subscription i m))) = Inr ()
    \<and> (\<exists>s'. get_sub i (fst (start_subscription now i (fst (pause_subscription i m)))) = Some s' \<and> state s' = Active)"
  using assms by (auto simp: start_subscription_def pause_subscription_def Let_def)

theorem finished_restarts_via_pause_witness:
  "let m = complete_run ''0902'' [(None, 1), (None, 2)] demo_limited
   in snd (start_subscription 3 7 m) = Inl NotActive \<and> snd (start_subscription 3 7 (fst (pause_subscription 7 m))) = Inr ()"
proof -
  let ?m = "complete_run ''0902'' [(None, 1), (None, 2)] demo_limited"
  have "case get_sub 7 ?m of None \<Rightarrow> False | Some s \<Rightarrow> state s = Completed" by code_simp
  then obtain s where "get_sub 7 ?m = Some s" "state s = Completed" by (auto split: option.splits)
  with finished_restarts_via_pause [of 7 ?m s] show ?thesis by (simp add: Let_def)
qed

text \<open>
  A PID in lower case is accepted, but the reply names it in upper case: its completions are
  accounted to a PID no subscription holds, and a run limit is never reached.
\<close>

lemma lower_case_pid_misattributed:
  "is_valid_pid_static ''010c''" "attribute ''010c'' (Some ''41 0C 1A F8'') = (''010C'', True, Some ''010C'')"
  by code_simp+

end
