(* ===== verification/CommandProcessor.thy ===== *)
theory CommandProcessor
  imports RateLimit LinkStatus "HOL-Library.Sublist"
begin

text \<open>
  The command processor (\<^verbatim>\<open>src/command_processor.rs\<close>): the bounded command queue, the worker that
  dispatches one command at a time at the limited rate, the completion of the outstanding command,
  the hold and the chain flag, the idle scan, and the statistics.

  The worker thread, the client calls and the observers run concurrently. A shared access that the
  code makes under one lock acquisition, or one atomic operation, is one event; \<open>act\<close> says what an
  event does, and a run is a list of events in any interleaving. The worker is at a program point
  (\<open>WorkerPc\<close>), and its events are enabled there only. Critical sections of the queue lock are one
  event: the dispatching flag is raised inside the one that pops. Waiting on a condition variable is
  going back to the top of the loop, so wake-ups may come at any time; lost wake-ups are not modelled.
  Times are readings of the clock carried by the events; counters are unbounded, except that taking
  one from zero is a crash, as in a checked build.
\<close>

section \<open>Statistics\<close>

record Stats =
  total_commands :: nat
  completed_commands :: nat
  failed_commands :: nat
  start_time :: real
  completion_time_total :: real
  completion_time_count :: nat
  in_progress_commands :: nat
  completed_signals :: nat
  recent_commands :: "real list"
  recent_signals :: "(real \<times> nat) list"

definition RATE_WINDOW :: real where "RATE_WINDOW = 10"

definition prune_window :: "('a \<Rightarrow> real) \<Rightarrow> real \<Rightarrow> 'a list \<Rightarrow> 'a list" where
  "prune_window stamp now es = dropWhile (\<lambda>e. stamp e < now - RATE_WINDOW) es"

definition stats_default :: "real \<Rightarrow> Stats" where
  "stats_default now =
     \<lparr> total_commands = 0, completed_commands = 0, failed_commands = 0, start_time = now, completion_time_total = 0,
       completion_time_count = 0, in_progress_commands = 0, completed_signals = 0, recent_commands = [],
       recent_signals = [] \<rparr>"

definition window_secs :: "real \<Rightarrow> Stats \<Rightarrow> real" where
  "window_secs now s = max (min (max 0 (now - start_time s)) RATE_WINDOW) (1 / 1000)"

definition pids_per_second :: "real \<Rightarrow> Stats \<Rightarrow> real" where
  "pids_per_second now s =
     real (length (filter (\<lambda>t. t \<ge> now - RATE_WINDOW) (recent_commands s))) / window_secs now s"

definition signals_per_second :: "real \<Rightarrow> Stats \<Rightarrow> real" where
  "signals_per_second now s =
     real (sum_list (map snd (filter (\<lambda>(t, _). t \<ge> now - RATE_WINDOW) (recent_signals s)))) / window_secs now s"

definition average_completion_time :: "Stats \<Rightarrow> real option" where
  "average_completion_time s =
     (if completion_time_count s = 0 then None
      else Some (completion_time_total s / real (min (completion_time_count s) (2 ^ 32 - 1))))"

section \<open>State\<close>

record PendingCommand =
  pc_command :: string
  pc_timeout :: u32
  pc_queued_at :: real

record OutstandingCommand =
  oc_command :: string
  oc_queued_at :: real
  oc_start :: real

record CommandTiming =
  queue_time_ms :: real
  response_time_ms :: real
  total_time_ms :: real

text \<open>
  Where the worker is: at the loop head; having read that it runs; having read whether a command is
  outstanding; past the hold check; with a command popped, admitted by the rate limiter, counted,
  recorded as outstanding, and sent; gone.
\<close>

datatype WorkerPc =
    LoopHead
  | Running
  | Looked bool
  | Fetching
  | Popped PendingCommand
  | Admitted PendingCommand
  | Counted PendingCommand real
  | Recorded PendingCommand
  | SentOff
  | Exited

record Proc =
  queue :: "PendingCommand list"
  limiter :: TokenBucket
  running :: bool
  max_queue_size :: nat
  outstanding :: "OutstandingCommand option"
  dispatching :: bool
  completion_guards :: nat
  hold_dispatch :: bool
  activity :: nat
  chain_alive :: bool
  stats :: Stats
  worker :: WorkerPc

definition proc_new :: "real \<Rightarrow> nat \<Rightarrow> nat \<Rightarrow> real \<Rightarrow> Proc" where
  "proc_new rate burst mx now =
     \<lparr> queue = [], limiter = with_rate rate burst now, running = True, max_queue_size = mx, outstanding = None,
       dispatching = False, completion_guards = 0, hold_dispatch = False, activity = 0, chain_alive = False,
       stats = stats_default now, worker = LoopHead \<rparr>"

section \<open>The operations of the clients\<close>

datatype SessionError = InternalError string

definition queue_command :: "string \<Rightarrow> u32 \<Rightarrow> real \<Rightarrow> Proc \<Rightarrow> Proc \<times> (SessionError + unit)" where
  "queue_command c timeout now p =
     (if length (queue p) \<ge> max_queue_size p then (p, Inl (InternalError ''Command queue full''))
      else (p \<lparr> queue := queue p @ [\<lparr> pc_command = c, pc_timeout = timeout, pc_queued_at = now \<rparr>],
                activity := activity p + 1 \<rparr>, Inr ()))"

text \<open>The two \<^verbatim>\<open>elapsed\<close> readings of the code are one reading here. \<open>Panic\<close> is the subtraction below zero.\<close>

definition mark_command_completed :: "string \<Rightarrow> real \<Rightarrow> Proc \<Rightarrow> (unit, Proc \<times> CommandTiming option) outcome" where
  "mark_command_completed c now p =
     (case outstanding p of
        None \<Rightarrow> Ok (p, None)
      | Some oc \<Rightarrow>
          if oc_command oc = c then
            (let response = max 0 (now - oc_start oc);
                 whole = max 0 (now - oc_queued_at oc);
                 s = stats p
             in if whole < response then Panic
                else if in_progress_commands s = 0 then Panic
                else Ok (p \<lparr> outstanding := None,
                    stats := s \<lparr> completed_commands := completed_commands s + 1,
                      in_progress_commands := in_progress_commands s - 1,
                      completion_time_total := completion_time_total s + response,
                      completion_time_count := completion_time_count s + 1,
                      recent_commands := prune_window id now (recent_commands s @ [now]) \<rparr> \<rparr>,
                  Some \<lparr> queue_time_ms = (whole - response) * 1000, response_time_ms = response * 1000,
                    total_time_ms = whole * 1000 \<rparr>))
          else Ok (p, None))"

definition try_claim_chain :: "Proc \<Rightarrow> Proc \<times> bool" where
  "try_claim_chain p = (if chain_alive p then (p, False) else (p \<lparr> chain_alive := True \<rparr>, True))"

definition drop_outstanding :: "Proc \<Rightarrow> Proc" where
  "drop_outstanding p =
     (case outstanding p of
        None \<Rightarrow> p
      | Some _ \<Rightarrow> p \<lparr> outstanding := None,
          stats := (stats p) \<lparr> in_progress_commands := in_progress_commands (stats p) - 1 \<rparr> \<rparr>)"

definition record_signal_completions :: "nat \<Rightarrow> real \<Rightarrow> Proc \<Rightarrow> Proc" where
  "record_signal_completions n now p =
     (if n > 0 then
        p \<lparr> stats := (stats p) \<lparr> completed_signals := completed_signals (stats p) + n,
              recent_signals := prune_window fst now (recent_signals (stats p) @ [(now, n)]) \<rparr> \<rparr>
      else p)"

definition queue_size :: "Proc \<Rightarrow> nat" where
  "queue_size p = length (queue p)"

section \<open>Events\<close>

datatype Event =
    QueueCommand string u32 real
  | Complete string real
  | BeginCompletion
  | DropGuard
  | SetHold bool
  | SetChain bool
  | TryClaim
  | ClearQueue
  | DropOutstanding
  | StopRunning
  | RecordSignals nat real
  | ResetStats real
  | UpdateRate real nat real
  | PeekTokens real
  | WReadRunning
  | WReadOutstanding
  | WReadHold
  | WPop
  | WAdmit real
  | WCount real
  | WRecord
  | WSend
  | WDone

text \<open>An event may be blocked (not enabled at the worker's point), crash, or lead to a new state.\<close>

datatype 'a result = Blocked | Crash | Next 'a

fun act :: "Event \<Rightarrow> Proc \<Rightarrow> Proc result" where
  "act (QueueCommand c timeout now) p = Next (fst (queue_command c timeout now p))"
| "act (Complete c now) p =
     (case mark_command_completed c now p of Ok (p', _) \<Rightarrow> Next p' | _ \<Rightarrow> Crash)"
| "act BeginCompletion p = Next (p \<lparr> completion_guards := completion_guards p + 1 \<rparr>)"
| "act DropGuard p =
     (if completion_guards p = 0 then Blocked else Next (p \<lparr> completion_guards := completion_guards p - 1 \<rparr>))"
| "act (SetHold b) p = Next (p \<lparr> hold_dispatch := b \<rparr>)"
| "act (SetChain b) p = Next (p \<lparr> chain_alive := b \<rparr>)"
| "act TryClaim p = Next (fst (try_claim_chain p))"
| "act ClearQueue p = Next (p \<lparr> queue := [] \<rparr>)"
| "act DropOutstanding p = Next (drop_outstanding p)"
| "act StopRunning p = Next (p \<lparr> running := False \<rparr>)"
| "act (RecordSignals n now) p = Next (record_signal_completions n now p)"
| "act (ResetStats now) p = Next (p \<lparr> stats := stats_default now \<rparr>)"
| "act (UpdateRate rate burst now) p = Next (p \<lparr> limiter := with_rate rate burst now \<rparr>)"
| "act (PeekTokens now) p = Next (p \<lparr> limiter := snd (available_tokens now (limiter p)) \<rparr>)"
| "act WReadRunning p =
     (if worker p = LoopHead then Next (p \<lparr> worker := if running p then Running else Exited \<rparr>) else Blocked)"
| "act WReadOutstanding p =
     (if worker p = Running then Next (p \<lparr> worker := Looked (outstanding p = None) \<rparr>) else Blocked)"
| "act WReadHold p =
     (case worker p of
        Looked can \<Rightarrow> Next (p \<lparr> worker := if \<not> hold_dispatch p \<and> can then Fetching else LoopHead \<rparr>)
      | _ \<Rightarrow> Blocked)"
| "act WPop p =
     (if worker p = Fetching then
        (case queue p of
           [] \<Rightarrow> Next (p \<lparr> worker := LoopHead \<rparr>)
         | c # cs \<Rightarrow> Next (p \<lparr> queue := cs, dispatching := True, worker := Popped c \<rparr>))
      else Blocked)"
| "act (WAdmit now) p =
     (case worker p of
        Popped c \<Rightarrow>
          (let (ok, b) = try_consume now (limiter p)
           in Next (p \<lparr> limiter := b, worker := if ok then Admitted c else Popped c \<rparr>))
      | _ \<Rightarrow> Blocked)"
| "act (WCount now) p =
     (case worker p of
        Admitted c \<Rightarrow>
          Next (p \<lparr> stats := (stats p) \<lparr> total_commands := total_commands (stats p) + 1,
                    in_progress_commands := in_progress_commands (stats p) + 1 \<rparr>,
                  worker := Counted c now \<rparr>)
      | _ \<Rightarrow> Blocked)"
| "act WRecord p =
     (case worker p of
        Counted c start \<Rightarrow>
          Next (p \<lparr> outstanding := Some \<lparr> oc_command = pc_command c, oc_queued_at = pc_queued_at c, oc_start = start \<rparr>,
                  worker := Recorded c \<rparr>)
      | _ \<Rightarrow> Blocked)"
| "act WSend p = (case worker p of Recorded c \<Rightarrow> Next (p \<lparr> worker := SentOff \<rparr>) | _ \<Rightarrow> Blocked)"
| "act WDone p = (if worker p = SentOff then Next (p \<lparr> dispatching := False, worker := LoopHead \<rparr>) else Blocked)"

text \<open>The calls that are several accesses, in their order.\<close>

definition stop_events :: "Event list" where
  "stop_events = [SetHold False, SetChain False, StopRunning]"

definition abort_outstanding_and_clear :: "Event list" where
  "abort_outstanding_and_clear = [SetHold False, SetChain False, ClearQueue, DropOutstanding]"

text \<open>The worker's pass over one command, from the loop head back to it.\<close>

definition worker_pass :: "real \<Rightarrow> Event list" where
  "worker_pass now =
     [WReadRunning, WReadOutstanding, WReadHold, WPop, WAdmit now, WCount now, WRecord, WSend, WDone]"

text \<open>
  One scan of \<open>wait_for_idle\<close>: the six shared reads, each from the state at its own time; and the
  three reads of \<open>has_pending_work\<close>.
\<close>

definition idle_verdict :: "Proc \<Rightarrow> Proc \<Rightarrow> Proc \<Rightarrow> Proc \<Rightarrow> Proc \<Rightarrow> Proc \<Rightarrow> bool" where
  "idle_verdict p0 p1 p2 p3 p4 p5 \<longleftrightarrow>
     (let epoch = activity p0; queue_empty = (queue p1 = []); not_dispatching = (\<not> dispatching p2);
          no_outstanding = (outstanding p3 = None); no_completions = (completion_guards p4 = 0);
          epoch_stable = (activity p5 = epoch)
      in queue_empty \<and> not_dispatching \<and> no_outstanding \<and> no_completions \<and> epoch_stable)"

definition has_pending_work :: "Proc \<Rightarrow> Proc \<Rightarrow> Proc \<Rightarrow> bool" where
  "has_pending_work p1 p2 p3 \<longleftrightarrow>
     (if queue p1 \<noteq> [] then True else if dispatching p2 then True else outstanding p3 \<noteq> None)"

section \<open>Runs\<close>

inductive run :: "Proc \<Rightarrow> Event list \<Rightarrow> Proc \<Rightarrow> bool" where
  run_Nil: "run p [] p"
| run_Cons: "act e p = Next q \<Longrightarrow> run q es r \<Longrightarrow> run p (e # es) r"

inductive_cases run_NilE: "run p [] q"
inductive_cases run_ConsE: "run p (e # es) q"
inductive_simps run_Nil_simp [simp]: "run p [] q"
inductive_simps run_Cons_simp: "run p (e # es) q"

lemma run_append: "run p (es @ fs) r \<longleftrightarrow> (\<exists>q. run p es q \<and> run q fs r)"
  by (induction es arbitrary: p) (auto simp: run_Cons_simp)

section \<open>What the worker holds\<close>

fun in_hand :: "WorkerPc \<Rightarrow> string list" where
  "in_hand (Popped c) = [pc_command c]"
| "in_hand (Admitted c) = [pc_command c]"
| "in_hand (Counted c t) = [pc_command c]"
| "in_hand (Recorded c) = [pc_command c]"
| "in_hand _ = []"

fun busy :: "WorkerPc \<Rightarrow> bool" where
  "busy SentOff = True"
| "busy w = (in_hand w \<noteq> [])"

text \<open>The points at which the worker relies on nothing being outstanding.\<close>

fun before_record :: "WorkerPc \<Rightarrow> bool" where
  "before_record (Looked can) = can"
| "before_record Fetching = True"
| "before_record (Popped c) = True"
| "before_record (Admitted c) = True"
| "before_record (Counted c t) = True"
| "before_record _ = False"

definition proc_inv :: "Proc \<Rightarrow> bool" where
  "proc_inv p \<longleftrightarrow>
     length (queue p) \<le> max_queue_size p
     \<and> (dispatching p \<longleftrightarrow> busy (worker p))
     \<and> (before_record (worker p) \<longrightarrow> outstanding p = None)"

lemma proc_inv_new: "proc_inv (proc_new rate burst mx now)"
  by (simp add: proc_inv_def proc_new_def)

lemma queue_command_fields:
  "worker (fst (queue_command c t now p)) = worker p" "outstanding (fst (queue_command c t now p)) = outstanding p"
  "dispatching (fst (queue_command c t now p)) = dispatching p" "max_queue_size (fst (queue_command c t now p)) = max_queue_size p"
  "limiter (fst (queue_command c t now p)) = limiter p" "stats (fst (queue_command c t now p)) = stats p"
  "completion_guards (fst (queue_command c t now p)) = completion_guards p"
  "activity p \<le> activity (fst (queue_command c t now p))"
  "length (queue p) \<le> max_queue_size p \<Longrightarrow> length (queue (fst (queue_command c t now p))) \<le> max_queue_size p"
  by (simp_all add: queue_command_def)

lemma complete_fields:
  assumes "mark_command_completed c now p = Ok (q, r)"
  shows "worker q = worker p" "dispatching q = dispatching p" "max_queue_size q = max_queue_size p" "limiter q = limiter p"
    "queue q = queue p" "completion_guards q = completion_guards p" "activity q = activity p"
    "outstanding q = None \<or> outstanding q = outstanding p"
  using assms by (auto simp: mark_command_completed_def Let_def split: option.splits if_splits)

lemma drop_fields:
  "worker (drop_outstanding p) = worker p" "dispatching (drop_outstanding p) = dispatching p"
  "max_queue_size (drop_outstanding p) = max_queue_size p" "limiter (drop_outstanding p) = limiter p"
  "queue (drop_outstanding p) = queue p" "completion_guards (drop_outstanding p) = completion_guards p"
  "activity (drop_outstanding p) = activity p" "outstanding (drop_outstanding p) = None"
  by (simp_all add: drop_outstanding_def split: option.split)

lemma claim_fields:
  "worker (fst (try_claim_chain p)) = worker p" "dispatching (fst (try_claim_chain p)) = dispatching p"
  "max_queue_size (fst (try_claim_chain p)) = max_queue_size p" "limiter (fst (try_claim_chain p)) = limiter p"
  "queue (fst (try_claim_chain p)) = queue p" "completion_guards (fst (try_claim_chain p)) = completion_guards p"
  "activity (fst (try_claim_chain p)) = activity p" "outstanding (fst (try_claim_chain p)) = outstanding p"
  "stats (fst (try_claim_chain p)) = stats p"
  by (simp_all add: try_claim_chain_def)

lemma signal_fields:
  "worker (record_signal_completions n now p) = worker p" "dispatching (record_signal_completions n now p) = dispatching p"
  "max_queue_size (record_signal_completions n now p) = max_queue_size p"
  "limiter (record_signal_completions n now p) = limiter p" "queue (record_signal_completions n now p) = queue p"
  "completion_guards (record_signal_completions n now p) = completion_guards p"
  "activity (record_signal_completions n now p) = activity p" "outstanding (record_signal_completions n now p) = outstanding p"
  "in_progress_commands (stats (record_signal_completions n now p)) = in_progress_commands (stats p)"
  by (simp_all add: record_signal_completions_def)

lemmas client_fields = queue_command_fields complete_fields drop_fields claim_fields signal_fields

lemma act_inv:
  assumes "proc_inv p" "act e p = Next q"
  shows "proc_inv q"
  using assms
  by (cases e)
     (auto simp: proc_inv_def client_fields split: outcome.splits if_splits WorkerPc.splits list.splits prod.splits
        dest: complete_fields)

lemma run_proc_inv: "run p es q \<Longrightarrow> proc_inv p \<Longrightarrow> proc_inv q"
  by (induction rule: run.induct) (auto dest: act_inv)


section \<open>The idle scan\<close>

lemma act_activity: "act e p = Next q \<Longrightarrow> activity p \<le> activity q"
  by (cases e) (auto simp: client_fields split: outcome.splits if_splits WorkerPc.splits list.splits prod.splits
      dest: complete_fields)

lemma run_activity: "run p es q \<Longrightarrow> activity p \<le> activity q"
  by (induction rule: run.induct) (auto dest: act_activity)

text \<open>While nothing is queued, the token cannot get back upstream.\<close>

lemma queue_command_quiet: "activity (fst (queue_command c t now p)) = activity p \<Longrightarrow> fst (queue_command c t now p) = p"
  by (simp add: queue_command_def split: if_splits)

lemma act_quiet:
  assumes "proc_inv p" "act e p = Next q" "activity q = activity p" "queue p = []"
  shows "queue q = [] \<and> (\<not> dispatching p \<longrightarrow> \<not> dispatching q)
    \<and> (\<not> dispatching p \<and> outstanding p = None \<longrightarrow> outstanding q = None)"
proof (cases e)
  case (QueueCommand c t now)
  with assms queue_command_quiet [of c t now p] show ?thesis by auto
qed (use assms in \<open>auto simp: proc_inv_def client_fields split: outcome.splits if_splits WorkerPc.splits list.splits prod.splits
    dest: complete_fields\<close>)

lemma run_quiet:
  "run p es q \<Longrightarrow> proc_inv p \<Longrightarrow> activity q = activity p \<Longrightarrow> queue p = [] \<Longrightarrow>
   queue q = [] \<and> (\<not> dispatching p \<longrightarrow> \<not> dispatching q)
   \<and> (\<not> dispatching p \<and> outstanding p = None \<longrightarrow> outstanding q = None)"
proof (induction rule: run.induct)
  case (run_Cons e p q es r)
  have "activity q = activity p"
    using act_activity [OF run_Cons.hyps(1)] run_activity [OF run_Cons.hyps(2)] run_Cons.prems(2) by simp
  note q = act_quiet [OF run_Cons.prems(1) run_Cons.hyps(1) this run_Cons.prems(3)]
  then have "queue q = []" by blast
  have "activity r = activity q" using \<open>activity q = activity p\<close> run_Cons.prems(2) by simp
  from run_Cons.IH [OF act_inv [OF run_Cons.prems(1) run_Cons.hyps(1)] this \<open>queue q = []\<close>] q show ?case by blast
qed simp

text \<open>
  C27: the idle scan of \<open>wait_for_idle\<close> is sound. When its six reads, made one after the other while
  the worker and any number of clients go on, come out idle, then there was one instant, that of the
  read of the completion guards, at which nothing was queued, dispatching, outstanding or completing.
\<close>

theorem idle_scan_sound:
  assumes "run (proc_new rate burst mx t0) es p0" and "run p0 es0 p1" "run p1 es1 p2" "run p2 es2 p3" "run p3 es3 p4" "run p4 es4 p5"
    and "idle_verdict p0 p1 p2 p3 p4 p5"
  shows "queue p4 = [] \<and> \<not> dispatching p4 \<and> outstanding p4 = None \<and> completion_guards p4 = 0 \<and> in_hand (worker p4) = []"
proof -
  have inv1: "proc_inv p1" by (rule run_proc_inv [OF assms(2) run_proc_inv [OF assms(1) proc_inv_new]])
  note inv2 = run_proc_inv [OF assms(3) inv1] and inv3 = run_proc_inv [OF assms(4) run_proc_inv [OF assms(3) inv1]]
  have inv4: "proc_inv p4" by (rule run_proc_inv [OF assms(5) inv3])
  from assms(7) have v: "queue p1 = []" "\<not> dispatching p2" "outstanding p3 = None" "completion_guards p4 = 0"
      "activity p5 = activity p0"
    by (simp_all add: idle_verdict_def)
  have "activity p2 = activity p1" "activity p3 = activity p2" "activity p4 = activity p3"
    using v(5) assms(2-6)[THEN run_activity] by linarith+
  with run_quiet [OF assms(3) inv1] v(1) run_quiet [OF assms(4) inv2] v(2) run_quiet [OF assms(5) inv3] v(3)
  have "queue p4 = []" "\<not> dispatching p4" "outstanding p4 = None" by simp_all
  moreover have "in_hand (worker p4) = []" using \<open>\<not> dispatching p4\<close> inv4 by (cases "worker p4") (auto simp: proc_inv_def)
  ultimately show ?thesis using v(4) by simp
qed

fun follow :: "Event list \<Rightarrow> Proc \<Rightarrow> Proc option" where
  "follow [] p = Some p"
| "follow (e # es) p = (case act e p of Next q \<Rightarrow> follow es q | _ \<Rightarrow> None)"

lemma follow_run: "follow es p = Some q \<longleftrightarrow> run p es q"
  by (induction es arbitrary: p) (auto simp: run_Cons_simp split: result.splits)

text \<open>The scan of \<open>has_pending_work\<close> has no epoch: the token can lap it.\<close>

lemma pending_work_missed:
  "\<exists>p1 p2 p3. run (proc_new 20 30 1000 0) (QueueCommand ''010C'' 0 0 # worker_pass 1) p1
    \<and> run p1 [] p2 \<and> run p2 [BeginCompletion, Complete ''010C'' 2, QueueCommand ''010D'' 0 3, DropGuard] p3
    \<and> \<not> has_pending_work p1 p2 p3 \<and> outstanding p1 \<noteq> None \<and> queue p3 \<noteq> []"
proof -
  let ?p = "proc_new 20 30 1000 0"
  let ?e1 = "QueueCommand ''010C'' 0 0 # worker_pass 1"
  let ?e2 = "[BeginCompletion, Complete ''010C'' 2, QueueCommand ''010D'' 0 3, DropGuard]"
  have "\<exists>p1 p3. follow ?e1 ?p = Some p1 \<and> follow ?e2 p1 = Some p3 \<and> \<not> has_pending_work p1 p1 p3
      \<and> outstanding p1 \<noteq> None \<and> queue p3 \<noteq> []"
    by (simp add: proc_new_def worker_pass_def with_rate_def tb_new_def queue_command_def try_consume_def refill_def
        mark_command_completed_def stats_default_def prune_window_def RATE_WINDOW_def has_pending_work_def Let_def)
  then show ?thesis unfolding follow_run by force
qed


section \<open>Order and serial execution\<close>

text \<open>What a run did: a list of observations, each read off an event and the state it met.\<close>

fun observe :: "(Event \<Rightarrow> Proc \<Rightarrow> 'a list) \<Rightarrow> Proc \<Rightarrow> Event list \<Rightarrow> 'a list" where
  "observe f p [] = []"
| "observe f p (e # es) = f e p @ (case act e p of Next q \<Rightarrow> observe f q es | _ \<Rightarrow> [])"

lemma observe_step: "act e p = Next q \<Longrightarrow> observe f p (e # es) = f e p @ observe f q es"
  by simp

definition accepted :: "Event \<Rightarrow> Proc \<Rightarrow> string list" where
  "accepted e p = (case e of QueueCommand c t now \<Rightarrow> if length (queue p) < max_queue_size p then [c] else [] | _ \<Rightarrow> [])"

definition recorded :: "Event \<Rightarrow> Proc \<Rightarrow> string list" where
  "recorded e p = (case (e, worker p) of (WRecord, Counted c start) \<Rightarrow> [pc_command c] | _ \<Rightarrow> [])"

definition sent :: "Event \<Rightarrow> Proc \<Rightarrow> string list" where
  "sent e p = (case (e, worker p) of (WSend, Recorded c) \<Rightarrow> [pc_command c] | _ \<Rightarrow> [])"

definition owed :: "Proc \<Rightarrow> string list" where
  "owed p = (case outstanding p of None \<Rightarrow> [] | Some oc \<Rightarrow> [oc_command oc])"

definition finished :: "Event \<Rightarrow> Proc \<Rightarrow> string list" where
  "finished e p = (case act e p of Next q \<Rightarrow> if outstanding q = None then owed p else [] | _ \<Rightarrow> [])"

definition to_send :: "Proc \<Rightarrow> string list" where
  "to_send p = (case worker p of Recorded c \<Rightarrow> [pc_command c] | _ \<Rightarrow> [])"

abbreviation waiting_commands :: "Proc \<Rightarrow> string list" where
  "waiting_commands p \<equiv> map pc_command (queue p)"

lemma accepted_queue:
  "waiting_commands (fst (queue_command c t now p)) = waiting_commands p @ accepted (QueueCommand c t now) p"
  by (simp add: queue_command_def accepted_def)

lemma fifo_step:
  assumes "act e p = Next q"
  shows "subseq (sent e p @ in_hand (worker q) @ waiting_commands q) (in_hand (worker p) @ waiting_commands p @ accepted e p)"
    and "e \<noteq> ClearQueue \<Longrightarrow>
      sent e p @ in_hand (worker q) @ waiting_commands q = in_hand (worker p) @ waiting_commands p @ accepted e p"
proof -
  show eq: "sent e p @ in_hand (worker q) @ waiting_commands q = in_hand (worker p) @ waiting_commands p @ accepted e p"
    if "e \<noteq> ClearQueue"
  proof (cases e)
    case (QueueCommand c t now)
    with assms accepted_queue [of c t now p] show ?thesis by (auto simp: sent_def queue_command_fields)
  qed (use assms that in \<open>auto simp: sent_def accepted_def client_fields split: outcome.splits if_splits WorkerPc.splits
      list.splits prod.splits dest: complete_fields\<close>)
  show "subseq (sent e p @ in_hand (worker q) @ waiting_commands q) (in_hand (worker p) @ waiting_commands p @ accepted e p)"
  proof (cases "e = ClearQueue")
    case True
    with assms show ?thesis by (auto simp: sent_def)
  next
    case False
    from eq [OF this] show ?thesis by simp
  qed
qed

lemma fifo_run:
  "run p es q \<Longrightarrow>
   subseq (observe sent p es @ in_hand (worker q) @ waiting_commands q) (in_hand (worker p) @ waiting_commands p @ observe accepted p es)"
proof (induction rule: run.induct)
  case (run_Cons e p q es r)
  let ?S = "observe sent q es @ in_hand (worker r) @ waiting_commands r"
  have "subseq (sent e p @ ?S) (sent e p @ in_hand (worker q) @ waiting_commands q @ observe accepted q es)"
    by (rule list_emb_append_mono [OF subseq_order.refl]) (use run_Cons.IH in simp)
  also have "\<dots> = (sent e p @ in_hand (worker q) @ waiting_commands q) @ observe accepted q es" by simp
  also have "subseq \<dots> ((in_hand (worker p) @ waiting_commands p @ accepted e p) @ observe accepted q es)"
    by (rule list_emb_append_mono [OF fifo_step(1) [OF run_Cons.hyps(1)] subseq_order.refl])
  finally show ?case using run_Cons.hyps(1) by simp
qed simp

lemma fifo_run_exact:
  "run p es q \<Longrightarrow> ClearQueue \<notin> set es \<Longrightarrow>
   observe sent p es @ in_hand (worker q) @ waiting_commands q = in_hand (worker p) @ waiting_commands p @ observe accepted p es"
proof (induction rule: run.induct)
  case (run_Cons e p q es r)
  note o = observe_step [OF run_Cons.hyps(1)]
  have ih: "observe sent q es @ in_hand (worker r) @ waiting_commands r =
      in_hand (worker q) @ waiting_commands q @ observe accepted q es"
    by (rule run_Cons.IH) (use run_Cons.prems in simp)
  have st: "sent e p @ in_hand (worker q) @ waiting_commands q = in_hand (worker p) @ waiting_commands p @ accepted e p"
    by (rule fifo_step(2) [OF run_Cons.hyps(1)]) (use run_Cons.prems in auto)
  have "observe sent p (e # es) @ in_hand (worker r) @ waiting_commands r =
      sent e p @ (observe sent q es @ in_hand (worker r) @ waiting_commands r)"
    by (simp only: o append.assoc)
  also have "\<dots> = (sent e p @ in_hand (worker q) @ waiting_commands q) @ observe accepted q es"
    by (simp only: ih append.assoc)
  also have "\<dots> = in_hand (worker p) @ waiting_commands p @ observe accepted p (e # es)"
    by (simp only: st o append.assoc)
  finally show ?case .
qed simp

lemma act_outstanding:
  "act e p = Next q \<Longrightarrow>
   (\<exists>c start. e = WRecord \<and> worker p = Counted c start
      \<and> outstanding q = Some \<lparr> oc_command = pc_command c, oc_queued_at = pc_queued_at c, oc_start = start \<rparr>)
   \<or> recorded e p = [] \<and> (outstanding q = None \<or> outstanding q = outstanding p)"
  by (cases e) (auto simp: recorded_def client_fields split: outcome.splits if_splits WorkerPc.splits list.splits prod.splits
      dest: complete_fields)

lemma serial_step:
  assumes "proc_inv p" "act e p = Next q"
  shows "owed p @ recorded e p = finished e p @ owed q"
proof -
  have f: "finished e p = (if outstanding q = None then owed p else [])" by (simp add: finished_def assms(2))
  from act_outstanding [OF assms(2)] show ?thesis
  proof (elim disjE exE conjE)
    fix c start
    assume "e = WRecord" "worker p = Counted c start"
      "outstanding q = Some \<lparr> oc_command = pc_command c, oc_queued_at = pc_queued_at c, oc_start = start \<rparr>"
    then show ?thesis using assms(1) f by (simp add: recorded_def owed_def proc_inv_def)
  qed (simp_all add: f owed_def split: option.split)
qed

lemma send_step: "act e p = Next q \<Longrightarrow> to_send p @ recorded e p = sent e p @ to_send q"
  by (cases e) (auto simp: recorded_def to_send_def sent_def client_fields split: outcome.splits if_splits WorkerPc.splits
      list.splits prod.splits dest: complete_fields)

lemma serial_run:
  "run p es q \<Longrightarrow> proc_inv p \<Longrightarrow>
   owed p @ observe recorded p es = observe finished p es @ owed q
   \<and> to_send p @ observe recorded p es = observe sent p es @ to_send q"
proof (induction rule: run.induct)
  case (run_Cons e p q es r)
  note o = observe_step [OF run_Cons.hyps(1)]
  note st = serial_step [OF run_Cons.prems run_Cons.hyps(1)] send_step [OF run_Cons.hyps(1)]
  note ih = run_Cons.IH [OF act_inv [OF run_Cons.prems run_Cons.hyps(1)]]
  have "owed p @ observe recorded p (e # es) = (owed p @ recorded e p) @ observe recorded q es"
    by (simp only: o append.assoc)
  also have "\<dots> = finished e p @ (owed q @ observe recorded q es)" by (simp only: st append.assoc)
  also have "\<dots> = observe finished p (e # es) @ owed r" using ih by (simp only: o append.assoc)
  finally have 1: "owed p @ observe recorded p (e # es) = observe finished p (e # es) @ owed r" .
  have "to_send p @ observe recorded p (e # es) = (to_send p @ recorded e p) @ observe recorded q es"
    by (simp only: o append.assoc)
  also have "\<dots> = sent e p @ (to_send q @ observe recorded q es)" by (simp only: st append.assoc)
  also have "\<dots> = observe sent p (e # es) @ to_send r" using ih by (simp only: o append.assoc)
  finally show ?case using 1 by simp
qed simp

text \<open>
  C28: commands go out in the order they were accepted, and one at a time. Of the commands accepted
  so far, those sent, the one in the worker's hand and those waiting are a subsequence in order, and
  all of them when the queue was never cleared. What was recorded for sending is what was finished
  (completed, or abandoned by an abort) followed by the outstanding command: so never more than one
  command was sent beyond those finished.
\<close>

theorem fifo_and_serial:
  assumes "run (proc_new rate burst mx t0) es p"
  shows "subseq (observe sent (proc_new rate burst mx t0) es @ in_hand (worker p) @ waiting_commands p)
      (observe accepted (proc_new rate burst mx t0) es)
    \<and> (ClearQueue \<notin> set es \<longrightarrow> observe sent (proc_new rate burst mx t0) es @ in_hand (worker p) @ waiting_commands p =
        observe accepted (proc_new rate burst mx t0) es)
    \<and> observe sent (proc_new rate burst mx t0) es @ to_send p = observe finished (proc_new rate burst mx t0) es @ owed p
    \<and> length (observe sent (proc_new rate burst mx t0) es) \<le> length (observe finished (proc_new rate burst mx t0) es) + 1"
proof -
  let ?p = "proc_new rate burst mx t0"
  have i: "in_hand (worker ?p) = []" "waiting_commands ?p = []" "owed ?p = []" "to_send ?p = []"
    by (simp_all add: proc_new_def owed_def to_send_def)
  have eq: "observe sent ?p es @ to_send p = observe finished ?p es @ owed p"
    using serial_run [OF assms proc_inv_new] i by (metis append_Nil)
  then have "length (observe sent ?p es) + length (to_send p) = length (observe finished ?p es) + length (owed p)"
    by (metis length_append)
  moreover have "length (owed p) \<le> 1" by (simp add: owed_def split: option.split)
  ultimately have "length (observe sent ?p es) \<le> length (observe finished ?p es) + 1" by linarith
  with eq fifo_run [OF assms] fifo_run_exact [OF assms] i show ?thesis by simp
qed


section \<open>Accounting\<close>

fun event_times :: "Event list \<Rightarrow> real list" where
  "event_times [] = []"
| "event_times (QueueCommand c t now # es) = now # event_times es"
| "event_times (Complete c now # es) = now # event_times es"
| "event_times (WAdmit now # es) = now # event_times es"
| "event_times (WCount now # es) = now # event_times es"
| "event_times (PeekTokens now # es) = now # event_times es"
| "event_times (UpdateRate rate burst now # es) = now # event_times es"
| "event_times (e # es) = event_times es"

text \<open>The counter of commands in progress is exact, and every command was queued before it started.\<close>

fun stamps_ok :: "real \<Rightarrow> WorkerPc \<Rightarrow> bool" where
  "stamps_ok now (Popped c) = (pc_queued_at c \<le> now)"
| "stamps_ok now (Admitted c) = (pc_queued_at c \<le> now)"
| "stamps_ok now (Counted c start) = (pc_queued_at c \<le> start)"
| "stamps_ok now _ = True"

definition accounted :: "real \<Rightarrow> Proc \<Rightarrow> bool" where
  "accounted now p \<longleftrightarrow>
     in_progress_commands (stats p) = length (owed p) + (case worker p of Counted c t \<Rightarrow> 1 | _ \<Rightarrow> 0)
     \<and> (\<forall>c \<in> set (queue p). pc_queued_at c \<le> now) \<and> stamps_ok now (worker p)
     \<and> (\<forall>oc. outstanding p = Some oc \<longrightarrow> oc_queued_at oc \<le> oc_start oc)"

definition counts :: "Event \<Rightarrow> bool" where
  "counts e = (case e of ResetStats t \<Rightarrow> False | _ \<Rightarrow> True)"

lemma complete_ok:
  assumes "accounted now' p"
  shows "\<exists>q r. mark_command_completed c now p = Ok (q, r)"
  using assms by (auto simp: mark_command_completed_def accounted_def owed_def Let_def split: option.splits)

lemma complete_accounted:
  assumes "accounted t p" "mark_command_completed c now p = Ok (q, r)"
  shows "accounted t q"
  using assms by (auto simp: mark_command_completed_def accounted_def owed_def Let_def split: option.splits if_splits)

lemma accounted_later: "accounted t p \<Longrightarrow> t \<le> now \<Longrightarrow> accounted now p"
  by (cases "worker p") (auto simp: accounted_def)

lemma accounted_cong:
  assumes "accounted t p" "in_progress_commands (stats q) = in_progress_commands (stats p)"
    "outstanding q = outstanding p" "set (queue q) \<subseteq> set (queue p)"
    "worker q = worker p \<or> in_hand (worker q) = [] \<and> (\<forall>c s. worker p \<noteq> Counted c s)"
  shows "accounted t q"
proof (cases "worker q = worker p")
  case True
  with assms show ?thesis by (auto simp: accounted_def owed_def)
next
  case False
  with assms(5) have "in_hand (worker q) = []" "\<forall>c s. worker p \<noteq> Counted c s" by auto
  then have "stamps_ok t (worker q)" "\<forall>c s. worker q \<noteq> Counted c s" by (cases "worker q"; simp)+
  moreover have "(case worker p of Counted c t \<Rightarrow> 1 | _ \<Rightarrow> 0) = (0 :: nat)"
    using \<open>\<forall>c s. worker p \<noteq> Counted c s\<close> by (cases "worker p") auto
  moreover have "(case worker q of Counted c t \<Rightarrow> 1 | _ \<Rightarrow> 0) = (0 :: nat)"
    using \<open>\<forall>c s. worker q \<noteq> Counted c s\<close> by (cases "worker q") auto
  ultimately show ?thesis using assms(1-4) by (auto simp: accounted_def owed_def)
qed

lemma act_accounted:
  assumes "proc_inv p" "accounted t p" "act e p = Next q" "counts e" "\<forall>now \<in> set (event_times [e]). t \<le> now"
  shows "accounted (last (t # event_times [e])) q"
proof (cases e)
  case (Complete c now)
  with assms show ?thesis
    by (auto split: outcome.splits prod.splits intro: complete_accounted accounted_later)
next
  case (QueueCommand c timeout now)
  then have "accounted now p" using assms(2,5) accounted_later by auto
  with QueueCommand assms(3) show ?thesis
    by (cases "length (queue p) \<ge> max_queue_size p") (auto simp: accounted_def owed_def queue_command_def)
next
  case WPop
  with assms show ?thesis
    by (auto simp: accounted_def owed_def proc_inv_def split: if_splits list.splits)
next
  case WRecord
  with assms show ?thesis
    by (auto simp: accounted_def owed_def proc_inv_def split: WorkerPc.splits)
next
  case (WAdmit now)
  with assms accounted_later [OF assms(2), of now] show ?thesis
    by (cases "fst (try_consume now (limiter p))")
       (auto simp: accounted_def owed_def split: WorkerPc.splits prod.splits)
next
  case (WCount now)
  with assms accounted_later [OF assms(2), of now] show ?thesis
    by (auto simp: accounted_def owed_def proc_inv_def split: WorkerPc.splits)
next
  case DropOutstanding
  with assms show ?thesis
    by (auto simp: accounted_def owed_def drop_outstanding_def split: option.splits)
next
  case (UpdateRate rate burst now)
  with assms accounted_later [OF assms(2), of now] show ?thesis by (auto simp: accounted_def owed_def)
next
  case (PeekTokens now)
  with assms accounted_later [OF assms(2), of now] show ?thesis by (auto simp: accounted_def owed_def)
qed (use assms(3,4) in \<open>auto simp: counts_def client_fields split: WorkerPc.splits if_splits
    intro!: accounted_cong [OF assms(2)]\<close>)

lemma event_times_Cons: "event_times (e # es) = event_times [e] @ event_times es"
  by (cases e) simp_all

lemma run_accounted:
  "run p es q \<Longrightarrow> proc_inv p \<Longrightarrow> accounted t p \<Longrightarrow> \<forall>e \<in> set es. counts e \<Longrightarrow> sorted (t # event_times es) \<Longrightarrow>
   accounted (last (t # event_times es)) q"
proof (induction arbitrary: t rule: run.induct)
  case (run_Cons e p q es r)
  have tm: "event_times (e # es) = event_times [e] @ event_times es" by (rule event_times_Cons)
  have s: "\<forall>now \<in> set (event_times [e]). t \<le> now" "sorted (last (t # event_times [e]) # event_times es)"
    using run_Cons.prems(4) unfolding tm by (auto simp: sorted_append)
  have "accounted (last (t # event_times [e])) q"
    by (rule act_accounted [OF run_Cons.prems(1,2) run_Cons.hyps(1) _ s(1)]) (use run_Cons.prems(3) in simp)
  from run_Cons.IH [OF act_inv [OF run_Cons.prems(1) run_Cons.hyps(1)] this _ s(2)] run_Cons.prems(3)
  show ?case unfolding tm by (simp split: if_splits)
qed simp

lemma accounted_new: "accounted t0 (proc_new rate burst mx t0)"
  by (simp add: accounted_def proc_new_def owed_def stats_default_def)


lemma act_max_queue: "act e p = Next q \<Longrightarrow> max_queue_size q = max_queue_size p"
  by (cases e) (auto simp: client_fields split: outcome.splits if_splits WorkerPc.splits list.splits prod.splits
      dest: complete_fields)

lemma run_max_queue: "run p es q \<Longrightarrow> max_queue_size q = max_queue_size p"
  by (induction rule: run.induct) (simp_all add: act_max_queue)

text \<open>
  C29: completing a command never crashes, and the statistics are exact. In any interleaving with a
  clock that does not run backwards, and without resetting the statistics, the number of commands
  in progress is one exactly while a command is outstanding or counted but not yet recorded, and a
  completion of any command is accepted without an arithmetic crash.
\<close>

theorem progress_counter_exact:
  assumes "run (proc_new rate burst mx t0) es p" "\<forall>e \<in> set es. counts e" "sorted (t0 # event_times es)"
  shows "in_progress_commands (stats p) =
      length (owed p) + (case worker p of Counted c t \<Rightarrow> 1 | _ \<Rightarrow> 0)
    \<and> in_progress_commands (stats p) \<le> 1 \<and> length (queue p) \<le> mx
    \<and> act (Complete c now) p \<noteq> Crash"
proof -
  have acc: "accounted (last (t0 # event_times es)) p"
    by (rule run_accounted [OF assms(1) proc_inv_new accounted_new assms(2,3)])
  have inv: "proc_inv p" by (rule run_proc_inv [OF assms(1) proc_inv_new])
  have "max_queue_size p = mx"
    using run_max_queue [OF assms(1)] by (simp add: proc_new_def)
  moreover obtain q r where "mark_command_completed c now p = Ok (q, r)" using complete_ok [OF acc] by blast
  moreover have "in_progress_commands (stats p) \<le> 1"
    using acc inv by (auto simp: accounted_def proc_inv_def owed_def split: WorkerPc.splits option.splits)
  ultimately show ?thesis using acc inv by (simp add: accounted_def proc_inv_def)
qed

section \<open>The rate\<close>

definition admitted_now :: "Event \<Rightarrow> Proc \<Rightarrow> string list" where
  "admitted_now e p =
     (case (e, worker p) of
        (WAdmit now, Popped c) \<Rightarrow> if fst (try_consume now (limiter p)) then [pc_command c] else []
      | _ \<Rightarrow> [])"

definition keeps_rate :: "Event \<Rightarrow> bool" where
  "keeps_rate e = (case e of UpdateRate r b t \<Rightarrow> False | _ \<Rightarrow> True)"

fun past_limiter :: "WorkerPc \<Rightarrow> string list" where
  "past_limiter (Popped c) = []"
| "past_limiter w = in_hand w"

lemma admit_step: "act e p = Next q \<Longrightarrow> past_limiter (worker p) @ admitted_now e p = sent e p @ past_limiter (worker q)"
  by (cases e) (auto simp: admitted_now_def sent_def client_fields split: outcome.splits if_splits WorkerPc.splits
      list.splits prod.splits dest: complete_fields)

lemma refill_budget:
  assumes "tb_last_refill b \<le> now"
  shows "tb_tokens (refill now b) \<le> tb_tokens b + tb_refill_rate b * (now - tb_last_refill b)"
  using assms by (simp add: refill_def Let_def mult.commute)

text \<open>Tokens taken and tokens left never exceed the tokens that were there and came in.\<close>

lemma act_budget:
  assumes "act e p = Next q" "keeps_rate e" "bucket_ok (limiter p)" "\<forall>now \<in> set (event_times [e]). tb_last_refill (limiter p) \<le> now"
  shows "bucket_ok (limiter q) \<and> tb_refill_rate (limiter q) = tb_refill_rate (limiter p)
    \<and> tb_capacity (limiter q) = tb_capacity (limiter p)
    \<and> tb_last_refill (limiter p) \<le> tb_last_refill (limiter q) \<and> tb_last_refill (limiter q) \<le> last (tb_last_refill (limiter p) # event_times [e])
    \<and> real (length (admitted_now e p)) + tb_tokens (limiter q)
      \<le> tb_tokens (limiter p) + tb_refill_rate (limiter p) * (tb_last_refill (limiter q) - tb_last_refill (limiter p))"
proof (cases e)
  case (WAdmit now)
  then obtain c where c: "worker p = Popped c" using assms(1) by (auto split: WorkerPc.splits)
  with WAdmit assms(1) have q: "limiter q = snd (try_consume now (limiter p))" by (auto simp: case_prod_beta Let_def)
  have a: "length (admitted_now (WAdmit now) p) = (if fst (try_consume now (limiter p)) then 1 else 0)"
    by (simp add: c admitted_now_def)
  have "tb_last_refill (limiter p) \<le> now" using assms(4) WAdmit by simp
  with try_consume_budget [OF this] try_consume_ok [OF assms(3), of now] show ?thesis
    by (simp add: q a WAdmit split: if_splits)
next
  case (PeekTokens now)
  with assms refill_budget [of "limiter p" now] refill_ok [OF assms(3), of now] show ?thesis
    by (auto simp: admitted_now_def available_tokens_def Let_def)
next
  case (Complete c now)
  with assms show ?thesis
    by (auto simp: admitted_now_def split: outcome.splits prod.splits dest: complete_fields)
next
  case (QueueCommand c t now)
  with assms show ?thesis by (auto simp: admitted_now_def queue_command_fields)
next
  case (WCount now)
  with assms show ?thesis by (auto simp: admitted_now_def split: WorkerPc.splits)
qed (use assms in \<open>auto simp: admitted_now_def client_fields keeps_rate_def split: WorkerPc.splits if_splits list.splits\<close>)


lemma run_budget:
  "run p es q \<Longrightarrow> \<forall>e \<in> set es. keeps_rate e \<Longrightarrow> bucket_ok (limiter p) \<Longrightarrow>
   tb_last_refill (limiter p) \<le> t \<Longrightarrow> sorted (t # event_times es) \<Longrightarrow>
   bucket_ok (limiter q) \<and> tb_capacity (limiter q) = tb_capacity (limiter p)
   \<and> tb_last_refill (limiter p) \<le> tb_last_refill (limiter q) \<and> tb_last_refill (limiter q) \<le> last (t # event_times es)
   \<and> real (length (observe admitted_now p es)) + tb_tokens (limiter q)
     \<le> tb_tokens (limiter p) + tb_refill_rate (limiter p) * (tb_last_refill (limiter q) - tb_last_refill (limiter p))"
proof (induction arbitrary: t rule: run.induct)
  case (run_Cons e p q es r)
  have tm: "event_times (e # es) = event_times [e] @ event_times es" by (rule event_times_Cons)
  let ?t = "last (t # event_times [e])"
  have s: "\<forall>now \<in> set (event_times [e]). t \<le> now" "sorted (?t # event_times es)"
    using run_Cons.prems(4) unfolding tm by (auto simp: sorted_append)
  have b: "bucket_ok (limiter q) \<and> tb_refill_rate (limiter q) = tb_refill_rate (limiter p)
    \<and> tb_capacity (limiter q) = tb_capacity (limiter p)
    \<and> tb_last_refill (limiter p) \<le> tb_last_refill (limiter q)
    \<and> tb_last_refill (limiter q) \<le> last (tb_last_refill (limiter p) # event_times [e])
    \<and> real (length (admitted_now e p)) + tb_tokens (limiter q)
      \<le> tb_tokens (limiter p) + tb_refill_rate (limiter p) * (tb_last_refill (limiter q) - tb_last_refill (limiter p))"
    by (rule act_budget) (use run_Cons.hyps(1) run_Cons.prems s(1) in auto)
  have "last (tb_last_refill (limiter p) # event_times [e]) \<le> ?t"
    using run_Cons.prems(3) by (cases "event_times [e]") auto
  with b have q: "tb_last_refill (limiter q) \<le> ?t" by linarith
  have "bucket_ok (limiter r) \<and> tb_capacity (limiter r) = tb_capacity (limiter q)
     \<and> tb_last_refill (limiter q) \<le> tb_last_refill (limiter r) \<and> tb_last_refill (limiter r) \<le> last (?t # event_times es)
     \<and> real (length (observe admitted_now q es)) + tb_tokens (limiter r)
       \<le> tb_tokens (limiter q) + tb_refill_rate (limiter q) * (tb_last_refill (limiter r) - tb_last_refill (limiter q))"
    by (rule run_Cons.IH [OF _ _ q s(2)]) (use run_Cons.prems(1) b in auto)
  moreover have "last (?t # event_times es) = last (t # event_times (e # es))"
    unfolding tm by (cases "event_times es") auto
  ultimately show ?case
    using b run_Cons.hyps(1) by (simp add: algebra_simps)
qed (simp add: bucket_ok_def)

lemma admit_run:
  "run p es q \<Longrightarrow> past_limiter (worker p) @ observe admitted_now p es = observe sent p es @ past_limiter (worker q)"
proof (induction rule: run.induct)
  case (run_Cons e p q es r)
  note o = observe_step [OF run_Cons.hyps(1)]
  have "past_limiter (worker p) @ observe admitted_now p (e # es) =
      (past_limiter (worker p) @ admitted_now e p) @ observe admitted_now q es" by (simp only: o append.assoc)
  also have "\<dots> = sent e p @ (past_limiter (worker q) @ observe admitted_now q es)"
    by (simp only: admit_step [OF run_Cons.hyps(1)] append.assoc)
  also have "\<dots> = observe sent p (e # es) @ past_limiter (worker r)" by (simp only: run_Cons.IH o append.assoc)
  finally show ?case .
qed simp

text \<open>The rate limit reaches the wire. Over any stretch of any interleaving in which the limiter is
  not reconfigured, the commands sent to the adapter are at most the burst capacity plus the rate
  times the time since the limiter was last refilled, plus one that was already past the limiter.
\<close>

theorem sends_within_rate:
  assumes "run p es q" "bucket_ok (limiter p)" "\<forall>e \<in> set es. keeps_rate e"
    and "sorted (tb_last_refill (limiter p) # event_times es)"
  shows "real (length (observe sent p es)) \<le> tb_capacity (limiter p)
    + tb_refill_rate (limiter p) * (last (tb_last_refill (limiter p) # event_times es) - tb_last_refill (limiter p)) + 1"
proof -
  let ?l = "tb_last_refill (limiter p)"
  note b = run_budget [OF assms(1,3,2) order.refl assms(4)]
  have "length (past_limiter (worker p)) \<le> 1" by (cases "worker p") auto
  moreover have "length (past_limiter (worker p)) + length (observe admitted_now p es) =
      length (observe sent p es) + length (past_limiter (worker q))"
    using arg_cong [OF admit_run [OF assms(1)], of length] by simp
  ultimately have "length (observe sent p es) \<le> length (observe admitted_now p es) + 1" by linarith
  then have "real (length (observe sent p es)) \<le> real (length (observe admitted_now p es)) + 1" by linarith
  moreover have "tb_refill_rate (limiter p) * (tb_last_refill (limiter q) - ?l)
      \<le> tb_refill_rate (limiter p) * (last (?l # event_times es) - ?l)"
    using b assms(2) by (intro mult_left_mono) (auto simp: bucket_ok_def)
  moreover have "0 \<le> tb_tokens (limiter q)" "tb_tokens (limiter p) \<le> tb_capacity (limiter p)"
    using b assms(2) by (auto simp: bucket_ok_def)
  ultimately show ?thesis using b by linarith
qed


section \<open>Concrete runs\<close>

lemmas proc_eval =
  proc_new_def worker_pass_def with_rate_def tb_new_def queue_command_def try_consume_def refill_def
  mark_command_completed_def stats_default_def prune_window_def RATE_WINDOW_def Let_def

definition demo_events :: "Event list" where
  "demo_events = [QueueCommand ''010C'' 0 0, QueueCommand ''010D'' 0 0] @ worker_pass 1
     @ [BeginCompletion, Complete ''010C'' 2, DropGuard] @ worker_pass 3 @ [Complete ''010D'' 4]"

lemma demo_run: "\<exists>p. run (proc_new 20 30 1000 0) demo_events p \<and> queue p = [] \<and> \<not> dispatching p \<and> outstanding p = None
    \<and> completion_guards p = 0 \<and> worker p = LoopHead \<and> in_progress_commands (stats p) = 0"
proof -
  have "\<exists>p. follow demo_events (proc_new 20 30 1000 0) = Some p \<and> queue p = [] \<and> \<not> dispatching p \<and> outstanding p = None
    \<and> completion_guards p = 0 \<and> worker p = LoopHead \<and> in_progress_commands (stats p) = 0"
    by (simp add: demo_events_def proc_eval)
  then show ?thesis by (simp only: follow_run)
qed

lemma demo_sent: "observe sent (proc_new 20 30 1000 0) demo_events = [''010C'', ''010D'']"
  by (simp add: demo_events_def proc_eval sent_def)

lemma demo_times: "event_times demo_events = [0, 0, 1, 1, 2, 3, 3, 4]"
  by (simp add: demo_events_def worker_pass_def)

theorem idle_scan_sound_witness:
  "\<exists>p. run (proc_new 20 30 1000 0) demo_events p \<and> queue p = [] \<and> \<not> dispatching p \<and> outstanding p = None
    \<and> completion_guards p = 0 \<and> in_hand (worker p) = []"
proof -
  obtain p where p: "run (proc_new 20 30 1000 0) demo_events p" "queue p = []" "\<not> dispatching p" "outstanding p = None"
      "completion_guards p = 0"
    using demo_run by blast
  have n: "run p [] p" by simp
  have "idle_verdict p p p p p p" using p(2-5) by (simp add: idle_verdict_def)
  from idle_scan_sound [OF p(1) n n n n n this] p(1) show ?thesis by blast
qed

theorem fifo_and_serial_witness:
  "\<exists>p. run (proc_new 20 30 1000 0) demo_events p
    \<and> observe sent (proc_new 20 30 1000 0) demo_events @ to_send p =
      observe finished (proc_new 20 30 1000 0) demo_events @ owed p"
  using demo_run fifo_and_serial by blast

theorem progress_counter_exact_witness:
  "\<exists>p. run (proc_new 20 30 1000 0) demo_events p \<and> in_progress_commands (stats p) \<le> 1
    \<and> act (Complete ''010C'' 5) p \<noteq> Crash"
proof -
  obtain p where p: "run (proc_new 20 30 1000 0) demo_events p" using demo_run by blast
  have "\<forall>e \<in> set demo_events. counts e" by (simp add: demo_events_def worker_pass_def counts_def)
  moreover have "sorted (0 # event_times demo_events)" by (simp add: demo_times)
  ultimately show ?thesis using progress_counter_exact [OF p, of "''010C''" 5] p by blast
qed

theorem sends_within_rate_witness:
  "real (length (observe sent (proc_new 20 30 1000 0) demo_events)) \<le> 30 + 20 * (4 - 0) + 1"
proof -
  obtain p where p: "run (proc_new 20 30 1000 0) demo_events p" using demo_run by blast
  have l: "limiter (proc_new 20 30 1000 0) = with_rate 20 30 0" by (simp add: proc_new_def)
  have "\<forall>e \<in> set demo_events. keeps_rate e" by (simp add: demo_events_def worker_pass_def keeps_rate_def)
  moreover have "bucket_ok (limiter (proc_new 20 30 1000 0))" by (simp add: l with_rate_def tb_new_def bucket_ok_def)
  ultimately show ?thesis
    using sends_within_rate [OF p] by (simp add: l demo_times with_rate_def tb_new_def)
qed

text \<open>Resetting the statistics while a command is outstanding makes its completion take one from zero.\<close>

lemma reset_then_complete_crashes:
  "\<exists>p. run (proc_new 20 30 1000 0) (QueueCommand ''010C'' 0 0 # worker_pass 1 @ [ResetStats 2]) p
    \<and> act (Complete ''010C'' 3) p = Crash"
proof -
  have "\<exists>p. follow (QueueCommand ''010C'' 0 0 # worker_pass 1 @ [ResetStats 2]) (proc_new 20 30 1000 0) = Some p
      \<and> act (Complete ''010C'' 3) p = Crash"
    by (simp add: proc_eval)
  then show ?thesis by (simp only: follow_run)
qed

text \<open>A command already popped when the hold is set is still sent during the hold.\<close>

lemma held_yet_sent:
  "\<exists>p q. run (proc_new 20 30 1000 0) [QueueCommand ''010C'' 0 0, WReadRunning, WReadOutstanding, WReadHold, WPop, SetHold True] p
    \<and> hold_dispatch p \<and> run p [WAdmit 1, WCount 1, WRecord, WSend] q
    \<and> observe sent p [WAdmit 1, WCount 1, WRecord, WSend] = [''010C''] \<and> hold_dispatch q"
proof -
  have "\<exists>p q. follow [QueueCommand ''010C'' 0 0, WReadRunning, WReadOutstanding, WReadHold, WPop, SetHold True] (proc_new 20 30 1000 0) = Some p
    \<and> hold_dispatch p \<and> follow [WAdmit 1, WCount 1, WRecord, WSend] p = Some q
    \<and> observe sent p [WAdmit 1, WCount 1, WRecord, WSend] = [''010C''] \<and> hold_dispatch q"
    by (simp add: proc_eval sent_def)
  then show ?thesis by (simp only: follow_run)
qed

text \<open>The statistics keep exactly the stamps of the rate window: pruning from the front is exact on a sorted deque.\<close>

lemma prune_window_exact:
  "sorted (map stamp es) \<Longrightarrow> prune_window stamp now es = filter (\<lambda>e. now - RATE_WINDOW \<le> stamp e) es"
proof (induction es)
  case (Cons e es)
  then show ?case
    by (auto simp: prune_window_def not_less intro!: sym [OF filter_True])
qed (simp add: prune_window_def)

end
