(* ===== verification/SessionHealth.thy ===== *)
theory SessionHealth
  imports Complex_Main Prelude
begin

text \<open>
  The acquisition health tracker (\<^verbatim>\<open>src/session_health.rs\<close>): windows per acquisition tier, the 5 s
  intervals inside them, the three anomalies, and the summary at the end. The tracker is a state
  machine over calls that carry the time in milliseconds; the calls are the functions below and \<open>feed\<close>
  runs one of them. Times are naturals (the code's \<^verbatim>\<open>u64\<close> of epoch milliseconds does not wrap).
  The text of an anomaly and the JSON payloads are not modelled.
\<close>

definition INTERVAL_MS :: nat where "INTERVAL_MS = 5000"
definition MAX_WINDOW_MS :: nat where "MAX_WINDOW_MS = 60000"
definition CHURN_WINDOW_MS :: nat where "CHURN_WINDOW_MS = 10 * 60 * 1000"
definition CHURN_SWITCHES :: nat where "CHURN_SWITCHES = 4"

datatype Tier = Poll | UdsStream | StnPeriodic | DviPeriodic

fun tier_as_str :: "Tier \<Rightarrow> string" where
  "tier_as_str Poll = ''poll''"
| "tier_as_str UdsStream = ''uds-stream''"
| "tier_as_str StnPeriodic = ''stn-periodic''"
| "tier_as_str DviPeriodic = ''dvi-periodic''"

definition tier_parse :: "string \<Rightarrow> Tier option" where
  "tier_parse s =
     (let t = trim s
      in if t = ''poll'' then Some Poll else if t = ''uds-stream'' then Some UdsStream
         else if t = ''stn-periodic'' then Some StnPeriodic else if t = ''dvi-periodic'' then Some DviPeriodic else None)"

definition engaged :: "Tier \<Rightarrow> bool" where
  "engaged t \<longleftrightarrow> t \<noteq> Poll"

fun tier_index :: "Tier \<Rightarrow> nat" where
  "tier_index Poll = 0"
| "tier_index UdsStream = 1"
| "tier_index StnPeriodic = 2"
| "tier_index DviPeriodic = 2"

record Window =
  w_tier :: Tier
  w_start :: nat
  w_end :: nat
  w_signals :: nat
  w_batches :: nat
  w_rtt_avg :: "real option"

definition duration_s :: "Window \<Rightarrow> real" where
  "duration_s w = real (w_end w - w_start w) / 1000"

definition sig_per_s :: "Window \<Rightarrow> real" where
  "sig_per_s w = (let d = duration_s w in if d > 0 then real (w_signals w) / d else 0)"

datatype AnomalyCode = RateDegraded | TierSilent | LadderChurn

record AnomalyBrief =
  a_code :: AnomalyCode
  a_tier :: Tier
  a_at :: nat

datatype HealthEvent = WindowClosed Window | AnomalyEvent AnomalyBrief

record SessionSummary =
  s_started :: nat
  s_ended :: nat
  s_windows :: "Window list"
  s_anomalies :: "AnomalyBrief list"
  s_total_signals :: nat

record CurrentWindow =
  c_tier :: Tier
  c_start :: nat
  c_signals :: nat
  c_batches :: nat
  interval_start :: nat
  interval_signals :: nat
  zero_streak :: nat
  below_streak :: nat
  tier_silent_fired :: bool
  rate_degraded_fired :: bool

definition open_window :: "Tier \<Rightarrow> nat \<Rightarrow> CurrentWindow" where
  "open_window t now =
     \<lparr> c_tier = t, c_start = now, c_signals = 0, c_batches = 0, interval_start = now, interval_signals = 0,
       zero_streak = 0, below_streak = 0, tier_silent_fired = False, rate_degraded_fired = False \<rparr>"

definition close_window :: "nat \<Rightarrow> real option \<Rightarrow> CurrentWindow \<Rightarrow> Window" where
  "close_window now rtt c =
     \<lparr> w_tier = c_tier c, w_start = c_start c, w_end = now, w_signals = c_signals c, w_batches = c_batches c,
       w_rtt_avg = rtt \<rparr>"

record HealthTracker =
  h_started :: "nat option"
  h_finished :: bool
  current :: "CurrentWindow option"
  windows :: "Window list"
  anomalies :: "AnomalyBrief list"
  interval_sum :: "nat list"
  interval_cnt :: "nat list"
  ever_window_with_signals :: bool
  switch_times :: "nat list"

definition tracker_new :: HealthTracker where
  "tracker_new =
     \<lparr> h_started = None, h_finished = False, current = None, windows = [], anomalies = [], interval_sum = [0, 0, 0],
       interval_cnt = [0, 0, 0], ever_window_with_signals = False, switch_times = [] \<rparr>"

section \<open>Intervals\<close>

definition record_anomaly :: "AnomalyCode \<Rightarrow> Tier \<Rightarrow> nat \<Rightarrow> HealthTracker \<Rightarrow> HealthTracker \<times> HealthEvent" where
  "record_anomaly code t at_ms h =
     (let a = \<lparr> a_code = code, a_tier = t, a_at = at_ms \<rparr>
      in (h \<lparr> anomalies := anomalies h @ [a] \<rparr>, AnomalyEvent a))"

text \<open>
  The body of the loop for one completed interval: the counters, the rate check against the baseline
  before this interval joins it, the silence check. \<open>n < 0.5 * baseline\<close> is decided over the reals.
\<close>

definition rate_check :: "nat \<Rightarrow> CurrentWindow \<Rightarrow> HealthTracker \<Rightarrow> CurrentWindow \<times> HealthTracker \<times> HealthEvent list" where
  "rate_check n c h =
     (let ti = tier_index (c_tier c) in
      if interval_cnt h ! ti \<ge> 3 then
        (let baseline = real (interval_sum h ! ti) / real (interval_cnt h ! ti);
             c1 = (if real n < baseline / 2 then c \<lparr> below_streak := below_streak c + 1 \<rparr> else c \<lparr> below_streak := 0 \<rparr>)
         in if below_streak c1 \<ge> 2 \<and> \<not> rate_degraded_fired c1 then
              (let (h1, e) = record_anomaly RateDegraded (c_tier c1) (interval_start c1) h
               in (c1 \<lparr> rate_degraded_fired := True \<rparr>, h1, [e]))
            else (c1, h, []))
      else (c, h, []))"

definition silence_check :: "CurrentWindow \<Rightarrow> HealthTracker \<Rightarrow> CurrentWindow \<times> HealthTracker \<times> HealthEvent list" where
  "silence_check c h =
     (if engaged (c_tier c) \<and> zero_streak c \<ge> 2 \<and> ever_window_with_signals h \<and> \<not> tier_silent_fired c then
        (let (h1, e) = record_anomaly TierSilent (c_tier c) (interval_start c) h
         in (c \<lparr> tier_silent_fired := True \<rparr>, h1, [e]))
      else (c, h, []))"

definition complete_interval ::
  "CurrentWindow \<Rightarrow> HealthTracker \<Rightarrow> CurrentWindow \<times> HealthTracker \<times> HealthEvent list" where
  "complete_interval c h =
     (let n = interval_signals c;
          c0 = c \<lparr> interval_signals := 0, interval_start := interval_start c + INTERVAL_MS, c_batches := c_batches c + 1,
                 zero_streak := (if n = 0 then zero_streak c + 1 else 0) \<rparr>;
          ti = tier_index (c_tier c0);
          (c1, h1, e1) = rate_check n c0 h;
          h2 = (if n > 0 then h1 \<lparr> interval_sum := (interval_sum h1)[ti := interval_sum h1 ! ti + n],
                                   interval_cnt := (interval_cnt h1)[ti := interval_cnt h1 ! ti + 1] \<rparr> else h1);
          (c2, h3, e2) = silence_check c1 h2
      in (c2, h3, e1 @ e2))"

lemma rate_check_window: "interval_start (fst (rate_check n c h)) = interval_start c"
  by (simp add: rate_check_def Let_def record_anomaly_def)

lemma silence_check_window: "interval_start (fst (silence_check c h)) = interval_start c"
  by (simp add: silence_check_def Let_def record_anomaly_def)

lemma complete_interval_start: "interval_start (fst (complete_interval c h)) = interval_start c + INTERVAL_MS"
  by (simp add: complete_interval_def Let_def case_prod_beta rate_check_window silence_check_window)

function roll_loop ::
  "nat \<Rightarrow> CurrentWindow \<Rightarrow> HealthTracker \<Rightarrow> HealthEvent list \<Rightarrow> CurrentWindow \<times> HealthTracker \<times> HealthEvent list" where
  "roll_loop now c h events =
     (if now \<ge> interval_start c + INTERVAL_MS then
        (let r = complete_interval c h in roll_loop now (fst r) (fst (snd r)) (events @ snd (snd r)))
      else (c, h, events))"
  by pat_completeness auto

termination
  by (relation "measure (\<lambda>(now, c, h, events). now - interval_start c)")
     (simp_all add: complete_interval_start INTERVAL_MS_def Let_def)

declare roll_loop.simps [simp del]

definition roll_intervals :: "nat \<Rightarrow> HealthTracker \<Rightarrow> HealthTracker \<times> HealthEvent list" where
  "roll_intervals now h =
     (case current h of
        None \<Rightarrow> (h, [])
      | Some c \<Rightarrow> (let (c', h', events) = roll_loop now c h [] in (h' \<lparr> current := Some c' \<rparr>, events)))"

section \<open>Windows\<close>

definition close_current :: "nat \<Rightarrow> real option \<Rightarrow> HealthTracker \<Rightarrow> HealthTracker \<times> Window option" where
  "close_current now rtt h =
     (case current h of
        None \<Rightarrow> (h, None)
      | Some c \<Rightarrow>
          (let w = close_window now rtt c
           in (h \<lparr> current := None, ever_window_with_signals := ever_window_with_signals h \<or> w_signals w > 0,
                   windows := windows h @ [w] \<rparr>, Some w)))"

definition closed_events :: "Window option \<Rightarrow> HealthEvent list" where
  "closed_events w = (case w of None \<Rightarrow> [] | Some v \<Rightarrow> [WindowClosed v])"

definition start_if_unset :: "nat \<Rightarrow> HealthTracker \<Rightarrow> HealthTracker" where
  "start_if_unset now h = (case h_started h of None \<Rightarrow> h \<lparr> h_started := Some now \<rparr> | Some _ \<Rightarrow> h)"

definition fresh_if_finished :: "HealthTracker \<Rightarrow> HealthTracker" where
  "fresh_if_finished h = (if h_finished h then tracker_new else h)"

definition churn_check :: "Tier \<Rightarrow> nat \<Rightarrow> HealthTracker \<Rightarrow> HealthTracker \<times> HealthEvent list" where
  "churn_check t now h =
     (let ts = filter (\<lambda>s. now - s \<le> CHURN_WINDOW_MS) (switch_times h) @ [now]
      in if length ts \<ge> CHURN_SWITCHES then
           (let (h1, e) = record_anomaly LadderChurn t now (h \<lparr> switch_times := [] \<rparr>) in (h1, [e]))
         else (h \<lparr> switch_times := ts \<rparr>, []))"

definition on_tier :: "Tier \<Rightarrow> nat \<Rightarrow> real option \<Rightarrow> HealthTracker \<Rightarrow> HealthTracker \<times> HealthEvent list" where
  "on_tier t now rtt h0 =
     (let h = start_if_unset now (fresh_if_finished h0) in
      case current h of
        None \<Rightarrow> (h \<lparr> current := Some (open_window t now) \<rparr>, [])
      | Some c \<Rightarrow>
          if c_tier c = t then roll_intervals now h
          else
            (let (h1, events) = roll_intervals now h;
                 (h2, w) = close_current now rtt h1;
                 (h3, churn) = churn_check t now (h2 \<lparr> current := Some (open_window t now) \<rparr>)
             in (h3, events @ closed_events w @ churn)))"

definition reset_for_connected :: "nat \<Rightarrow> HealthTracker \<Rightarrow> HealthTracker" where
  "reset_for_connected now h =
     (fresh_if_finished h) \<lparr> h_started := Some now, current := Some (open_window Poll now) \<rparr>"

definition add_signals :: "nat \<Rightarrow> HealthTracker \<Rightarrow> HealthTracker" where
  "add_signals n h =
     (case current h of
        None \<Rightarrow> h
      | Some c \<Rightarrow> h \<lparr> current := Some (c \<lparr> c_signals := c_signals c + n, interval_signals := interval_signals c + n \<rparr>) \<rparr>)"

definition on_signals :: "nat \<Rightarrow> nat \<Rightarrow> HealthTracker \<Rightarrow> HealthTracker \<times> HealthEvent list" where
  "on_signals n now h =
     (if h_finished h then (h, [])
      else
        (let h1 = (if current h = None then (start_if_unset now h) \<lparr> current := Some (open_window Poll now) \<rparr> else h);
             (h2, events) = roll_intervals now h1
         in (add_signals n h2, events)))"

definition on_tick :: "nat \<Rightarrow> HealthTracker \<Rightarrow> HealthTracker \<times> HealthEvent list" where
  "on_tick now h = (if h_finished h then (h, []) else roll_intervals now h)"

definition window_due_to_roll :: "nat \<Rightarrow> HealthTracker \<Rightarrow> bool" where
  "window_due_to_roll now h \<longleftrightarrow>
     \<not> h_finished h \<and> (case current h of None \<Rightarrow> False | Some c \<Rightarrow> now - c_start c \<ge> MAX_WINDOW_MS)"

definition roll_if_due :: "nat \<Rightarrow> real option \<Rightarrow> HealthTracker \<Rightarrow> HealthTracker \<times> HealthEvent list" where
  "roll_if_due now rtt h =
     (if h_finished h then (h, [])
      else (case current h of
          None \<Rightarrow> (h, [])
        | Some c \<Rightarrow>
            if now - c_start c \<ge> MAX_WINDOW_MS then
              (let (h1, events) = roll_intervals now h;
                   (h2, w) = close_current now rtt h1
               in (h2 \<lparr> current := Some (open_window (c_tier c) now) \<rparr>, events @ closed_events w))
            else (h, [])))"

definition on_subscription_edit :: "HealthTracker \<Rightarrow> HealthTracker" where
  "on_subscription_edit h = h \<lparr> switch_times := [] \<rparr>"

definition finish_session ::
  "nat \<Rightarrow> real option \<Rightarrow> HealthTracker \<Rightarrow> HealthTracker \<times> (HealthEvent list \<times> SessionSummary) option" where
  "finish_session now rtt h =
     (if h_finished h then (h, None)
      else (case h_started h of
          None \<Rightarrow> (h, None)
        | Some started \<Rightarrow>
            (let (h1, events) = roll_intervals now h;
                 (h2, w) = close_current now rtt h1;
                 h3 = h2 \<lparr> h_finished := True \<rparr>
             in (h3, Some (events @ closed_events w,
                   \<lparr> s_started = started, s_ended = now, s_windows = windows h3, s_anomalies = anomalies h3,
                     s_total_signals = sum_list (map w_signals (windows h3)) \<rparr>)))))"

section \<open>The calls\<close>

datatype Call =
    OnTier Tier nat "real option"
  | OnSignals nat nat
  | OnTick nat
  | RollIfDue nat "real option"
  | OnEdit nat

fun feed :: "Call \<Rightarrow> HealthTracker \<Rightarrow> HealthTracker \<times> HealthEvent list" where
  "feed (OnTier t now rtt) h = on_tier t now rtt h"
| "feed (OnSignals n now) h = on_signals n now h"
| "feed (OnTick now) h = on_tick now h"
| "feed (RollIfDue now rtt) h = roll_if_due now rtt h"
| "feed (OnEdit now) h = (on_subscription_edit h, [])"

fun feed_all :: "Call list \<Rightarrow> HealthTracker \<Rightarrow> HealthTracker \<times> HealthEvent list" where
  "feed_all [] h = (h, [])"
| "feed_all (c # cs) h =
     (let (h1, e1) = feed c h; (h2, e2) = feed_all cs h1 in (h2, e1 @ e2))"

section \<open>What completing intervals leaves alone\<close>

lemma rate_check_fields:
  assumes "rate_check n c h = (c', h', e)"
  shows "c_tier c' = c_tier c" "c_start c' = c_start c" "c_signals c' = c_signals c" "c_batches c' = c_batches c"
    "interval_start c' = interval_start c" "interval_signals c' = interval_signals c" "zero_streak c' = zero_streak c"
    "tier_silent_fired c' = tier_silent_fired c"
    "windows h' = windows h" "h_started h' = h_started h" "h_finished h' = h_finished h" "current h' = current h"
    "ever_window_with_signals h' = ever_window_with_signals h" "switch_times h' = switch_times h"
  using assms by (auto simp: rate_check_def record_anomaly_def Let_def split: if_splits)

lemma silence_check_fields:
  assumes "silence_check c h = (c', h', e)"
  shows "c_tier c' = c_tier c" "c_start c' = c_start c" "c_signals c' = c_signals c" "c_batches c' = c_batches c"
    "interval_start c' = interval_start c" "interval_signals c' = interval_signals c" "zero_streak c' = zero_streak c"
    "rate_degraded_fired c' = rate_degraded_fired c"
    "windows h' = windows h" "h_started h' = h_started h" "h_finished h' = h_finished h" "current h' = current h"
    "ever_window_with_signals h' = ever_window_with_signals h" "switch_times h' = switch_times h"
  using assms by (auto simp: silence_check_def record_anomaly_def Let_def split: if_splits)

lemma complete_interval_fields:
  assumes "complete_interval c h = (c', h', e)"
  shows "c_tier c' = c_tier c" "c_start c' = c_start c" "c_signals c' = c_signals c" "c_batches c' = c_batches c + 1"
    "interval_start c' = interval_start c + INTERVAL_MS" "interval_signals c' = 0"
    "zero_streak c' = (if interval_signals c = 0 then zero_streak c + 1 else 0)"
    "windows h' = windows h" "h_started h' = h_started h" "h_finished h' = h_finished h" "current h' = current h"
    "ever_window_with_signals h' = ever_window_with_signals h" "switch_times h' = switch_times h"
proof -
  let ?c0 = "c \<lparr> interval_signals := 0, interval_start := interval_start c + INTERVAL_MS, c_batches := c_batches c + 1,
    zero_streak := (if interval_signals c = 0 then zero_streak c + 1 else 0) \<rparr>"
  obtain c1 h1 e1 where r: "rate_check (interval_signals c) ?c0 h = (c1, h1, e1)" by (cases "rate_check (interval_signals c) ?c0 h")
  let ?ti = "tier_index (c_tier c)"
  let ?h2 = "if interval_signals c > 0 then h1 \<lparr> interval_sum := (interval_sum h1)[?ti := interval_sum h1 ! ?ti + interval_signals c],
    interval_cnt := (interval_cnt h1)[?ti := interval_cnt h1 ! ?ti + 1] \<rparr> else h1"
  have s: "silence_check c1 ?h2 = (c', h', snd (snd (silence_check c1 ?h2)))"
    using assms r by (auto simp: complete_interval_def Let_def case_prod_beta)
  note f = rate_check_fields [OF r] silence_check_fields [OF s]
  show "c_tier c' = c_tier c" "c_start c' = c_start c" "c_signals c' = c_signals c" "c_batches c' = c_batches c + 1"
    "interval_start c' = interval_start c + INTERVAL_MS" "interval_signals c' = 0"
    "zero_streak c' = (if interval_signals c = 0 then zero_streak c + 1 else 0)"
    "windows h' = windows h" "h_started h' = h_started h" "h_finished h' = h_finished h" "current h' = current h"
    "ever_window_with_signals h' = ever_window_with_signals h" "switch_times h' = switch_times h"
    using f by simp_all
qed

lemma roll_loop_fields:
  assumes "roll_loop now c h es = (c', h', es')"
  shows "c_tier c' = c_tier c \<and> c_start c' = c_start c \<and> c_signals c' = c_signals c
    \<and> interval_start c + INTERVAL_MS * c_batches c' = interval_start c' + INTERVAL_MS * c_batches c
    \<and> interval_start c \<le> interval_start c'
    \<and> now < interval_start c' + INTERVAL_MS \<and> (interval_start c \<le> now \<longrightarrow> interval_start c' \<le> now)
    \<and> windows h' = windows h \<and> h_started h' = h_started h \<and> h_finished h' = h_finished h \<and> current h' = current h
    \<and> ever_window_with_signals h' = ever_window_with_signals h \<and> switch_times h' = switch_times h"
  using assms
proof (induction now c h es rule: roll_loop.induct)
  case (1 now c h es)
  show ?case
  proof (cases "now \<ge> interval_start c + INTERVAL_MS")
    case True
    obtain c1 h1 e1 where ci: "complete_interval c h = (c1, h1, e1)" by (cases "complete_interval c h")
    have "roll_loop now c1 h1 (es @ e1) = (c', h', es')"
      using "1.prems" True ci by (subst (asm) roll_loop.simps) (simp add: Let_def)
    from "1.IH" [OF True refl, unfolded ci fst_conv snd_conv, OF this] complete_interval_fields [OF ci] True
    show ?thesis by (simp add: algebra_simps)
  next
    case False
    then show ?thesis using "1.prems" by (subst (asm) roll_loop.simps) (auto simp: Let_def)
  qed
qed

section \<open>The session is accounted for\<close>

text \<open>Windows that follow each other without gap or overlap, from one time to another.\<close>

fun chain :: "nat \<Rightarrow> Window list \<Rightarrow> nat \<Rightarrow> bool" where
  "chain t [] u \<longleftrightarrow> t = u"
| "chain t (w # ws) u \<longleftrightarrow> w_start w = t \<and> t \<le> w_end w \<and> chain (w_end w) ws u"

lemma chain_snoc: "chain t (ws @ [w]) u \<longleftrightarrow> chain t ws (w_start w) \<and> w_start w \<le> w_end w \<and> w_end w = u"
  by (induction ws arbitrary: t) auto

lemma chain_le: "chain t ws u \<Longrightarrow> t \<le> u"
  by (induction ws arbitrary: t) (auto intro: le_trans)

lemma chain_duration: "chain t ws u \<Longrightarrow> sum_list (map (\<lambda>w. w_end w - w_start w) ws) = u - t"
proof (induction ws arbitrary: t)
  case (Cons w ws)
  then have "w_start w = t" "t \<le> w_end w" "w_end w \<le> u" by (auto dest: chain_le)
  with Cons show ?case by simp
qed simp

definition whole_intervals :: "Window \<Rightarrow> bool" where
  "whole_intervals w \<longleftrightarrow> w_batches w = (w_end w - w_start w) div INTERVAL_MS"

definition health_inv :: "nat \<Rightarrow> nat \<Rightarrow> HealthTracker \<Rightarrow> bool" where
  "health_inv t sigs h \<longleftrightarrow>
     \<not> h_finished h \<and> list_all whole_intervals (windows h)
     \<and> (case h_started h of
          None \<Rightarrow> current h = None \<and> windows h = [] \<and> sigs = 0
        | Some s \<Rightarrow> (case current h of
              None \<Rightarrow> False
            | Some c \<Rightarrow> chain s (windows h) (c_start c) \<and> interval_start c = c_start c + INTERVAL_MS * c_batches c
                \<and> interval_start c \<le> t \<and> sum_list (map w_signals (windows h)) + c_signals c = sigs))"

lemma health_new: "health_inv t 0 tracker_new"
  by (simp add: health_inv_def tracker_new_def)

lemma roll_inv:
  assumes "health_inv t sigs h" "t \<le> now" "roll_intervals now h = (h', es)"
  shows "health_inv now sigs h'" "h_started h' = h_started h"
    "\<And>c'. current h' = Some c' \<Longrightarrow> now < interval_start c' + INTERVAL_MS"
    "current h = None \<longleftrightarrow> current h' = None"
    "\<And>c'. current h' = Some c' \<Longrightarrow> \<exists>c. current h = Some c \<and> c_tier c' = c_tier c"
proof -
  have "health_inv now sigs h' \<and> h_started h' = h_started h
    \<and> (\<forall>c'. current h' = Some c' \<longrightarrow> now < interval_start c' + INTERVAL_MS) \<and> (current h = None \<longleftrightarrow> current h' = None)
    \<and> (\<forall>c'. current h' = Some c' \<longrightarrow> (\<exists>c. current h = Some c \<and> c_tier c' = c_tier c))"
  proof (cases "current h")
    case None
    with assms show ?thesis by (auto simp: roll_intervals_def health_inv_def split: option.splits)
  next
    case (Some c)
    obtain c' h1 es1 where r: "roll_loop now c h [] = (c', h1, es1)" by (cases "roll_loop now c h []")
    note f = roll_loop_fields [OF r]
    have h': "h' = h1 \<lparr> current := Some c' \<rparr>" using assms(3) r by (simp add: roll_intervals_def Some)
    obtain s where s: "h_started h = Some s" using assms(1) Some by (auto simp: health_inv_def split: option.splits)
    with assms(1) Some have c: "interval_start c = c_start c + INTERVAL_MS * c_batches c" "interval_start c \<le> t"
      by (simp_all add: health_inv_def)
    with f have "interval_start c' = c_start c' + INTERVAL_MS * c_batches c'" by (simp add: algebra_simps)
    with f assms(1,2) Some s c(2) show ?thesis by (simp add: h' health_inv_def)
  qed
  then show "health_inv now sigs h'" "h_started h' = h_started h"
    "\<And>c'. current h' = Some c' \<Longrightarrow> now < interval_start c' + INTERVAL_MS"
    "current h = None \<longleftrightarrow> current h' = None"
    "\<And>c'. current h' = Some c' \<Longrightarrow> \<exists>c. current h = Some c \<and> c_tier c' = c_tier c"
    by blast+
qed

text \<open>Closing a rolled window and opening the next one at the same time.\<close>

lemma close_whole:
  assumes "health_inv now sigs h" "current h = Some c" "now < interval_start c + INTERVAL_MS"
  shows "whole_intervals (close_window now rtt c)" "c_start c \<le> now"
proof -
  have c: "interval_start c = c_start c + INTERVAL_MS * c_batches c" "interval_start c \<le> now"
    using assms(1,2) by (auto simp: health_inv_def split: option.splits)
  then show "c_start c \<le> now" by simp
  have "(now - c_start c) div INTERVAL_MS = c_batches c"
    by (rule div_nat_eqI) (use c assms(3) in \<open>auto simp: algebra_simps\<close>)
  then show "whole_intervals (close_window now rtt c)" by (simp add: whole_intervals_def close_window_def)
qed

lemma close_open_inv:
  assumes "health_inv now sigs h" "current h = Some c" "now < interval_start c + INTERVAL_MS"
    and "close_current now rtt h = (h', w)"
  shows "health_inv now sigs (h' \<lparr> current := Some (open_window t now) \<rparr>)"
  using assms(1,2,4) close_whole(1) [OF assms(1-3), of rtt] close_whole(2) [OF assms(1-3)]
  by (auto simp: health_inv_def close_current_def open_window_def close_window_def chain_snoc Let_def split: option.splits)

lemma churn_fields [simp]:
  "windows (fst (churn_check t now h)) = windows h" "h_started (fst (churn_check t now h)) = h_started h"
  "h_finished (fst (churn_check t now h)) = h_finished h" "current (fst (churn_check t now h)) = current h"
  "ever_window_with_signals (fst (churn_check t now h)) = ever_window_with_signals h"
  by (simp_all add: churn_check_def record_anomaly_def Let_def)

lemma churn_inv: "health_inv now sigs h \<Longrightarrow> health_inv now sigs (fst (churn_check t now h))"
  by (auto simp: health_inv_def split: option.splits)

text \<open>How many signals a call delivers, and its time.\<close>

fun call_signals :: "Call \<Rightarrow> nat" where
  "call_signals (OnSignals n now) = n"
| "call_signals _ = 0"

fun call_time :: "Call \<Rightarrow> nat" where
  "call_time (OnTier t now rtt) = now"
| "call_time (OnSignals n now) = now"
| "call_time (OnTick now) = now"
| "call_time (RollIfDue now rtt) = now"
| "call_time (OnEdit now) = now"

lemma health_later: "health_inv t sigs h \<Longrightarrow> t \<le> now \<Longrightarrow> health_inv now sigs h"
  by (auto simp: health_inv_def split: option.splits)

lemma switch_window:
  assumes "health_inv t sigs h" "t \<le> now" "current h = Some c"
    and "roll_intervals now h = (h1, e1)" "close_current now rtt h1 = (h2, w)"
  shows "health_inv now sigs (h2 \<lparr> current := Some (open_window u now) \<rparr>)"
proof -
  note r = roll_inv [OF assms(1,2,4)]
  obtain c1 where c1: "current h1 = Some c1" using r(4) assms(3) by auto
  show ?thesis by (rule close_open_inv [OF r(1) c1 r(3) [OF c1] assms(5)])
qed

lemma feed_inv:
  assumes inv: "health_inv t sigs h" and now: "t \<le> call_time c" and f: "feed c h = (h', es)"
  shows "health_inv (call_time c) (sigs + call_signals c) h'"
proof (cases c)
  case (OnTier u now rtt)
  have fin: "fresh_if_finished h = h" using inv by (simp add: fresh_if_finished_def health_inv_def)
  show ?thesis
  proof (cases "current h")
    case None
    then have "h_started h = None" "windows h = []" "sigs = 0" using inv by (auto simp: health_inv_def split: option.splits)
    with OnTier f fin inv None show ?thesis
      by (auto simp: on_tier_def Let_def start_if_unset_def health_inv_def open_window_def)
  next
    case (Some cur)
    then have st: "start_if_unset now h = h" using inv by (auto simp: health_inv_def start_if_unset_def split: option.splits)
    show ?thesis
    proof (cases "c_tier cur = u")
      case True
      with OnTier f fin st Some roll_inv(1) [OF inv] now show ?thesis by (auto simp: on_tier_def Let_def)
    next
      case False
      obtain h1 e1 where r: "roll_intervals now h = (h1, e1)" by fastforce
      obtain h2 w where cl: "close_current now rtt h1 = (h2, w)" by fastforce
      have "health_inv now sigs (h2 \<lparr> current := Some (open_window u now) \<rparr>)"
        by (rule switch_window [OF inv _ Some r cl]) (use now OnTier in simp)
      then have "health_inv now sigs (fst (churn_check u now (h2 \<lparr> current := Some (open_window u now) \<rparr>)))"
        by (rule churn_inv)
      with OnTier f fin st Some False r cl show ?thesis by (simp add: on_tier_def Let_def case_prod_beta)
    qed
  qed
next
  case (OnSignals n now)
  let ?h1 = "if current h = None then (start_if_unset now h) \<lparr> current := Some (open_window Poll now) \<rparr> else h"
  have h1: "health_inv now sigs ?h1"
    using inv now OnSignals health_later [OF inv, of now]
    by (auto simp: health_inv_def start_if_unset_def open_window_def split: option.splits)
  obtain h2 e where r: "roll_intervals now ?h1 = (h2, e)" by fastforce
  have "health_inv now sigs h2" by (rule roll_inv(1) [OF h1 order.refl r])
  moreover have "current h2 \<noteq> None" using roll_inv(4) [OF h1 order.refl r] by (simp split: if_splits)
  ultimately have "health_inv now (sigs + n) (add_signals n h2)"
    by (auto simp: health_inv_def add_signals_def split: option.splits)
  moreover have "\<not> h_finished h" using inv by (simp add: health_inv_def)
  ultimately show ?thesis using OnSignals f r by (simp add: on_signals_def Let_def)
next
  case (OnTick now)
  with f inv roll_inv(1) [OF inv] now show ?thesis by (auto simp: on_tick_def health_inv_def)
next
  case (RollIfDue now rtt)
  show ?thesis
  proof (cases "current h")
    case None
    with RollIfDue f inv now health_later [OF inv] show ?thesis by (auto simp: roll_if_due_def health_inv_def)
  next
    case (Some cur)
    obtain h1 e1 where r: "roll_intervals now h = (h1, e1)" by fastforce
    obtain h2 w where cl: "close_current now rtt h1 = (h2, w)" by fastforce
    have "health_inv now sigs (h2 \<lparr> current := Some (open_window (c_tier cur) now) \<rparr>)"
      by (rule switch_window [OF inv _ Some r cl]) (use now RollIfDue in simp)
    with RollIfDue f r cl Some inv now health_later [OF inv, of now] show ?thesis
      by (auto simp: roll_if_due_def health_inv_def Let_def split: if_splits)
  qed
next
  case (OnEdit now)
  with f inv now health_later [OF inv, of now] show ?thesis
    by (auto simp: on_subscription_edit_def health_inv_def split: option.splits)
qed

lemma feed_all_inv:
  "health_inv t sigs h \<Longrightarrow> sorted (t # map call_time cs) \<Longrightarrow> feed_all cs h = (h', es) \<Longrightarrow>
   health_inv (last (t # map call_time cs)) (sigs + sum_list (map call_signals cs)) h'"
proof (induction cs arbitrary: t sigs h es)
  case (Cons c cs)
  obtain h1 e1 where c: "feed c h = (h1, e1)" by fastforce
  obtain e2 where cs: "feed_all cs h1 = (h', e2)" using Cons.prems(3) c by (cases "feed_all cs h1") auto
  have "health_inv (call_time c) (sigs + call_signals c) h1"
    by (rule feed_inv [OF Cons.prems(1) _ c]) (use Cons.prems(2) in simp)
  from Cons.IH [OF this _ cs] Cons.prems(2) show ?case by (simp add: add.assoc split: if_splits)
qed simp



section \<open>A dead stream is noticed\<close>

lemma rate_check_no_silence: "rate_check n c h = (c', h', e) \<Longrightarrow> AnomalyEvent a \<in> set e \<Longrightarrow> a_code a = RateDegraded"
  by (auto simp: rate_check_def record_anomaly_def Let_def split: if_splits)

definition silence_reported :: "HealthEvent list \<Rightarrow> bool" where
  "silence_reported es \<longleftrightarrow> (\<exists>a. AnomalyEvent a \<in> set es \<and> a_code a = TierSilent)"

lemma complete_silent:
  assumes "complete_interval c h = (c', h', e)" "interval_signals c = 0" "engaged (c_tier c)" "ever_window_with_signals h"
  shows "tier_silent_fired c' \<longleftrightarrow> tier_silent_fired c \<or> zero_streak c \<ge> 1"
    and "\<not> tier_silent_fired c \<Longrightarrow> zero_streak c \<ge> 1 \<Longrightarrow> silence_reported e"
proof -
  let ?c0 = "c \<lparr> interval_signals := 0, interval_start := interval_start c + INTERVAL_MS, c_batches := c_batches c + 1,
    zero_streak := zero_streak c + 1 \<rparr>"
  obtain c1 h1 e1 where r: "rate_check 0 ?c0 h = (c1, h1, e1)" by (cases "rate_check 0 ?c0 h")
  note f = rate_check_fields [OF r]
  have s: "silence_check c1 h1 = (c', h', snd (snd (silence_check c1 h1)))" "e = e1 @ snd (snd (silence_check c1 h1))"
    using assms(1,2) r by (auto simp: complete_interval_def Let_def case_prod_beta)
  show "tier_silent_fired c' \<longleftrightarrow> tier_silent_fired c \<or> zero_streak c \<ge> 1"
    using s(1) f assms(3,4) by (auto simp: silence_check_def record_anomaly_def Let_def split: if_splits)
  show "silence_reported e" if "\<not> tier_silent_fired c" "zero_streak c \<ge> 1"
    using s(2) f assms(3,4) that
    by (auto simp: silence_reported_def silence_check_def record_anomaly_def Let_def)
qed

text \<open>Quiet so far: what a window without signals has gone through.\<close>

definition quiet_window :: "CurrentWindow \<Rightarrow> bool" where
  "quiet_window c \<longleftrightarrow> interval_signals c = 0 \<and> zero_streak c = c_batches c
     \<and> interval_start c = c_start c + INTERVAL_MS * c_batches c"

lemma roll_events_mono: "roll_loop now c h es = (c', h', es') \<Longrightarrow> set es \<subseteq> set es'"
proof (induction now c h es rule: roll_loop.induct)
  case (1 now c h es)
  then show ?case
    by (subst (asm) (2) roll_loop.simps) (auto simp: Let_def split: if_splits)
qed

lemma roll_quiet:
  assumes "roll_loop now c h es = (c', h', es')" "quiet_window c" "engaged (c_tier c)" "ever_window_with_signals h"
    and "tier_silent_fired c \<longleftrightarrow> c_batches c \<ge> 2"
  shows "quiet_window c' \<and> (tier_silent_fired c' \<longleftrightarrow> c_batches c' \<ge> 2)
    \<and> (c_batches c < 2 \<and> c_batches c' \<ge> 2 \<longrightarrow> silence_reported es')"
  using assms
proof (induction now c h es rule: roll_loop.induct)
  case (1 now c h es)
  show ?case
  proof (cases "now \<ge> interval_start c + INTERVAL_MS")
    case False
    then show ?thesis using "1.prems" by (subst (asm) roll_loop.simps) (auto simp: Let_def)
  next
    case True
    obtain c1 h1 e1 where ci: "complete_interval c h = (c1, h1, e1)" by (cases "complete_interval c h")
    have l: "roll_loop now c1 h1 (es @ e1) = (c', h', es')"
      using "1.prems"(1) True ci by (subst (asm) roll_loop.simps) (simp add: Let_def)
    note f = complete_interval_fields [OF ci]
    have q: "interval_signals c = 0" "zero_streak c = c_batches c" using "1.prems"(2) by (auto simp: quiet_window_def)
    note s = complete_silent [OF ci q(1) "1.prems"(3,4)]
    have c1: "quiet_window c1" using "1.prems"(2) f by (simp add: quiet_window_def algebra_simps)
    have fired: "tier_silent_fired c1 \<longleftrightarrow> c_batches c1 \<ge> 2" using s(1) "1.prems"(5) q(2) f(4) by auto
    from "1.IH" [OF True refl, unfolded ci fst_conv snd_conv, OF l c1 _ _ fired] f "1.prems"(3,4)
    have ih: "quiet_window c' \<and> (tier_silent_fired c' \<longleftrightarrow> c_batches c' \<ge> 2)
        \<and> (c_batches c1 < 2 \<and> c_batches c' \<ge> 2 \<longrightarrow> silence_reported es')" by simp
    moreover have "silence_reported es'" if "c_batches c < 2" "\<not> c_batches c1 < 2"
    proof -
      have "silence_reported e1" by (rule s(2)) (use that "1.prems"(5) q(2) f(4) in auto)
      then show ?thesis using roll_events_mono [OF l] by (auto simp: silence_reported_def)
    qed
    ultimately show ?thesis by blast
  qed
qed

text \<open>A dead stream is reported. Once a window with data was closed in the session, a window opened on an
  engaged tier that then gets no signals is reported as silent by the first tick at or after ten
  seconds, whatever ticks come before it.
\<close>

theorem dead_stream_reported:
  assumes "\<not> h_finished h" "ever_window_with_signals h" "current h = Some (open_window t start)" "engaged t"
    and "start + 2 * INTERVAL_MS \<le> now"
    and "feed_all (map OnTick ticks @ [OnTick now]) h = (h', es)"
  shows "silence_reported es"
proof -
  have gen: "silence_reported es"
    if "\<not> h_finished h" "ever_window_with_signals h" "current h = Some c" "engaged (c_tier c)" "quiet_window c"
      "tier_silent_fired c \<longleftrightarrow> c_batches c \<ge> 2" "c_batches c < 2" "c_start c + 2 * INTERVAL_MS \<le> now"
      "feed_all (map OnTick ticks @ [OnTick now]) h = (h', es)" for c h es ticks
    using that
  proof (induction ticks arbitrary: c h es)
    case Nil
    obtain c1 h1 e1 where r: "roll_loop now c h [] = (c1, h1, e1)" by (cases "roll_loop now c h []")
    have es: "es = e1" using Nil r by (simp add: on_tick_def roll_intervals_def)
    note q = roll_quiet [OF r Nil.prems(5,4,2,6)] and f = roll_loop_fields [OF r]
    have "c_batches c1 \<ge> 2"
    proof (rule ccontr)
      assume "\<not> c_batches c1 \<ge> 2"
      then have "INTERVAL_MS * c_batches c1 \<le> INTERVAL_MS" by (simp add: INTERVAL_MS_def)
      with q f Nil.prems(5,8) show False by (simp add: quiet_window_def)
    qed
    with q Nil.prems(7) es show ?case by simp
  next
    case (Cons u ticks)
    obtain c1 h1 e1 where r: "roll_loop u c h [] = (c1, h1, e1)" by (cases "roll_loop u c h []")
    note q = roll_quiet [OF r Cons.prems(5,4,2,6)] and f = roll_loop_fields [OF r]
    let ?h = "h1 \<lparr> current := Some c1 \<rparr>"
    obtain e2 where e2: "feed_all (map OnTick ticks @ [OnTick now]) ?h = (h', e2)" "es = e1 @ e2"
      using Cons.prems(1,3,9) r
      by (cases "feed_all (map OnTick ticks @ [OnTick now]) ?h") (auto simp: on_tick_def roll_intervals_def)
    show ?case
    proof (cases "c_batches c1 \<ge> 2")
      case True
      with q Cons.prems(7) e2(2) show ?thesis by (auto simp: silence_reported_def)
    next
      case False
      have "silence_reported e2"
        by (rule Cons.IH [of ?h c1]) (use Cons.prems f q False e2(1) in \<open>auto\<close>)
      with e2(2) show ?thesis by (auto simp: silence_reported_def)
    qed
  qed
  show ?thesis
    by (rule gen [OF assms(1,2,3) _ _ _ _ _ assms(6)]) (use assms(4,5) in \<open>simp_all add: open_window_def quiet_window_def\<close>)
qed


section \<open>Each anomaly once per window\<close>

text \<open>
  A reader of the event stream that refuses a second report of the same window anomaly before the
  window is closed; its state is what was reported in the open window.
\<close>

fun once_per_window :: "bool \<times> bool \<Rightarrow> HealthEvent list \<Rightarrow> (bool \<times> bool) option" where
  "once_per_window rs [] = Some rs"
| "once_per_window rs (WindowClosed w # es) = once_per_window (False, False) es"
| "once_per_window (r, s) (AnomalyEvent a # es) =
     (case a_code a of
        RateDegraded \<Rightarrow> if r then None else once_per_window (True, s) es
      | TierSilent \<Rightarrow> if s then None else once_per_window (r, True) es
      | LadderChurn \<Rightarrow> once_per_window (r, s) es)"

lemma once_append:
  "once_per_window rs (es @ fs) = (case once_per_window rs es of None \<Rightarrow> None | Some qs \<Rightarrow> once_per_window qs fs)"
  by (induction rs es rule: once_per_window.induct) (auto split: AnomalyCode.splits)

definition flags :: "CurrentWindow \<Rightarrow> bool \<times> bool" where
  "flags c = (rate_degraded_fired c, tier_silent_fired c)"

definition open_flags :: "HealthTracker \<Rightarrow> bool \<times> bool" where
  "open_flags h = (case current h of None \<Rightarrow> (False, False) | Some c \<Rightarrow> flags c)"

lemma once_rate: "rate_check n c h = (c', h', e) \<Longrightarrow> once_per_window (flags c) e = Some (flags c')"
  by (auto simp: rate_check_def record_anomaly_def flags_def Let_def split: if_splits)

lemma once_silence: "silence_check c h = (c', h', e) \<Longrightarrow> once_per_window (flags c) e = Some (flags c')"
  by (auto simp: silence_check_def record_anomaly_def flags_def Let_def split: if_splits)

lemma once_interval:
  assumes "complete_interval c h = (c', h', e)"
  shows "once_per_window (flags c) e = Some (flags c')"
proof -
  let ?c0 = "c \<lparr> interval_signals := 0, interval_start := interval_start c + INTERVAL_MS, c_batches := c_batches c + 1,
    zero_streak := (if interval_signals c = 0 then zero_streak c + 1 else 0) \<rparr>"
  obtain c1 h1 e1 where r: "rate_check (interval_signals c) ?c0 h = (c1, h1, e1)" by (cases "rate_check (interval_signals c) ?c0 h")
  let ?ti = "tier_index (c_tier c)"
  let ?h2 = "if interval_signals c > 0 then h1 \<lparr> interval_sum := (interval_sum h1)[?ti := interval_sum h1 ! ?ti + interval_signals c],
    interval_cnt := (interval_cnt h1)[?ti := interval_cnt h1 ! ?ti + 1] \<rparr> else h1"
  obtain c2 h2 e2 where s: "silence_check c1 ?h2 = (c2, h2, e2)" by (cases "silence_check c1 ?h2")
  have "c2 = c'" "e = e1 @ e2" using assms r s by (auto simp: complete_interval_def Let_def case_prod_beta)
  moreover have "flags ?c0 = flags c" by (simp add: flags_def)
  ultimately show ?thesis using once_rate [OF r] once_silence [OF s] by (simp add: once_append)
qed

lemma once_loop:
  "roll_loop now c h es = (c', h', es') \<Longrightarrow> once_per_window rs es = Some (flags c) \<Longrightarrow> once_per_window rs es' = Some (flags c')"
proof (induction now c h es rule: roll_loop.induct)
  case (1 now c h es)
  show ?case
  proof (cases "now \<ge> interval_start c + INTERVAL_MS")
    case True
    obtain c1 h1 e1 where ci: "complete_interval c h = (c1, h1, e1)" by (cases "complete_interval c h")
    have l: "roll_loop now c1 h1 (es @ e1) = (c', h', es')"
      using "1.prems"(1) True ci by (subst (asm) roll_loop.simps) (simp add: Let_def)
    from "1.IH" [OF True refl, unfolded ci fst_conv snd_conv, OF l] "1.prems"(2) once_interval [OF ci]
    show ?thesis by (simp add: once_append)
  next
    case False
    then show ?thesis using "1.prems" by (subst (asm) roll_loop.simps) (auto simp: Let_def)
  qed
qed

lemma once_roll:
  assumes "roll_intervals now h = (h', es)"
  shows "once_per_window (open_flags h) es = Some (open_flags h')"
proof (cases "current h")
  case None
  with assms show ?thesis by (simp add: roll_intervals_def)
next
  case (Some c)
  obtain c' h1 e where r: "roll_loop now c h [] = (c', h1, e)" by (cases "roll_loop now c h []")
  then show ?thesis
    using assms once_loop [OF r, of "flags c"] Some by (auto simp: roll_intervals_def open_flags_def)
qed

lemma once_churn: "once_per_window rs (snd (churn_check t now h)) = Some rs"
  by (cases rs) (simp add: churn_check_def record_anomaly_def Let_def)

lemma open_flags_new: "open_flags (h \<lparr> current := Some (open_window t now) \<rparr>) = (False, False)"
  by (simp add: open_flags_def flags_def open_window_def)

lemma once_close:
  assumes "close_current now rtt h = (h', w)"
  shows "once_per_window (open_flags h) (closed_events w) = Some (False, False)"
  using assms by (auto simp: close_current_def closed_events_def open_flags_def Let_def split: option.splits)

lemma open_flags_churn [simp]: "open_flags (fst (churn_check t now h)) = open_flags h"
  by (simp add: open_flags_def)

lemma once_feed:
  assumes "h_finished h \<longrightarrow> current h = None" "feed c h = (h', es)"
  shows "once_per_window (open_flags h) es = Some (open_flags h')"
proof (cases c)
  case (OnTier u now rtt)
  let ?h = "start_if_unset now (fresh_if_finished h)"
  have same: "open_flags ?h = open_flags h"
    using assms(1) by (auto simp: open_flags_def start_if_unset_def fresh_if_finished_def tracker_new_def split: option.split)
  show ?thesis
  proof (cases "current ?h")
    case None
    then have "open_flags ?h = (False, False)" by (simp add: open_flags_def)
    with None OnTier assms(2) same show ?thesis by (auto simp: on_tier_def Let_def open_flags_new)
  next
    case (Some cur)
    obtain h1 e1 where r: "roll_intervals now ?h = (h1, e1)" by fastforce
    obtain h2 w where cl: "close_current now rtt h1 = (h2, w)" by fastforce
    show ?thesis
    proof (cases "c_tier cur = u")
      case True
      with Some OnTier assms(2) r once_roll [OF r] same show ?thesis by (simp add: on_tier_def Let_def)
    next
      case False
      have "es = e1 @ closed_events w @ snd (churn_check u now (h2 \<lparr> current := Some (open_window u now) \<rparr>))"
        and "h' = fst (churn_check u now (h2 \<lparr> current := Some (open_window u now) \<rparr>))"
        using False Some OnTier assms(2) r cl by (auto simp: on_tier_def Let_def case_prod_beta)
      with once_roll [OF r] once_close [OF cl] same show ?thesis
        by (simp add: once_append once_churn open_flags_new)
    qed
  qed
next
  case (OnSignals n now)
  let ?h1 = "if current h = None then (start_if_unset now h) \<lparr> current := Some (open_window Poll now) \<rparr> else h"
  obtain h2 e where r: "roll_intervals now ?h1 = (h2, e)" by fastforce
  have "open_flags ?h1 = open_flags h" by (auto simp: open_flags_new) (simp add: open_flags_def)
  moreover have "open_flags (add_signals n h2) = open_flags h2"
    by (simp add: open_flags_def add_signals_def flags_def split: option.split)
  ultimately show ?thesis using OnSignals assms(2) r once_roll [OF r] by (auto simp: on_signals_def Let_def split: if_splits)
next
  case (OnTick now)
  with assms(2) once_roll [of now h] show ?thesis by (auto simp: on_tick_def split: if_splits)
next
  case (RollIfDue now rtt)
  show ?thesis
  proof (cases "h_finished h \<or> current h = None")
    case True
    with RollIfDue assms(2) show ?thesis by (auto simp: roll_if_due_def split: option.splits)
  next
    case False
    then obtain cur where cur: "current h = Some cur" by auto
    obtain h1 e1 where r: "roll_intervals now h = (h1, e1)" by fastforce
    obtain h2 w where cl: "close_current now rtt h1 = (h2, w)" by fastforce
    from False RollIfDue assms(2) cur r cl once_roll [OF r] once_close [OF cl] show ?thesis
      by (auto simp: roll_if_due_def Let_def once_append open_flags_new split: if_splits)
  qed
next
  case (OnEdit now)
  with assms(2) show ?thesis by (auto simp: on_subscription_edit_def open_flags_def)
qed


lemma close_fields [simp]:
  "h_finished (fst (close_current now rtt h)) = h_finished h" "h_started (fst (close_current now rtt h)) = h_started h"
  by (simp_all add: close_current_def Let_def split: option.split)

lemma roll_finished [simp]: "h_finished (fst (roll_intervals now h)) = h_finished h"
proof (cases "current h")
  case (Some c)
  obtain c' h1 e where r: "roll_loop now c h [] = (c', h1, e)" by (cases "roll_loop now c h []")
  then show ?thesis using roll_loop_fields [OF r] by (simp add: roll_intervals_def Some)
qed (simp add: roll_intervals_def)

lemma start_finished [simp]: "h_finished (start_if_unset now h) = h_finished h"
  by (simp add: start_if_unset_def split: option.split)

lemma feed_finished: "\<not> h_finished h \<Longrightarrow> \<not> h_finished (fst (feed c h))"
  by (cases c) (simp_all add: on_tier_def on_signals_def on_tick_def roll_if_due_def on_subscription_edit_def add_signals_def
      fresh_if_finished_def Let_def case_prod_beta split: option.split)

lemma once_feed_all:
  "\<not> h_finished h \<Longrightarrow> feed_all cs h = (h', es) \<Longrightarrow> once_per_window (open_flags h) es = Some (open_flags h')"
proof (induction cs arbitrary: h es)
  case (Cons c cs)
  obtain h1 e1 where c: "feed c h = (h1, e1)" by fastforce
  obtain e2 where cs: "feed_all cs h1 = (h', e2)" "es = e1 @ e2"
    using Cons.prems(2) c by (cases "feed_all cs h1") auto
  have "\<not> h_finished h1" using feed_finished [OF Cons.prems(1), of c] c by simp
  from Cons.IH [OF this cs(1)] once_feed [OF _ c] Cons.prems(1) show ?case by (simp add: cs(2) once_append)
qed simp

text \<open>Each anomaly is reported at most once per window. In the events of any calls, at any times, between
  two closed windows there is at most one report of a degraded rate and at most one of a silent tier,
  and what is still unreported is what the flags of the open window say.
\<close>

theorem anomalies_once_per_window:
  assumes "feed_all cs tracker_new = (h, es)"
  shows "once_per_window (False, False) es = Some (open_flags h)"
  using once_feed_all [OF _ assms] by (simp add: tracker_new_def open_flags_def)

section \<open>A concrete session\<close>

definition demo_calls :: "Call list" where
  "demo_calls = [OnSignals 3 1000, OnSignals 2 7000, OnTier UdsStream 9000 None, OnTick 21000]"

lemmas health_eval =
  tracker_new_def on_signals_def on_tier_def on_tick_def start_if_unset_def fresh_if_finished_def roll_intervals_def
  roll_loop.simps complete_interval_def rate_check_def silence_check_def record_anomaly_def open_window_def add_signals_def
  close_current_def close_window_def closed_events_def churn_check_def finish_session_def INTERVAL_MS_def
  CHURN_WINDOW_MS_def CHURN_SWITCHES_def engaged_def Let_def


theorem anomalies_once_per_window_witness:
  "once_per_window (False, False) (snd (feed_all demo_calls tracker_new)) = Some (open_flags (fst (feed_all demo_calls tracker_new)))"
  using anomalies_once_per_window [of demo_calls] by (cases "feed_all demo_calls tracker_new") simp

definition demo_engaged :: HealthTracker where
  "demo_engaged = tracker_new \<lparr> h_started := Some 1000, current := Some (open_window UdsStream 9000), ever_window_with_signals := True \<rparr>"

theorem dead_stream_reported_witness:
  "silence_reported (snd (feed_all [OnTick 10000, OnTick 15000, OnTick 19500] demo_engaged))"
proof -
  obtain h' es where f: "feed_all (map OnTick [10000, 15000] @ [OnTick 19500]) demo_engaged = (h', es)" by fastforce
  have "silence_reported es"
    by (rule dead_stream_reported [where t = UdsStream and start = 9000, OF _ _ _ _ _ f])
       (simp_all add: demo_engaged_def tracker_new_def engaged_def INTERVAL_MS_def)
  with f show ?thesis by simp
qed

text \<open>
  What happens before \<open>reset_for_connected\<close> is not dropped when a window was closed already: the
  summary still counts its signals, with a start time behind them.
\<close>

lemma reset_keeps_closed_windows:
  "case snd (finish_session 80000 None (reset_for_connected 70000
       (fst (feed_all [OnSignals 3 1000, OnSignals 1 61500, RollIfDue 62000 None] tracker_new)))) of
     None \<Rightarrow> False
   | Some (events, s) \<Rightarrow> s_started s = 70000 \<and> s_total_signals s = 4 \<and> map w_start (s_windows s) = [1000, 70000]"
  by (simp add: health_eval reset_for_connected_def roll_if_due_def MAX_WINDOW_MS_def)

end
