(* ===== verification/PeriodicStream.thy ===== *)
theory PeriodicStream
  imports Addressing
begin

text \<open>
  The pure part of UDS periodic streaming (\<^verbatim>\<open>src/periodic_stream.rs\<close>): which signals can stream, how
  they are packed into the periodic DIDs of a platform profile, how a refused record is taken out
  again, and how a received frame is sliced back into the signals. The profile file is JSON; its
  parsing is not modelled, a profile is a record.

  What the vehicle does is ISO 14229 as the comments of the code cite it, and is stated where it is
  used: a dynamic DID is the concatenation of the accepted records in the order of their definition.
\<close>

definition SLOT_DATA_BYTES :: nat where "SLOT_DATA_BYTES = 7"

record StreamProfile =
  sp_name :: string
  sp_target :: string
  response_ids :: "string list"
  slot_count :: nat
  rate_mode :: u8
  keepalive_interval_ms :: nat
  keepalive_settle_ms :: nat

definition source_did :: "string \<Rightarrow> string option" where
  "source_did pid =
     (let p = to_uppercase (trim pid)
      in if length p = 6 \<and> starts_with p ''22'' \<and> list_all is_hexdigit (drop 2 p) then Some (drop 2 p)
         else if length p = 4 \<and> starts_with p ''01'' \<and> list_all is_hexdigit (drop 2 p) then Some (''F4'' @ drop 2 p)
         else None)"

record PackedSignal =
  ps_pid :: string
  ps_offset :: nat
  ps_len :: nat

type_synonym unpack_map = "u8 \<Rightarrow> PackedSignal list option"

record DefineSet =
  define_commands :: "string list"
  record_pids :: "(u8 \<times> string) list"
  start_command :: string
  unpack :: unpack_map
  slots_used :: nat
  dropped :: "string list"

datatype BuildDefinesError =
    Unmappable string
  | UnknownLength string
  | TooWide string
  | CapacityExceeded nat nat
  | MixedTarget

type_synonym signal = "string \<times> u8 \<times> string option"

text \<open>One target per session: every explicit target must agree with the others and with the profile.\<close>

fun targets_agree :: "string option \<Rightarrow> signal list \<Rightarrow> string option option" where
  "targets_agree seen [] = Some seen"
| "targets_agree seen ((pid, l, None) # ss) = targets_agree seen ss"
| "targets_agree seen ((pid, l, Some t) # ss) =
     (case seen of
        None \<Rightarrow> targets_agree (Some (to_uppercase t)) ss
      | Some prev \<Rightarrow> if prev = to_uppercase t then targets_agree seen ss else None)"

record Packing =
  pk_commands :: "string list"
  pk_records :: "(u8 \<times> string) list"
  pk_unpack :: unpack_map
  pk_dropped :: "string list"
  pk_fill :: "nat list"

definition define_command :: "nat \<Rightarrow> string \<Rightarrow> nat \<Rightarrow> string" where
  "define_command slot src len = ''2C01F2'' @ fmt02X slot @ src @ ''01'' @ fmt02X len"

text \<open>One signal: dropped, or appended to the lowest slot that has room for it.\<close>

definition pack_signal :: "nat \<Rightarrow> Packing \<Rightarrow> signal \<Rightarrow> Packing" where
  "pack_signal slots k sig =
     (let (pid, l, t) = sig; len = unat l; up = to_uppercase pid in
      if len = 0 \<or> len > SLOT_DATA_BYTES \<or> source_did pid = None then k \<lparr> pk_dropped := pk_dropped k @ [up] \<rparr>
      else (case find (\<lambda>s. pk_fill k ! s + len \<le> SLOT_DATA_BYTES) [0..<slots] of
          None \<Rightarrow> k \<lparr> pk_dropped := pk_dropped k @ [up] \<rparr>
        | Some slot \<Rightarrow>
            (let key = of_nat slot;
                 old = (case pk_unpack k key of None \<Rightarrow> [] | Some ps \<Rightarrow> ps)
             in k \<lparr> pk_commands := pk_commands k @ [define_command slot (the (source_did pid)) len],
                    pk_unpack := (pk_unpack k)(key \<mapsto> old @ [\<lparr> ps_pid = up, ps_offset = pk_fill k ! slot, ps_len = len \<rparr>]),
                    pk_records := pk_records k @ [(key, up)],
                    pk_fill := (pk_fill k)[slot := pk_fill k ! slot + len] \<rparr>)))"

definition packing_new :: "nat \<Rightarrow> Packing" where
  "packing_new slots = \<lparr> pk_commands = [], pk_records = [], pk_unpack = Map.empty, pk_dropped = [], pk_fill = replicate slots 0 \<rparr>"

definition build_defines :: "signal list \<Rightarrow> StreamProfile \<Rightarrow> (BuildDefinesError, DefineSet) outcome" where
  "build_defines signals prof =
     (case targets_agree None signals of
        None \<Rightarrow> Err MixedTarget
      | Some seen \<Rightarrow>
          if (case seen of None \<Rightarrow> False | Some t \<Rightarrow> t \<noteq> sp_target prof) then Err MixedTarget
          else
            (let k = foldl (pack_signal (slot_count prof)) (packing_new (slot_count prof)) signals;
                 used = length (filter (\<lambda>f. f > 0) (pk_fill k))
             in Ok \<lparr> define_commands = pk_commands k, record_pids = pk_records k,
                     start_command = ''2A'' @ fmt02X (unat (rate_mode prof)) @ concat (map fmt02X [0..<used]),
                     unpack = pk_unpack k, slots_used = used, dropped = pk_dropped k \<rparr>))"

fun position :: "('a \<Rightarrow> bool) \<Rightarrow> 'a list \<Rightarrow> nat option" where
  "position p [] = None"
| "position p (x # xs) = (if p x then Some 0 else map_option Suc (position p xs))"

definition drop_refused :: "unpack_map \<Rightarrow> u8 \<Rightarrow> string \<Rightarrow> unpack_map \<times> bool" where
  "drop_refused um slot pid =
     (case um slot of
        None \<Rightarrow> (um, False)
      | Some signals \<Rightarrow>
          (case position (\<lambda>s. ps_pid s = pid) signals of
             None \<Rightarrow> (um, False)
           | Some i \<Rightarrow>
               (let removed = signals ! i;
                    rest = take i signals @ drop (i + 1) signals;
                    moved = map (\<lambda>s. if ps_offset s > ps_offset removed then s \<lparr> ps_offset := ps_offset s - ps_len removed \<rparr> else s) rest
                in (if moved = [] then um(slot := None) else um(slot \<mapsto> moved), True))))"

definition slice :: "u8 list \<Rightarrow> PackedSignal \<Rightarrow> (string \<times> u8 list) option" where
  "slice payload s =
     (if ps_offset s + ps_len s \<le> length payload then Some (ps_pid s, take (ps_len s) (drop (ps_offset s) payload)) else None)"

definition decode_periodic_frame :: "string \<Rightarrow> u8 list \<Rightarrow> string list \<Rightarrow> unpack_map \<Rightarrow> (string \<times> u8 list) list" where
  "decode_periodic_frame ident payload ids um =
     (if \<not> list_ex (\<lambda>r. r = ident) ids then []
      else (case payload of
          [] \<Rightarrow> []
        | did # rest \<Rightarrow> (case um did of None \<Rightarrow> [] | Some signals \<Rightarrow> List.map_filter (slice rest) signals)))"

definition decode_periodic_line :: "string \<Rightarrow> string list \<Rightarrow> unpack_map \<Rightarrow> (string \<times> u8 list) list" where
  "decode_periodic_line line ids um =
     (let tokens = split_whitespace line in
      if length tokens < 2 then []
      else (let bytes = List.map_filter u8_from_hex (tl tokens)
            in if length bytes + 1 \<noteq> length tokens then []
               else decode_periodic_frame (to_uppercase (hd tokens)) bytes ids um))"

subsection \<open>The layout of a slot\<close>

text \<open>The records of the stream are kept as \<^verbatim>\<open>(slot, pid, length)\<close> in the order of their definition. The unpack map
  the code maintains is a function of that list.\<close>

type_synonym stream_record = "u8 \<times> string \<times> nat"

fun layout :: "nat \<Rightarrow> (string \<times> nat) list \<Rightarrow> PackedSignal list" where
  "layout ofs [] = []"
| "layout ofs ((p, l) # rs) = \<lparr> ps_pid = p, ps_offset = ofs, ps_len = l \<rparr> # layout (ofs + l) rs"

definition in_slot :: "u8 \<Rightarrow> stream_record list \<Rightarrow> (string \<times> nat) list" where
  "in_slot s rs = map snd (filter (\<lambda>r. fst r = s) rs)"

definition laid_out :: "stream_record list \<Rightarrow> unpack_map" where
  "laid_out rs = (\<lambda>s. if in_slot s rs = [] then None else Some (layout 0 (in_slot s rs)))"

lemma layout_append: "layout n (xs @ ys) = layout n xs @ layout (n + sum_list (map snd xs)) ys"
  by (induction xs arbitrary: n) (auto simp: add.assoc)

lemma layout_length [simp]: "length (layout n xs) = length xs"
  by (induction xs arbitrary: n) auto

lemma layout_empty [simp]: "layout n xs = [] \<longleftrightarrow> xs = []"
  by (cases xs) auto

lemma layout_offsets: "s \<in> set (layout n xs) \<Longrightarrow> n \<le> ps_offset s \<and> ps_offset s + ps_len s \<le> n + sum_list (map snd xs) \<and> (ps_pid s, ps_len s) \<in> set xs"
proof (induction xs arbitrary: n)
  case (Cons x xs)
  then show ?case by (cases x) (fastforce dest: Cons.IH)
qed simp

text \<open>Closing the gap a refused record leaves gives the layout of the records that remain.\<close>

lemma layout_shift:
  "m < n \<Longrightarrow> d \<le> n - m \<Longrightarrow>
   map (\<lambda>s. if ps_offset s > m then s \<lparr> ps_offset := ps_offset s - d \<rparr> else s) (layout n xs) = layout (n - d) xs"
proof (induction xs arbitrary: n)
  case (Cons x xs)
  then show ?case by (cases x) auto
qed simp

lemma layout_before:
  assumes "\<forall>x \<in> set xs. 0 < snd x" "m = n + sum_list (map snd xs)"
  shows "map (\<lambda>s. if ps_offset s > m then s \<lparr> ps_offset := ps_offset s - d \<rparr> else s) (layout n xs) = layout n xs"
proof (rule map_idI)
  fix s assume "s \<in> set (layout n xs)"
  then have "ps_offset s + ps_len s \<le> m" using layout_offsets assms(2) by blast
  then show "(if ps_offset s > m then s \<lparr> ps_offset := ps_offset s - d \<rparr> else s) = s" by simp
qed

lemma map_option_plus_0: "map_option ((+) (0 :: nat)) x = x"
  by (cases x) auto

lemma position_append_none: "\<forall>x \<in> set xs. \<not> p x \<Longrightarrow> position p (xs @ ys) = map_option (\<lambda>i. length xs + i) (position p ys)"
proof (induction xs)
  case (Cons x xs)
  then show ?case by (cases "position p ys") simp_all
qed (simp add: map_option_plus_0)

lemma drop_refused_layout:
  assumes um: "um slot = Some (layout 0 (xs @ (p, l) # ys))"
    and pos: "\<forall>x \<in> set (xs @ (p, l) # ys). 0 < snd x"
    and p: "p \<notin> fst ` set xs"
  shows "drop_refused um slot p = (um(slot := if xs @ ys = [] then None else Some (layout 0 (xs @ ys))), True)"
proof -
  let ?o = "sum_list (map snd xs)"
  have lay: "layout 0 (xs @ (p, l) # ys) = layout 0 xs @ \<lparr> ps_pid = p, ps_offset = ?o, ps_len = l \<rparr> # layout (?o + l) ys"
    by (simp add: layout_append)
  have "\<forall>s \<in> set (layout 0 xs). ps_pid s \<noteq> p"
    using layout_offsets p by force
  then have i: "position (\<lambda>s. ps_pid s = p) (layout 0 (xs @ (p, l) # ys)) = Some (length xs)"
    unfolding lay by (simp add: position_append_none)
  have at: "layout 0 (xs @ (p, l) # ys) ! length xs = \<lparr> ps_pid = p, ps_offset = ?o, ps_len = l \<rparr>"
    unfolding lay by (simp add: nth_append)
  have rest: "take (length xs) (layout 0 (xs @ (p, l) # ys)) @ drop (length xs + 1) (layout 0 (xs @ (p, l) # ys))
      = layout 0 xs @ layout (?o + l) ys"
    unfolding lay by simp
  have moved: "map (\<lambda>s. if ps_offset s > ?o then s \<lparr> ps_offset := ps_offset s - l \<rparr> else s) (layout 0 xs @ layout (?o + l) ys)
      = layout 0 (xs @ ys)"
    using pos layout_before [of xs ?o 0 l] layout_shift [of ?o "?o + l" l ys] by (simp add: layout_append)
  show ?thesis
    unfolding drop_refused_def um option.case i Let_def at rest
    by (auto simp only: PackedSignal.simps moved layout_empty split: if_splits)
qed

lemma in_slot_append: "in_slot s (xs @ ys) = in_slot s xs @ in_slot s ys"
  by (simp add: in_slot_def)

lemma drop_refused_laid_out:
  assumes r: "(slot, p, l) \<in> set rs" and pos: "\<forall>x \<in> set rs. 0 < snd (snd x)"
    and d: "distinct (map (\<lambda>r. fst (snd r)) rs)"
  shows "drop_refused (laid_out rs) slot p = (laid_out (filter (\<lambda>x. \<not> (fst x = slot \<and> fst (snd x) = p)) rs), True)"
proof -
  obtain xs ys where rs: "rs = xs @ (slot, p, l) # ys" using r by (metis split_list)
  let ?keep = "\<lambda>x :: stream_record. \<not> (fst x = slot \<and> fst (snd x) = p)"
  have xs: "p \<notin> (\<lambda>r. fst (snd r)) ` set xs" and ys: "p \<notin> (\<lambda>r. fst (snd r)) ` set ys"
    using d by (auto simp: rs)
  have "filter ?keep xs = xs" "filter ?keep ys = ys" using xs ys by (auto simp: filter_id_conv)
  then have kept: "filter ?keep rs = xs @ ys" by (simp add: rs)
  have at: "in_slot slot rs = in_slot slot xs @ (p, l) # in_slot slot ys"
    by (simp add: rs in_slot_def)
  have lo: "laid_out rs slot = Some (layout 0 (in_slot slot xs @ (p, l) # in_slot slot ys))"
    by (simp add: laid_out_def at)
  have ps: "\<forall>x \<in> set (in_slot slot xs @ (p, l) # in_slot slot ys). 0 < snd x"
    using pos by (force simp: rs in_slot_def)
  have np: "p \<notin> fst ` set (in_slot slot xs)" using xs by (force simp: in_slot_def)
  have other: "in_slot s rs = in_slot s (xs @ ys)" if "s \<noteq> slot" for s using that by (simp add: rs in_slot_def)
  have "(laid_out rs)(slot := if in_slot slot xs @ in_slot slot ys = [] then None else Some (layout 0 (in_slot slot xs @ in_slot slot ys)))
      = laid_out (xs @ ys)"
    by (rule ext) (auto simp: laid_out_def in_slot_append other)
  then show ?thesis using drop_refused_layout [of "laid_out rs", OF lo ps np] kept by simp
qed

subsection \<open>What packing builds\<close>

text \<open>The state of the packing loop, as the list of the records accepted so far.\<close>

definition slot_fill :: "stream_record list \<Rightarrow> nat \<Rightarrow> nat" where
  "slot_fill rs s = sum_list (map snd (in_slot (of_nat s) rs))"

definition packs :: "nat \<Rightarrow> Packing \<Rightarrow> stream_record list \<Rightarrow> bool" where
  "packs slots k rs \<longleftrightarrow>
     pk_fill k = map (slot_fill rs) [0..<slots] \<and> pk_unpack k = laid_out rs \<and>
     pk_records k = map (\<lambda>r. (fst r, fst (snd r))) rs \<and>
     pk_commands k = map (\<lambda>r. define_command (unat (fst r)) (the (source_did (fst (snd r)))) (snd (snd r))) rs \<and>
     (\<forall>r \<in> set rs. unat (fst r) < slots \<and> 0 < snd (snd r)) \<and>
     (\<forall>s < slots. slot_fill rs s \<le> SLOT_DATA_BYTES) \<and>
     (\<forall>s < slots. \<forall>t < s. 0 < slot_fill rs s \<longrightarrow> 0 < slot_fill rs t)"

lemma slot_key: "s < slots \<Longrightarrow> slots \<le> 256 \<Longrightarrow> unat (of_nat s :: u8) = s"
  by (simp add: unat_of_nat)

lemma slot_key_eq: "s < slots \<Longrightarrow> t < slots \<Longrightarrow> slots \<le> 256 \<Longrightarrow> (of_nat s :: u8) = of_nat t \<longleftrightarrow> s = t"
  using slot_key by metis

lemma slot_fill_snoc:
  "s < slots \<Longrightarrow> t < slots \<Longrightarrow> slots \<le> 256 \<Longrightarrow>
   slot_fill (rs @ [(of_nat s, p, l)]) t = slot_fill rs t + (if t = s then l else 0)"
  by (auto simp: slot_fill_def in_slot_def slot_key_eq)

lemma laid_out_snoc:
  "laid_out (rs @ [(of_nat s, p, l)]) =
   (laid_out rs)(of_nat s \<mapsto> (case laid_out rs (of_nat s) of None \<Rightarrow> [] | Some ps \<Rightarrow> ps) @ [\<lparr> ps_pid = p, ps_offset = slot_fill rs s, ps_len = l \<rparr>])"
  by (rule ext) (auto simp: laid_out_def in_slot_append in_slot_def layout_append slot_fill_def)

lemma packs_new: "packs slots (packing_new slots) []"
  by (auto simp: packs_def packing_new_def laid_out_def in_slot_def slot_fill_def intro!: nth_equalityI)

definition packable :: "signal \<Rightarrow> bool" where
  "packable sig \<longleftrightarrow> 0 < unat (fst (snd sig)) \<and> unat (fst (snd sig)) \<le> SLOT_DATA_BYTES \<and> source_did (fst sig) \<noteq> None"

lemma not_packable:
  "\<not> packable sig \<longleftrightarrow> unat (fst (snd sig)) = 0 \<or> unat (fst (snd sig)) > SLOT_DATA_BYTES \<or> source_did (fst sig) = None"
  by (auto simp: packable_def)

lemma pack_signal_cases:
  assumes k: "packs slots k rs" and slots: "slots \<le> 256"
  obtains (dropped) "pack_signal slots k sig = k \<lparr> pk_dropped := pk_dropped k @ [to_uppercase (fst sig)] \<rparr>"
      "\<not> packable sig \<or> (\<forall>s < slots. SLOT_DATA_BYTES < slot_fill rs s + unat (fst (snd sig)))"
  | (packed) s where "s < slots" "packable sig" "pk_dropped (pack_signal slots k sig) = pk_dropped k"
      "packs slots (pack_signal slots k sig) (rs @ [(of_nat s, to_uppercase (fst sig), unat (fst (snd sig)))])"
proof -
  obtain pid l t where sig: "sig = (pid, l, t)" by (metis prod.exhaust)
  let ?len = "unat l" and ?up = "to_uppercase pid"
  have fill: "pk_fill k ! s = slot_fill rs s" if "s < slots" for s using k that by (simp add: packs_def)
  show thesis
  proof (cases "packable sig")
    case False
    then show thesis by (intro dropped) (auto simp: pack_signal_def packable_def sig)
  next
    case True
    then have ok: "\<not> (?len = 0 \<or> ?len > SLOT_DATA_BYTES \<or> source_did pid = None)" by (auto simp: packable_def sig)
    show thesis
    proof (cases "find (\<lambda>s. pk_fill k ! s + ?len \<le> SLOT_DATA_BYTES) [0..<slots]")
      case None
      then have "\<forall>s < slots. SLOT_DATA_BYTES < slot_fill rs s + ?len" using fill by (auto simp: find_None_iff not_le)
      then show thesis using ok None by (intro dropped) (auto simp: pack_signal_def sig)
    next
      case (Some s)
      then have s: "s < slots" and room: "slot_fill rs s + ?len \<le> SLOT_DATA_BYTES"
          and lowest: "\<And>t. t < s \<Longrightarrow> SLOT_DATA_BYTES < slot_fill rs t + ?len"
        using fill by (auto simp: find_Some_iff not_le)
      let ?rs = "rs @ [(of_nat s, ?up, ?len)]"
      have step: "pack_signal slots k sig = k \<lparr> pk_commands := pk_commands k @ [define_command s (the (source_did pid)) ?len],
          pk_unpack := laid_out ?rs, pk_records := pk_records k @ [(of_nat s, ?up)], pk_fill := (pk_fill k)[s := slot_fill rs s + ?len] \<rparr>"
        using k fill [OF s] unfolding pack_signal_def sig Let_def prod.case if_not_P [OF ok] Some option.case
        by (simp only: laid_out_snoc packs_def)
      have "(pk_fill k)[s := slot_fill rs s + ?len] = map (slot_fill ?rs) [0..<slots]"
        using k s slots by (intro nth_equalityI) (auto simp: packs_def slot_fill_snoc nth_list_update)
      moreover have "\<forall>t < slots. slot_fill ?rs t \<le> SLOT_DATA_BYTES"
        using k s slots room by (auto simp: packs_def slot_fill_snoc)
      moreover have "0 < slot_fill ?rs u" if "t < slots" "u < t" "0 < slot_fill ?rs t" for t u
        using k s slots that lowest [of u] ok by (auto simp: packs_def slot_fill_snoc split: if_splits)
      moreover have "source_did ?up = source_did pid"
        by (simp add: source_did_def trim_upper)
      ultimately have "packs slots (pack_signal slots k sig) ?rs"
        using k s slots ok unfolding packs_def step by (auto simp: slot_key)
      moreover have "pk_dropped (pack_signal slots k sig) = pk_dropped k" unfolding step by simp
      ultimately show thesis using s True by (intro packed) (auto simp: sig)
    qed
  qed
qed

lemma packs_fold:
  assumes "packs slots k rs" "slots \<le> 256"
  shows "\<exists>rs' ds. packs slots (foldl (pack_signal slots) k sigs) (rs @ rs') \<and>
      pk_dropped (foldl (pack_signal slots) k sigs) = pk_dropped k @ ds \<and>
      mset (map (\<lambda>r. fst (snd r)) rs') + mset ds = mset (map (\<lambda>sig. to_uppercase (fst sig)) sigs) \<and>
      (\<forall>r \<in> set rs'. \<exists>sig \<in> set sigs. snd r = (to_uppercase (fst sig), unat (fst (snd sig)))) \<and>
      (\<forall>p \<in> set ds. \<exists>sig \<in> set sigs. p = to_uppercase (fst sig) \<and>
         (\<not> packable sig \<or> (\<forall>s < slots. SLOT_DATA_BYTES < slot_fill (rs @ rs') s + unat (fst (snd sig)))))"
  using assms
proof (induction sigs arbitrary: k rs)
  case Nil
  then show ?case by (intro exI [of _ "[]"]) simp
next
  case (Cons sig sigs)
  from Cons.prems show ?case
  proof (cases rule: pack_signal_cases [where sig = sig])
    case dropped
    let ?k = "pack_signal slots k sig"
    have "packs slots ?k rs" using Cons.prems(1) dropped(1) by (simp add: packs_def)
    from Cons.IH [OF this Cons.prems(2)] obtain rs' ds where
      1: "packs slots (foldl (pack_signal slots) ?k sigs) (rs @ rs')" and
      2: "pk_dropped (foldl (pack_signal slots) ?k sigs) = pk_dropped ?k @ ds" and
      3: "mset (map (\<lambda>r. fst (snd r)) rs') + mset ds = mset (map (\<lambda>sig. to_uppercase (fst sig)) sigs)" and
      4: "\<forall>r \<in> set rs'. \<exists>sig \<in> set sigs. snd r = (to_uppercase (fst sig), unat (fst (snd sig)))" and
      5: "\<forall>p \<in> set ds. \<exists>sig \<in> set sigs. p = to_uppercase (fst sig) \<and>
         (\<not> packable sig \<or> (\<forall>s < slots. SLOT_DATA_BYTES < slot_fill (rs @ rs') s + unat (fst (snd sig))))" by blast
    have grow: "slot_fill rs s \<le> slot_fill (rs @ rs') s" for s by (simp add: slot_fill_def in_slot_append)
    have "\<not> packable sig \<or> (\<forall>s < slots. SLOT_DATA_BYTES < slot_fill (rs @ rs') s + unat (fst (snd sig)))"
      using dropped(2) grow by (meson add_le_mono1 less_le_trans)
    then show ?thesis using 1 2 3 4 5 dropped(1)
      by (intro exI [of _ rs'] exI [of _ "to_uppercase (fst sig) # ds"] conjI) auto
  next
    case (packed s)
    let ?k = "pack_signal slots k sig" and ?r = "(of_nat s :: u8, to_uppercase (fst sig), unat (fst (snd sig)))"
    from Cons.IH [OF packed(4) Cons.prems(2)] obtain rs' ds where
      1: "packs slots (foldl (pack_signal slots) ?k sigs) (rs @ ?r # rs')" and
      2: "pk_dropped (foldl (pack_signal slots) ?k sigs) = pk_dropped ?k @ ds" and
      3: "mset (map (\<lambda>r. fst (snd r)) rs') + mset ds = mset (map (\<lambda>sig. to_uppercase (fst sig)) sigs)" and
      4: "\<forall>r \<in> set rs'. \<exists>sig \<in> set sigs. snd r = (to_uppercase (fst sig), unat (fst (snd sig)))" and
      5: "\<forall>p \<in> set ds. \<exists>sig \<in> set sigs. p = to_uppercase (fst sig) \<and>
         (\<not> packable sig \<or> (\<forall>s < slots. SLOT_DATA_BYTES < slot_fill (rs @ ?r # rs') s + unat (fst (snd sig))))" by auto
    then show ?thesis using packed(3)
      by (intro exI [of _ "?r # rs'"] exI [of _ ds] conjI) auto
  qed
qed

lemma packing_new_dropped: "pk_dropped (packing_new n) = []"
  by (simp add: packing_new_def)

lemma used_prefix:
  assumes "\<forall>s < n. \<forall>t < s. 0 < f s \<longrightarrow> 0 < (f t :: nat)" "s < n"
  shows "0 < f s \<longleftrightarrow> s < length (filter (\<lambda>x. x > 0) (map f [0..<n]))"
  using assms
proof (induction n)
  case (Suc n)
  have pre: "\<forall>s < n. \<forall>t < s. 0 < f s \<longrightarrow> 0 < f t" using Suc.prems by (meson less_SucI)
  have short: "length (filter (\<lambda>x. x > 0) (map f [0..<n])) \<le> n"
    using length_filter_le [of "\<lambda>x. x > 0" "map f [0..<n]"] by simp
  show ?case
  proof (cases "0 < f n")
    case True
    then have "\<forall>t < n. 0 < f t" using Suc.prems(1) by blast
    then have "filter (\<lambda>x. x > 0) (map f [0..<n]) = map f [0..<n]" by (simp add: filter_id_conv)
    then show ?thesis using True Suc.prems(2) \<open>\<forall>t < n. 0 < f t\<close> by (auto simp: less_Suc_eq)
  next
    case False
    then show ?thesis using Suc.IH [OF pre] Suc.prems(2) short by (cases "s = n") (auto simp: less_Suc_eq)
  qed
qed simp

text \<open>What a successful \<^verbatim>\<open>build_defines\<close> returns, in terms of the accepted records.\<close>

definition defines_of :: "signal list \<Rightarrow> StreamProfile \<Rightarrow> stream_record list \<Rightarrow> DefineSet \<Rightarrow> bool" where
  "defines_of signals prof rs ds \<longleftrightarrow>
     record_pids ds = map (\<lambda>r. (fst r, fst (snd r))) rs \<and> unpack ds = laid_out rs \<and>
     define_commands ds = map (\<lambda>r. define_command (unat (fst r)) (the (source_did (fst (snd r)))) (snd (snd r))) rs \<and>
     (\<forall>r \<in> set rs. unat (fst r) < slot_count prof \<and> 0 < snd (snd r)) \<and>
     (\<forall>s < slot_count prof. slot_fill rs s \<le> SLOT_DATA_BYTES) \<and>
     (\<forall>s < slot_count prof. 0 < slot_fill rs s \<longleftrightarrow> s < slots_used ds) \<and> slots_used ds \<le> slot_count prof \<and>
     mset (map (\<lambda>r. fst (snd r)) rs) + mset (dropped ds) = mset (map (\<lambda>sig. to_uppercase (fst sig)) signals) \<and>
     (\<forall>r \<in> set rs. \<exists>sig \<in> set signals. snd r = (to_uppercase (fst sig), unat (fst (snd sig)))) \<and>
     (\<forall>p \<in> set (dropped ds). \<exists>sig \<in> set signals. p = to_uppercase (fst sig) \<and>
         (\<not> packable sig \<or> (\<forall>s < slot_count prof. SLOT_DATA_BYTES < slot_fill rs s + unat (fst (snd sig)))))"

lemma build_defines_records:
  assumes "build_defines signals prof = Ok ds" "slot_count prof \<le> 256"
  obtains rs where "defines_of signals prof rs ds"
    "start_command ds = ''2A'' @ fmt02X (unat (rate_mode prof)) @ concat (map fmt02X [0..<slots_used ds])"
proof -
  define k where "k = foldl (pack_signal (slot_count prof)) (packing_new (slot_count prof)) signals"
  let ?used = "length (filter (\<lambda>f. f > 0) (pk_fill k))"
  have ds: "ds = \<lparr> define_commands = pk_commands k, record_pids = pk_records k,
      start_command = ''2A'' @ fmt02X (unat (rate_mode prof)) @ concat (map fmt02X [0..<?used]),
      unpack = pk_unpack k, slots_used = ?used, dropped = pk_dropped k \<rparr>"
    using assms(1) unfolding build_defines_def Let_def k_def [symmetric]
    by (cases "targets_agree None signals") (simp_all split: if_splits)
  let ?R = "\<lambda>rs dr. mset (map (\<lambda>r. fst (snd r)) rs) + mset dr = mset (map (\<lambda>sig. to_uppercase (fst sig)) signals) \<and>
      (\<forall>r \<in> set rs. \<exists>sig \<in> set signals. snd r = (to_uppercase (fst sig), unat (fst (snd sig)))) \<and>
      (\<forall>p \<in> set dr. \<exists>sig \<in> set signals. p = to_uppercase (fst sig) \<and>
         (\<not> packable sig \<or> (\<forall>s < slot_count prof. SLOT_DATA_BYTES < slot_fill rs s + unat (fst (snd sig)))))"
  have "\<exists>rs dr. packs (slot_count prof) k rs \<and> pk_dropped k = dr \<and> ?R rs dr"
    using packs_fold [OF packs_new assms(2), of signals] unfolding k_def [symmetric] append_Nil packing_new_dropped .
  then obtain rs where fold: "\<exists>dr. packs (slot_count prof) k rs \<and> pk_dropped k = dr \<and> ?R rs dr" by (rule exE)
  then have k: "packs (slot_count prof) k rs" by (elim exE conjE)
  have rest: "?R rs (pk_dropped k)" using fold by (elim exE) (rule subst [where P = "?R rs"], erule conjunct1 [OF conjunct2, THEN sym], erule conjunct2 [OF conjunct2])
  have fill: "pk_fill k = map (slot_fill rs) [0..<slot_count prof]"
    and down: "\<forall>s < slot_count prof. \<forall>t < s. 0 < slot_fill rs s \<longrightarrow> 0 < slot_fill rs t"
    using k unfolding packs_def by - (elim conjE, assumption)+
  have used: "\<forall>s < slot_count prof. 0 < slot_fill rs s \<longleftrightarrow> s < ?used"
    unfolding fill using used_prefix [OF down] by blast
  have few: "?used \<le> slot_count prof"
    using length_filter_le [of "\<lambda>f. f > 0" "pk_fill k"] by (simp only: fill length_map length_upt diff_zero)
  have "defines_of signals prof rs ds"
    using k rest used few unfolding defines_of_def ds packs_def DefineSet.select_convs by - (elim conjE, intro conjI; assumption)
  then show thesis by (rule that) (simp add: ds)
qed

subsection \<open>Refusals and frames\<close>

definition refusal :: "unpack_map \<Rightarrow> u8 \<times> string \<Rightarrow> unpack_map" where
  "refusal um r = fst (drop_refused um (fst r) (snd r))"

lemma refusals_laid_out:
  assumes "distinct (map (\<lambda>r. fst (snd r)) rs)" "\<forall>r \<in> set rs. 0 < snd (snd r)"
    "distinct refused" "set refused \<subseteq> set (map (\<lambda>r. (fst r, fst (snd r))) rs)"
  shows "foldl refusal (laid_out rs) refused = laid_out (filter (\<lambda>r. (fst r, fst (snd r)) \<notin> set refused) rs)"
  using assms
proof (induction refused arbitrary: rs)
  case (Cons x refused)
  obtain slot p where x: "x = (slot, p)" by (cases x)
  obtain l where l: "(slot, p, l) \<in> set rs" using Cons.prems(4) x by auto
  let ?rs = "filter (\<lambda>r. \<not> (fst r = slot \<and> fst (snd r) = p)) rs"
  have step: "refusal (laid_out rs) x = laid_out ?rs"
    using drop_refused_laid_out [OF l Cons.prems(2,1)] by (simp add: refusal_def x)
  have d: "distinct (map (\<lambda>r. fst (snd r)) ?rs)" using Cons.prems(1) by (rule distinct_map_filter)
  have sub: "set refused \<subseteq> set (map (\<lambda>r. (fst r, fst (snd r))) ?rs)"
  proof
    fix y assume y: "y \<in> set refused"
    then have "y \<noteq> x" using Cons.prems(3) by auto
    moreover obtain r where "r \<in> set rs" "y = (fst r, fst (snd r))" using Cons.prems(4) y by auto
    ultimately show "y \<in> set (map (\<lambda>r. (fst r, fst (snd r))) ?rs)" by (force simp: x)
  qed
  have "foldl refusal (laid_out ?rs) refused = laid_out (filter (\<lambda>r. (fst r, fst (snd r)) \<notin> set refused) ?rs)"
    using Cons.prems(2,3) by (intro Cons.IH d sub) auto
  also have "filter (\<lambda>r. (fst r, fst (snd r)) \<notin> set refused) ?rs = filter (\<lambda>r. (fst r, fst (snd r)) \<notin> set (x # refused)) rs"
    by (auto simp: x intro!: filter_cong)
  finally show ?case by (simp add: step)
qed simp

text \<open>A slot whose bytes are the records one after the other, with anything behind them, gives back every record.\<close>

lemma slice_layout:
  assumes "\<forall>x \<in> set xs. length (data (fst x)) = snd x" "length pre = n"
  shows "List.map_filter (slice (pre @ concat (map (\<lambda>x. data (fst x)) xs) @ tail)) (layout n xs) = map (\<lambda>x. (fst x, data (fst x))) xs"
  using assms
proof (induction xs arbitrary: pre n)
  case (Cons x xs)
  have "List.map_filter (slice ((pre @ data (fst x)) @ concat (map (\<lambda>x. data (fst x)) xs) @ tail)) (layout (n + snd x) xs)
      = map (\<lambda>x. (fst x, data (fst x))) xs"
    using Cons.prems by (intro Cons.IH) auto
  moreover have "slice (pre @ concat (map (\<lambda>x. data (fst x)) (x # xs)) @ tail) \<lparr> ps_pid = fst x, ps_offset = n, ps_len = snd x \<rparr>
      = Some (fst x, data (fst x))"
    using Cons.prems by (auto simp: slice_def)
  ultimately show ?case by (cases x) (simp add: List.map_filter_simps)
qed (simp add: List.map_filter_simps)

text \<open>What ISO 14229 puts in a periodic frame: the periodic identifier, then the accepted records in the order of their
  definition, then whatever the controller appends.\<close>

definition periodic_frame :: "(string \<Rightarrow> u8 list) \<Rightarrow> (u8 \<times> string) list \<Rightarrow> u8 \<Rightarrow> u8 list \<Rightarrow> u8 list" where
  "periodic_frame data accepted slot counters =
     slot # concat (map (\<lambda>r. data (snd r)) (filter (\<lambda>r. fst r = slot) accepted)) @ counters"

lemma decode_laid_out:
  assumes "\<forall>r \<in> set rs. length (data (fst (snd r))) = snd (snd r)" "ident \<in> set ids"
  shows "decode_periodic_frame ident (periodic_frame data (map (\<lambda>r. (fst r, fst (snd r))) rs) slot counters) ids (laid_out rs)
    = map (\<lambda>r. (snd r, data (snd r))) (filter (\<lambda>r. fst r = slot) (map (\<lambda>r. (fst r, fst (snd r))) rs))"
proof -
  have len: "\<forall>x \<in> set (in_slot slot rs). length (data (fst x)) = snd x" using assms(1) by (auto simp: in_slot_def)
  have ids: "list_ex (\<lambda>r. r = ident) ids" using assms(2) by (auto simp: list_ex_iff)
  have bytes: "concat (map (\<lambda>r. data (snd r)) (filter (\<lambda>r. fst r = slot) (map (\<lambda>r. (fst r, fst (snd r))) rs)))
      = concat (map (\<lambda>x. data (fst x)) (in_slot slot rs))"
    and out: "map (\<lambda>r. (snd r, data (snd r))) (filter (\<lambda>r. fst r = slot) (map (\<lambda>r. (fst r, fst (snd r))) rs))
      = map (\<lambda>x. (fst x, data (fst x))) (in_slot slot rs)"
    by (simp_all add: in_slot_def filter_map comp_def)
  show ?thesis
  proof (cases "in_slot slot rs = []")
    case True
    then show ?thesis unfolding out by (simp add: decode_periodic_frame_def periodic_frame_def ids laid_out_def)
  next
    case False
    then show ?thesis unfolding out
      using slice_layout [OF len, of "[]" 0 counters]
      by (simp add: decode_periodic_frame_def periodic_frame_def ids laid_out_def bytes)
  qed
qed

definition frame_line :: "string \<Rightarrow> u8 list \<Rightarrow> string" where
  "frame_line ident bytes = join '' '' (ident # map (\<lambda>b. fmt02X (unat b)) bytes)"

lemma map_filter_some: "(\<And>x. x \<in> set xs \<Longrightarrow> f (g x) = Some x) \<Longrightarrow> List.map_filter f (map g xs) = xs"
  by (induction xs) (auto simp: List.map_filter_simps)

lemma line_is_frame:
  assumes "ident \<noteq> []" "\<forall>c \<in> set ident. \<not> is_ws c" "to_uppercase ident = ident" "bytes \<noteq> []"
  shows "decode_periodic_line (frame_line ident bytes) ids um = decode_periodic_frame ident bytes ids um"
proof -
  have "split_whitespace (frame_line ident bytes) = ident # map (\<lambda>b. fmt02X (unat b)) bytes"
    unfolding frame_line_def using assms(1,2)
    by (intro split_whitespace_join) (auto dest: fmt02X_digits hexdigit_not_ws)
  moreover have "List.map_filter u8_from_hex (map (\<lambda>b. fmt02X (unat b)) bytes) = bytes"
    by (rule map_filter_some) simp
  ultimately show ?thesis using assms(3,4) by (cases bytes) (simp_all add: decode_periodic_line_def Let_def)
qed

subsection \<open>Properties\<close>

text \<open>The whole of a refusal round: the driver sends every define command, takes the records the vehicle refuses out of the
  map, and decodes with what is left.\<close>

text \<open>The periodic stream is a round trip. Whatever subset of the define commands the vehicle refuses, and in whatever
  order the refusals are taken out of the unpack map, a periodic frame that carries the accepted records one after the
  other, with any counters behind them, decodes to exactly the bytes of each accepted signal of that slot, in order; so
  does the monitor line that prints the frame.\<close>

theorem periodic_stream_roundtrip:
  assumes "build_defines signals prof = Ok ds" "slot_count prof \<le> 256"
    "distinct (map (\<lambda>sig. to_uppercase (fst sig)) signals)"
    "\<forall>sig \<in> set signals. length (data (to_uppercase (fst sig))) = unat (fst (snd sig))"
    "distinct refused" "set refused \<subseteq> set (record_pids ds)"
    "ident \<in> set (response_ids prof)" "ident \<noteq> []" "\<forall>c \<in> set ident. \<not> is_ws c" "to_uppercase ident = ident"
    "accepted = filter (\<lambda>r. r \<notin> set refused) (record_pids ds)"
  shows "decode_periodic_frame ident (periodic_frame data accepted slot counters) (response_ids prof) (foldl refusal (unpack ds) refused)
        = map (\<lambda>r. (snd r, data (snd r))) (filter (\<lambda>r. fst r = slot) accepted) \<and>
      decode_periodic_line (frame_line ident (periodic_frame data accepted slot counters)) (response_ids prof) (foldl refusal (unpack ds) refused)
        = map (\<lambda>r. (snd r, data (snd r))) (filter (\<lambda>r. fst r = slot) accepted)"
proof -
  obtain rs where rs: "defines_of signals prof rs ds" using build_defines_records [OF assms(1,2)] .
  have pids: "record_pids ds = map (\<lambda>r. (fst r, fst (snd r))) rs" and um: "unpack ds = laid_out rs"
    and pos: "\<forall>r \<in> set rs. 0 < snd (snd r)"
    and sigs: "\<forall>r \<in> set rs. \<exists>sig \<in> set signals. snd r = (to_uppercase (fst sig), unat (fst (snd sig)))"
    and all: "mset (map (\<lambda>r. fst (snd r)) rs) + mset (dropped ds) = mset (map (\<lambda>sig. to_uppercase (fst sig)) signals)"
    using rs by (simp_all add: defines_of_def)
  have "mset (map (\<lambda>r. fst (snd r)) rs @ dropped ds) = mset (map (\<lambda>sig. to_uppercase (fst sig)) signals)"
    using all by simp
  then have "distinct (map (\<lambda>r. fst (snd r)) rs @ dropped ds)" using assms(3) mset_eq_imp_distinct_iff by blast
  then have d: "distinct (map (\<lambda>r. fst (snd r)) rs)" by simp
  let ?rs = "filter (\<lambda>r. (fst r, fst (snd r)) \<notin> set refused) rs"
  have left: "foldl refusal (unpack ds) refused = laid_out ?rs"
    using refusals_laid_out [OF d pos assms(5)] assms(6) by (simp add: um pids)
  have acc: "accepted = map (\<lambda>r. (fst r, fst (snd r))) ?rs"
    by (simp add: assms(11) pids filter_map comp_def)
  have "\<forall>r \<in> set ?rs. length (data (fst (snd r))) = snd (snd r)" using sigs assms(4) by fastforce
  from decode_laid_out [OF this assms(7)]
  show ?thesis unfolding left acc using line_is_frame [OF assms(8,9,10)] by (simp add: periodic_frame_def)
qed

text \<open>Packing loses nothing and never overfills. Every signal is either defined or dropped, as often as it was asked
  for; each define command asks for the whole source record from its first byte, in a slot of the profile; no slot
  holds more than its seven data bytes; the slots in use are the first ones, which are exactly those the start command
  names; and a signal is dropped only when its length is unknown or too wide for a slot, it has no source identifier,
  or no slot has room for it even when the packing is finished.\<close>

theorem packing_is_sound:
  assumes "build_defines signals prof = Ok ds" "slot_count prof \<le> 256"
  shows "\<exists>rs. record_pids ds = map (\<lambda>r. (fst r, fst (snd r))) rs \<and>
      mset (map snd (record_pids ds)) + mset (dropped ds) = mset (map (\<lambda>sig. to_uppercase (fst sig)) signals) \<and>
      define_commands ds = map (\<lambda>r. define_command (unat (fst r)) (the (source_did (fst (snd r)))) (snd (snd r))) rs \<and>
      (\<forall>r \<in> set rs. unat (fst r) < slots_used ds \<and> (\<exists>sig \<in> set signals. snd r = (to_uppercase (fst sig), unat (fst (snd sig))))) \<and>
      slots_used ds \<le> slot_count prof \<and>
      (\<forall>s < slot_count prof. slot_fill rs s \<le> SLOT_DATA_BYTES \<and> (0 < slot_fill rs s \<longleftrightarrow> s < slots_used ds)) \<and>
      start_command ds = ''2A'' @ fmt02X (unat (rate_mode prof)) @ concat (map fmt02X [0..<slots_used ds]) \<and>
      (\<forall>p \<in> set (dropped ds). \<exists>sig \<in> set signals. p = to_uppercase (fst sig) \<and>
         (unat (fst (snd sig)) = 0 \<or> unat (fst (snd sig)) > SLOT_DATA_BYTES \<or> source_did (fst sig) = None \<or>
          (\<forall>s < slot_count prof. SLOT_DATA_BYTES < slot_fill rs s + unat (fst (snd sig)))))"
proof -
  obtain rs where rs: "defines_of signals prof rs ds" and st:
      "start_command ds = ''2A'' @ fmt02X (unat (rate_mode prof)) @ concat (map fmt02X [0..<slots_used ds])"
    using build_defines_records [OF assms] .
  have used: "unat (fst r) < slots_used ds" if "r \<in> set rs" for r
  proof -
    have "snd r \<in> set (in_slot (of_nat (unat (fst r))) rs)" using that by (auto simp: in_slot_def)
    then have "snd (snd r) \<le> slot_fill rs (unat (fst r))"
      unfolding slot_fill_def by (intro member_le_sum_list) auto
    then show ?thesis using rs that by (fastforce simp: defines_of_def)
  qed
  show ?thesis
    using rs unfolding defines_of_def not_packable disj_assoc
    by - (elim conjE, intro exI [of _ rs] conjI ballI allI impI st used; (assumption | fastforce simp: comp_def))
qed

subsection \<open>A Mustang stream\<close>

definition s197 :: StreamProfile where
  "s197 = \<lparr> sp_name = ''Ford S197'', sp_target = ''7E0'', response_ids = [''6A0'', ''6A1''], slot_count = 2, rate_mode = 3,
     keepalive_interval_ms = 4000, keepalive_settle_ms = 200 \<rparr>"

definition demo_signals :: "signal list" where
  "demo_signals = [(''010c'', 2, None), (''010D'', 1, Some ''7e0''), (''221E1A'', 4, None), (''0902'', 3, None), (''221E1B'', 7, None), (''221E1C'', 1, None)]"

definition demo_data :: "string \<Rightarrow> u8 list" where
  "demo_data p = (if p = ''010C'' then [0x0B, 0x38] else if p = ''010D'' then [0x2A] else if p = ''221E1A'' then [1, 2, 3, 4]
     else if p = ''0902'' then [9, 9, 9] else if p = ''221E1B'' then [1, 2, 3, 4, 5, 6, 7] else [0x5A])"

definition demo_defines :: DefineSet where
  "demo_defines = (case build_defines demo_signals s197 of Ok ds \<Rightarrow> ds | _ \<Rightarrow> \<lparr> define_commands = [], record_pids = [], start_command = [], unpack = Map.empty, slots_used = 0, dropped = [] \<rparr>)"

lemma demo_build: "build_defines demo_signals s197 = Ok demo_defines"
proof -
  have "targets_agree None demo_signals = Some (Some ''7E0'')" by code_simp
  then have "\<exists>ds. build_defines demo_signals s197 = Ok ds"
    unfolding build_defines_def Let_def by (simp add: s197_def)
  then show ?thesis by (auto simp: demo_defines_def)
qed

lemma demo_records:
  "record_pids demo_defines = [(0, ''010C''), (0, ''010D''), (0, ''221E1A''), (1, ''221E1B'')]"
  by code_simp

lemma demo_rest:
  "dropped demo_defines = [''0902'', ''221E1C'']" "start_command demo_defines = ''2A030001''"
  "define_commands demo_defines = [''2C01F200F40C0102'', ''2C01F200F40D0101'', ''2C01F2001E1A0104'', ''2C01F2011E1B0107'']"
  by code_simp+

lemma periodic_stream_roundtrip_witness:
  "decode_periodic_frame ''6A0'' [0, 0x0B, 0x38, 1, 2, 3, 4, 0x77] [''6A0'', ''6A1''] (foldl refusal (unpack demo_defines) [(0, ''010D'')])
     = [(''010C'', [0x0B, 0x38]), (''221E1A'', [1, 2, 3, 4])]"
proof -
  have frame: "periodic_frame demo_data [(0, ''010C''), (0, ''221E1A''), (1, ''221E1B'')] 0 [0x77] = [0, 0x0B, 0x38, 1, 2, 3, 4, 0x77]"
    and out: "map (\<lambda>r. (snd r, demo_data (snd r))) (filter (\<lambda>r. fst r = 0) [(0 :: u8, ''010C''), (0, ''221E1A''), (1, ''221E1B'')])
      = [(''010C'', [0x0B, 0x38]), (''221E1A'', [1, 2, 3, 4])]"
    by code_simp+
  have ids: "response_ids s197 = [''6A0'', ''6A1'']" by code_simp
  have sub: "set [(0 :: u8, ''010D'')] \<subseteq> set (record_pids demo_defines)" unfolding demo_records by simp
  have acc: "[(0, ''010C''), (0, ''221E1A''), (1, ''221E1B'')] = filter (\<lambda>r. r \<notin> set [(0 :: u8, ''010D'')]) (record_pids demo_defines)"
    unfolding demo_records by simp
  have few: "slot_count s197 \<le> 256" and up: "distinct (map (\<lambda>sig. to_uppercase (fst sig)) demo_signals)"
    and len: "\<forall>sig \<in> set demo_signals. length (demo_data (to_uppercase (fst sig))) = unat (fst (snd sig))"
    and idn: "\<forall>c \<in> set ''6A0''. \<not> is_ws c" "to_uppercase ''6A0'' = ''6A0''"
    by code_simp+
  show ?thesis
    using periodic_stream_roundtrip [where ident = "''6A0''" and slot = 0 and counters = "[0x77]",
        OF demo_build few up len _ sub _ _ idn acc]
    unfolding frame out ids by simp
qed

lemma packing_is_sound_witness: "mset (map snd (record_pids demo_defines)) + mset (dropped demo_defines) = mset (map (\<lambda>sig. to_uppercase (fst sig)) demo_signals)"
  using packing_is_sound [OF demo_build] by (auto simp: s197_def)

end
