(* ===== verification/StnPeriodic.thy ===== *)
theory StnPeriodic
  imports Subscription "HOL-Library.List_Lexorder" "HOL-Library.Char_ord" "HOL-Library.Product_Lexorder"
begin

text \<open>
  The STN adapter-periodic builder (\<^verbatim>\<open>src/stn_periodic.rs\<close>): the active signals, grouped by tier, mode and header, are
  packed into messages the adapter fires on its own. A \<^verbatim>\<open>BTreeMap\<close> that is filled and then walked is a sorted list of
  its keys, each with what was pushed under it; the orders on strings and pairs are the lexicographic ones of the library.
  The arithmetic of the reply budget is that of \<^verbatim>\<open>u8\<close> in a release build, which wraps.
\<close>

section \<open>Sorted buckets\<close>

definition btree_entries :: "('a \<Rightarrow> 'k::linorder) \<Rightarrow> 'a list \<Rightarrow> ('k \<times> 'a list) list" where
  "btree_entries kf xs = map (\<lambda>k. (k, filter (\<lambda>x. kf x = k) xs)) (sort (remdups (map kf xs)))"

lemma btree_entry: "(k, ys) \<in> set (btree_entries kf xs) \<longleftrightarrow> k \<in> kf ` set xs \<and> ys = filter (\<lambda>x. kf x = k) xs"
  by (auto simp: btree_entries_def)

lemma mset_filter_keys:
  "distinct ks \<Longrightarrow> set (map kf xs) \<subseteq> set ks \<Longrightarrow> mset (concat (map (\<lambda>k. filter (\<lambda>x. kf x = k) xs) ks)) = mset xs"
proof (induction ks arbitrary: xs)
  case (Cons k ks)
  have same: "map (\<lambda>j. filter (\<lambda>x. kf x = j) (filter (\<lambda>x. kf x \<noteq> k) xs)) ks = map (\<lambda>j. filter (\<lambda>x. kf x = j) xs) ks"
    using Cons.prems(1) by (auto intro!: filter_cong)
  have "mset (concat (map (\<lambda>j. filter (\<lambda>x. kf x = j) (filter (\<lambda>x. kf x \<noteq> k) xs)) ks)) = mset (filter (\<lambda>x. kf x \<noteq> k) xs)"
    using Cons.prems by (intro Cons.IH) auto
  then have "mset (concat (map (\<lambda>j. filter (\<lambda>x. kf x = j) xs) ks)) = mset (filter (\<lambda>x. kf x \<noteq> k) xs)"
    by (simp only: same)
  then show ?case by (simp add: multiset_partition [of "mset xs" "\<lambda>x. kf x = k", symmetric])
qed simp

lemma btree_entries_all: "mset (concat (map snd (btree_entries kf xs))) = mset xs"
proof -
  have "map snd (btree_entries kf xs) = map (\<lambda>k. filter (\<lambda>x. kf x = k) xs) (sort (remdups (map kf xs)))"
    by (simp add: btree_entries_def)
  then show ?thesis using mset_filter_keys [of "sort (remdups (map kf xs))" kf xs] by simp
qed

section \<open>The builder\<close>

record TierPeriods =
  fast_ms :: u32
  medium_ms :: u32
  slow_ms :: u32

definition default_periods :: TierPeriods where
  "default_periods = \<lparr> fast_ms = 25, medium_ms = 100, slow_ms = 500 \<rparr>"

definition period_for :: "TierPeriods \<Rightarrow> RefreshTier \<Rightarrow> u32" where
  "period_for ps t = (case t of Fast \<Rightarrow> fast_ms ps | Medium \<Rightarrow> medium_ms ps | Slow \<Rightarrow> slow_ms ps)"

definition tier_period_ms :: "RefreshTier \<Rightarrow> u32" where
  "tier_period_ms t = period_for default_periods t"

record PeriodicMessage =
  pm_period :: u32
  pm_header :: string
  pm_data :: string
  pm_pids :: "string list"

fun decimal :: "nat \<Rightarrow> string" where
  "decimal n = (if n < 10 then [char_of (48 + n)] else decimal (n div 10) @ [char_of (48 + n mod 10)])"

definition pm_command :: "PeriodicMessage \<Rightarrow> string" where
  "pm_command m = ''STPPMA '' @ decimal (unat (pm_period m)) @ '', '' @ pm_header m @ '', '' @ pm_data m"

definition make_message :: "u32 \<Rightarrow> string \<Rightarrow> string list \<Rightarrow> (unit, PeriodicMessage) outcome" where
  "make_message period header ps =
     and_then (join_chunk_wire ps) (\<lambda>d. Ok \<lparr> pm_period = period, pm_header = header, pm_data = d, pm_pids = ps \<rparr>)"

definition message_for :: "u32 \<Rightarrow> string \<Rightarrow> string list \<Rightarrow> (unit, PeriodicMessage) outcome" where
  "message_for period header ps = make_message period header (if length ps > 1 then sort ps else ps)"

definition echo_len :: "string \<Rightarrow> nat" where
  "echo_len pid = max 1 ((length pid - 2) div 2)"

definition member_cost :: "string \<Rightarrow> u8 \<Rightarrow> u8" where
  "member_cost pid len = of_nat (echo_len pid) + len"

definition fits_single_frame :: "(string \<times> u8) list \<Rightarrow> nat \<Rightarrow> bool" where
  "fits_single_frame ms cap \<longleftrightarrow>
     ms \<noteq> [] \<and> length ms \<le> max cap 1 \<and> (1 :: u16) + sum_list (map (\<lambda>(p, l). ucast (member_cost p l)) ms) \<le> 7"

type_synonym stn_signal = "string \<times> string option \<times> RefreshTier"

definition get_len :: "Admission \<Rightarrow> string \<Rightarrow> u8 option" where
  "get_len a pid = (case length_cache a of None \<Rightarrow> None | Some c \<Rightarrow> lc_get c pid)"

text \<open>One pick of a tier: left out, or put into the bucket of its mode and header.\<close>

type_synonym bucket_row = "(string \<times> string) \<times> string \<times> u8"

definition place_pick :: "Admission \<Rightarrow> string \<Rightarrow> bool \<Rightarrow> stn_signal \<Rightarrow> (unit, string + bucket_row) outcome" where
  "place_pick a default_header single sig =
     (let (p, ctrl, tier) = sig; pid = to_uppercase p in
      case get_len a pid of
        None \<Rightarrow> Ok (Inl pid)
      | Some len \<Rightarrow>
          if single \<and> 1 + member_cost pid len > 7 then Ok (Inl pid)
          else if length pid < 2 then Panic
          else Ok (Inr ((take 2 pid, case ctrl of None \<Rightarrow> default_header | Some h \<Rightarrow> h), pid, len)))"

fun pack :: "nat \<Rightarrow> u8 \<Rightarrow> u32 \<Rightarrow> string \<Rightarrow> string list \<Rightarrow> u8 \<Rightarrow> (string \<times> u8) list \<Rightarrow> (unit, PeriodicMessage list) outcome" where
  "pack cap full period header cur budget [] =
     (if cur = [] then Ok [] else and_then (make_message period header cur) (\<lambda>m. Ok [m]))"
| "pack cap full period header cur budget ((pid, len) # ms) =
     (let cost = member_cost pid len in
      if cur \<noteq> [] \<and> (length cur \<ge> cap \<or> cost > budget)
      then and_then (make_message period header cur)
             (\<lambda>m. and_then (pack cap full period header [pid] (full - min cost full) ms) (\<lambda>r. Ok (m # r)))
      else pack cap full period header (cur @ [pid]) (budget - min cost budget) ms)"

definition bucket_cap :: "Admission \<Rightarrow> string \<Rightarrow> nat" where
  "bucket_cap a mode = (if mode = ''22'' then max (chunk22_limit a) 1 else max (chunk_limit a) 1)"

definition bucket_messages :: "Admission \<Rightarrow> bool \<Rightarrow> u32 \<Rightarrow> (string \<times> string) \<times> bucket_row list \<Rightarrow> (unit, PeriodicMessage list) outcome" where
  "bucket_messages a single period entry =
     (let ((mode, header), rows) = entry; full = (if single then 7 - 1 else 255)
      in pack (bucket_cap a mode) full period header [] full (sort (map snd rows)))"

definition tier_messages ::
  "Admission \<Rightarrow> string \<Rightarrow> TierPeriods \<Rightarrow> bool \<Rightarrow> stn_signal list \<Rightarrow> (unit, PeriodicMessage list \<times> string list) outcome" where
  "tier_messages a default_header periods single sigs =
     and_then (map_outcome (place_pick a default_header single) sigs) (\<lambda>placed.
       and_then (map_outcome (bucket_messages a single (period_for periods (snd (snd (hd sigs)))))
                   (btree_entries fst (List.map_filter (case_sum (\<lambda>_. None) Some) placed)))
         (\<lambda>ms. Ok (concat ms, List.map_filter (case_sum Some (\<lambda>_. None)) placed)))"

definition build_periodic_set ::
  "stn_signal list \<Rightarrow> Admission \<Rightarrow> string \<Rightarrow> TierPeriods \<Rightarrow> bool \<Rightarrow> (unit, PeriodicMessage list \<times> string list) outcome" where
  "build_periodic_set signals a default_header periods single =
     and_then (map_outcome (\<lambda>entry. tier_messages a default_header periods single (snd entry))
                 (btree_entries (\<lambda>sig. divisor (snd (snd sig))) signals))
       (\<lambda>parts. Ok (concat (map fst parts), concat (map snd parts)))"

section \<open>What a message costs\<close>

definition cost_of :: "string \<times> u8 \<Rightarrow> nat" where
  "cost_of m = echo_len (fst m) + unat (snd m)"

lemma member_cost_exact: "cost_of (p, l) \<le> 255 \<Longrightarrow> unat (member_cost p l) = cost_of (p, l)"
  by (simp add: member_cost_def cost_of_def unat_word_ariths unat_of_nat)

lemma single_frame_test: "cost_of (p, l) \<le> 254 \<Longrightarrow> 1 + member_cost p l > 7 \<longleftrightarrow> cost_of (p, l) > 6"
  using member_cost_exact [of p l] by (simp add: word_less_nat_alt unat_word_ariths)

text \<open>The greedy packer cuts its input into consecutive groups, none of which is empty, longer than the cap or
  over the budget.\<close>

definition group_message :: "nat \<Rightarrow> nat \<Rightarrow> u32 \<Rightarrow> string \<Rightarrow> PeriodicMessage \<Rightarrow> (string \<times> u8) list \<Rightarrow> bool" where
  "group_message cap full period header m g \<longleftrightarrow>
     g \<noteq> [] \<and> length g \<le> cap \<and> sum_list (map cost_of g) \<le> full \<and> make_message period header (map fst g) = Ok m"

lemma pack_groups:
  assumes "pack cap full period header (map fst g) budget ms = Ok out"
    and "\<forall>m \<in> set ms. cost_of m \<le> unat full" "1 \<le> cap" "length g \<le> cap"
    and "sum_list (map cost_of g) + unat budget = unat full"
  shows "\<exists>gs. concat gs = g @ ms \<and> list_all2 (group_message cap (unat full) period header) out gs"
  using assms
proof (induction ms arbitrary: g budget out)
  case Nil
  show ?case
  proof (cases "g = []")
    case True
    then show ?thesis using Nil.prems(1) by (intro exI [of _ "[]"]) simp
  next
    case False
    then show ?thesis using Nil.prems by (intro exI [of _ "[g]"]) (auto simp: group_message_def and_then_Ok)
  qed
next
  case (Cons x ms)
  obtain p l where x: "x = (p, l)" by (cases x)
  have cost: "unat (member_cost p l) = cost_of x" "cost_of x \<le> unat full"
    using Cons.prems(2) unsigned_less [of full, where ?'a = nat] by (auto simp: x intro!: member_cost_exact)
  have rest: "\<forall>m \<in> set ms. cost_of m \<le> unat full" using Cons.prems(2) by simp
  show ?case
  proof (cases "map fst g \<noteq> [] \<and> (length (map fst g) \<ge> cap \<or> member_cost p l > budget)")
    case True
    then obtain m r where m: "make_message period header (map fst g) = Ok m"
      and r: "pack cap full period header [p] (full - min (member_cost p l) full) ms = Ok r" and out: "out = m # r"
      using Cons.prems(1) by (auto simp: x Let_def and_then_Ok)
    have "member_cost p l \<le> full" using cost by (simp add: word_le_nat_alt)
    then have b: "sum_list (map cost_of [x]) + unat (full - min (member_cost p l) full) = unat full"
      using cost by (simp add: min_def unat_sub)
    from Cons.IH [of "[x]", OF _ rest Cons.prems(3) _ b] r Cons.prems(3) obtain gs where
      gs: "concat gs = [x] @ ms" "list_all2 (group_message cap (unat full) period header) r gs" by (auto simp: x)
    have "group_message cap (unat full) period header m g"
      using True m Cons.prems(4,5) by (simp add: group_message_def)
    then show ?thesis using gs out by (intro exI [of _ "g # gs"]) simp
  next
    case False
    have le: "member_cost p l \<le> budget"
      using False cost Cons.prems(5) by (cases "g = []") (auto simp: word_le_nat_alt not_less)
    have b: "sum_list (map cost_of (g @ [x])) + unat (budget - min (member_cost p l) budget) = unat full"
      using le cost Cons.prems(5) by (simp add: min_def unat_sub word_le_nat_alt)
    have len: "length (g @ [x]) \<le> cap" using False Cons.prems(3) by (cases "g = []") auto
    have "pack cap full period header (map fst (g @ [x])) (budget - min (member_cost p l) budget) ms = Ok out"
      using Cons.prems(1) False by (simp only: x pack.simps Let_def if_False map_append list.map fst_conv)
    from Cons.IH [OF this rest Cons.prems(3) len b] show ?thesis by simp
  qed
qed

lemma make_message_fields:
  "make_message period header ps = Ok m \<Longrightarrow>
   pm_period m = period \<and> pm_header m = header \<and> pm_pids m = ps \<and> (join_chunk_wire ps :: (unit, _) outcome) = Ok (pm_data m)"
  by (auto simp: make_message_def and_then_Ok)

section \<open>The whole set\<close>

text \<open>A message is sound for a tier's signals when everything it carries comes from them.\<close>

definition learned :: "Admission \<Rightarrow> string \<Rightarrow> string \<times> u8" where
  "learned a p = (p, case get_len a p of None \<Rightarrow> 0 | Some l \<Rightarrow> l)"

definition sound_message :: "stn_signal list \<Rightarrow> Admission \<Rightarrow> string \<Rightarrow> TierPeriods \<Rightarrow> bool \<Rightarrow> PeriodicMessage \<Rightarrow> bool" where
  "sound_message signals a default_header periods single m \<longleftrightarrow>
     pm_pids m \<noteq> [] \<and> (join_chunk_wire (pm_pids m) :: (unit, _) outcome) = Ok (pm_data m)
     \<and> length (pm_pids m) \<le> bucket_cap a (take 2 (hd (pm_pids m)))
     \<and> (single \<longrightarrow> 1 + sum_list (map (\<lambda>p. cost_of (learned a p)) (pm_pids m)) \<le> 7)
     \<and> (\<exists>tier. pm_period m = period_for periods tier
          \<and> (\<forall>p \<in> set (pm_pids m). take 2 p = take 2 (hd (pm_pids m)) \<and> get_len a p \<noteq> None
               \<and> (\<exists>q ctrl. (q, ctrl, tier) \<in> set signals \<and> to_uppercase q = p
                    \<and> pm_header m = (case ctrl of None \<Rightarrow> default_header | Some h \<Rightarrow> h))))"

definition left_out :: "Admission \<Rightarrow> bool \<Rightarrow> string \<Rightarrow> bool" where
  "left_out a single p \<longleftrightarrow> get_len a p = None \<or> (single \<and> cost_of (learned a p) > 6)"

lemma list_all2_in: "list_all2 P xs ys \<Longrightarrow> y \<in> set ys \<Longrightarrow> \<exists>x \<in> set xs. P x y"
  by (induction rule: list_all2_induct) auto

lemma list_all2_in2: "list_all2 P xs ys \<Longrightarrow> x \<in> set xs \<Longrightarrow> \<exists>y \<in> set ys. P x y"
  by (induction rule: list_all2_induct) auto

lemma map_outcome_map: "(\<And>x. x \<in> set xs \<Longrightarrow> f x = Ok (g x)) \<Longrightarrow> map_outcome f xs = Ok (map g xs)"
  by (induction xs) auto

text \<open>Without a panic and without a wrap, placing a pick is this function.\<close>

definition placed_as :: "Admission \<Rightarrow> string \<Rightarrow> bool \<Rightarrow> stn_signal \<Rightarrow> string + bucket_row" where
  "placed_as a default_header single sig =
     (let p = to_uppercase (fst sig) in
      if left_out a single p then Inl p
      else Inr ((take 2 p, case fst (snd sig) of None \<Rightarrow> default_header | Some h \<Rightarrow> h), learned a p))"

definition budgeted :: "Admission \<Rightarrow> stn_signal \<Rightarrow> bool" where
  "budgeted a sig \<longleftrightarrow>
     get_len a (to_uppercase (fst sig)) = None \<or> (2 \<le> length (fst sig) \<and> cost_of (learned a (to_uppercase (fst sig))) \<le> 254)"

lemma place_pick_placed: "budgeted a sig \<Longrightarrow> place_pick a default_header single sig = Ok (placed_as a default_header single sig)"
  by (cases sig) (auto simp: place_pick_def placed_as_def budgeted_def left_out_def learned_def Let_def single_frame_test split: option.split)

definition bucket_ok :: "Admission \<Rightarrow> bool \<Rightarrow> bucket_row list \<Rightarrow> bool" where
  "bucket_ok a single rows \<longleftrightarrow>
     (\<forall>r \<in> set rows. snd r = learned a (fst (snd r)) \<and> fst (fst r) = take 2 (fst (snd r)) \<and> 2 \<le> length (fst (snd r))
        \<and> cost_of (snd r) \<le> (if single then 6 else 254))"

lemma pack_total:
  assumes "\<forall>m \<in> set ms. 2 \<le> length (fst m)" "\<forall>p \<in> set cur. 2 \<le> length p"
  shows "\<exists>out. pack cap full period header cur budget ms = Ok out"
  using assms
proof (induction ms arbitrary: cur budget)
  case Nil
  have "cur \<noteq> [] \<Longrightarrow> \<exists>w. (join_chunk_wire cur :: (unit, _) outcome) = Ok w" using join_no_panic [of cur] Nil.prems(2) by blast
  then show ?case by (auto simp: make_message_def)
next
  case (Cons x ms)
  obtain p l where x: "x = (p, l)" by (cases x)
  have "cur \<noteq> [] \<Longrightarrow> \<exists>w. (join_chunk_wire cur :: (unit, _) outcome) = Ok w" using join_no_panic [of cur] Cons.prems(2) by blast
  moreover obtain r where "pack cap full period header [p] (full - min (member_cost p l) full) ms = Ok r"
    using Cons.IH [of "[p]" "full - min (member_cost p l) full"] Cons.prems x by fastforce
  moreover obtain r' where "pack cap full period header (cur @ [p]) (budget - min (member_cost p l) budget) ms = Ok r'"
    using Cons.IH [of "cur @ [p]" "budget - min (member_cost p l) budget"] Cons.prems x by fastforce
  ultimately show ?case by (auto simp: x Let_def make_message_def)
qed

lemma bucket_messages_ok:
  assumes ok: "bucket_ok a single rows" and same: "\<forall>r \<in> set rows. fst r = (mode, header)"
  obtains out where "bucket_messages a single period ((mode, header), rows) = Ok out"
    "mset (concat (map pm_pids out)) = mset (map (\<lambda>r. fst (snd r)) rows)"
    "\<forall>m \<in> set out. pm_period m = period \<and> pm_header m = header \<and> pm_pids m \<noteq> [] \<and> length (pm_pids m) \<le> bucket_cap a mode
       \<and> (single \<longrightarrow> 1 + sum_list (map (\<lambda>p. cost_of (learned a p)) (pm_pids m)) \<le> 7)
       \<and> (join_chunk_wire (pm_pids m) :: (unit, _) outcome) = Ok (pm_data m)
       \<and> set (pm_pids m) \<subseteq> set (map (\<lambda>r. fst (snd r)) rows)"
proof -
  let ?full = "(if single then 6 else 255) :: u8" and ?ms = "sort (map snd rows)"
  have set_ms: "set ?ms = snd ` set rows" by simp
  have full: "(if single then 7 - 1 else 255) = ?full" by simp
  have two: "\<forall>m \<in> set ?ms. 2 \<le> length (fst m)" using ok unfolding set_ms bucket_ok_def by blast
  then obtain out where out: "pack (bucket_cap a mode) ?full period header [] ?full ?ms = Ok out"
    using pack_total [OF two, of "[]"] by fastforce
  have cost: "\<forall>m \<in> set ?ms. cost_of m \<le> unat ?full"
    using ok unfolding set_ms bucket_ok_def by (cases single) fastforce+
  have cap: "1 \<le> bucket_cap a mode" by (simp add: bucket_cap_def)
  obtain gs where gs: "concat gs = ?ms" "list_all2 (group_message (bucket_cap a mode) (unat ?full) period header) out gs"
    using pack_groups [where g = "[]", OF _ cost cap, of period header ?full out] out by auto
  have pids: "map pm_pids out = map (map fst) gs"
    using gs(2) by (induction rule: list_all2_induct) (auto simp: group_message_def dest!: make_message_fields)
  have "mset (concat (map pm_pids out)) = mset (map fst ?ms)"
    unfolding pids gs(1) [symmetric] by (simp add: map_concat)
  then have all: "mset (concat (map pm_pids out)) = mset (map (\<lambda>r. fst (snd r)) rows)"
    by (simp add: image_mset.compositionality comp_def)
  have each: "pm_period m = period \<and> pm_header m = header \<and> pm_pids m \<noteq> [] \<and> length (pm_pids m) \<le> bucket_cap a mode
       \<and> (single \<longrightarrow> 1 + sum_list (map (\<lambda>p. cost_of (learned a p)) (pm_pids m)) \<le> 7)
       \<and> (join_chunk_wire (pm_pids m) :: (unit, _) outcome) = Ok (pm_data m)
       \<and> set (pm_pids m) \<subseteq> set (map (\<lambda>r. fst (snd r)) rows)" if m: "m \<in> set out" for m
  proof -
    obtain g where g: "g \<in> set gs" "group_message (bucket_cap a mode) (unat ?full) period header m g"
      using list_all2_in2 [OF gs(2) m] by blast
    have sub: "set g \<subseteq> snd ` set rows" using g(1) gs(1) set_ms by (metis UN_upper set_concat)
    have "x = learned a (fst x)" if "x \<in> set g" for x using that sub ok by (auto simp: bucket_ok_def)
    then have costs: "map (\<lambda>p. cost_of (learned a p)) (map fst g) = map cost_of g" by (auto simp: comp_def)
    have "pm_pids m = map fst g" using g(2) make_message_fields by (auto simp: group_message_def)
    then have total: "sum_list (map (\<lambda>p. cost_of (learned a p)) (pm_pids m)) = sum_list (map cost_of g)" by (simp only: costs)
    note f = make_message_fields [of period header "map fst g" m]
    have mm: "make_message period header (map fst g) = Ok m" "g \<noteq> []" "length g \<le> bucket_cap a mode" "sum_list (map cost_of g) \<le> unat ?full"
      using g(2) by (simp_all add: group_message_def)
    have "fst ` set g \<subseteq> (\<lambda>r. fst (snd r)) ` set rows" using image_mono [OF sub, of fst] by (simp add: image_image)
    then show ?thesis using f [OF mm(1)] mm(2,3,4) unfolding total by (cases single) simp_all
  qed
  show thesis
    by (rule that [OF _ all]) (use out full each in \<open>simp_all add: bucket_messages_def Let_def\<close>)
qed

lemma map_outcome_each:
  "(\<And>x. x \<in> set xs \<Longrightarrow> \<exists>y. f x = Ok y \<and> P x y) \<Longrightarrow> \<exists>ys. map_outcome f xs = Ok ys \<and> list_all2 P xs ys"
proof (induction xs)
  case (Cons x xs)
  obtain y where y: "f x = Ok y" "P x y" using Cons.prems by auto
  obtain ys where "map_outcome f xs = Ok ys" "list_all2 P xs ys" using Cons by auto
  with y show ?case by auto
qed simp

lemma list_all2_mset_concat:
  "list_all2 (\<lambda>x y. mset (f y) = mset (g x)) xs ys \<Longrightarrow> mset (concat (map f ys)) = mset (concat (map g xs))"
  by (induction rule: list_all2_induct) auto

lemma rights_placed:
  "List.map_filter (case_sum (\<lambda>_. None) Some) (map (placed_as a dh single) sigs)
     = map (\<lambda>sig. ((take 2 (to_uppercase (fst sig)), case fst (snd sig) of None \<Rightarrow> dh | Some h \<Rightarrow> h), learned a (to_uppercase (fst sig))))
         (filter (\<lambda>sig. \<not> left_out a single (to_uppercase (fst sig))) sigs)"
  by (induction sigs) (auto simp: List.map_filter_simps placed_as_def Let_def)

lemma lefts_placed:
  "List.map_filter (case_sum Some (\<lambda>_. None)) (map (placed_as a dh single) sigs)
     = filter (left_out a single) (map (\<lambda>sig. to_uppercase (fst sig)) sigs)"
  by (induction sigs) (auto simp: List.map_filter_simps placed_as_def Let_def)

lemma fst_learned [simp]: "fst (learned a p) = p"
  by (simp add: learned_def)

lemma tier_messages_ok:
  assumes b: "\<forall>sig \<in> set sigs. budgeted a sig" and t: "\<forall>sig \<in> set sigs. snd (snd sig) = tier" and "sigs \<noteq> []"
  obtains out where
    "tier_messages a dh periods single sigs = Ok (out, filter (left_out a single) (map (\<lambda>sig. to_uppercase (fst sig)) sigs))"
    "mset (concat (map pm_pids out)) = mset (filter (\<lambda>p. \<not> left_out a single p) (map (\<lambda>sig. to_uppercase (fst sig)) sigs))"
    "\<forall>m \<in> set out. sound_message sigs a dh periods single m"
proof -
  let ?up = "\<lambda>sig :: stn_signal. to_uppercase (fst sig)" and ?hdr = "\<lambda>sig :: stn_signal. case fst (snd sig) of None \<Rightarrow> dh | Some h \<Rightarrow> h"
  let ?in = "filter (\<lambda>sig. \<not> left_out a single (?up sig)) sigs"
  define rows where "rows = map (\<lambda>sig. ((take 2 (?up sig), ?hdr sig), learned a (?up sig))) ?in"
  let ?period = "period_for periods tier" and ?es = "btree_entries fst rows"
  let ?P = "\<lambda>m rows'. pm_period m = ?period \<and> pm_pids m \<noteq> [] 
       \<and> (single \<longrightarrow> 1 + sum_list (map (\<lambda>p. cost_of (learned a p)) (pm_pids m)) \<le> 7)
       \<and> (join_chunk_wire (pm_pids m) :: (unit, _) outcome) = Ok (pm_data m)
       \<and> set (pm_pids m) \<subseteq> set (map (\<lambda>r. fst (snd r)) rows')"
  have placed: "map_outcome (place_pick a dh single) sigs = Ok (map (placed_as a dh single) sigs)"
    by (rule map_outcome_map) (use b place_pick_placed in blast)
  have hd: "snd (snd (hd sigs)) = tier" using t \<open>sigs \<noteq> []\<close> by simp
  have rows_ok: "bucket_ok a single rows"
    using b by (auto simp: rows_def bucket_ok_def budgeted_def left_out_def)
  have sub: "bucket_ok a single rs" if "set rs \<subseteq> set rows" for rs using rows_ok that unfolding bucket_ok_def by blast
  let ?Q = "\<lambda>x y. mset (concat (map pm_pids y)) = mset (map (\<lambda>r. fst (snd r)) (snd x)) \<and>
       (\<forall>m \<in> set y. ?P m (snd x) \<and> pm_header m = snd (fst x) \<and> length (pm_pids m) \<le> bucket_cap a (fst (fst x)))"
  have "\<exists>y. bucket_messages a single ?period x = Ok y \<and>
      (mset (concat (map pm_pids y)) = mset (map (\<lambda>r. fst (snd r)) (snd x)) \<and>
       (\<forall>m \<in> set y. ?P m (snd x) \<and> pm_header m = snd (fst x) \<and> length (pm_pids m) \<le> bucket_cap a (fst (fst x))))"
    if "x \<in> set ?es" for x
  proof -
    obtain mode header rs where x: "x = ((mode, header), rs)" by (metis prod.exhaust)
    then have rs: "rs = filter (\<lambda>r. fst r = (mode, header)) rows" using that by (simp add: btree_entry)
    then have ok: "bucket_ok a single rs" and same: "\<forall>r \<in> set rs. fst r = (mode, header)" using sub by auto
    from bucket_messages_ok [OF ok same, of ?period] show ?thesis unfolding x by (metis fst_conv snd_conv)
  qed
  from map_outcome_each [of ?es "bucket_messages a single ?period" ?Q, OF this] obtain yss where
    yss: "map_outcome (bucket_messages a single ?period) ?es = Ok yss" and
    each: "list_all2 (\<lambda>x y. mset (concat (map pm_pids y)) = mset (map (\<lambda>r. fst (snd r)) (snd x)) \<and>
       (\<forall>m \<in> set y. ?P m (snd x) \<and> pm_header m = snd (fst x) \<and> length (pm_pids m) \<le> bucket_cap a (fst (fst x)))) ?es yss" by blast
  have run: "tier_messages a dh periods single sigs = Ok (concat yss, filter (left_out a single) (map ?up sigs))"
    unfolding tier_messages_def placed hd and_then.simps rights_placed rows_def [symmetric] lefts_placed yss ..
  have cc: "concat (map pm_pids (concat yss)) = concat (map (\<lambda>y. concat (map pm_pids y)) yss)" by (induction yss) auto
  have "mset (concat (map (\<lambda>y. concat (map pm_pids y)) yss)) = mset (concat (map (\<lambda>x. map (\<lambda>r. fst (snd r)) (snd x)) ?es))"
    by (rule list_all2_mset_concat) (rule list_all2_mono [OF each], blast)
  also have "concat (map (\<lambda>x. map (\<lambda>r. fst (snd r)) (snd x)) ?es) = map (\<lambda>r. fst (snd r)) (concat (map snd ?es))"
    by (simp add: map_concat comp_def)
  also have "mset \<dots> = mset (map (\<lambda>r. fst (snd r)) rows)"
    by (simp only: mset_map btree_entries_all)
  also have "map (\<lambda>r. fst (snd r)) rows = filter (\<lambda>p. \<not> left_out a single p) (map ?up sigs)"
    by (simp add: rows_def filter_map comp_def)
  finally have all: "mset (concat (map pm_pids (concat yss))) = mset (filter (\<lambda>p. \<not> left_out a single p) (map ?up sigs))"
    unfolding cc .
  have sound: "sound_message sigs a dh periods single m" if "m \<in> set (concat yss)" for m
  proof -
    obtain y where y: "y \<in> set yss" "m \<in> set y" using \<open>m \<in> set (concat yss)\<close> by auto
    obtain x where x: "x \<in> set ?es" and m: "?P m (snd x)" "pm_header m = snd (fst x)" "length (pm_pids m) \<le> bucket_cap a (fst (fst x))"
      using list_all2_in [OF each y(1)] y(2) by blast
    obtain mode header rs where xx: "x = ((mode, header), rs)" by (metis prod.exhaust)
    then have rs: "rs = filter (\<lambda>r. fst r = (mode, header)) rows" using x by (simp add: btree_entry)
    have from_sig: "take 2 p = mode \<and> get_len a p \<noteq> None \<and> (\<exists>q ctrl. (q, ctrl, tier) \<in> set sigs \<and> to_uppercase q = p \<and> header = (case ctrl of None \<Rightarrow> dh | Some h \<Rightarrow> h))"
      if p: "p \<in> set (pm_pids m)" for p
    proof -
      have "p \<in> (\<lambda>r. fst (snd r)) ` set rs" using m(1) p xx by auto
      then obtain sig where sig: "sig \<in> set sigs" "\<not> left_out a single (?up sig)" "p = ?up sig" "mode = take 2 p" "header = ?hdr sig"
        unfolding rs rows_def by auto
      have "sig = (fst sig, fst (snd sig), tier)" using t sig(1) by (metis prod.collapse)
      with sig show ?thesis by (metis left_out_def)
    qed
    have ne: "pm_pids m \<noteq> []" using m(1) by blast
    then have "take 2 (hd (pm_pids m)) = mode" using from_sig by simp
    then show ?thesis
      unfolding sound_message_def using m ne from_sig xx by (intro conjI exI [of _ tier]) auto
  qed
  show thesis by (rule that [OF run all]) (use sound in blast)
qed

lemma divisor_inj: "divisor s = divisor t \<longleftrightarrow> s = t"
  by (cases s; cases t) (auto simp: divisor_def)

lemma sound_message_mono: "sound_message sigs a dh periods single m \<Longrightarrow> set sigs \<subseteq> set signals \<Longrightarrow> sound_message signals a dh periods single m"
  unfolding sound_message_def by blast

lemma build_set_ok:
  assumes b: "\<forall>sig \<in> set signals. budgeted a sig"
  obtains out ex where "build_periodic_set signals a dh periods single = Ok (out, ex)"
    "mset (concat (map pm_pids out)) = mset (filter (\<lambda>p. \<not> left_out a single p) (map (\<lambda>sig. to_uppercase (fst sig)) signals))"
    "mset ex = mset (filter (left_out a single) (map (\<lambda>sig. to_uppercase (fst sig)) signals))"
    "\<forall>m \<in> set out. sound_message signals a dh periods single m"
proof -
  let ?up = "\<lambda>sig :: stn_signal. to_uppercase (fst sig)" and ?kf = "\<lambda>sig :: stn_signal. divisor (snd (snd sig))"
  let ?es = "btree_entries ?kf signals" and ?f = "\<lambda>entry :: nat \<times> stn_signal list. tier_messages a dh periods single (snd entry)"
  let ?Q = "\<lambda>x y. mset (concat (map pm_pids (fst y))) = mset (filter (\<lambda>p. \<not> left_out a single p) (map ?up (snd x))) \<and>
      mset (snd y) = mset (filter (left_out a single) (map ?up (snd x))) \<and> (\<forall>m \<in> set (fst y). sound_message signals a dh periods single m)"
  have "\<exists>y. ?f x = Ok y \<and> ?Q x y" if "x \<in> set ?es" for x
  proof -
    obtain k sigs where x: "x = (k, sigs)" by (cases x)
    then have k: "k \<in> ?kf ` set signals" and sigs: "sigs = filter (\<lambda>sig. ?kf sig = k) signals" using that by (simp_all add: btree_entry)
    then obtain t where t: "k = divisor t" by auto
    have "\<forall>sig \<in> set sigs. budgeted a sig" "\<forall>sig \<in> set sigs. snd (snd sig) = t" "sigs \<noteq> []" "set sigs \<subseteq> set signals"
      using b k by (auto simp: sigs t divisor_inj filter_empty_conv) force
    then show ?thesis using tier_messages_ok [of sigs a t dh periods single] sound_message_mono unfolding x by (metis fst_conv snd_conv)
  qed
  from map_outcome_each [of ?es ?f ?Q, OF this] obtain ys where ys: "map_outcome ?f ?es = Ok ys" "list_all2 ?Q ?es ys" by blast
  have run: "build_periodic_set signals a dh periods single = Ok (concat (map fst ys), concat (map snd ys))"
    by (simp add: build_periodic_set_def ys(1))
  have flat: "concat (map (\<lambda>x. filter P (map ?up (snd x))) es) = filter P (map ?up (concat (map snd es)))" for P and es :: "(nat \<times> stn_signal list) list"
    by (induction es) auto
  have up: "mset (filter P (map ?up (concat (map snd ?es)))) = mset (filter P (map ?up signals))" for P
    by (simp only: mset_filter mset_map btree_entries_all)
  have cc: "concat (map pm_pids (concat (map fst ys))) = concat (map (\<lambda>y. concat (map pm_pids (fst y))) ys)" by (induction ys) auto
  have "mset (concat (map (\<lambda>y. concat (map pm_pids (fst y))) ys)) = mset (concat (map (\<lambda>x. filter (\<lambda>p. \<not> left_out a single p) (map ?up (snd x))) ?es))"
    by (rule list_all2_mset_concat) (rule list_all2_mono [OF ys(2)], blast)
  then have kept: "mset (concat (map pm_pids (concat (map fst ys)))) = mset (filter (\<lambda>p. \<not> left_out a single p) (map ?up signals))"
    unfolding cc flat up .
  have "mset (concat (map snd ys)) = mset (concat (map (\<lambda>x. filter (left_out a single) (map ?up (snd x))) ?es))"
    by (rule list_all2_mset_concat) (rule list_all2_mono [OF ys(2)], blast)
  then have ex: "mset (concat (map snd ys)) = mset (filter (left_out a single) (map ?up signals))" unfolding flat up .
  have sound: "sound_message signals a dh periods single m" if "m \<in> set (concat (map fst ys))" for m
  proof -
    obtain y where "y \<in> set ys" "m \<in> set (fst y)" using \<open>m \<in> set (concat (map fst ys))\<close> by auto
    then show ?thesis using list_all2_in [OF ys(2)] by blast
  qed
  show thesis by (rule that [OF run kept ex]) (use sound in blast)
qed

section \<open>Properties\<close>


lemma echo_len_member:
  assumes "echo_ok md e" shows "echo_len (member_pid md e) = echo_width md"
proof (cases md)
  case Mode01
  then have "unat e < 256" using assms by (simp add: echo_ok_def word_le_nat_alt)
  then show ?thesis using Mode01 by (simp add: echo_len_def member_pid_def mode_text_def echo_width_def fmt02X_length)
next
  case Mode22
  have "length (pad0 4 (hexstr (unat e))) = 4" using unsigned_less [of e, where ?'a = nat] by (intro pad0_length) simp_all
  then show ?thesis using Mode22 by (simp add: echo_len_def member_pid_def mode_text_def echo_width_def)
qed

definition full_reply :: "chunk_mode \<Rightarrow> (u16 \<times> u8) list \<Rightarrow> (u16 \<Rightarrow> u8 list) \<Rightarrow> string \<Rightarrow> string \<times> (u16 \<times> u8 list) list \<times> nat" where
  "full_reply md ls data ctrl = (ctrl, map (\<lambda>(e, l). (e, data e)) ls, 0)"

lemma full_reply_length:
  assumes "\<forall>x \<in> set ls. echo_ok md (fst x) \<and> length (data (fst x)) = unat (snd x)"
  shows "length (bytes (payload_for md (full_reply md ls data ctrl))) = 1 + sum_list (map cost_of (request_members md ls))"
proof -
  have "length (encode_items md (map (\<lambda>(e, l). (e, data e)) ls)) = sum_list (map cost_of (request_members md ls))"
    using assms by (induction ls) (auto simp: encode_items_def request_members_def cost_of_def echo_len_member)
  then show ?thesis by (simp add: payload_for_def full_reply_def)
qed

lemma map_of_items: "map_of (map (\<lambda>(e, l). (e, data e)) ls) e = (if e \<in> fst ` set ls then Some (data e) else None)"
  by (induction ls) auto

text \<open>What a periodic message asks for can be read back. When every reply must fit one frame, the complete answer to any
  message of the set, one echo and the learned number of data bytes per member, is at most seven bytes, so it is one CAN
  frame; and the splitter, given the members with their learned lengths, takes from it exactly the data of every
  member.\<close>

theorem stn_reply_decodes:
  assumes "\<forall>sig \<in> set signals. budgeted a sig" "distinct (map (\<lambda>sig. to_uppercase (fst sig)) signals)"
    "build_periodic_set signals a dh periods True = Ok (out, ex)" "m \<in> set out"
    "map (learned a) (pm_pids m) = request_members md ls"
    "\<forall>x \<in> set ls. echo_ok md (fst x) \<and> length (data (fst x)) = unat (snd x)"
  shows "length (bytes (payload_for md (full_reply md ls data ctrl))) \<le> 7
     \<and> (\<exists>got. split_multi_pid (map (learned a) (pm_pids m)) [payload_for md (full_reply md ls data ctrl)] = Ok got
          \<and> list_all (\<lambda>(e, l). lookup_member got (member_pid md e) ctrl = Some (member_response md ctrl e (data e))) ls)"
proof -
  obtain out' ex' where o: "build_periodic_set signals a dh periods True = Ok (out', ex')"
    "mset (concat (map pm_pids out')) = mset (filter (\<lambda>p. \<not> left_out a True p) (map (\<lambda>sig. to_uppercase (fst sig)) signals))"
    "\<forall>m \<in> set out'. sound_message signals a dh periods True m"
    using build_set_ok [OF assms(1)] by metis
  have out': "out' = out" using o(1) assms(3) by simp
  have sound: "sound_message signals a dh periods True m" using o(3) assms(4) out' by blast
  then have fit: "1 + sum_list (map (\<lambda>p. cost_of (learned a p)) (pm_pids m)) \<le> 7" and ne: "pm_pids m \<noteq> []"
    by (simp_all add: sound_message_def)
  have "map (\<lambda>p. cost_of (learned a p)) (pm_pids m) = map cost_of (request_members md ls)"
    using arg_cong [OF assms(5), of "map cost_of"] by (simp add: comp_def)
  then have len: "length (bytes (payload_for md (full_reply md ls data ctrl))) \<le> 7"
    using fit full_reply_length [OF assms(6), of ctrl] by simp
  have "distinct (concat (map pm_pids out'))"
    using o(2) distinct_filter [OF assms(2)] mset_eq_imp_distinct_iff by blast
  then have "distinct (pm_pids m)" using assms(4) out' by (auto simp: distinct_concat_iff)
  moreover have "map fst (request_members md ls) = pm_pids m"
    using arg_cong [OF assms(5), of "map fst"] by (simp add: comp_def)
  ultimately have "distinct (map (\<lambda>x. member_pid md (fst x)) ls)" by (simp add: request_members_def comp_def case_prod_beta)
  then have d: "distinct (map fst ls)" by (simp add: distinct_map comp_def inj_on_def)
  have ls: "ls \<noteq> []" using ne assms(5) by (auto simp: request_members_def)
  have ok: "\<forall>e \<in> fst ` set ls. echo_ok md e" using assms(6) by auto
  have fsts: "map fst (map (\<lambda>(e, l). (e, data e)) ls) = map fst ls" by (simp add: case_prod_beta comp_def)
  have reply: "reply_ok md ls (full_reply md ls data ctrl)"
    unfolding reply_ok_def full_reply_def prod.case fsts using d assms(6) by (auto simp: map_of_eq_Some_iff [OF d]) (metis fst_conv snd_conv)
  obtain got where got: "split_multi_pid (request_members md ls) [payload_for md (full_reply md ls data ctrl)] = Ok got"
    "\<forall>e \<in> fst ` set ls. \<forall>c. lookup_member got (member_pid md e) c =
       (case map_of [full_reply md ls data ctrl] c of None \<Rightarrow> None | Some (items, _) \<Rightarrow> map_option (member_response md c e) (map_of items e))"
    using split_exact [OF ls d ok, of "[full_reply md ls data ctrl]"] reply by auto
  have "lookup_member got (member_pid md e) ctrl = Some (member_response md ctrl e (data e))" if "(e, l) \<in> set ls" for e l
    using bspec [OF got(2), of e] that by (force simp: full_reply_def map_of_items)
  then show ?thesis using len got(1) unfolding assms(5) by (auto simp: list_all_iff)
qed

section \<open>A concrete set\<close>

definition demo_admission :: Admission where
  "demo_admission = \<lparr> max_segments = 12, chunk_limit = 6, chunk22_limit = 2,
     length_cache = Some \<lparr> lengths = [''010C'' \<mapsto> 2, ''010D'' \<mapsto> 1, ''0111'' \<mapsto> 1, ''0105'' \<mapsto> 1, ''22F40C'' \<mapsto> 2, ''0902'' \<mapsto> 17], store_file = None \<rparr>,
     chunk_excluded = {} \<rparr>"

definition demo_stn :: "stn_signal list" where
  "demo_stn = [(''0111'', None, Fast), (''010d'', None, Fast), (''010C'', None, Fast), (''0105'', None, Slow), (''0902'', None, Fast), (''22F40C'', Some ''7E0'', Fast)]"

definition demo_message :: PeriodicMessage where
  "demo_message = \<lparr> pm_period = 25, pm_header = ''7E0'', pm_data = ''010C0D'', pm_pids = [''010C'', ''010D''] \<rparr>"

definition demo_set :: "PeriodicMessage list" where
  "demo_set = [demo_message, \<lparr> pm_period = 25, pm_header = ''7E0'', pm_data = ''0111'', pm_pids = [''0111''] \<rparr>,
     \<lparr> pm_period = 25, pm_header = ''7E0'', pm_data = ''22F40C'', pm_pids = [''22F40C''] \<rparr>,
     \<lparr> pm_period = 500, pm_header = ''7E0'', pm_data = ''0105'', pm_pids = [''0105''] \<rparr>]"

lemma demo_stn_set: "build_periodic_set demo_stn demo_admission ''7E0'' default_periods True = Ok (demo_set, [''0902''])"
  by code_simp

lemma demo_command: "pm_command demo_message = ''STPPMA 25, 7E0, 010C0D''"
  by code_simp

lemma demo_budgeted: "\<forall>sig \<in> set demo_stn. budgeted demo_admission sig"
  by code_simp


lemma stn_reply_decodes_witness:
  "\<exists>got. split_multi_pid [(''010C'', 2), (''010D'', 1)] [\<lparr> controller = ''7E8'', bytes = [0x41, 0x0C, 0x1A, 0xF8, 0x0D, 0x32] \<rparr>] = Ok got
     \<and> lookup_member got (member_pid Mode01 0x0C) ''7E8'' = Some (member_response Mode01 ''7E8'' 0x0C [0x1A, 0xF8])
     \<and> lookup_member got (member_pid Mode01 0x0D) ''7E8'' = Some (member_response Mode01 ''7E8'' 0x0D [0x32])"
proof -
  let ?ls = "[(0x0C, 2), (0x0D, 1)] :: (u16 \<times> u8) list" and ?data = "\<lambda>e :: u16. if e = 0x0C then [0x1A, 0xF8] else [0x32 :: u8]"
  have ids: "distinct (map (\<lambda>sig. to_uppercase (fst sig)) demo_stn)" by code_simp
  have mem_is: "map (learned demo_admission) (pm_pids demo_message) = [(''010C'', 2), (''010D'', 1)]"
    "request_members Mode01 ?ls = [(''010C'', 2), (''010D'', 1)]" by code_simp+
  have ok: "\<forall>x \<in> set ?ls. echo_ok Mode01 (fst x) \<and> length (?data (fst x)) = unat (snd x)" by (simp add: echo_ok_def)
  have reply_is: "payload_for Mode01 (full_reply Mode01 ?ls ?data ''7E8'') = \<lparr> controller = ''7E8'', bytes = [0x41, 0x0C, 0x1A, 0xF8, 0x0D, 0x32] \<rparr>"
    by (simp add: full_reply_def payload_for_def mode_reply_def encode_items_def echo_bytes_def)
  have m: "demo_message \<in> set demo_set" by (simp add: demo_set_def)
  from stn_reply_decodes [OF demo_budgeted ids demo_stn_set m _ ok, of "''7E8''"]
  show ?thesis unfolding mem_is reply_is by simp
qed

text \<open>The budget is computed in \<^verbatim>\<open>u8\<close>: with a learned length of 255 bytes the cost of a Mode 01 PID wraps to 0 (a checked build
  panics there), so the PID is packed into a single-frame message although its reply needs 257 bytes.\<close>

lemma long_reply_packed:
  "member_cost ''010C'' 255 = 0"
  "build_periodic_set [(''010C'', None, Fast)]
     (demo_admission \<lparr> length_cache := Some \<lparr> lengths = [''010C'' \<mapsto> 255], store_file = None \<rparr> \<rparr>) ''7E0'' default_periods True
   = Ok ([\<lparr> pm_period = 25, pm_header = ''7E0'', pm_data = ''010C'', pm_pids = [''010C''] \<rparr>], [])"
  by code_simp+

end
