(* ===== verification/DviFraming.thy ===== *)
theory DviFraming
  imports ElmWire DviCodec
begin

text \<open>
  The pure half of the DVI link handler (\<^verbatim>\<open>src/link/dvi/handler.rs\<close>): request and response identifiers, what a command
  expects its reply to begin with, how a frame is shown, and how the CAN frames of an answer become payloads (ISO-TP
  framing by identifier, in the order of arrival).
\<close>

definition FUNCTIONAL_11 :: u32 where "FUNCTIONAL_11 = 0x7DF"
definition FUNCTIONAL_29 :: u32 where "FUNCTIONAL_29 = 0x18DB33F1"

section \<open>Identifiers\<close>

definition u32_from_hex :: "string \<Rightarrow> u32 option" where
  "u32_from_hex s = map_option of_nat (from_str_radix16 0xFFFFFFFF s)"

text \<open>\<^verbatim>\<open>periodic_response_id\<close> of \<^verbatim>\<open>src/addressing.rs\<close>: where the answers to a physical request header arrive.\<close>

definition periodic_response_id :: "string \<Rightarrow> string" where
  "periodic_response_id hdr =
     (let h = to_uppercase (trim hdr) in
      case (if length h \<le> 3 then u16_from_hex h else None) of
        Some n \<Rightarrow> if 0x241 \<le> n \<and> n \<le> 0x25F then fmt03X (unat (n + 0x400))
                  else if n \<le> 0x7FF then fmt03X (unat (n + 8)) else h
      | None \<Rightarrow>
          if length h = 8 \<and> take 2 (drop 2 h) = ''DA'' \<and> list_all is_hexdigit h
          then take 2 h @ ''DA'' @ drop 6 h @ take 2 (drop 4 h) else h)"

definition response_id :: "u32 \<Rightarrow> bool \<Rightarrow> u32" where
  "response_id i ext =
     (let hdr = (if ext then pad0 8 (hexstr (unat i)) else fmt03X (unat i));
          fallback = (if ext then i else i + 8)
      in case u32_from_hex (periodic_response_id hdr) of None \<Rightarrow> fallback | Some r \<Rightarrow> r)"

definition header_tokens :: "u32 \<Rightarrow> string list" where
  "header_tokens i = (if i > 0x7FF then map (\<lambda>b. fmt02X (unat b)) (u32_to_be i) else [fmt03X (unat i)])"

definition controller_key :: "u32 \<Rightarrow> Bus \<Rightarrow> string" where
  "controller_key i bus =
     (let toks = header_tokens i in
      case read_header bus toks of Some (c, _) \<Rightarrow> key c | None \<Rightarrow> concat toks)"

definition render_frame :: "RxFrame \<Rightarrow> string" where
  "render_frame rx = join '' '' (header_tokens (rx_id rx)) @ concat (map (\<lambda>b. '' '' @ fmt02X (unat b)) (rx_data rx))"

definition is_obd_responder :: "u32 \<Rightarrow> bool" where
  "is_obd_responder i \<longleftrightarrow> (0x7E8 \<le> i \<and> i \<le> 0x7EF) \<or> drop_bit 16 i = 0x18DA"

section \<open>Commands and their echoes\<close>

definition expected_echo :: "string \<Rightarrow> u8 list option" where
  "expected_echo command =
     (let c = to_uppercase (trim command); hex = (\<lambda>i. u8_from_hex (take 2 (drop i c))) in
      if contains c ''|'' \<or> contains c '' '' then None
      else if take 2 c = ''01'' \<and> length c = 4 then
        (case hex 2 of None \<Rightarrow> None | Some a \<Rightarrow> Some [0x41, a])
      else if take 2 c = ''22'' \<and> length c = 6 then
        (case (hex 2, hex 4) of (Some a, Some b) \<Rightarrow> Some [0x62, a, b] | _ \<Rightarrow> None)
      else None)"

definition frame_response_bytes :: "u8 list \<Rightarrow> u8 list" where
  "frame_response_bytes d =
     (case d of
        [] \<Rightarrow> d
      | b # _ \<Rightarrow> if drop_bit 4 b = 0 then drop 1 d
                 else if drop_bit 4 b = 1 \<and> length d \<ge> 2 then drop 2 d else d)"

definition command_for_reply :: "u8 list \<Rightarrow> string option" where
  "command_for_reply payload =
     (case payload of
        a # b # r \<Rightarrow>
          if a = 0x41 then Some (''01'' @ fmt02X (unat b))
          else if a = 0x62 then (case r of c # _ \<Rightarrow> Some (''22'' @ fmt02X (unat b) @ fmt02X (unat c)) | [] \<Rightarrow> None)
          else None
      | _ \<Rightarrow> None)"

definition command_pid_set :: "string \<Rightarrow> string set" where
  "command_pid_set command =
     (let c = to_uppercase (trim command); mode = take 2 c; rest = drop 2 c; width = (if mode = ''22'' then 4 else 2) in
      if length c < 4 \<or> \<not> list_all is_hexdigit c then {}
      else if length rest mod width \<noteq> 0 then {}
      else set (map (\<lambda>w. mode @ w) (chunks width rest)))"

section \<open>Frames to payloads\<close>

record Acc =
  ac_id :: u32
  ac_payload :: Payload
  ac_total :: nat
  ac_done :: bool

text \<open>The newest open assembly of an identifier, searched from the end, takes the bytes of a consecutive frame.\<close>

fun extend_first :: "u32 \<Rightarrow> u8 list \<Rightarrow> Acc list \<Rightarrow> Acc list" where
  "extend_first i d [] = []"
| "extend_first i d (a # as) =
     (if ac_id a = i \<and> \<not> ac_done a
      then (let all = bytes (ac_payload a) @ d
            in a \<lparr> ac_payload := (ac_payload a) \<lparr> bytes := take (ac_total a) all \<rparr>, ac_done := ac_total a \<le> length all \<rparr>) # as
      else a # extend_first i d as)"

definition extend_last :: "u32 \<Rightarrow> u8 list \<Rightarrow> Acc list \<Rightarrow> Acc list" where
  "extend_last i d as = rev (extend_first i d (rev as))"

definition frame_step :: "Bus \<Rightarrow> Acc list \<Rightarrow> RxFrame \<Rightarrow> Acc list" where
  "frame_step bus accs f =
     (case rx_data f of
        [] \<Rightarrow> accs
      | pci # rest \<Rightarrow>
          (let acc = (\<lambda>b total fin. \<lparr> ac_id = rx_id f, ac_payload = \<lparr> controller = controller_key (rx_id f) bus, bytes = b \<rparr>,
                                  ac_total = total, ac_done = fin \<rparr>);
               hi = drop_bit 4 pci; lo = unat (pci AND 0x0F)
           in if hi = 0 \<and> pci > 0 then accs @ [acc (take lo rest) lo True]
              else if hi = 1 \<and> rest \<noteq> [] then
                (let total = lo * 256 + unat (hd rest)
                 in accs @ [acc (take total (tl rest)) total (total \<le> length (tl rest))])
              else if hi = 2 then extend_last (rx_id f) rest accs
              else if hi = 3 then accs
              else accs @ [acc (rx_data f) (length (rx_data f)) True]))"

definition frame_payloads :: "RxFrame list \<Rightarrow> Bus \<Rightarrow> (u32 \<times> Payload \<times> bool) list" where
  "frame_payloads fs bus = map (\<lambda>a. (ac_id a, ac_payload a, ac_done a)) (foldl (frame_step bus) [] fs)"

definition reply_complete :: "RxFrame list \<Rightarrow> u32 \<Rightarrow> Bus \<Rightarrow> bool" where
  "reply_complete fs i bus =
     (case find (\<lambda>x. fst x = i) (rev (frame_payloads fs bus)) of None \<Rightarrow> False | Some x \<Rightarrow> snd (snd x))"

section \<open>Facts about framing\<close>

text \<open>An extension touches the newest open assembly only.\<close>

lemma extend_last_open:
  "ac_id a = i \<Longrightarrow> \<not> ac_done a \<Longrightarrow>
   extend_last i d (as @ [a]) = as @ [a \<lparr> ac_payload := (ac_payload a) \<lparr> bytes := take (ac_total a) (bytes (ac_payload a) @ d) \<rparr>,
     ac_done := ac_total a \<le> length (bytes (ac_payload a) @ d) \<rparr>]"
  by (simp add: extend_last_def Let_def)

lemma extend_first_each:
  assumes "\<forall>a \<in> set as. P a"
    and "\<And>a. P a \<Longrightarrow> \<not> ac_done a \<Longrightarrow>
      P (a \<lparr> ac_payload := (ac_payload a) \<lparr> bytes := take (ac_total a) (bytes (ac_payload a) @ d) \<rparr>,
             ac_done := ac_total a \<le> length (bytes (ac_payload a) @ d) \<rparr>)"
  shows "\<forall>a \<in> set (extend_first i d as). P a"
  using assms by (induction as) (auto simp: Let_def)

lemma set_extend_last: "set (extend_last i d as) = set (extend_first i d (rev as))"
  by (simp add: extend_last_def)

text \<open>Where the bytes of a payload come from: the response bytes of a frame of its identifier, as far as they go, or a
  frame that begins with a zero byte.\<close>

definition first_frame :: "RxFrame \<Rightarrow> bool" where
  "first_frame f \<longleftrightarrow> rx_data f \<noteq> [] \<and> drop_bit 4 (hd (rx_data f)) = 1"

definition stems_from :: "Acc \<Rightarrow> RxFrame \<Rightarrow> bool" where
  "stems_from a f \<longleftrightarrow> rx_id f = ac_id a \<and>
     (if ac_done a
      then (\<exists>k rest. bytes (ac_payload a) = take k (frame_response_bytes (rx_data f) @ rest) \<and> (rest = [] \<or> first_frame f))
           \<or> (\<exists>r. bytes (ac_payload a) = 0 # r)
      else first_frame f \<and> (\<exists>rest. bytes (ac_payload a) = frame_response_bytes (rx_data f) @ rest))"

lemma stems_from_extend:
  "stems_from a f \<Longrightarrow> \<not> ac_done a \<Longrightarrow>
   stems_from (a \<lparr> ac_payload := (ac_payload a) \<lparr> bytes := take (ac_total a) (bytes (ac_payload a) @ d) \<rparr>,
                ac_done := ac_total a \<le> length (bytes (ac_payload a) @ d) \<rparr>) f"
proof -
  assume "stems_from a f" "\<not> ac_done a"
  then obtain rest where m: "rx_id f = ac_id a" "bytes (ac_payload a) = frame_response_bytes (rx_data f) @ rest" "first_frame f"
    by (auto simp: stems_from_def)
  have "take (ac_total a) (bytes (ac_payload a) @ d) = take (ac_total a) (frame_response_bytes (rx_data f) @ (rest @ d))"
    by (simp only: m(2) append_assoc)
  moreover have "\<not> ac_total a \<le> length (bytes (ac_payload a) @ d) \<Longrightarrow>
      take (ac_total a) (bytes (ac_payload a) @ d) = frame_response_bytes (rx_data f) @ (rest @ d)"
    by (simp only: m(2) append_assoc) simp
  ultimately show ?thesis unfolding stems_from_def using m(1,3) by (simp del: take_append) blast
qed

lemma frame_step_stems:
  assumes "\<forall>a \<in> set accs. \<exists>f \<in> fs. stems_from a f"
  shows "\<forall>a \<in> set (frame_step bus accs f). \<exists>f' \<in> insert f fs. stems_from a f'"
proof (cases "rx_data f")
  case (Cons pci rest)
  have old: "\<forall>a \<in> set accs. \<exists>f' \<in> insert f fs. stems_from a f'" using assms by blast
  have ext: "\<forall>a \<in> set (extend_last (rx_id f) rest accs). \<exists>f' \<in> insert f fs. stems_from a f'"
    unfolding set_extend_last by (rule extend_first_each) (use old stems_from_extend in \<open>simp, blast\<close>)
  show ?thesis
  proof (cases "drop_bit 4 pci = 2")
    case True
    then show ?thesis using ext by (simp add: frame_step_def Cons Let_def)
  next
    case False
    have new: "stems_from \<lparr> ac_id = rx_id f, ac_payload = \<lparr> controller = c, bytes = b \<rparr>, ac_total = t, ac_done = fin \<rparr> f"
      if src: "(\<exists>k. b = take k (frame_response_bytes (rx_data f)) \<and> (\<not> fin \<longrightarrow> b = frame_response_bytes (rx_data f) \<and> first_frame f)) \<or> (fin \<and> (\<exists>r. b = 0 # r))" for c b t fin
    proof -
      have "\<exists>k rest. b = take k (frame_response_bytes (rx_data f) @ rest) \<and> (rest = [] \<or> first_frame f)" if "\<exists>k. b = take k (frame_response_bytes (rx_data f))"
        using that by (metis append_Nil2)
      moreover have "\<exists>rest. b = frame_response_bytes (rx_data f) @ rest" if "b = frame_response_bytes (rx_data f)"
        using that by simp
      ultimately show ?thesis using src by (cases fin) (auto simp: stems_from_def simp del: take_append)
    qed
    consider (single) "drop_bit 4 pci = 0" "pci > 0" | (zero) "pci = 0" | (first) "drop_bit 4 pci = 1" "rest \<noteq> []"
      | (flow) "drop_bit 4 pci = 3" | (other) "drop_bit 4 pci \<noteq> 0" "drop_bit 4 pci \<noteq> 3" "\<not> (drop_bit 4 pci = 1 \<and> rest \<noteq> [])"
      by (metis word_coorder.not_eq_extremum)
    then show ?thesis
    proof cases
      case single
      have "frame_response_bytes (rx_data f) = rest" using single by (simp add: frame_response_bytes_def Cons)
      then have "stems_from \<lparr> ac_id = rx_id f, ac_payload = \<lparr> controller = c, bytes = take lo rest \<rparr>, ac_total = t, ac_done = True \<rparr> f" for c t lo
        by (intro new) auto
      then show ?thesis using single old by (simp add: frame_step_def Cons Let_def)
    next
      case zero
      then have "stems_from \<lparr> ac_id = rx_id f, ac_payload = \<lparr> controller = c, bytes = rx_data f \<rparr>, ac_total = t, ac_done = True \<rparr> f" for c t
        by (intro new) (auto simp: Cons)
      then show ?thesis using zero old by (simp add: frame_step_def Cons Let_def)
    next
      case first
      have "frame_response_bytes (rx_data f) = tl rest" using first by (cases rest) (simp_all add: frame_response_bytes_def Cons)
      then have "stems_from \<lparr> ac_id = rx_id f, ac_payload = \<lparr> controller = c, bytes = take total (tl rest) \<rparr>, ac_total = t, ac_done = (total \<le> length (tl rest)) \<rparr> f" for c t total
        using first(1) by (intro new) (auto simp: not_le first_frame_def Cons)
      then show ?thesis using first old by (simp add: frame_step_def Cons Let_def)
    next
      case flow
      then show ?thesis using old by (simp add: frame_step_def Cons Let_def)
    next
      case other
      have "frame_response_bytes (rx_data f) = rx_data f" using other by (cases rest) (auto simp: frame_response_bytes_def Cons)
      moreover have "\<exists>k. rx_data f = take k (rx_data f)" by (rule exI [of _ "length (rx_data f)"]) simp
      ultimately have "stems_from \<lparr> ac_id = rx_id f, ac_payload = \<lparr> controller = c, bytes = rx_data f \<rparr>, ac_total = t, ac_done = True \<rparr> f" for c t
        by (intro new) auto
      then show ?thesis using other False old by (auto simp: frame_step_def Cons Let_def)
    qed
  qed
qed (use assms in \<open>auto simp: frame_step_def\<close>)

lemma frames_stem: "\<forall>a \<in> set (foldl (frame_step bus) [] fs). \<exists>f \<in> set fs. stems_from a f"
proof (induction fs rule: rev_induct)
  case (snoc f fs)
  then show ?case using frame_step_stems [OF snoc.IH, of bus f] by simp
qed simp

lemma payload_stems:
  assumes "(i, p, True) \<in> set (frame_payloads fs bus)"
  obtains f k rest where "f \<in> set fs" "rx_id f = i" "bytes p = take k (frame_response_bytes (rx_data f) @ rest)" "rest = [] \<or> first_frame f"
  | r where "bytes p = 0 # r"
proof -
  obtain a where a: "a \<in> set (foldl (frame_step bus) [] fs)" "i = ac_id a" "p = ac_payload a" "ac_done a"
    using assms by (auto simp: frame_payloads_def)
  obtain f where f: "f \<in> set fs" "stems_from a f" using frames_stem a(1) by blast
  then have "(\<exists>k rest. bytes p = take k (frame_response_bytes (rx_data f) @ rest) \<and> (rest = [] \<or> first_frame f)) \<or> (\<exists>r. bytes p = 0 # r)" "rx_id f = i"
    using a by (auto simp: stems_from_def)
  then show thesis using that f(1) by metis
qed

section \<open>Reassembly\<close>

text \<open>The CAN frames of one answer, as ISO 15765-2 and the tool produce them: a single frame; or a first frame with as much
  of the answer as the tool chose to put in it (all of it when the tool reassembles), and consecutive frames until the
  answer is complete, the last one padded.\<close>

definition consecutive :: "u8 list \<Rightarrow> bool" where
  "consecutive c \<longleftrightarrow> c \<noteq> [] \<and> drop_bit 4 (hd c) = 2"

definition single_reply :: "u8 list \<Rightarrow> u8 list list \<Rightarrow> bool" where
  "single_reply p ds \<longleftrightarrow> p \<noteq> [] \<and> length p \<le> 7 \<and> (\<exists>pad. ds = [of_nat (length p) # p @ pad])"

definition multi_reply :: "u8 list \<Rightarrow> u8 list \<Rightarrow> u8 list list \<Rightarrow> u8 list list \<Rightarrow> bool" where
  "multi_reply p first cs ds \<longleftrightarrow>
     ds = ((0x10 + of_nat (length p div 256)) # of_nat (length p mod 256) # first) # cs \<and> p \<noteq> [] \<and> length p < 4096 \<and> 6 \<le> length first
     \<and> list_all consecutive cs \<and> (\<exists>pad. first @ concat (map tl cs) = p @ pad)
     \<and> (cs \<noteq> [] \<longrightarrow> length (first @ concat (map tl (butlast cs))) < length p)"

definition iso_reply :: "u8 list \<Rightarrow> u8 list list \<Rightarrow> bool" where
  "iso_reply p ds \<longleftrightarrow> single_reply p ds \<or> (\<exists>first cs. multi_reply p first cs ds)"

definition assembled :: "Bus \<Rightarrow> u32 \<Rightarrow> nat \<Rightarrow> u8 list \<Rightarrow> Acc" where
  "assembled bus i n b =
     \<lparr> ac_id = i, ac_payload = \<lparr> controller = controller_key i bus, bytes = take n b \<rparr>, ac_total = n, ac_done = n \<le> length b \<rparr>"

lemma first_pci: "n < 4096 \<Longrightarrow> drop_bit 4 (0x10 + of_nat (n div 256) :: u8) = 1"
  and first_pci_low: "n < 4096 \<Longrightarrow> unat ((0x10 + of_nat (n div 256) :: u8) AND 0x0F) = n div 256"
proof -
  assume n: "n < 4096"
  have v: "unat (0x10 + of_nat (n div 256) :: u8) = 16 + n div 256"
    using n by (simp add: unat_word_ariths unat_of_nat)
  have "(16 + n div 256) div 16 = 1" using n by simp
  then have "drop_bit 4 (16 + n div 256) = 1" by (simp add: drop_bit_eq_div)
  then have "unat (drop_bit 4 (0x10 + of_nat (n div 256) :: u8)) = 1" by (simp only: unat_drop_bit_eq v)
  then show "drop_bit 4 (0x10 + of_nat (n div 256) :: u8) = 1"
    using word_unat_eq_iff [of "drop_bit 4 (0x10 + of_nat (n div 256) :: u8)" 1] by simp
  have "(16 + n div 256) mod 16 = n div 256" using n by simp
  moreover have "unat ((0x10 + of_nat (n div 256) :: u8) AND 0x0F) = (16 + n div 256) AND 0x0F"
    by (simp add: unsigned_and_eq v)
  moreover have "(16 + n div 256) AND 0x0F = (16 + n div 256) mod 16"
    using and_nat_numerals take_bit_eq_mod [of 4 "16 + n div 256"] by (simp add: take_bit_eq_mask mask_eq_exp_minus_1)
  ultimately show "unat ((0x10 + of_nat (n div 256) :: u8) AND 0x0F) = n div 256" by simp
qed

lemma step_first:
  assumes "rx_data f = (0x10 + of_nat (n div 256)) # of_nat (n mod 256) # first" "n < 4096"
  shows "frame_step bus accs f = accs @ [assembled bus (rx_id f) n first]"
proof -
  have "unat (of_nat (n mod 256) :: u8) = n mod 256" by (simp add: unat_of_nat)
  then show ?thesis
    using first_pci [OF assms(2)] first_pci_low [OF assms(2)]
    by (simp add: frame_step_def assms(1) Let_def assembled_def)
qed

lemma step_consecutive:
  assumes "consecutive (rx_data f)" "length b < n" "rx_id f = i"
  shows "frame_step bus (accs @ [assembled bus i n b]) f = accs @ [assembled bus i n (b @ tl (rx_data f))]"
proof -
  obtain pci rest where f: "rx_data f = pci # rest" "drop_bit 4 pci = 2" using assms(1) by (cases "rx_data f") (auto simp: consecutive_def)
  show ?thesis
    using assms(2,3) by (simp add: frame_step_def f Let_def extend_last_open assembled_def)
qed

lemma steps_consecutive:
  assumes "list_all consecutive (map rx_data fs)" "\<forall>f \<in> set fs. rx_id f = i"
    and "fs \<noteq> [] \<Longrightarrow> length (b @ concat (map tl (butlast (map rx_data fs)))) < n"
  shows "foldl (frame_step bus) (accs @ [assembled bus i n b]) fs = accs @ [assembled bus i n (b @ concat (map tl (map rx_data fs)))]"
  using assms
proof (induction fs arbitrary: b)
  case (Cons f fs)
  have "length b < n" using Cons.prems(3) by (cases fs) auto
  then have "frame_step bus (accs @ [assembled bus i n b]) f = accs @ [assembled bus i n (b @ tl (rx_data f))]"
    using Cons.prems(1,2) by (intro step_consecutive) auto
  moreover have "foldl (frame_step bus) (accs @ [assembled bus i n (b @ tl (rx_data f))]) fs
      = accs @ [assembled bus i n ((b @ tl (rx_data f)) @ concat (map tl (map rx_data fs)))]"
    using Cons.prems by (intro Cons.IH) (cases fs; auto)+
  ultimately show ?case by simp
qed simp

lemma small_nat_byte: "0 < n \<Longrightarrow> n \<le> 7 \<Longrightarrow> drop_bit 4 (of_nat n :: u8) = 0 \<and> (of_nat n :: u8) > 0 \<and> unat ((of_nat n :: u8) AND 0x0F) = n"
proof -
  assume "0 < n" "n \<le> 7"
  then have "n \<in> {1, 2, 3, 4, 5, 6, 7}" by auto
  then show ?thesis by auto
qed

lemma reply_assembles:
  assumes "iso_reply p (map rx_data fs)" "\<forall>f \<in> set fs. rx_id f = i"
  shows "\<exists>pad. foldl (frame_step bus) accs fs = accs @ [assembled bus i (length p) (p @ pad)]"
proof (cases "single_reply p (map rx_data fs)")
  case True
  then obtain f pad where fs: "fs = [f]" "rx_data f = of_nat (length p) # p @ pad" "p \<noteq> []" "length p \<le> 7"
    by (auto simp: single_reply_def)
  have "rx_id f = i" using assms(2) fs(1) by simp
  then have "foldl (frame_step bus) accs fs = accs @ [assembled bus i (length p) (p @ pad)]"
    using small_nat_byte [of "length p"] fs(3,4)
    by (simp add: fs(1) frame_step_def fs(2) Let_def assembled_def)
  then show ?thesis by blast
next
  case False
  then obtain first cs where m: "multi_reply p first cs (map rx_data fs)" using assms(1) by (auto simp: iso_reply_def)
  then obtain f gs where fs: "fs = f # gs" "rx_data f = (0x10 + of_nat (length p div 256)) # of_nat (length p mod 256) # first" "map rx_data gs = cs"
    by (cases fs) (auto simp: multi_reply_def)
  obtain pad where pad: "first @ concat (map tl cs) = p @ pad" using m by (auto simp: multi_reply_def)
  have "frame_step bus accs f = accs @ [assembled bus i (length p) first]"
    using step_first [OF fs(2)] m assms(2) fs(1) by (simp add: multi_reply_def)
  moreover have "foldl (frame_step bus) (accs @ [assembled bus i (length p) first]) gs
      = accs @ [assembled bus i (length p) (first @ concat (map tl (map rx_data gs)))]"
    using m assms(2) fs by (intro steps_consecutive) (auto simp: multi_reply_def)
  ultimately show ?thesis using fs pad by auto
qed

end
