(* ===== verification/PeriodicContract.thy ===== *)
theory PeriodicContract
  imports StnPeriodic "HOL-Library.Sublist"
begin

text \<open>
  The seam between the session and an adapter's periodic acquisition (the trait \<^verbatim>\<open>PeriodicEngine\<close> of
  \<^verbatim>\<open>src/link/mod.rs\<close>): what the session asks for, what it is told, and, as a locale, what it may rely
  on. A trait object is a record of its operations. The two implementations of the code interpret the
  locale: the slots of a DVI tool in \<open>DviLink\<close> and the messages of an STN chip in \<open>StnEngine\<close>. Its
  client is the session bracket of \<open>PeriodicSession\<close>.
\<close>

record PeriodicPlan =
  pp_messages :: "PeriodicMessage list"
  pp_lengths :: "string \<Rightarrow> u8 option"

record PeriodicInstall =
  pi_accepted :: nat
  pi_response_ids :: "string list"
  pi_fast_ms :: u32
  pi_served :: "string list"

record PeriodicStats =
  st_members :: nat
  st_fast_ms :: u32

datatype PeriodicError = NoneAccepted | MonitorFailed string | ArmAborted u32 | NotStarted

definition plan_members :: "PeriodicPlan \<Rightarrow> PeriodicMessage \<Rightarrow> (string \<times> u8) list" where
  "plan_members plan m = map (\<lambda>p. (p, case pp_lengths plan p of None \<Rightarrow> 1 | Some l \<Rightarrow> l)) (pm_pids m)"

fun add_new :: "string list \<Rightarrow> string \<Rightarrow> string list" where
  "add_new ks k = (if k \<in> set ks then ks else ks @ [k])"

record 's Engine =
  eg_live :: "'s \<Rightarrow> bool"
  eg_stats :: "'s \<Rightarrow> PeriodicStats option"
  eg_start :: "PeriodicPlan \<Rightarrow> 's \<Rightarrow> 's \<times> (PeriodicError + PeriodicInstall)"
  eg_arm :: "'s \<Rightarrow> 's \<times> (PeriodicError + unit)"
  eg_break :: "'s \<Rightarrow> 's"
  eg_teardown :: "'s \<Rightarrow> 's"
  eg_abandon :: "'s \<Rightarrow> 's"

text \<open>
  The contract. A live engine refuses to start. A start that succeeds leaves the engine live with some
  of the messages of the plan, at least one and in their order, and says which PIDs they serve; a
  failed start leaves the engine as live as it was. Arming and breaking do not end the set, teardown
  and abandoning do.
\<close>

definition installs :: "PeriodicPlan \<Rightarrow> PeriodicInstall \<Rightarrow> bool" where
  "installs plan i \<longleftrightarrow> (\<exists>ms. subseq ms (pp_messages plan) \<and> ms \<noteq> [] \<and> pi_accepted i = length ms
     \<and> pi_served i = concat (map pm_pids ms))"

locale periodic_engine =
  fixes E :: "'s Engine"
  assumes start_busy: "eg_live E s \<Longrightarrow> eg_start E plan s = (s, Inl NotStarted)"
    and stats_live: "eg_stats E s = None \<longleftrightarrow> \<not> eg_live E s"
    and start_installs: "eg_start E plan s = (s', Inr i) \<Longrightarrow> eg_live E s' \<and> installs plan i"
    and start_fails: "eg_start E plan s = (s', Inl e) \<Longrightarrow> eg_live E s' = eg_live E s"
    and arm_idle: "\<not> eg_live E s \<Longrightarrow> eg_arm E s = (s, Inl NotStarted)"
    and arm_live: "eg_live E (fst (eg_arm E s)) = eg_live E s"
    and break_live: "eg_live E (eg_break E s) = eg_live E s"
    and teardown_ends: "\<not> eg_live E (eg_teardown E s)"
    and abandon_ends: "\<not> eg_live E (eg_abandon E s)"
begin

lemma start_free: "eg_start E plan s = (s', Inr i) \<Longrightarrow> \<not> eg_live E s"
  using start_busy [of s plan] by auto

lemma start_serves: "eg_start E plan s = (s', Inr i) \<Longrightarrow> set (pi_served i) \<subseteq> (\<Union>m \<in> set (pp_messages plan). set (pm_pids m))"
proof
  fix p
  assume a: "eg_start E plan s = (s', Inr i)" "p \<in> set (pi_served i)"
  then obtain ms where ms: "subseq ms (pp_messages plan)" "pi_served i = concat (map pm_pids ms)"
    using start_installs unfolding installs_def by blast
  with a(2) obtain m where m: "m \<in> set ms" "p \<in> set (pm_pids m)" by auto
  from ms(1) m(1) have "m \<in> set (pp_messages plan)" by (auto elim: list_emb_set)
  with m(2) show "p \<in> (\<Union>m \<in> set (pp_messages plan). set (pm_pids m))" by blast
qed

text \<open>What the session does to a live set, in any order.\<close>

lemma ended_stays_ended: "\<not> eg_live E s \<Longrightarrow> \<not> eg_live E (fst (eg_arm E (eg_break E s)))"
  by (simp add: arm_live break_live)

end

end
