(* ===== verification/DviLink.thy ===== *)
theory DviLink
  imports DviFraming PeriodicContract
begin

text \<open>
  The DVI link handler (\<^verbatim>\<open>src/link/dvi/handler.rs\<close>): one outstanding request, its collector, and the routing of every
  frame the tool delivers to a periodic slot, to the request it answers, or nowhere. Each function is one locked section
  of the code with the calls it makes on the way out; the outputs (completions, slot replies, bytes for the tool, taps)
  are a list of effects. Time is in milliseconds. The tool's answer to a setup exchange is a parameter of the operation
  that makes it; the audit counters, the log, the sniffer's text and the capture filters are not modelled.
\<close>

definition FUNCTIONAL_QUIET :: nat where "FUNCTIONAL_QUIET = 60"
definition NO_DATA_TIMEOUT :: nat where "NO_DATA_TIMEOUT = 250"
definition PENDING_WINDOW :: nat where "PENDING_WINDOW = 3000"
definition DYN_FLOW_SLOT :: u8 where "DYN_FLOW_SLOT = 26"
definition SLOTS :: nat where "SLOTS = 8"

section \<open>State\<close>

record Outstanding =
  oc_command :: string
  oc_expected :: "u32 option"
  oc_frames :: "RxFrame list"
  oc_pending :: bool
  oc_stray :: nat
  oc_started :: nat
  oc_last :: nat
  oc_gen :: nat

type_synonym slot_decoder = "u8 \<times> u32 \<times> (string \<times> u8) list \<times> string set"

record PeriodicLive =
  pl_decoders :: "slot_decoder list"
  pl_fast_ms :: u32
  pl_open :: bool

record DviState =
  dv_addressing :: Addressing
  dv_target :: "(u32 \<times> bool) option"
  dv_outstanding :: "Outstanding option"
  dv_generation :: nat
  dv_tap :: bool
  dv_reply_ids :: "u32 list"
  dv_last_resync :: "nat option"
  dv_periodic :: "PeriodicLive option"
  dv_flow_pairs :: "(u32 \<times> u32) list"
  dv_dyn_flow :: "(u32 \<times> u32) option"
  dv_setup_slot :: "DviFrame option"

definition dvi_new :: "Addressing \<Rightarrow> DviState" where
  "dvi_new a = \<lparr> dv_addressing = a, dv_target = None, dv_outstanding = None, dv_generation = 0, dv_tap = False, dv_reply_ids = [],
     dv_last_resync = None, dv_periodic = None, dv_flow_pairs = [], dv_dyn_flow = None, dv_setup_slot = None \<rparr>"

text \<open>Where a completion comes from: the end of the request of that generation, an acknowledgement made up by the
  handler, or a reply that answers an earlier request.\<close>

datatype Origin = Finished nat | Acked | Late

datatype DviEffect =
    Complete Origin string "string + WireReply"
  | SlotReply u32 Payload
  | ToolBytes "u8 list"
  | Tapped RxFrame

definition bus :: "DviState \<Rightarrow> Bus" where
  "bus st = bus_of (dv_addressing st)"

definition functional :: "DviState \<Rightarrow> u32 \<times> bool" where
  "functional st = (case dv_addressing st of Can11 \<Rightarrow> (FUNCTIONAL_11, False) | Can29 _ \<Rightarrow> (FUNCTIONAL_29, True))"

definition one_segment :: "LinkReply \<Rightarrow> WireReply" where
  "one_segment r = \<lparr> wr_raw = raw r, segments = [r] \<rparr>"

definition dvi_ack :: "string \<Rightarrow> DviEffect" where
  "dvi_ack command = Complete Acked command (Inr (one_segment ack_reply))"

section \<open>Sending\<close>

text \<open>A physical target outside the pairs installed at connect gets the dynamic flow filter; \<open>accepted\<close> says whether the
  tool took it.\<close>

definition ensure_flow_filter :: "bool \<Rightarrow> u32 \<Rightarrow> bool \<Rightarrow> DviState \<Rightarrow> DviState \<times> DviEffect list" where
  "ensure_flow_filter accepted i ext st =
     (if list_ex (\<lambda>x. snd x = i) (dv_flow_pairs st) \<or> (case dv_dyn_flow st of None \<Rightarrow> False | Some x \<Rightarrow> snd x = i) then (st, [])
      else (let rx = response_id i ext;
                f = can_filter DYN_FLOW_SLOT ext FilterFlow True rx (if ext then 0x1FFFFFFF else 0x7FF) i
            in ((if accepted then st \<lparr> dv_dyn_flow := Some (rx, i), dv_setup_slot := None \<rparr> else st \<lparr> dv_setup_slot := None \<rparr>), [ToolBytes f])))"

definition new_request :: "nat \<Rightarrow> string \<Rightarrow> u32 option \<Rightarrow> nat \<Rightarrow> Outstanding" where
  "new_request now command ex g =
     \<lparr> oc_command = command, oc_expected = ex, oc_frames = [], oc_pending = False, oc_stray = 0, oc_started = now, oc_last = now, oc_gen = g \<rparr>"

text \<open>\<^verbatim>\<open>encode\<close>: the command becomes a CAN request, or is answered on the spot, or is refused.\<close>

definition dvi_encode :: "nat \<Rightarrow> bool \<Rightarrow> string \<Rightarrow> DviState \<Rightarrow> DviState \<times> DviEffect list \<times> (string + u8 list option)" where
  "dvi_encode now accepted command st =
     (let cmd = to_uppercase (trim command) in
      case strip_prefix cmd ''ATSH'' of
        Some h0 \<Rightarrow>
          (let h = trim h0 in
           case u32_from_hex h of
             None \<Rightarrow> (st, [], Inl (''bad ATSH header '' @ h))
           | Some i \<Rightarrow>
               (let ext = length h > 3; fn = (i = FUNCTIONAL_11 \<or> i = FUNCTIONAL_29);
                    st1 = st \<lparr> dv_target := (if fn then None else Some (i, ext)) \<rparr>;
                    (st2, es) = (if fn then (st1, []) else ensure_flow_filter accepted i ext st1)
                in (st2, es @ [dvi_ack command], Inr None)))
      | None \<Rightarrow>
          (let compact = filter (\<lambda>c. \<not> is_ws c) cmd;
               is_hex = compact \<noteq> [] \<and> length compact mod 2 = 0 \<and> list_all is_hexdigit compact
           in if \<not> is_hex \<or> starts_with cmd ''AT'' \<or> starts_with cmd ''ST'' \<or> starts_with cmd ''DX''
              then (st, [dvi_ack command], Inr None)
              else if contains compact ''|'' then (st, [], Inl ''pipes are an STN encoding'')
              else (let payload = List.map_filter u8_from_hex (chunks 2 compact);
                        (i, ext, ex) = (case dv_target st of
                            Some (i, ext) \<Rightarrow> (i, ext, Some (response_id i ext))
                          | None \<Rightarrow> (let (f, ext) = functional st in (f, ext, None)));
                        g = dv_generation st + 1
                    in (st \<lparr> dv_generation := g, dv_outstanding := Some (new_request now command ex g) \<rparr>, [],
                        Inr (Some (tx_can i ext payload))))))"

section \<open>Completing\<close>

definition no_data_reply :: LinkReply where
  "no_data_reply = \<lparr> status = NoData, parsed = None, faulted = True, payloads = [], raw = ''NO DATA'' \<rparr>"

definition outcome_of :: "Bus \<Rightarrow> Outstanding \<Rightarrow> string option \<Rightarrow> string + WireReply" where
  "outcome_of b oc err =
     (case err of
        Some e \<Rightarrow> Inl e
      | None \<Rightarrow>
          if oc_frames oc = [] then Inr (one_segment no_data_reply)
          else Inr (one_segment (reply_from_payloads (oc_command oc) StOk False
                 (map (\<lambda>x. fst (snd x)) (filter (\<lambda>x. snd (snd x)) (frame_payloads (oc_frames oc) b)))
                 (join [CHR 0x0D] (map render_frame (oc_frames oc))))))"

definition finish_request :: "nat \<Rightarrow> string option \<Rightarrow> DviState \<Rightarrow> DviState \<times> DviEffect list" where
  "finish_request g err st =
     (case dv_outstanding st of
        None \<Rightarrow> (st, [])
      | Some oc \<Rightarrow>
          if oc_gen oc = g
          then (st \<lparr> dv_outstanding := None, dv_reply_ids := map rx_id (oc_frames oc) \<rparr>,
                [Complete (Finished g) (oc_command oc) (outcome_of (bus st) oc err)])
          else (st, []))"

text \<open>The collector's clock: how long it still waits for the request, nothing when the request is to be completed.\<close>

definition collector_left :: "nat \<Rightarrow> Outstanding \<Rightarrow> nat" where
  "collector_left now oc =
     (if oc_frames oc = [] then NO_DATA_TIMEOUT - (now - oc_started oc)
      else if oc_expected oc = None then FUNCTIONAL_QUIET - (now - oc_last oc)
      else (if oc_pending oc then PENDING_WINDOW else NO_DATA_TIMEOUT) - (now - oc_last oc))"

definition resync :: "nat \<Rightarrow> DviState \<Rightarrow> DviState \<times> DviEffect list" where
  "resync now st =
     (if (case dv_last_resync st of None \<Rightarrow> False | Some t \<Rightarrow> now - t < 2000) then (st, [])
      else (st \<lparr> dv_last_resync := Some now, dv_setup_slot := None \<rparr>, [ToolBytes (replicate 24 0), ToolBytes set_api_dvi]))"

definition collect :: "nat \<Rightarrow> nat \<Rightarrow> DviState \<Rightarrow> DviState \<times> DviEffect list" where
  "collect now g st =
     (case dv_outstanding st of
        None \<Rightarrow> (st, [])
      | Some oc \<Rightarrow>
          if oc_gen oc \<noteq> g \<or> 0 < collector_left now oc then (st, [])
          else (let (st1, es) = (if oc_stray oc \<ge> 3 then resync now st else (st, []));
                    (st2, es') = finish_request g None st1
                in (st2, es @ es')))"

section \<open>Frames from the tool\<close>

definition counts_for :: "Outstanding \<Rightarrow> u32 \<Rightarrow> bool" where
  "counts_for oc i \<longleftrightarrow> oc_expected oc = Some i \<or> (oc_expected oc = None \<and> is_obd_responder i)"

definition positive_reply :: "u8 list \<Rightarrow> bool" where
  "positive_reply r \<longleftrightarrow> r \<noteq> [] \<and> hd r AND 0x40 \<noteq> 0 \<and> hd r \<noteq> 0x7F"

definition lagged_reply :: "Outstanding \<Rightarrow> RxFrame \<Rightarrow> bool" where
  "lagged_reply oc rx \<longleftrightarrow> counts_for oc (rx_id rx) \<and>
     (case expected_echo (oc_command oc) of
        None \<Rightarrow> False
      | Some e \<Rightarrow> positive_reply (frame_response_bytes (rx_data rx)) \<and> take (length e) (frame_response_bytes (rx_data rx)) \<noteq> e)"

definition slot_of :: "PeriodicLive \<Rightarrow> u32 \<Rightarrow> Payload \<Rightarrow> slot_decoder option" where
  "slot_of p i payload =
     find (\<lambda>(_, r, ms, _). r = i \<and> (case split_multi_pid ms [payload] of Ok m \<Rightarrow> m \<noteq> [] | _ \<Rightarrow> False)) (pl_decoders p)"

definition outstanding_wants :: "DviState \<Rightarrow> u32 \<Rightarrow> string set \<Rightarrow> bool" where
  "outstanding_wants st i pidset =
     (case dv_outstanding st of None \<Rightarrow> False | Some oc \<Rightarrow> counts_for oc i \<and> command_pid_set (oc_command oc) = pidset)"

text \<open>The slot reply a frame is, if it is one.\<close>

definition routed_payload :: "DviState \<Rightarrow> RxFrame \<Rightarrow> Payload option" where
  "routed_payload st rx =
     (case dv_periodic st of
        None \<Rightarrow> None
      | Some p \<Rightarrow>
          if \<not> list_ex (\<lambda>(_, r, _, _). r = rx_id rx) (pl_decoders p) then None
          else (case frame_payloads [rx] (bus st) of
              (_, payload, True) # _ \<Rightarrow>
                (case slot_of p (rx_id rx) payload of
                   None \<Rightarrow> None
                 | Some (_, _, _, pidset) \<Rightarrow> if outstanding_wants st (rx_id rx) pidset then None else Some payload)
            | _ \<Rightarrow> None))"

definition slot_effects :: "DviState \<Rightarrow> RxFrame \<Rightarrow> Payload \<Rightarrow> DviEffect list" where
  "slot_effects st rx payload =
     (case dv_periodic st of Some p \<Rightarrow> if pl_open p then [SlotReply (rx_id rx) payload] else [] | None \<Rightarrow> [])"

text \<open>A late reply is handed up under the command its echo names, when it is whole.\<close>

definition late_effects :: "Bus \<Rightarrow> RxFrame \<Rightarrow> DviEffect list" where
  "late_effects b rx =
     (case frame_payloads [rx] b of
        (_, payload, True) # _ \<Rightarrow>
          (case command_for_reply (bytes payload) of
             None \<Rightarrow> []
           | Some cmd \<Rightarrow> [Complete Late cmd (Inr (one_segment (reply_from_payloads cmd StOk False [payload] (render_frame rx))))])
      | _ \<Rightarrow> [])"

definition response_pending :: "u8 list \<Rightarrow> bool" where
  "response_pending d \<longleftrightarrow> length d \<ge> 4 \<and> d ! 0 = 0x03 \<and> d ! 1 = 0x7F \<and> d ! 3 = 0x78"

definition count_frame :: "nat \<Rightarrow> RxFrame \<Rightarrow> Outstanding \<Rightarrow> Outstanding" where
  "count_frame now rx oc =
     oc \<lparr> oc_frames := oc_frames oc @ [rx], oc_last := now,
          oc_pending := oc_pending oc \<or> (response_pending (rx_data rx) \<and> oc_expected oc = Some (rx_id rx)) \<rparr>"

definition on_rx :: "nat \<Rightarrow> RxFrame \<Rightarrow> DviState \<Rightarrow> DviState \<times> DviEffect list" where
  "on_rx now rx st =
     (let tap = (if dv_tap st then [Tapped rx] else []) in
      case routed_payload st rx of
        Some payload \<Rightarrow> (st, tap @ slot_effects st rx payload)
      | None \<Rightarrow>
          (case dv_outstanding st of
             None \<Rightarrow> (st, tap)
           | Some oc \<Rightarrow>
               if lagged_reply oc rx then (st, tap @ late_effects (bus st) rx)
               else if \<not> counts_for oc (rx_id rx) then (st, tap)
               else (let oc' = count_frame now rx oc; st' = st \<lparr> dv_outstanding := Some oc' \<rparr> in
                     if oc_expected oc = Some (rx_id rx) \<and> \<not> response_pending (rx_data rx) \<and> reply_complete (oc_frames oc') (rx_id rx) (bus st)
                     then (let (st2, es) = finish_request (oc_gen oc) None st' in (st2, tap @ es))
                     else (st', tap))))"

definition on_frame :: "nat \<Rightarrow> DviFrame \<Rightarrow> DviState \<Rightarrow> DviState \<times> DviEffect list" where
  "on_frame now f st =
     (case f of
        Rx rx \<Rightarrow> on_rx now rx st
      | Reply cmd d \<Rightarrow>
          if cmd = TX_NORMAL + 0x10 \<or> cmd = TX_LARGE + 0x10 then (st, []) else (st \<lparr> dv_setup_slot := Some f \<rparr>, [])
      | ErrorFrame cmd code \<Rightarrow>
          if cmd = TX_NORMAL \<or> cmd = TX_LARGE
          then (case dv_outstanding st of None \<Rightarrow> (st, []) | Some oc \<Rightarrow> finish_request (oc_gen oc) (Some (''DVI_ERROR '' @ error_name code)) st)
          else (case dv_outstanding st of
              None \<Rightarrow> (st \<lparr> dv_setup_slot := Some f \<rparr>, [])
            | Some oc \<Rightarrow> (st \<lparr> dv_outstanding := Some (oc \<lparr> oc_stray := oc_stray oc + 1 \<rparr>) \<rparr>, [])))"

section \<open>Periodic slots\<close>

definition slot_payload :: "string \<Rightarrow> u8 list option" where
  "slot_payload dat =
     (let obd = List.map_filter (\<lambda>c. if length c = 2 then u8_from_hex c else None) (chunks 2 dat)
      in if obd = [] \<or> length obd > 7 then None
         else Some (of_nat (length obd) # obd @ replicate (7 - length obd) 0))"

text \<open>One message into the next slot: its interval and its data, if the tool takes both.\<close>

definition load_slot ::
  "(u8 list \<Rightarrow> bool) \<Rightarrow> PeriodicPlan \<Rightarrow> slot_decoder list \<times> u32 \<times> DviEffect list \<Rightarrow> PeriodicMessage
    \<Rightarrow> slot_decoder list \<times> u32 \<times> DviEffect list" where
  "load_slot tool plan acc m =
     (let (ds, fast, es) = acc; slot = of_nat (length ds) in
      if length ds \<ge> SLOTS then acc
      else (case (u32_from_hex (trim (pm_header m)), slot_payload (pm_data m)) of
          (Some i, Some payload) \<Rightarrow>
            (let b1 = periodic_interval slot (ucast (min (pm_period m) 0xFFFF)); b2 = periodic_data slot i payload in
             if \<not> tool b1 then (ds, fast, es @ [ToolBytes b1])
             else if \<not> tool b2 then (ds, fast, es @ [ToolBytes b1, ToolBytes b2])
             else (let ms = plan_members plan m
                   in (ds @ [(slot, response_id i (i > 0x7FF), ms, set (map (\<lambda>(p, _). to_uppercase p) ms))],
                       min fast (pm_period m), es @ [ToolBytes b1, ToolBytes b2])))
        | _ \<Rightarrow> acc))"

definition periodic_start ::
  "(u8 list \<Rightarrow> bool) \<Rightarrow> PeriodicPlan \<Rightarrow> DviState \<Rightarrow> DviState \<times> DviEffect list \<times> (PeriodicError + PeriodicInstall)" where
  "periodic_start tool plan st =
     (if dv_periodic st \<noteq> None then (st, [], Inl NotStarted)
      else (let (ds, fast, es) = foldl (load_slot tool plan) ([], 0xFFFFFFFF, []) (pp_messages plan);
                st1 = (if es = [] then st else st \<lparr> dv_setup_slot := None \<rparr>)
            in if ds = [] then (st1, es, Inl NoneAccepted)
               else (let fast' = (if fast = 0xFFFFFFFF then 25 else fast);
                         es' = es @ map (\<lambda>d. ToolBytes (periodic_enable (fst d) True)) ds;
                         on = filter (\<lambda>d. tool (periodic_enable (fst d) True)) ds
                     in if on = [] then (st1, es', Inl NoneAccepted)
                        else (st1 \<lparr> dv_periodic := Some \<lparr> pl_decoders = on, pl_fast_ms = fast', pl_open = False \<rparr> \<rparr>, es',
                              Inr \<lparr> pi_accepted = length on,
                                    pi_response_ids = foldl add_new [] (map (\<lambda>(_, r, _, _). hexstr (unat r)) on),
                                    pi_fast_ms = fast',
                                    pi_served = concat (map (\<lambda>(_, _, ms, _). map fst ms) on) \<rparr>))))"

definition periodic_arm :: "DviState \<Rightarrow> DviState \<times> (PeriodicError + unit)" where
  "periodic_arm st =
     (case dv_periodic st of
        None \<Rightarrow> (st, Inl NotStarted)
      | Some p \<Rightarrow> (st \<lparr> dv_periodic := Some (p \<lparr> pl_open := True \<rparr>) \<rparr>, Inr ()))"

definition periodic_break :: "DviState \<Rightarrow> DviState" where
  "periodic_break st = st \<lparr> dv_periodic := map_option (\<lambda>p. p \<lparr> pl_open := False \<rparr>) (dv_periodic st) \<rparr>"

definition periodic_teardown :: "DviState \<Rightarrow> DviState \<times> DviEffect list" where
  "periodic_teardown st =
     (case dv_periodic st of
        None \<Rightarrow> (st, [])
      | Some p \<Rightarrow> (st \<lparr> dv_periodic := None, dv_setup_slot := None \<rparr>, map (\<lambda>d. ToolBytes (periodic_enable (fst d) False)) (pl_decoders p)))"

definition periodic_abandon :: "DviState \<Rightarrow> DviState" where
  "periodic_abandon st = st \<lparr> dv_periodic := None \<rparr>"

text \<open>The decode thread: the freshest payload per response identifier of one wake, each sliced by the first slot of that
  identifier whose members split it.\<close>

fun keep_latest :: "(u32 \<times> Payload) list \<Rightarrow> u32 \<times> Payload \<Rightarrow> (u32 \<times> Payload) list" where
  "keep_latest [] x = [x]"
| "keep_latest (y # ys) x = (if fst y = fst x then x # ys else y # keep_latest ys x)"

definition decode_slot :: "slot_decoder list \<Rightarrow> u32 \<times> Payload \<Rightarrow> split_out" where
  "decode_slot ds x =
     (case List.map_filter (\<lambda>(_, r, ms, _). if r = fst x then (case split_multi_pid ms [snd x] of Ok m \<Rightarrow> Some m | _ \<Rightarrow> None) else None) ds of
        [] \<Rightarrow> [] | m # _ \<Rightarrow> m)"

definition decode_wake :: "slot_decoder list \<Rightarrow> (u32 \<times> Payload) list \<Rightarrow> split_out list" where
  "decode_wake ds received = filter (\<lambda>m. m \<noteq> []) (map (decode_slot ds) (foldl keep_latest [] received))"

section \<open>Runs\<close>

datatype DviEvent =
    SendCmd nat bool string
  | FromTool nat DviFrame
  | Collect nat nat
  | StartSlots "u8 list \<Rightarrow> bool" PeriodicPlan
  | ArmSlots
  | BreakSlots
  | TeardownSlots
  | AbandonSlots
  | SetTap bool

definition dv_step :: "DviEvent \<Rightarrow> DviState \<Rightarrow> DviState \<times> DviEffect list" where
  "dv_step ev st =
     (case ev of
        SendCmd now ok cmd \<Rightarrow> (let (st', es, _) = dvi_encode now ok cmd st in (st', es))
      | FromTool now f \<Rightarrow> on_frame now f st
      | Collect now g \<Rightarrow> collect now g st
      | StartSlots tool plan \<Rightarrow> (let (st', es, _) = periodic_start tool plan st in (st', es))
      | ArmSlots \<Rightarrow> (fst (periodic_arm st), [])
      | BreakSlots \<Rightarrow> (periodic_break st, [])
      | TeardownSlots \<Rightarrow> periodic_teardown st
      | AbandonSlots \<Rightarrow> (periodic_abandon st, [])
      | SetTap b \<Rightarrow> (st \<lparr> dv_tap := b \<rparr>, []))"

fun dv_run :: "DviEvent list \<Rightarrow> DviState \<Rightarrow> DviState \<times> DviEffect list" where
  "dv_run [] st = (st, [])"
| "dv_run (ev # evs) st = (let (st1, es) = dv_step ev st; (st2, es') = dv_run evs st1 in (st2, es @ es'))"

definition answers_of :: "DviEffect list \<Rightarrow> DviEffect list" where
  "answers_of es = filter (\<lambda>e. case e of Complete _ _ _ \<Rightarrow> True | _ \<Rightarrow> False) es"

section \<open>A reply is collected\<close>

lemma dv_run_append:
  "dv_run (xs @ ys) st = (let (st1, es) = dv_run xs st; (st2, es') = dv_run ys st1 in (st2, es @ es'))"
  by (induction xs arbitrary: st) (auto simp: Let_def split: prod.splits)

lemma answers_append [simp]: "answers_of (es @ fs) = answers_of es @ answers_of fs"
  by (simp add: answers_of_def)

lemma answers_tap [simp]: "answers_of (if b then [Tapped rx] else []) = []"
  by (simp add: answers_of_def)

lemma answers_tapped [simp]: "answers_of (Tapped rx # es) = answers_of es" "answers_of (ToolBytes b # es) = answers_of es"
    "answers_of (SlotReply i q # es) = answers_of es"
  by (simp_all add: answers_of_def)

lemma answers_nil [simp]: "answers_of [] = []"
  by (simp add: answers_of_def)

lemma answers_complete [simp]: "answers_of (Complete og c r # es) = Complete og c r # answers_of es"
  by (simp add: answers_of_def)

lemma no_slots_no_route: "dv_periodic st = None \<Longrightarrow> routed_payload st rx = None"
  by (simp add: routed_payload_def)

lemma bus_outstanding [simp]: "bus (st \<lparr> dv_outstanding := oc \<rparr>) = bus st"
  by (simp add: bus_def)

text \<open>The frames of a physical target go to its request until the last one, which completes it; everything else on the bus
  leaves no trace.\<close>

lemma rx_collects:
  assumes "dv_outstanding st = Some oc" "oc_expected oc = Some i" "dv_periodic st = None"
    and "filter (\<lambda>f. rx_id f = i) (map snd fs) = rs" "fs \<noteq> []" "rx_id (snd (last fs)) = i"
    and "\<And>d f r. rs = d @ f # r \<Longrightarrow> \<not> lagged_reply oc f \<and>
      (\<not> response_pending (rx_data f) \<and> reply_complete (oc_frames oc @ d @ [f]) i (bus st) \<longleftrightarrow> r = [])"
  shows "\<exists>st' es oc'. dv_run (map (\<lambda>(t, f). FromTool t (Rx f)) fs) st = (st', es) \<and> dv_outstanding st' = None
     \<and> oc_frames oc' = oc_frames oc @ rs \<and> oc_command oc' = oc_command oc
     \<and> answers_of es = [Complete (Finished (oc_gen oc)) (oc_command oc) (outcome_of (bus st) oc' None)]"
  using assms
proof (induction fs arbitrary: st oc rs)
  case (Cons x fs)
  obtain t f where x: "x = (t, f)" by (cases x)
  note route = no_slots_no_route [OF Cons.prems(3), of f]
  show ?case
  proof (cases "rx_id f = i")
    case False
    then have quiet: "dv_step (FromTool t (Rx f)) st = (st, if dv_tap st then [Tapped f] else [])"
      using Cons.prems(1,2) route by (simp add: dv_step_def on_frame_def on_rx_def lagged_reply_def counts_for_def Let_def)
    have ne: "fs \<noteq> []" using Cons.prems(6) False x by (cases fs) auto
    have "\<exists>st' es oc'. dv_run (map (\<lambda>(t, f). FromTool t (Rx f)) fs) st = (st', es) \<and> dv_outstanding st' = None
        \<and> oc_frames oc' = oc_frames oc @ rs \<and> oc_command oc' = oc_command oc
        \<and> answers_of es = [Complete (Finished (oc_gen oc)) (oc_command oc) (outcome_of (bus st) oc' None)]"
      using Cons.prems ne False x by (intro Cons.IH) auto
    then show ?thesis using quiet by (auto simp: x)
  next
    case True
    obtain r where rs: "rs = f # r" "r = filter (\<lambda>f. rx_id f = i) (map snd fs)" using Cons.prems(4) True x by simp
    have here: "\<not> lagged_reply oc f" "\<not> response_pending (rx_data f) \<and> reply_complete (oc_frames oc @ [f]) i (bus st) \<longleftrightarrow> r = []"
      using Cons.prems(7) [of "[]" f r] rs by auto
    let ?oc = "count_frame t f oc"
    have c: "counts_for oc i" using Cons.prems(2) by (simp add: counts_for_def)
    have f': "oc_frames ?oc = oc_frames oc @ [f]" "oc_command ?oc = oc_command oc" "oc_expected ?oc = Some i" "oc_gen ?oc = oc_gen oc"
      using Cons.prems(2) by (simp_all add: count_frame_def)
    show ?thesis
    proof (cases "r = []")
      case True
      then have "fs = []" using rs(2) Cons.prems(6) x by (cases fs rule: rev_cases) auto
      moreover have "dv_step (FromTool t (Rx f)) st = (st \<lparr> dv_outstanding := None, dv_reply_ids := map rx_id (oc_frames ?oc) \<rparr>,
          (if dv_tap st then [Tapped f] else []) @ [Complete (Finished (oc_gen oc)) (oc_command oc) (outcome_of (bus st) ?oc None)])"
        using Cons.prems(1,2) route here c True f' \<open>rx_id f = i\<close>
        by (simp add: dv_step_def on_frame_def on_rx_def finish_request_def Let_def)
      ultimately show ?thesis using f' rs True by (auto simp: x intro!: exI [of _ ?oc])
    next
      case False
      let ?st = "st \<lparr> dv_outstanding := Some ?oc \<rparr>"
      have stay: "dv_step (FromTool t (Rx f)) st = (?st, if dv_tap st then [Tapped f] else [])"
        using Cons.prems(1,2) route here c False f' \<open>rx_id f = i\<close>
        by (auto simp: dv_step_def on_frame_def on_rx_def Let_def)
      have ne: "fs \<noteq> []" "rx_id (snd (last fs)) = i" using False rs(2) Cons.prems(6) by (cases fs; auto)+
      have next_ok: "\<not> lagged_reply ?oc f' \<and>
          (\<not> response_pending (rx_data f') \<and> reply_complete (oc_frames ?oc @ d @ [f']) i (bus ?st) \<longleftrightarrow> r' = [])"
        if "r = d @ f' # r'" for d f' r'
        using Cons.prems(7) [of "f # d" f' r'] that rs(1) by (auto simp: lagged_reply_def counts_for_def count_frame_def)
      have "\<exists>st' es oc'. dv_run (map (\<lambda>(t, f). FromTool t (Rx f)) fs) ?st = (st', es) \<and> dv_outstanding st' = None
        \<and> oc_frames oc' = oc_frames ?oc @ r \<and> oc_command oc' = oc_command ?oc
        \<and> answers_of es = [Complete (Finished (oc_gen ?oc)) (oc_command ?oc) (outcome_of (bus ?st) oc' None)]"
        using Cons.prems(3) rs(2) by (intro Cons.IH [OF _ f'(3) _ _ ne next_ok]) auto
      then show ?thesis using stay f' rs(1) by (auto simp: x)
    qed
  qed
qed simp

text \<open>How far an answer is after each of its frames.\<close>

lemma reply_progress:
  assumes "iso_reply p (map rx_data fs)" "\<forall>f \<in> set fs. rx_id f = i" "fs = d @ f # r"
  shows "\<exists>b. foldl (frame_step b0) accs (d @ [f]) = accs @ [assembled b0 i (length p) b] \<and> (length p \<le> length b \<longleftrightarrow> r = [])"
proof (cases "single_reply p (map rx_data fs)")
  case True
  then have "d = []" "r = []" using assms(3) by (auto simp: single_reply_def append_eq_Cons_conv)
  then show ?thesis using reply_assembles [OF assms(1,2), of b0 accs] assms(3) by auto
next
  case False
  then obtain first cs where m: "multi_reply p first cs (map rx_data fs)" using assms(1) by (auto simp: iso_reply_def)
  obtain g gs where g: "fs = g # gs" using assms(3) by (metis Nil_is_append_conv list.exhaust list.discI)
  have gd: "rx_data g = (0x10 + of_nat (length p div 256)) # of_nat (length p mod 256) # first" "map rx_data gs = cs" "length p < 4096"
    "list_all consecutive cs" "cs \<noteq> [] \<Longrightarrow> length (first @ concat (map tl (butlast cs))) < length p"
    using m by (simp_all add: multi_reply_def g)
  obtain pad where pad: "first @ concat (map tl cs) = p @ pad" using m by (auto simp: multi_reply_def)
  have start: "frame_step b0 accs g = accs @ [assembled b0 i (length p) first]"
    using step_first [OF gd(1,3)] assms(2) g by simp
  show ?thesis
  proof (cases d)
    case Nil
    then have fg: "f = g" "r = gs" using assms(3) g by auto
    have "length p \<le> length first \<longleftrightarrow> gs = []"
    proof (cases "gs = []")
      case True
      then show ?thesis using pad gd(2) arg_cong [OF pad, of length] by simp
    next
      case False
      then have "length first < length p" using gd(2,5) by force
      then show ?thesis using False by simp
    qed
    then show ?thesis using start fg Nil by auto
  next
    case (Cons g' d')
    then have d: "d = g # d'" "gs = d' @ f # r" using assms(3) g by auto
    let ?hs = "d' @ [f]"
    have le: "length (first @ concat (map tl (butlast (map rx_data ?hs)))) < length p"
    proof -
      have "cs = map rx_data d' @ map rx_data (f # r)" using gd(2) d(2) by simp
      then have "butlast cs = map rx_data d' @ butlast (map rx_data (f # r))" by (simp only: butlast_append) simp
      moreover have "cs \<noteq> []" using gd(2) d(2) by auto
      ultimately show ?thesis using gd(5) by (simp add: butlast_append)
    qed
    have run: "foldl (frame_step b0) (accs @ [assembled b0 i (length p) first]) ?hs
        = accs @ [assembled b0 i (length p) (first @ concat (map tl (map rx_data ?hs)))]"
    proof (rule steps_consecutive)
      show "list_all consecutive (map rx_data ?hs)" using gd(4) unfolding gd(2) [symmetric] d(2) by simp
      show "\<forall>f \<in> set ?hs. rx_id f = i" using assms(2) g d(2) by auto
    qed (use le in simp)
    have "length p \<le> length (first @ concat (map tl (map rx_data ?hs))) \<longleftrightarrow> r = []"
    proof (cases "r = []")
      case True
      then have "map rx_data ?hs = cs" using gd(2) d(2) by simp
      then show ?thesis using True pad arg_cong [OF pad, of length] by simp
    next
      case False
      moreover have "cs = map rx_data ?hs @ map rx_data r" using gd(2) d(2) by simp
      ultimately have "butlast cs = map rx_data ?hs @ butlast (map rx_data r)" by (simp only: butlast_append) simp
      moreover have "cs \<noteq> []" using gd(2) d(2) by auto
      ultimately have "length (first @ concat (map tl (map rx_data ?hs))) < length p" using gd(5) by simp
      then show ?thesis using False by simp
    qed
    then show ?thesis using start run d(1) by auto
  qed
qed

lemma complete_last:
  "foldl (frame_step b0) [] fs = accs @ [assembled b0 i n b] \<Longrightarrow> reply_complete fs i b0 \<longleftrightarrow> n \<le> length b"
  by (simp add: reply_complete_def frame_payloads_def assembled_def)

text \<open>A controller that needs more time says so with \<^verbatim>\<open>7F xx 78\<close>, any number of times.\<close>

definition pending_frame :: "u32 \<Rightarrow> RxFrame \<Rightarrow> bool" where
  "pending_frame i f \<longleftrightarrow> rx_id f = i \<and> (\<exists>sid pad. rx_data f = 3 # 0x7F # sid # 0x78 # pad)"

definition pending_payload :: "Bus \<Rightarrow> RxFrame \<Rightarrow> Payload" where
  "pending_payload b f = \<lparr> controller = controller_key (rx_id f) b, bytes = take 3 (tl (rx_data f)) \<rparr>"

lemma pending_steps:
  "\<forall>f \<in> set fs. pending_frame i f \<Longrightarrow>
   foldl (frame_step b0) accs fs = accs @ map (\<lambda>f. \<lparr> ac_id = i, ac_payload = pending_payload b0 f, ac_total = 3, ac_done = True \<rparr>) fs"
proof (induction fs arbitrary: accs)
  case (Cons f fs)
  then obtain sid pad where f: "rx_id f = i" "rx_data f = 3 # 0x7F # sid # 0x78 # pad" by (auto simp: pending_frame_def)
  have "frame_step b0 accs f = accs @ [\<lparr> ac_id = i, ac_payload = pending_payload b0 f, ac_total = 3, ac_done = True \<rparr>]"
    by (simp add: frame_step_def f Let_def pending_payload_def)
  then show ?case using Cons by simp
qed simp

lemma nibble_one: "drop_bit 4 (b :: u8) = 1 \<Longrightarrow> b \<noteq> 3"
  by (rule notI) simp

lemma nibble_cases: "drop_bit 4 (b :: u8) = 2 \<Longrightarrow> b AND 0x40 = 0 \<and> b \<noteq> 3"
proof -
  assume a: "drop_bit 4 b = 2"
  have "drop_bit 4 (unat b) = 2" using arg_cong [OF a, of unat] by (simp only: unat_drop_bit_eq) simp
  then have "unat b div 16 = 2" by (simp add: drop_bit_eq_div)
  then have "unat b \<in> {32..<48}" by auto
  then have "unat b \<in> set [32..<48]" by (simp only: set_upt)
  then have "of_nat (unat b) \<in> (of_nat ` set [32..<48] :: u8 set)" by (rule imageI)
  then have "b \<in> of_nat ` set [32..<48]" by simp
  then show ?thesis by (auto simp: upt_conv_Cons)
qed

definition pending_answer :: "u8 list \<Rightarrow> bool" where
  "pending_answer p \<longleftrightarrow> length p = 3 \<and> p ! 0 = 0x7F \<and> p ! 2 = 0x78"

lemma reply_frames_not_pending:
  assumes "iso_reply p (map rx_data fs)" "\<not> pending_answer p" "f \<in> set fs"
  shows "\<not> response_pending (rx_data f)"
proof (cases "single_reply p (map rx_data fs)")
  case True
  then obtain pad where d: "rx_data f = of_nat (length p) # p @ pad" "p \<noteq> []" "length p \<le> 7"
    using assms(3) by (auto simp: single_reply_def)
  have "(of_nat (length p) :: u8) = 3 \<longleftrightarrow> length p = 3"
    using d(3) word_unat_eq_iff [of "of_nat (length p) :: u8" 3] by (simp add: unat_of_nat)
  then show ?thesis using assms(2) d by (auto simp: response_pending_def pending_answer_def nth_append)
next
  case False
  then obtain first cs where m: "multi_reply p first cs (map rx_data fs)" using assms(1) by (auto simp: iso_reply_def)
  then have "length p < 4096" by (simp add: multi_reply_def)
  then have "drop_bit 4 (0x10 + of_nat (length p div 256) :: u8) = 1" by (rule first_pci)
  then have "(0x10 + of_nat (length p div 256) :: u8) \<noteq> 3" by (rule nibble_one)
  moreover have "rx_data f = (0x10 + of_nat (length p div 256)) # of_nat (length p mod 256) # first \<or> consecutive (rx_data f)"
  proof -
    have "set (map rx_data fs) = insert ((0x10 + of_nat (length p div 256)) # of_nat (length p mod 256) # first) (set cs)"
      using m by (simp add: multi_reply_def)
    moreover have "rx_data f \<in> set (map rx_data fs)" using assms(3) by simp
    moreover have "list_all consecutive cs" using m by (simp add: multi_reply_def)
    ultimately show ?thesis by (auto simp: list_all_iff)
  qed
  ultimately show ?thesis
    by (cases "rx_data f") (auto simp: response_pending_def consecutive_def dest!: nibble_cases)
qed

lemma reply_frames_not_late:
  assumes "iso_reply p (map rx_data fs)" "f \<in> set fs"
    and "\<And>e. expected_echo (oc_command oc) = Some e \<Longrightarrow> positive_reply p \<Longrightarrow> take (length e) p = e"
  shows "\<not> lagged_reply oc f"
proof (cases "expected_echo (oc_command oc)")
  case (Some e)
  have e3: "length e \<le> 3" using Some by (auto simp: expected_echo_def Let_def split: if_splits option.splits)
  show ?thesis
  proof (cases "single_reply p (map rx_data fs)")
    case True
    then obtain pad where d: "rx_data f = of_nat (length p) # p @ pad" "p \<noteq> []" "length p \<le> 7"
      using assms(2) by (auto simp: single_reply_def)
    then have "frame_response_bytes (rx_data f) = p @ pad" using small_nat_byte [of "length p"] by (simp add: frame_response_bytes_def)
    moreover have "positive_reply (p @ pad) \<longleftrightarrow> positive_reply p" using d(2) by (simp add: positive_reply_def)
    moreover have "take (length e) p = e \<Longrightarrow> take (length e) (p @ pad) = e"
      by (metis append_take_drop_id append.assoc append_eq_conv_conj)
    ultimately show ?thesis using assms(3) [OF Some] by (auto simp: lagged_reply_def Some)
  next
    case False
    then obtain first cs where m: "multi_reply p first cs (map rx_data fs)" using assms(1) by (auto simp: iso_reply_def)
    then have n: "length p < 4096" and six: "6 \<le> length first" and cs: "list_all consecutive cs"
      by (simp_all add: multi_reply_def)
    obtain pad where pad: "first @ concat (map tl cs) = p @ pad" using m by (auto simp: multi_reply_def)
    have "set (map rx_data fs) = insert ((0x10 + of_nat (length p div 256)) # of_nat (length p mod 256) # first) (set cs)"
      using m by (simp add: multi_reply_def)
    moreover have "rx_data f \<in> set (map rx_data fs)" using assms(2) by simp
    ultimately consider (ff) "rx_data f = (0x10 + of_nat (length p div 256)) # of_nat (length p mod 256) # first" | (cf) "consecutive (rx_data f)"
      using cs by (auto simp: list_all_iff)
    then show ?thesis
    proof cases
      case ff
      have resp: "frame_response_bytes (rx_data f) = first" using first_pci [OF n] by (simp add: frame_response_bytes_def ff)
      show ?thesis
      proof -
        have False: "p \<noteq> []" using m by (auto simp: multi_reply_def)
        have hd: "hd first = hd p" using pad six False by (metis hd_append2 list.size(3) not_numeral_le_zero)
        have "take (length e) p = e \<Longrightarrow> take (length e) first = e"
        proof -
          assume t: "take (length e) p = e"
          have "take (length e) first = take (length e) (first @ concat (map tl cs))" using e3 six by simp
          also have "\<dots> = take (length e) (p @ pad)" by (simp only: pad)
          also have "\<dots> = e" using t by (metis append_take_drop_id append.assoc append_eq_conv_conj)
          finally show ?thesis .
        qed
        then show ?thesis using assms(3) [OF Some] hd False by (auto simp: lagged_reply_def Some resp positive_reply_def)
      qed
    next
      case cf
      then obtain b r where b: "rx_data f = b # r" "drop_bit 4 b = 2" by (cases "rx_data f") (auto simp: consecutive_def)
      then have "frame_response_bytes (rx_data f) = b # r" by (simp add: frame_response_bytes_def)
      then show ?thesis using nibble_cases [OF b(2)] by (simp add: lagged_reply_def Some positive_reply_def)
    qed
  qed
qed (simp add: lagged_reply_def)

section \<open>Properties of the request\<close>


section \<open>Every request is settled exactly once\<close>

definition settled :: "DviEffect list \<Rightarrow> nat list" where
  "settled es = List.map_filter (\<lambda>e. case e of Complete (Finished g) _ _ \<Rightarrow> Some g | _ \<Rightarrow> None) es"

lemma settled_append [simp]: "settled (es @ fs) = settled es @ settled fs"
  by (simp add: settled_def List.map_filter_def)

lemma settled_simps [simp]:
  "settled [] = []" "settled (Tapped rx # es) = settled es" "settled (ToolBytes b # es) = settled es"
  "settled (SlotReply i q # es) = settled es" "settled (Complete Acked c r # es) = settled es"
  "settled (Complete Late c r # es) = settled es" "settled (Complete (Finished g) c r # es) = g # settled es"
  by (simp_all add: settled_def List.map_filter_simps)

lemma settled_map_tool [simp]: "settled (map (\<lambda>x. ToolBytes (f x)) xs) = []"
  by (induction xs) simp_all

definition awaited :: "DviState \<Rightarrow> nat list" where
  "awaited st = (case dv_outstanding st of None \<Rightarrow> [] | Some oc \<Rightarrow> [oc_gen oc])"

text \<open>What the queue above the handler guarantees: a command goes out only when no request is outstanding.\<close>

definition serial_event :: "DviState \<Rightarrow> DviEvent \<Rightarrow> bool" where
  "serial_event st ev = (case ev of SendCmd _ _ _ \<Rightarrow> dv_outstanding st = None | _ \<Rightarrow> True)"

fun serial_run :: "DviEvent list \<Rightarrow> DviState \<Rightarrow> bool" where
  "serial_run [] st = True"
| "serial_run (ev # evs) st = (serial_event st ev \<and> serial_run evs (fst (dv_step ev st)))"

lemma load_slots_tool: "settled (snd (snd (foldl (load_slot tool plan) acc ms))) = settled (snd (snd acc))"
  by (induction ms arbitrary: acc)
     (simp_all add: load_slot_def Let_def split: prod.splits option.splits)

definition dvi_ok :: "DviState \<Rightarrow> bool" where
  "dvi_ok st \<longleftrightarrow> (case dv_outstanding st of None \<Rightarrow> True | Some oc \<Rightarrow> oc_gen oc = dv_generation st)"

lemma finish_settles:
  "finish_request g err st = (st', es) \<Longrightarrow>
   dv_generation st' = dv_generation st \<and> (dvi_ok st \<longrightarrow> dvi_ok st') \<and> settled es @ awaited st' = awaited st"
  by (auto simp: finish_request_def dvi_ok_def awaited_def split: option.splits if_splits)

lemma late_settles [simp]: "settled (late_effects b rx) = []"
  by (auto simp: late_effects_def split: list.splits option.splits prod.splits bool.splits)

lemma slot_settles [simp]: "settled (slot_effects st rx q) = []"
  by (auto simp: slot_effects_def split: option.splits)

lemma on_rx_settles:
  assumes "on_rx now rx st = (st', es)"
  shows "dv_generation st' = dv_generation st \<and> (dvi_ok st \<longrightarrow> dvi_ok st') \<and> settled es @ awaited st' = awaited st"
proof (cases "routed_payload st rx")
  case None
  show ?thesis
  proof (cases "dv_outstanding st")
    case (Some oc)
    let ?oc = "count_frame now rx oc"
    have oc: "oc_gen ?oc = oc_gen oc" by (simp add: count_frame_def)
    show ?thesis
    proof (cases "\<not> lagged_reply oc rx \<and> counts_for oc (rx_id rx)")
      case True
      show ?thesis
      proof (cases "oc_expected oc = Some (rx_id rx) \<and> \<not> response_pending (rx_data rx) \<and> reply_complete (oc_frames ?oc) (rx_id rx) (bus st)")
        case fin: True
        obtain es2 where f: "finish_request (oc_gen oc) None (st \<lparr> dv_outstanding := Some ?oc \<rparr>) = (st', es2)"
          "es = (if dv_tap st then [Tapped rx] else []) @ es2"
          using assms None Some True fin by (auto simp: on_rx_def Let_def split: prod.splits)
        show ?thesis using finish_settles [OF f(1)] f(2) Some oc by (auto simp: dvi_ok_def awaited_def)
      next
        case False
        then show ?thesis using assms None Some True oc by (auto simp: on_rx_def Let_def dvi_ok_def awaited_def)
      qed
    next
      case False
      then show ?thesis using assms None Some by (auto simp: on_rx_def Let_def dvi_ok_def awaited_def split: if_splits)
    qed
  qed (use assms None in \<open>auto simp: on_rx_def Let_def\<close>)
qed (use assms in \<open>auto simp: on_rx_def Let_def\<close>)

lemma unchanged_settles:
  "dv_outstanding st' = dv_outstanding st \<Longrightarrow> dv_generation st' = dv_generation st \<Longrightarrow> settled es = [] \<Longrightarrow> dvi_ok st \<Longrightarrow>
   dvi_ok st' \<and> dv_generation st \<le> dv_generation st' \<and>
    awaited st @ [Suc (dv_generation st)..<Suc (dv_generation st')] = settled es @ awaited st'"
  by (simp add: dvi_ok_def awaited_def split: option.splits)

lemma step_settles:
  assumes "dv_step ev st = (st', es)" "dvi_ok st" "serial_event st ev"
  shows "dvi_ok st' \<and> dv_generation st \<le> dv_generation st' \<and>
    awaited st @ [Suc (dv_generation st)..<Suc (dv_generation st')] = settled es @ awaited st'"
proof (cases ev)
  case (SendCmd now ok cmd)
  then have "dv_outstanding st = None" using assms(3) by (simp add: serial_event_def)
  then show ?thesis using assms(1) SendCmd
    by (auto simp: dv_step_def dvi_encode_def Let_def dvi_ok_def awaited_def new_request_def dvi_ack_def ensure_flow_filter_def
        split: prod.splits option.splits if_splits)
next
  case (FromTool now f)
  then show ?thesis
  proof (cases f)
    case (Rx rx)
    then show ?thesis using on_rx_settles [of now rx st st' es] assms(1,2) FromTool by (simp add: dv_step_def on_frame_def)
  next
    case (ErrorFrame c code)
    show ?thesis
    proof (cases "dv_outstanding st")
      case None
      then show ?thesis using assms(1,2) FromTool ErrorFrame by (auto simp: dv_step_def on_frame_def awaited_def dvi_ok_def split: if_splits)
    next
      case (Some oc)
      have "dv_generation st' = dv_generation st \<and> (dvi_ok st \<longrightarrow> dvi_ok st') \<and> settled es @ awaited st' = awaited st"
      proof (cases "c = TX_NORMAL \<or> c = TX_LARGE")
        case True
        then have "finish_request (oc_gen oc) (Some (''DVI_ERROR '' @ error_name code)) st = (st', es)"
          using assms(1) FromTool ErrorFrame Some by (simp add: dv_step_def on_frame_def)
        then show ?thesis by (rule finish_settles)
      next
        case False
        then show ?thesis using assms(1) FromTool ErrorFrame Some by (auto simp: dv_step_def on_frame_def awaited_def dvi_ok_def)
      qed
      then show ?thesis using assms(2) by auto
    qed
  next
    case (Reply c d)
    then show ?thesis using assms(1,2) FromTool by (auto simp: dv_step_def on_frame_def awaited_def dvi_ok_def split: if_splits option.splits)
  qed
next
  case (Collect now g)
  show ?thesis
  proof (cases "dv_outstanding st")
    case (Some oc)
    obtain st1 es1 where r: "(if oc_stray oc \<ge> 3 then resync now st else (st, [])) = (st1, es1)" by (metis prod.exhaust)
    then have same: "dv_outstanding st1 = dv_outstanding st" "dv_generation st1 = dv_generation st" "settled es1 = []"
      by (auto simp: resync_def split: if_splits)
    obtain st2 es2 where f: "finish_request g None st1 = (st2, es2)" by (metis prod.exhaust)
    note fs = finish_settles [OF f]
    show ?thesis
    proof (cases "oc_gen oc \<noteq> g \<or> 0 < collector_left now oc")
      case True
      then show ?thesis using assms(1,2) Collect Some by (auto simp: dv_step_def collect_def)
    next
      case False
      then have "st' = st2 \<and> es = es1 @ es2" using assms(1) Collect Some r f by (simp add: dv_step_def collect_def)
      moreover have "dvi_ok st1" "awaited st1 = awaited st" using same(1,2) assms(2) Some by (simp_all add: dvi_ok_def awaited_def)
      ultimately show ?thesis using fs same by simp
    qed
  qed (use assms Collect in \<open>auto simp: dv_step_def collect_def\<close>)
next
  case (StartSlots tool plan)
  show ?thesis
    by (rule unchanged_settles)
      (use StartSlots assms(1,2) load_slots_tool [of tool plan "([], 0xFFFFFFFF, [])" "pp_messages plan"] in
        \<open>auto simp: dv_step_def periodic_start_def Let_def split: prod.splits if_splits\<close>)
qed (use assms in \<open>auto simp: dv_step_def periodic_arm_def periodic_break_def periodic_teardown_def periodic_abandon_def dvi_ok_def awaited_def split: option.splits\<close>)

lemma run_settles:
  assumes "dv_run evs st = (st', es)" "dvi_ok st" "serial_run evs st"
  shows "dvi_ok st' \<and> dv_generation st \<le> dv_generation st' \<and>
    awaited st @ [Suc (dv_generation st)..<Suc (dv_generation st')] = settled es @ awaited st'"
  using assms
proof (induction evs arbitrary: st es)
  case (Cons ev evs)
  obtain st1 es1 es2 where s: "dv_step ev st = (st1, es1)" "dv_run evs st1 = (st', es2)" "es = es1 @ es2"
    using Cons.prems(1) by (auto simp: Let_def split: prod.splits)
  have h: "dvi_ok st1 \<and> dv_generation st \<le> dv_generation st1 \<and>
      awaited st @ [Suc (dv_generation st)..<Suc (dv_generation st1)] = settled es1 @ awaited st1"
    using step_settles [OF s(1) Cons.prems(2)] Cons.prems(3) by simp
  have t: "dvi_ok st' \<and> dv_generation st1 \<le> dv_generation st' \<and>
      awaited st1 @ [Suc (dv_generation st1)..<Suc (dv_generation st')] = settled es2 @ awaited st'"
    using Cons.IH [OF s(2)] h Cons.prems(3) s(1) by simp
  have "[Suc (dv_generation st)..<Suc (dv_generation st')] = [Suc (dv_generation st)..<Suc (dv_generation st1)] @ [Suc (dv_generation st1)..<Suc (dv_generation st')]"
    using h t upt_add_eq_append [of "Suc (dv_generation st)" "Suc (dv_generation st1)" "dv_generation st' - dv_generation st1"] by simp
  then have "awaited st @ [Suc (dv_generation st)..<Suc (dv_generation st')]
      = (awaited st @ [Suc (dv_generation st)..<Suc (dv_generation st1)]) @ [Suc (dv_generation st1)..<Suc (dv_generation st')]" by simp
  also have "\<dots> = settled es1 @ awaited st1 @ [Suc (dv_generation st1)..<Suc (dv_generation st')]" using h by simp
  also have "\<dots> = settled es @ awaited st'" using t s(3) by simp
  finally show ?case using h t by simp
qed simp

lemma collect_deadline:
  assumes "dv_outstanding st = Some oc" "oc_started oc + NO_DATA_TIMEOUT \<le> now" "oc_last oc + PENDING_WINDOW \<le> now"
  shows "settled (snd (collect now (oc_gen oc) st)) = [oc_gen oc] \<and> dv_outstanding (fst (collect now (oc_gen oc) st)) = None"
proof -
  have "collector_left now oc = 0"
    using assms(2,3) by (auto simp: collector_left_def NO_DATA_TIMEOUT_def PENDING_WINDOW_def FUNCTIONAL_QUIET_def)
  moreover obtain st1 es1 where r: "(if oc_stray oc \<ge> 3 then resync now st else (st, [])) = (st1, es1)" by (metis prod.exhaust)
  moreover have "dv_outstanding st1 = Some oc" "settled es1 = []" using r assms(1) by (auto simp: resync_def split: if_splits)
  ultimately show ?thesis using assms(1) by (simp add: collect_def finish_request_def)
qed

text \<open>C26: every request is settled exactly once, in order, and in time. In any run in which commands are sent one at a time,
  whatever the tool delivers, the requests that were put on the wire are completed in the order they were sent, none
  twice and none left out, except the one that is outstanding; and the collector completes that one at the latest three
  seconds after its last frame.\<close>

theorem requests_settle_once:
  assumes "dv_run evs (dvi_new a) = (st, es)" "serial_run evs (dvi_new a)"
  shows "settled es @ awaited st = [1..<Suc (dv_generation st)] \<and>
    (case dv_outstanding st of
       None \<Rightarrow> awaited st = []
     | Some oc \<Rightarrow> (let now = max (oc_started oc + NO_DATA_TIMEOUT) (oc_last oc + PENDING_WINDOW) + later
                 in settled (snd (collect now (oc_gen oc) st)) = awaited st \<and> dv_outstanding (fst (collect now (oc_gen oc) st)) = None))"
proof -
  have "dvi_ok (dvi_new a)" "awaited (dvi_new a) = []" "dv_generation (dvi_new a) = 0" by (simp_all add: dvi_ok_def dvi_new_def awaited_def)
  then have "settled es @ awaited st = [1..<Suc (dv_generation st)]" using run_settles [OF assms(1) _ assms(2)] by simp
  moreover have "settled (snd (collect (max (oc_started oc + NO_DATA_TIMEOUT) (oc_last oc + PENDING_WINDOW) + later) (oc_gen oc) st)) = [oc_gen oc]
      \<and> dv_outstanding (fst (collect (max (oc_started oc + NO_DATA_TIMEOUT) (oc_last oc + PENDING_WINDOW) + later) (oc_gen oc) st)) = None"
    if "dv_outstanding st = Some oc" for oc
    by (rule collect_deadline [OF that]) simp_all
  ultimately show ?thesis by (auto simp: awaited_def Let_def split: option.splits)
qed

section \<open>Completions answer their command\<close>

text \<open>A CAN first frame carries data behind its two length bytes.\<close>

definition carries_data :: "RxFrame \<Rightarrow> bool" where
  "carries_data f \<longleftrightarrow> (case rx_data f of [] \<Rightarrow> True | b # r \<Rightarrow> drop_bit 4 b = 1 \<longrightarrow> 2 \<le> length r)"

definition echo_matches :: "u8 list \<Rightarrow> u8 list \<Rightarrow> bool" where
  "echo_matches e b \<longleftrightarrow> \<not> positive_reply b \<or> take (length e) b = take (length b) e"

definition fits_command :: "string \<Rightarrow> u8 list \<Rightarrow> bool" where
  "fits_command cmd b = (case expected_echo cmd of None \<Rightarrow> True | Some e \<Rightarrow> echo_matches e b)"

fun attributed :: "DviEffect \<Rightarrow> bool" where
  "attributed (Complete og cmd (Inr wr)) = (\<forall>r \<in> set (segments wr). \<forall>p \<in> set (payloads r). fits_command cmd (bytes p))"
| "attributed e = True"

definition frame_fits :: "string \<Rightarrow> RxFrame \<Rightarrow> bool" where
  "frame_fits cmd f \<longleftrightarrow> carries_data f \<and>
     (case expected_echo cmd of None \<Rightarrow> True
      | Some e \<Rightarrow> \<not> positive_reply (frame_response_bytes (rx_data f)) \<or> take (length e) (frame_response_bytes (rx_data f)) = e)"

definition frames_fit :: "DviState \<Rightarrow> bool" where
  "frames_fit st = (case dv_outstanding st of None \<Rightarrow> True | Some oc \<Rightarrow> list_all (frame_fits (oc_command oc)) (oc_frames oc))"

lemma take_prefix_matches:
  "take (length e) r = e \<Longrightarrow> take (length e) (take k (r @ t)) = take (length (take k (r @ t))) e"
proof -
  assume a: "take (length e) r = e"
  then obtain r' where r: "r = e @ r'" by (metis append_take_drop_id)
  show ?thesis by (cases "k \<le> length e") (simp_all add: r min_def)
qed

lemma payload_fits:
  assumes "list_all (frame_fits cmd) fs" "(i, p, True) \<in> set (frame_payloads fs b)"
  shows "fits_command cmd (bytes p)"
proof (cases "expected_echo cmd")
  case (Some e)
  from assms(2) show ?thesis
  proof (cases rule: payload_stems)
    case (1 f k t)
    let ?r = "frame_response_bytes (rx_data f)"
    have f: "frame_fits cmd f" using assms(1) 1(1) by (simp add: list_all_iff)
    show ?thesis
    proof (cases "?r = []")
      case True
      have "\<not> first_frame f"
      proof
        assume "first_frame f"
        then obtain b r where d: "rx_data f = b # r" "drop_bit 4 b = 1" by (cases "rx_data f") (auto simp: first_frame_def)
        then have "2 \<le> length r" using f by (simp add: frame_fits_def carries_data_def)
        moreover from this have "?r = tl r" using d by (cases r) (auto simp: frame_response_bytes_def)
        ultimately have "?r \<noteq> []" by (cases r; cases "tl r") auto
        then show False using True by simp
      qed
      then have "bytes p = []" using 1(3,4) True by simp
      then show ?thesis by (simp add: fits_command_def Some echo_matches_def positive_reply_def)
    next
      case False
      have "positive_reply (bytes p) \<Longrightarrow> positive_reply ?r"
        using False 1(3) by (cases ?r; cases k) (auto simp: positive_reply_def)
      then show ?thesis using f take_prefix_matches [of e ?r k t] by (auto simp: fits_command_def echo_matches_def Some frame_fits_def 1(3))
    qed
  next
    case (2 r)
    then show ?thesis by (simp add: fits_command_def echo_matches_def Some positive_reply_def)
  qed
qed (simp add: fits_command_def)

text \<open>The command a late reply is handed up under expects the echo the reply begins with.\<close>

lemma has_char_iff: "contains s [c] \<Longrightarrow> c \<in> set s"
  by (induction s) (auto simp: starts_with_def)

lemma hex_string_plain:
  assumes "\<forall>c \<in> set s. is_hexdigit c" "to_uppercase s = s"
  shows "to_uppercase (trim s) = s" "\<not> contains s ''|''" "\<not> contains s '' ''"
proof -
  have "s \<noteq> [] \<Longrightarrow> \<not> is_ws (hd s) \<and> \<not> is_ws (last s)" using assms(1) hexdigit_not_ws by simp
  then have "trim s = s" by (intro trim_id) blast
  then show "to_uppercase (trim s) = s" using assms(2) by simp
  have "\<not> is_hexdigit CHR ''|''" "\<not> is_hexdigit CHR '' ''" by code_simp+
  then show "\<not> contains s ''|''" "\<not> contains s '' ''" using assms(1) has_char_iff by blast+
qed

lemma echo_of_reply:
  assumes "command_for_reply b = Some cmd"
  shows "fits_command cmd b"
proof -
  have up: "to_uppercase ''01'' = ''01''" "to_uppercase ''22'' = ''22''" by code_simp+
  have hx: "is_hexdigit CHR ''0''" "is_hexdigit CHR ''1''" "is_hexdigit CHR ''2''" by code_simp+
  from assms consider (one) x r where "b = 0x41 # x # r" "cmd = ''01'' @ fmt02X (unat x)"
    | (two) x y r where "b = 0x62 # x # y # r" "cmd = ''22'' @ fmt02X (unat x) @ fmt02X (unat y)"
    by (auto simp: command_for_reply_def split: list.splits if_splits)
  then show ?thesis
  proof cases
    case one
    have h: "\<forall>c \<in> set cmd. is_hexdigit c" "to_uppercase cmd = cmd"
      using hx fmt02X_digits up by (auto simp: one(2) upper_append simp del: append_Cons)
    have "expected_echo cmd = Some [0x41, x]"
      using hex_string_plain [OF h] by (simp add: expected_echo_def Let_def) (simp add: one(2))
    then show ?thesis by (simp add: fits_command_def echo_matches_def one(1))
  next
    case two
    have h: "\<forall>c \<in> set cmd. is_hexdigit c" "to_uppercase cmd = cmd"
      using hx fmt02X_digits up by (auto simp: two(2) upper_append simp del: append_Cons)
    have "expected_echo cmd = Some [0x62, x, y]"
      using hex_string_plain [OF h] by (simp add: expected_echo_def Let_def) (simp add: two(2))
    then show ?thesis by (simp add: fits_command_def echo_matches_def two(1))
  qed
qed

lemma outcome_attributed:
  assumes "list_all (frame_fits (oc_command oc)) (oc_frames oc)"
  shows "attributed (Complete og (oc_command oc) (outcome_of b oc err))"
  using payload_fits [OF assms]
  by (auto simp: outcome_of_def one_segment_def no_data_reply_def reply_from_payloads_def split: option.split)

lemma finish_attributed:
  "frames_fit st \<Longrightarrow> finish_request g err st = (st', es) \<Longrightarrow> frames_fit st' \<and> list_all attributed es"
  by (auto simp: finish_request_def frames_fit_def intro!: outcome_attributed split: option.splits if_splits)

lemma late_attributed: "list_all attributed (late_effects b rx)"
  using echo_of_reply by (auto simp: late_effects_def one_segment_def reply_from_payloads_def split: list.split option.split prod.split bool.split)

lemma slot_attributed: "list_all attributed (slot_effects st rx q)"
  by (simp add: slot_effects_def split: option.split)

lemma rx_attributed:
  assumes "frames_fit st" "carries_data rx" "on_rx now rx st = (st', es)"
  shows "frames_fit st' \<and> list_all attributed es"
proof (cases "routed_payload st rx")
  case None
  show ?thesis
  proof (cases "dv_outstanding st")
    case (Some oc)
    let ?oc = "count_frame now rx oc"
    have oc: "oc_command ?oc = oc_command oc" "oc_frames ?oc = oc_frames oc @ [rx]" by (simp_all add: count_frame_def)
    show ?thesis
    proof (cases "\<not> lagged_reply oc rx \<and> counts_for oc (rx_id rx)")
      case True
      then have "frame_fits (oc_command oc) rx" using assms(2) by (auto simp: lagged_reply_def frame_fits_def split: option.splits)
      then have fit: "frames_fit (st \<lparr> dv_outstanding := Some ?oc \<rparr>)" using assms(1) Some oc by (simp add: frames_fit_def)
      show ?thesis
      proof (cases "oc_expected oc = Some (rx_id rx) \<and> \<not> response_pending (rx_data rx) \<and> reply_complete (oc_frames ?oc) (rx_id rx) (bus st)")
        case fin: True
        obtain es2 where f: "finish_request (oc_gen oc) None (st \<lparr> dv_outstanding := Some ?oc \<rparr>) = (st', es2)"
          "es = (if dv_tap st then [Tapped rx] else []) @ es2"
          using assms(3) None Some True fin by (auto simp: on_rx_def Let_def split: prod.splits)
        show ?thesis using finish_attributed [OF fit f(1)] f(2) by simp
      next
        case False
        then show ?thesis using assms(3) None Some True fit by (auto simp: on_rx_def Let_def)
      qed
    next
      case False
      then show ?thesis using assms None Some late_attributed by (auto simp: on_rx_def Let_def split: if_splits)
    qed
  qed (use assms None in \<open>auto simp: on_rx_def Let_def\<close>)
qed (use assms slot_attributed in \<open>auto simp: on_rx_def Let_def\<close>)

definition event_carries :: "DviEvent \<Rightarrow> bool" where
  "event_carries ev = (case ev of FromTool _ (Rx rx) \<Rightarrow> carries_data rx | _ \<Rightarrow> True)"

lemma tool_attributed [simp]: "list_all attributed (map (\<lambda>x. ToolBytes (f x)) xs)"
  by (induction xs) simp_all

lemma load_slot_attributed: "list_all attributed (snd (snd acc)) \<Longrightarrow> list_all attributed (snd (snd (load_slot tool plan acc m)))"
  by (cases acc) (simp add: load_slot_def Let_def split: option.split)

lemma load_slots_attributed: "list_all attributed (snd (snd acc)) \<Longrightarrow> list_all attributed (snd (snd (foldl (load_slot tool plan) acc ms)))"
  by (induction ms arbitrary: acc) (simp_all add: load_slot_attributed)

lemma step_attributed:
  assumes "frames_fit st" "event_carries ev" "dv_step ev st = (st', es)"
  shows "frames_fit st' \<and> list_all attributed es"
proof (cases ev)
  case (SendCmd now ok cmd)
  then show ?thesis using assms(1,3)
    by (auto simp: dv_step_def dvi_encode_def Let_def frames_fit_def new_request_def dvi_ack_def one_segment_def ack_reply_def ensure_flow_filter_def
        split: prod.splits option.splits if_splits)
next
  case (FromTool now f)
  then show ?thesis
  proof (cases f)
    case (Rx rx)
    then show ?thesis using rx_attributed [of st rx now st' es] assms FromTool by (simp add: dv_step_def on_frame_def event_carries_def)
  next
    case (ErrorFrame c code)
    have fin: "frames_fit st' \<and> list_all attributed es" if "finish_request g err st = (st', es)" for g err
      using finish_attributed [OF assms(1) that] .
    show ?thesis using assms(1,3) FromTool ErrorFrame fin
      by (cases "dv_outstanding st") (auto simp: dv_step_def on_frame_def frames_fit_def split: if_splits)
  next
    case (Reply c d)
    then show ?thesis using assms FromTool by (auto simp: dv_step_def on_frame_def frames_fit_def split: if_splits option.splits)
  qed
next
  case (Collect now g)
  show ?thesis
  proof (cases "dv_outstanding st")
    case (Some oc)
    obtain st1 es1 where r: "(if oc_stray oc \<ge> 3 then resync now st else (st, [])) = (st1, es1)" by (metis prod.exhaust)
    then have same: "frames_fit st1" "list_all attributed es1"
      using assms(1) by (auto simp: resync_def frames_fit_def split: if_splits)
    obtain st2 es2 where f: "finish_request g None st1 = (st2, es2)" by (metis prod.exhaust)
    show ?thesis
    proof (cases "oc_gen oc \<noteq> g \<or> 0 < collector_left now oc")
      case True
      then show ?thesis using assms(1,3) Collect Some by (auto simp: dv_step_def collect_def)
    next
      case False
      then have "st' = st2 \<and> es = es1 @ es2" using assms(3) Collect Some r f by (simp add: dv_step_def collect_def)
      then show ?thesis using finish_attributed [OF same(1) f] same(2) by simp
    qed
  qed (use assms Collect in \<open>auto simp: dv_step_def collect_def\<close>)
next
  case (StartSlots tool plan)
  then show ?thesis using assms(1,3) load_slots_attributed [of "([], 0xFFFFFFFF, [])" tool plan "pp_messages plan"]
    by (auto simp: dv_step_def periodic_start_def Let_def frames_fit_def split: prod.splits if_splits option.splits)
qed (use assms in \<open>auto simp: dv_step_def periodic_arm_def periodic_break_def periodic_teardown_def periodic_abandon_def frames_fit_def split: option.splits\<close>)

lemma run_attributed:
  assumes "dv_run evs st = (st', es)" "frames_fit st" "list_all event_carries evs"
  shows "frames_fit st' \<and> list_all attributed es"
  using assms
proof (induction evs arbitrary: st es)
  case (Cons ev evs)
  obtain st1 es1 es2 where s: "dv_step ev st = (st1, es1)" "dv_run evs st1 = (st', es2)" "es = es1 @ es2"
    using Cons.prems(1) by (auto simp: Let_def split: prod.splits)
  show ?case using step_attributed [OF Cons.prems(2) _ s(1)] Cons.IH [OF s(2)] Cons.prems(3) s(3) by simp
qed simp

text \<open>C25: no reply is taken for the answer to another command. In any run, whatever frames arrive and in whatever order, as
  long as first frames carry data, every completion, also one that hands up a late reply, has only payloads that fit
  the command it names: each is negative, or agrees with the echo the command expects as far as it goes.\<close>

theorem completions_answer_their_command:
  assumes "dv_run evs (dvi_new a) = (st, es)" "list_all event_carries evs"
  shows "list_all attributed es"
  using run_attributed [OF assms(1) _ assms(2)] by (simp add: frames_fit_def dvi_new_def)

section \<open>Slots and polls\<close>

text \<open>A frame that is routed to a slot changes nothing but the stream: the outstanding request, its clock and its frames stay
  as they are. It is a whole reply that a slot of its identifier splits into data, and not an answer the outstanding
  request waits for with exactly the PIDs of that slot.\<close>

lemma found: "find P xs = Some x \<Longrightarrow> x \<in> set xs \<and> P x"
  by (induction xs) (auto split: if_splits)

lemma slots_leave_requests_alone:
  assumes "routed_payload st rx = Some q"
  shows "fst (on_rx now rx st) = st \<and> answers_of (snd (on_rx now rx st)) = [] \<and>
       (\<exists>slot ms pidset m p. dv_periodic st = Some p \<and> (slot, rx_id rx, ms, pidset) \<in> set (pl_decoders p)
          \<and> split_multi_pid ms [q] = Ok m \<and> m \<noteq> [] \<and> \<not> outstanding_wants st (rx_id rx) pidset)"
proof -
  obtain p where p: "dv_periodic st = Some p" using assms by (auto simp: routed_payload_def split: option.splits)
  obtain d where d: "slot_of p (rx_id rx) q = Some d" "\<not> outstanding_wants st (rx_id rx) (snd (snd (snd d)))"
    using assms p by (auto simp: routed_payload_def split: if_splits list.splits prod.splits bool.splits option.splits)
  obtain slot r ms pidset where dd: "d = (slot, r, ms, pidset)" by (metis prod.exhaust)
  have "d \<in> set (pl_decoders p) \<and> r = rx_id rx \<and> (case split_multi_pid ms [q] of Ok m \<Rightarrow> m \<noteq> [] | _ \<Rightarrow> False)"
    using found [OF d(1) [unfolded slot_of_def]] unfolding dd by auto
  moreover from this obtain m where "split_multi_pid ms [q] = Ok m" "m \<noteq> []" by (cases "split_multi_pid ms [q]") auto
  moreover have "on_rx now rx st = (st, (if dv_tap st then [Tapped rx] else []) @ slot_effects st rx q)"
    using assms by (simp add: on_rx_def)
  moreover have "answers_of (slot_effects st rx q) = []" using p by (simp add: slot_effects_def)
  ultimately show ?thesis using p d(2) dd by auto
qed

section \<open>Concrete runs\<close>

definition rx7E8 :: "u8 list \<Rightarrow> RxFrame" where
  "rx7E8 d = \<lparr> rx_id = 0x7E8, rx_ts_us = None, rx_data = d \<rparr>"

definition asked :: DviState where
  "asked = fst (dv_run [SendCmd 0 True ''ATSH7E0'', SendCmd 5 True ''22F190''] (dvi_new Can11))"

definition vin_frames :: "(nat \<times> RxFrame) list" where
  "vin_frames = [(30, rx7E8 [3, 0x7F, 0x22, 0x78, 0, 0, 0, 0]), (40, \<lparr> rx_id = 0x3B0, rx_ts_us = None, rx_data = [1, 2, 3] \<rparr>),
     (50, rx7E8 [0x10, 0x09, 0x62, 0xF1, 0x90, 0x31, 0x46, 0x41]), (60, rx7E8 [0x21, 0x50, 0x38, 0x43, 0xAA, 0xAA, 0xAA, 0xAA])]"

lemma asked_state: "dv_outstanding asked = Some (new_request 5 ''22F190'' (Some 0x7E8) 1)" "dv_periodic asked = None" "dv_addressing asked = Can11"
  by code_simp+


text \<open>A chunk answered too late: the chunk timed out, the next request is a single PID, and the answer to the chunk is handed up
  as the answer to its first PID alone, with the data of the others behind it. A length learned from it is wrong.\<close>

definition late_chunk :: "DviEvent list" where
  "late_chunk = [SendCmd 0 True ''010C0D'', Collect 250 1, SendCmd 260 True ''0105'',
     FromTool 270 (Rx (rx7E8 [6, 0x41, 0x0C, 0x1A, 0xF8, 0x0D, 0x32]))]"

definition late_payload :: Payload where
  "late_payload = \<lparr> controller = ''7E0'', bytes = [0x41, 0x0C, 0x1A, 0xF8, 0x0D, 0x32] \<rparr>"

lemma late_chunk_misattributed:
  "answers_of (snd (dv_run late_chunk (dvi_new Can11))) =
     [Complete (Finished 1) ''010C0D'' (Inr (one_segment no_data_reply)),
      Complete Late ''010C'' (Inr (one_segment (reply_from_payloads ''010C'' StOk False [late_payload] ''7E8 06 41 0C 1A F8 0D 32'')))]"
  "observed_len ''010C'' [late_payload] = Some 4"
  by code_simp+

lemma completions_answer_their_command_witness:
  "list_all attributed (snd (dv_run late_chunk (dvi_new Can11)))"
proof -
  have "list_all event_carries late_chunk" by code_simp
  from completions_answer_their_command [OF surjective_pairing this] show ?thesis .
qed

lemma requests_settle_once_witness:
  "settled (snd (dv_run late_chunk (dvi_new Can11))) @ awaited (fst (dv_run late_chunk (dvi_new Can11))) = [1, 2]"
proof -
  have "serial_run late_chunk (dvi_new Can11)" by code_simp
  moreover have "dv_generation (fst (dv_run late_chunk (dvi_new Can11))) = 2" by code_simp
  ultimately show ?thesis using requests_settle_once [OF surjective_pairing, of late_chunk Can11] by (simp add: upt_conv_Cons)
qed

text \<open>The decode thread keeps one payload per identifier and wake, so of two slots the same controller answers, the one that
  was heard first in a wake is lost.\<close>

lemma slots_share_identifier:
  "decode_wake [(0, 0x7E8, [(''010C'', 2)], {''010C''}), (1, 0x7E8, [(''0105'', 1)], {''0105''})]
     [(0x7E8, \<lparr> controller = ''7E0'', bytes = [0x41, 0x05, 0x7B] \<rparr>), (0x7E8, \<lparr> controller = ''7E0'', bytes = [0x41, 0x0C, 0x1A, 0xF8] \<rparr>)]
   = decode_wake [(0, 0x7E8, [(''010C'', 2)], {''010C''}), (1, 0x7E8, [(''0105'', 1)], {''0105''})]
     [(0x7E8, \<lparr> controller = ''7E0'', bytes = [0x41, 0x0C, 0x1A, 0xF8] \<rparr>)]"
  by (simp add: decode_wake_def)

section \<open>The slots as a periodic engine\<close>

text \<open>The engine's state is the handler's, with what it has put out.\<close>

definition periodic_stats :: "DviState \<Rightarrow> PeriodicStats option" where
  "periodic_stats st =
     map_option (\<lambda>p. \<lparr> st_members = sum_list (map (\<lambda>(_, _, ms, _). length ms) (pl_decoders p)), st_fast_ms = pl_fast_ms p \<rparr>)
       (dv_periodic st)"

definition dvi_engine :: "(u8 list \<Rightarrow> bool) \<Rightarrow> (DviState \<times> DviEffect list) Engine" where
  "dvi_engine tool =
     \<lparr> eg_live = (\<lambda>s. dv_periodic (fst s) \<noteq> None),
       eg_stats = (\<lambda>s. periodic_stats (fst s)),
       eg_start = (\<lambda>plan s. let (st, es, r) = periodic_start tool plan (fst s) in ((st, snd s @ es), r)),
       eg_arm = (\<lambda>s. let (st, r) = periodic_arm (fst s) in ((st, snd s), r)),
       eg_break = (\<lambda>s. (periodic_break (fst s), snd s)),
       eg_teardown = (\<lambda>s. let (st, es) = periodic_teardown (fst s) in (st, snd s @ es)),
       eg_abandon = (\<lambda>s. (periodic_abandon (fst s), snd s)) \<rparr>"

definition decoder_pids :: "slot_decoder \<Rightarrow> string list" where
  "decoder_pids d = map fst (fst (snd (snd d)))"

lemma plan_member_pids [simp]: "map fst (plan_members plan m) = pm_pids m"
  by (simp add: plan_members_def comp_def)

text \<open>The slots loaded are those of some of the messages, in their order.\<close>

lemma loaded_slots:
  "\<exists>ms'. subseq ms' ms \<and> map decoder_pids (fst (foldl (load_slot tool plan) (ds, fast, es) ms)) = map decoder_pids ds @ map pm_pids ms'"
proof (induction ms arbitrary: ds fast es)
  case (Cons m ms)
  obtain ds1 fast1 es1 where l: "load_slot tool plan (ds, fast, es) m = (ds1, fast1, es1)" by (metis prod.exhaust)
  then consider "ds1 = ds" | x where "ds1 = ds @ [x]" "decoder_pids x = pm_pids m"
    by (auto simp: load_slot_def Let_def decoder_pids_def split: if_splits option.splits)
  then show ?case
  proof cases
    case 1
    with Cons.IH [of ds1 fast1 es1] l show ?thesis by (auto intro: list_emb_Cons)
  next
    case 2
    from Cons.IH [of ds1 fast1 es1] obtain ms' where
      m: "subseq ms' ms" "map decoder_pids (fst (foldl (load_slot tool plan) (ds1, fast1, es1) ms)) = map decoder_pids ds1 @ map pm_pids ms'"
      by blast
    from m(1) have "subseq (m # ms') (m # ms)" by simp
    with m(2) 2 l show ?thesis by (intro exI [of _ "m # ms'"]) simp
  qed
qed simp

lemma subseq_map_back:
  assumes "subseq xs (map f ys)" obtains zs where "subseq zs ys" "xs = map f zs"
proof -
  from assms have "\<exists>zs. subseq zs ys \<and> xs = map f zs"
  proof (induction ys arbitrary: xs)
    case (Cons y ys)
    show ?case
    proof (cases xs)
      case Nil
      then show ?thesis by (intro exI [of _ "[]"]) simp
    next
      case (Cons x xs')
      show ?thesis
      proof (cases "x = f y")
        case True
        with Cons Cons.prems have "subseq xs' (map f ys)" by simp
        from Cons.IH [OF this] obtain zs where "subseq zs ys" "xs' = map f zs" by blast
        with True Cons show ?thesis by (intro exI [of _ "y # zs"]) simp
      next
        case False
        with Cons Cons.prems have "subseq xs (map f ys)" by (simp add: subseq_Cons2_neq)
        from Cons.IH [OF this] obtain zs where "subseq zs ys" "xs = map f zs" by blast
        then show ?thesis by (intro exI [of _ zs]) auto
      qed
    qed
  qed auto
  with that show thesis by blast
qed

lemma periodic_start_installs:
  assumes "periodic_start tool plan st = (st', es, Inr i)"
  shows "dv_periodic st' \<noteq> None \<and> installs plan i"
proof -
  obtain ds fast es0 where f: "foldl (load_slot tool plan) ([], 0xFFFFFFFF, []) (pp_messages plan) = (ds, fast, es0)" by (metis prod.exhaust)
  let ?on = "filter (\<lambda>d. tool (periodic_enable (fst d) True)) ds"
  from assms f have r: "?on \<noteq> []" "pi_accepted i = length ?on" "pi_served i = concat (map (\<lambda>(_, _, ms, _). map fst ms) ?on)"
      "dv_periodic st' \<noteq> None"
    by (auto simp: periodic_start_def Let_def split: if_splits)
  from loaded_slots [where ms = "pp_messages plan" and tool = tool and plan = plan and ds = "[]" and fast = "0xFFFFFFFF" and es = "[]"] f obtain ms where
    ms: "subseq ms (pp_messages plan)" "map decoder_pids ds = map pm_pids ms" by auto
  have "subseq (map decoder_pids ?on) (map pm_pids ms)" unfolding ms(2) [symmetric] by (rule subseq_map) simp
  then obtain on where on: "subseq on ms" "map decoder_pids ?on = map pm_pids on" by (rule subseq_map_back)
  have "pi_served i = concat (map decoder_pids ?on)" unfolding r(3) by (simp add: decoder_pids_def case_prod_unfold cong: map_cong)
  moreover have "length on = length ?on" using on(2) by (metis length_map)
  moreover have "on \<noteq> []" using on(2) r(1) by auto
  ultimately show ?thesis using r(2,4) on subseq_order.trans [OF on(1) ms(1)] by (auto simp: installs_def)
qed

lemma periodic_start_refused: "periodic_start tool plan st = (st', es, Inl e) \<Longrightarrow> dv_periodic st' = dv_periodic st"
  by (simp add: periodic_start_def Let_def case_prod_beta split: if_splits) (auto split: if_splits)

lemma dvi_engine_start:
  "eg_start (dvi_engine tool) plan s = (s', r) \<longleftrightarrow>
     (\<exists>st es. periodic_start tool plan (fst s) = (st, es, r) \<and> s' = (st, snd s @ es))"
  by (auto simp: dvi_engine_def split: prod.splits)

lemma dvi_engine_live: "eg_live (dvi_engine tool) s \<longleftrightarrow> dv_periodic (fst s) \<noteq> None"
  by (simp add: dvi_engine_def)

interpretation dvi: periodic_engine "dvi_engine tool" for tool
proof
  fix plan s
  assume "eg_live (dvi_engine tool) s"
  then show "eg_start (dvi_engine tool) plan s = (s, Inl NotStarted)"
    by (cases s) (auto simp: dvi_engine_def periodic_start_def)
next
  fix plan s s' i
  assume "eg_start (dvi_engine tool) plan s = (s', Inr i)"
  then show "eg_live (dvi_engine tool) s' \<and> installs plan i"
    using periodic_start_installs unfolding dvi_engine_start dvi_engine_live by fastforce
next
  fix plan s s' e
  assume "eg_start (dvi_engine tool) plan s = (s', Inl e)"
  then show "eg_live (dvi_engine tool) s' = eg_live (dvi_engine tool) s"
    using periodic_start_refused unfolding dvi_engine_start dvi_engine_live by fastforce
qed (auto simp: dvi_engine_def periodic_stats_def periodic_arm_def periodic_break_def periodic_teardown_def periodic_abandon_def
  split: option.splits)

end
