(* ===== verification/StnEngine.thy ===== *)
theory StnEngine
  imports PeriodicContract ElmWire DviFraming ChunkSplitter
begin

text \<open>
  The STN chip's periodic engine (\<^verbatim>\<open>src/link/stn_periodic_engine.rs\<close>): the messages are installed one by
  one, the monitor is armed with a paced sequence whose last command is verified, replies are decoded off
  the transport thread, and a stop breaks the monitor and reopens the protocol.

  Everything the engine writes, through the command queue or raw, is appended to a wire log. The adapter
  is a parameter: what it answers to a command after what was written before, where no answer (an error, a
  timeout, a refused queue) is None, and an answer to \<open>STM\<close> is the \<open>STOPPED\<close> of an aborted monitor. The
  waits for acknowledgements of the raw setup commands have no effect on what follows, since any line, or
  none, is taken. The counters for the log are not modelled.
\<close>

section \<open>State\<close>

type_synonym adapter = "string list \<Rightarrow> string \<Rightarrow> string option"

record StnLive =
  sl_decoders :: "(string \<times> (string \<times> u8) list) list"
  sl_frame_ids :: "string list"
  sl_loop_stop :: bool
  sl_monitor :: bool
  sl_fast_ms :: u32

record StnState =
  se_live :: "StnLive option"
  se_wire :: "string list"
  se_monitor_mode :: bool
  se_addressing :: Addressing

definition exchange :: "adapter \<Rightarrow> string \<Rightarrow> StnState \<Rightarrow> StnState \<times> string option" where
  "exchange ad cmd st = (st \<lparr> se_wire := se_wire st @ [cmd] \<rparr>, ad (se_wire st) cmd)"

definition write_raw :: "string \<Rightarrow> StnState \<Rightarrow> StnState" where
  "write_raw cmd st = st \<lparr> se_wire := se_wire st @ [cmd] \<rparr>"

definition or_empty :: "string option \<Rightarrow> string" where
  "or_empty x = (case x of None \<Rightarrow> [] | Some s \<Rightarrow> s)"

section \<open>Installing the plan\<close>

record StnBuild =
  sb_decoders :: "(string \<times> (string \<times> u8) list) list"
  sb_ids :: "string list"
  sb_accepted :: nat
  sb_fast :: u32
  sb_served :: "string list"

definition has_handle :: "string \<Rightarrow> bool" where
  "has_handle r \<longleftrightarrow> list_ex (\<lambda>t. u16_from_hex t \<noteq> None) (split_whitespace r)"

definition add_message :: "PeriodicPlan \<Rightarrow> PeriodicMessage \<Rightarrow> StnBuild \<Rightarrow> StnBuild" where
  "add_message plan m b =
     (let resp = periodic_response_id (pm_header m)
      in \<lparr> sb_decoders = sb_decoders b @ [(resp, plan_members plan m)], sb_ids = add_new (sb_ids b) resp,
           sb_accepted = sb_accepted b + 1, sb_fast = min (sb_fast b) (pm_period m), sb_served = sb_served b @ pm_pids m \<rparr>)"

fun install_messages :: "adapter \<Rightarrow> PeriodicPlan \<Rightarrow> PeriodicMessage list \<Rightarrow> StnState \<times> StnBuild \<Rightarrow> StnState \<times> StnBuild" where
  "install_messages ad plan [] acc = acc"
| "install_messages ad plan (m # ms) (st, b) =
     (let (st', reply) = exchange ad (pm_command m) st;
          r = to_uppercase (or_empty reply)
      in if contains r ''OUT OF MEMORY'' then (st', b)
         else if \<not> has_handle r then install_messages ad plan ms (st', b)
         else install_messages ad plan ms (st', add_message plan m b))"

definition stn_start :: "adapter \<Rightarrow> PeriodicPlan \<Rightarrow> StnState \<Rightarrow> StnState \<times> (PeriodicError + PeriodicInstall)" where
  "stn_start ad plan st =
     (if se_live st \<noteq> None then (st, Inl NotStarted)
      else (let st1 = fst (exchange ad ''STCMM 1'' st);
                (st2, b) = install_messages ad plan (pp_messages plan)
                  (st1, \<lparr> sb_decoders = [], sb_ids = [], sb_accepted = 0, sb_fast = 0xFFFFFFFF, sb_served = [] \<rparr>);
                fast = (if sb_fast b = 0xFFFFFFFF then 25 else sb_fast b)
            in if sb_accepted b = 0 then (st2, Inl NoneAccepted)
               else (st2 \<lparr> se_live := Some \<lparr> sl_decoders = sb_decoders b, sl_frame_ids = sb_ids b, sl_loop_stop = False,
                       sl_monitor = False, sl_fast_ms = fast \<rparr> \<rparr>,
                     Inr \<lparr> pi_accepted = sb_accepted b, pi_response_ids = sb_ids b, pi_fast_ms = fast, pi_served = sb_served b \<rparr>)))"

definition stn_stats :: "StnState \<Rightarrow> PeriodicStats option" where
  "stn_stats st =
     map_option (\<lambda>l. \<lparr> st_members = sum_list (map (\<lambda>(_, ms). length ms) (sl_decoders l)), st_fast_ms = sl_fast_ms l \<rparr>) (se_live st)"

section \<open>Arming\<close>

definition id_mask :: "Addressing \<Rightarrow> string" where
  "id_mask a = (case a of Can11 \<Rightarrow> ''7FF'' | Can29 _ \<Rightarrow> ''1FFFFFFF'')"

fun try_stm :: "adapter \<Rightarrow> nat \<Rightarrow> StnState \<Rightarrow> StnState \<times> bool" where
  "try_stm ad 0 st = (st, False)"
| "try_stm ad (Suc n) st =
     (let (st', stopped) = exchange ad ''STM'' st
      in if stopped = None then (st', True) else try_stm ad n st')"

definition filter_commands :: "Addressing \<Rightarrow> string list \<Rightarrow> string list" where
  "filter_commands a ids = [''STPO'', ''STFAC''] @ map (\<lambda>i. ''STFPA '' @ i @ '','' @ id_mask a) ids"

text \<open>The platform may refuse monitor mode, with a reason.\<close>

definition stn_arm :: "adapter \<Rightarrow> string option \<Rightarrow> StnState \<Rightarrow> StnState \<times> (PeriodicError + unit)" where
  "stn_arm ad refusal st =
     (case se_live st of
        None \<Rightarrow> (st, Inl NotStarted)
      | Some l \<Rightarrow>
          (case refusal of
             Some e \<Rightarrow> (st, Inl (MonitorFailed e))
           | None \<Rightarrow>
               (let st1 = foldl (\<lambda>s c. write_raw c s) (st \<lparr> se_monitor_mode := True \<rparr>)
                            (filter_commands (se_addressing st) (sl_frame_ids l));
                    (st2, armed) = try_stm ad 5 st1
                in if armed then (st2 \<lparr> se_live := Some (l \<lparr> sl_monitor := True \<rparr>) \<rparr>, Inr ())
                   else (st2, Inl (ArmAborted 5)))))"

section \<open>Stopping\<close>

definition stn_break :: "StnState \<Rightarrow> StnState" where
  "stn_break st =
     (case se_live st of
        None \<Rightarrow> st
      | Some l \<Rightarrow>
          (if sl_monitor l then write_raw ''STFAC'' (write_raw '' '' st) else st)
            \<lparr> se_live := Some (l \<lparr> sl_loop_stop := True, sl_monitor := False \<rparr>), se_monitor_mode := False \<rparr>)"

definition stn_protocol :: "string \<Rightarrow> string option" where
  "stn_protocol pr =
     (let tok = to_uppercase (case split_whitespace pr of [] \<Rightarrow> [] | t # _ \<Rightarrow> t);
          elm = (case strip_prefix tok ''A'' of None \<Rightarrow> tok | Some s \<Rightarrow> s)
      in if length tok = 2 \<and> list_all (\<lambda>c. CHR ''0'' \<le> c \<and> c \<le> CHR ''9'') tok then Some tok
         else if elm = ''6'' then Some ''33''
         else if elm = ''7'' then Some ''34''
         else if elm = ''8'' then Some ''35''
         else if elm = ''9'' then Some ''36''
         else None)"

text \<open>The pinned reopen: the protocol, then the probe. Whether the probe was answered is the result.\<close>

definition reopen_pinned :: "adapter \<Rightarrow> StnState \<Rightarrow> StnState \<times> bool" where
  "reopen_pinned ad st =
     (let (st1, pr) = exchange ad ''STPR'' st
      in case pr of
           None \<Rightarrow> (st1, False)
         | Some p \<Rightarrow>
             (case stn_protocol p of
                None \<Rightarrow> (st1, False)
              | Some n \<Rightarrow>
                  (let (st2, resp) = exchange ad ''0100'' (fst (exchange ad (''STP '' @ n) st1))
                   in (st2, case resp of None \<Rightarrow> False | Some r \<Rightarrow> contains (to_uppercase r) ''41 00''))))"

definition stn_teardown :: "adapter \<Rightarrow> StnState \<Rightarrow> StnState" where
  "stn_teardown ad st =
     (let st1 = fst (exchange ad ''AT'' (st \<lparr> se_live := None \<rparr>));
          (st2, cleared) = exchange ad ''STPPMC'' st1;
          st3 = (if cleared = None then fst (exchange ad ''STPPMC'' st2) else st2);
          (st4, reopened) = reopen_pinned ad st3
      in if reopened then st4 else fst (exchange ad ''0100'' (fst (exchange ad ''STPC'' st4))))"

definition stn_abandon :: "StnState \<Rightarrow> StnState" where
  "stn_abandon st = st \<lparr> se_live := None \<rparr>"

definition stn_engine :: "adapter \<Rightarrow> string option \<Rightarrow> StnState Engine" where
  "stn_engine ad refusal =
     \<lparr> eg_live = (\<lambda>st. se_live st \<noteq> None), eg_stats = stn_stats, eg_start = stn_start ad, eg_arm = stn_arm ad refusal,
       eg_break = stn_break, eg_teardown = stn_teardown ad, eg_abandon = stn_abandon \<rparr>"

section \<open>The tap and the decode thread\<close>

text \<open>Where the tap sends what the monitor prints.\<close>

datatype TapOut = TapStopped | TapDecode Frame | TapAck string

definition stn_tap :: "string list \<Rightarrow> LinkEvent \<Rightarrow> TapOut" where
  "stn_tap ids ev =
     (case ev of
        StoppedEvent \<Rightarrow> TapStopped
      | FrameEvent f \<Rightarrow>
          if list_ex (\<lambda>r. eq_ignore_case r (frame_id f)) ids then TapDecode f else TapAck (frame_raw f)
      | TextEvent t \<Rightarrow> TapAck (trim t))"

text \<open>One wake: the freshest frame per identifier, in the order the identifiers were first heard.\<close>

definition freshest :: "Frame list \<Rightarrow> (string \<times> Frame) list" where
  "freshest fs = foldl (\<lambda>m f. AList.update (frame_id f) f m) [] fs"

text \<open>The first decoder of the identifier whose members split the frame; a panic in the splitter is caught.\<close>

fun try_decoders :: "key_order \<Rightarrow> Bus \<Rightarrow> string \<Rightarrow> (string \<times> u8) list list \<Rightarrow> split_out option" where
  "try_decoders ord bus txt [] = None"
| "try_decoders ord bus txt (ms # mss) =
     (case split_multi_pid_response ord ms txt bus of
        Ok out \<Rightarrow> Some out
      | _ \<Rightarrow> try_decoders ord bus txt mss)"

definition decode_frame :: "key_order \<Rightarrow> Bus \<Rightarrow> (string \<times> (string \<times> u8) list) list \<Rightarrow> string \<times> Frame \<Rightarrow> split_out" where
  "decode_frame ord bus decs e =
     (case try_decoders ord bus (frame_raw (snd e)) (map snd (filter (\<lambda>d. fst d = fst e) decs)) of
        None \<Rightarrow> []
      | Some out \<Rightarrow> out)"

definition stn_decode_wake :: "key_order \<Rightarrow> Bus \<Rightarrow> (string \<times> (string \<times> u8) list) list \<Rightarrow> Frame list \<Rightarrow> split_out list" where
  "stn_decode_wake ord bus decs fs = filter (\<lambda>out. out \<noteq> []) (map (decode_frame ord bus decs) (freshest fs))"

section \<open>The contract\<close>

lemma exchange_wire [simp]: "fst (exchange ad c st) = st \<lparr> se_wire := se_wire st @ [c] \<rparr>" "snd (exchange ad c st) = ad (se_wire st) c"
  by (simp_all add: exchange_def)

lemma install_step:
  "install_messages ad plan (m # ms) (st, b) =
     (let r = to_uppercase (or_empty (ad (se_wire st) (pm_command m))); st' = st \<lparr> se_wire := se_wire st @ [pm_command m] \<rparr>
      in if contains r ''OUT OF MEMORY'' then (st', b)
         else install_messages ad plan ms (st', if has_handle r then add_message plan m b else b))"
  by (simp add: exchange_def Let_def)

declare install_messages.simps(2) [simp del]

text \<open>
  What was accepted: the answer to the message at a position of the plan, and whether it took.
\<close>

definition answer_at :: "adapter \<Rightarrow> string list \<Rightarrow> PeriodicMessage list \<Rightarrow> nat \<Rightarrow> string" where
  "answer_at ad w ms j = to_uppercase (or_empty (ad (w @ map pm_command (take j ms)) (pm_command (ms ! j))))"

definition out_of_memory :: "string \<Rightarrow> bool" where
  "out_of_memory r \<longleftrightarrow> contains r ''OUT OF MEMORY''"

definition taken :: "adapter \<Rightarrow> string list \<Rightarrow> PeriodicMessage list \<Rightarrow> nat \<Rightarrow> PeriodicMessage list" where
  "taken ad w ms k = map ((!) ms) (filter (\<lambda>j. \<not> out_of_memory (answer_at ad w ms j) \<and> has_handle (answer_at ad w ms j)) [0..<k])"

definition built_from :: "PeriodicPlan \<Rightarrow> StnBuild \<Rightarrow> PeriodicMessage list \<Rightarrow> StnBuild" where
  "built_from plan b ms = foldl (\<lambda>b m. add_message plan m b) b ms"

lemma answer_Suc: "answer_at ad w (m # ms) (Suc j) = answer_at ad (w @ [pm_command m]) ms j"
  by (simp add: answer_at_def)

lemma taken_Suc:
  "taken ad w (m # ms) (Suc k) =
     (if \<not> out_of_memory (answer_at ad w (m # ms) 0) \<and> has_handle (answer_at ad w (m # ms) 0) then [m] else [])
       @ taken ad (w @ [pm_command m]) ms k"
proof -
  have "[0..<Suc k] = 0 # map Suc [0..<k]" by (simp add: map_Suc_upt upt_conv_Cons)
  then show ?thesis by (simp add: taken_def filter_map answer_Suc comp_def)
qed

lemma install_spec:
  "\<exists>k \<le> length ms. install_messages ad plan ms (st, b) =
       (st \<lparr> se_wire := se_wire st @ map pm_command (take k ms) \<rparr>, built_from plan b (taken ad (se_wire st) ms k))
     \<and> (\<forall>j < k. out_of_memory (answer_at ad (se_wire st) ms j) \<longrightarrow> k = Suc j) \<and> (k < length ms \<longrightarrow> 0 < k \<and> out_of_memory (answer_at ad (se_wire st) ms (k - 1)))"
proof (induction ms arbitrary: st b)
  case Nil
  then show ?case by (simp add: taken_def built_from_def)
next
  case (Cons m ms)
  let ?w = "se_wire st" and ?st = "st \<lparr> se_wire := se_wire st @ [pm_command m] \<rparr>"
  let ?r = "answer_at ad ?w (m # ms) 0"
  have r: "to_uppercase (or_empty (ad ?w (pm_command m))) = ?r" by (simp add: answer_at_def)
  show ?case
  proof (cases "out_of_memory ?r")
    case True
    then have "install_messages ad plan (m # ms) (st, b) = (?st, b)" by (simp add: install_step r out_of_memory_def)
    with True show ?thesis
      by (intro exI [of _ 1]) (simp add: taken_Suc [of ad ?w m ms 0, simplified] taken_def built_from_def)
  next
    case False
    let ?b = "if has_handle ?r then add_message plan m b else b"
    from Cons.IH [of ?st ?b] obtain k where k: "k \<le> length ms"
      "install_messages ad plan ms (?st, ?b) =
         (?st \<lparr> se_wire := se_wire ?st @ map pm_command (take k ms) \<rparr>, built_from plan ?b (taken ad (se_wire ?st) ms k))"
      "\<forall>j < k. out_of_memory (answer_at ad (se_wire ?st) ms j) \<longrightarrow> k = Suc j"
      "k < length ms \<longrightarrow> 0 < k \<and> out_of_memory (answer_at ad (se_wire ?st) ms (k - 1))" by blast
    have "install_messages ad plan (m # ms) (st, b) = install_messages ad plan ms (?st, ?b)"
      using False by (simp add: install_step r out_of_memory_def)
    also have "\<dots> = (st \<lparr> se_wire := ?w @ map pm_command (take (Suc k) (m # ms)) \<rparr>, built_from plan b (taken ad ?w (m # ms) (Suc k)))"
      using False by (simp add: k(2) taken_Suc built_from_def)
    finally have 1: "install_messages ad plan (m # ms) (st, b) =
        (st \<lparr> se_wire := ?w @ map pm_command (take (Suc k) (m # ms)) \<rparr>, built_from plan b (taken ad ?w (m # ms) (Suc k)))" .
    have 2: "\<forall>j < Suc k. out_of_memory (answer_at ad ?w (m # ms) j) \<longrightarrow> Suc k = Suc j"
    proof (intro allI impI)
      fix j assume j: "j < Suc k" "out_of_memory (answer_at ad ?w (m # ms) j)"
      with False obtain i where i: "j = Suc i" by (cases j) auto
      with j k(3) show "Suc k = Suc j" by (simp add: answer_Suc)
    qed
    have 3: "Suc k < length (m # ms) \<longrightarrow> 0 < Suc k \<and> out_of_memory (answer_at ad ?w (m # ms) (Suc k - 1))"
      using k(4) by (cases k) (auto simp: answer_Suc)
    show ?thesis using 1 2 3 k(1) by (intro exI [of _ "Suc k"]) simp
  qed
qed

lemma built_fields:
  "sb_accepted (built_from plan b ms) = sb_accepted b + length ms"
  "sb_served (built_from plan b ms) = sb_served b @ concat (map pm_pids ms)"
  "sb_decoders (built_from plan b ms) = sb_decoders b @ map (\<lambda>m. (periodic_response_id (pm_header m), plan_members plan m)) ms"
  by (induction ms arbitrary: b) (simp_all add: built_from_def add_message_def Let_def)

lemma taken_subseq: "k \<le> length ms \<Longrightarrow> subseq (taken ad w ms k) ms"
proof -
  assume k: "k \<le> length ms"
  have "subseq (taken ad w ms k) (map ((!) ms) [0..<k])" unfolding taken_def by (rule subseq_map) simp
  also have "map ((!) ms) [0..<k] = take k ms" by (rule nth_equalityI) (use k in simp_all)
  finally show ?thesis by (rule subseq_order.trans) (simp add: prefix_imp_subseq take_is_prefix)
qed

lemma stn_start_Ok:
  assumes "stn_start ad plan st = (st', Inr i)"
  obtains k where "k \<le> length (pp_messages plan)" "se_live st = None"
    "se_wire st' = se_wire st @ ''STCMM 1'' # map pm_command (take k (pp_messages plan))"
    "\<forall>j < k. out_of_memory (answer_at ad (se_wire st @ [''STCMM 1'']) (pp_messages plan) j) \<longrightarrow> k = Suc j"
    "k < length (pp_messages plan) \<longrightarrow> 0 < k \<and> out_of_memory (answer_at ad (se_wire st @ [''STCMM 1'']) (pp_messages plan) (k - 1))"
    "taken ad (se_wire st @ [''STCMM 1'']) (pp_messages plan) k \<noteq> []"
    "pi_accepted i = length (taken ad (se_wire st @ [''STCMM 1'']) (pp_messages plan) k)"
    "pi_served i = concat (map pm_pids (taken ad (se_wire st @ [''STCMM 1'']) (pp_messages plan) k))"
    "\<exists>l. se_live st' = Some l \<and> sl_decoders l = map (\<lambda>m. (periodic_response_id (pm_header m), plan_members plan m))
        (taken ad (se_wire st @ [''STCMM 1'']) (pp_messages plan) k)"
proof -
  let ?b0 = "\<lparr> sb_decoders = [], sb_ids = [], sb_accepted = 0, sb_fast = 0xFFFFFFFF, sb_served = [] \<rparr>"
  let ?st = "st \<lparr> se_wire := se_wire st @ [''STCMM 1''] \<rparr>"
  from assms have idle: "se_live st = None" by (auto simp: stn_start_def split: if_splits)
  from install_spec [of "pp_messages plan" ad plan ?st ?b0] obtain k where k: "k \<le> length (pp_messages plan)"
    "install_messages ad plan (pp_messages plan) (?st, ?b0) =
       (?st \<lparr> se_wire := se_wire ?st @ map pm_command (take k (pp_messages plan)) \<rparr>, built_from plan ?b0 (taken ad (se_wire ?st) (pp_messages plan) k))"
    "\<forall>j < k. out_of_memory (answer_at ad (se_wire ?st) (pp_messages plan) j) \<longrightarrow> k = Suc j"
    "k < length (pp_messages plan) \<longrightarrow> 0 < k \<and> out_of_memory (answer_at ad (se_wire ?st) (pp_messages plan) (k - 1))" by blast
  show thesis
    by (rule that [OF k(1)]) (use assms idle k(2-4) in \<open>auto simp: stn_start_def Let_def built_fields split: if_splits\<close>)
qed

lemma stn_start_installs: "stn_start ad plan st = (st', Inr i) \<Longrightarrow> se_live st' \<noteq> None \<and> installs plan i"
  by (erule stn_start_Ok) (use taken_subseq in \<open>unfold installs_def, blast\<close>)

lemma install_live: "se_live (fst (install_messages ad plan ms (st, b))) = se_live st"
  using install_spec [of ms ad plan st b] by auto

lemma stn_start_refused: "stn_start ad plan st = (st', Inl e) \<Longrightarrow> se_live st' = se_live st"
  by (auto simp: stn_start_def Let_def case_prod_beta install_live split: if_splits)

lemma try_stm_live [simp]: "se_live (fst (try_stm ad n st)) = se_live st"
  by (induction n arbitrary: st) (simp_all add: Let_def case_prod_beta)

lemma write_raw_live [simp]: "se_live (write_raw c st) = se_live st"
  by (simp add: write_raw_def)

lemma write_all_live [simp]: "se_live (foldl (\<lambda>s c. write_raw c s) st cs) = se_live st"
  by (induction cs arbitrary: st) simp_all

lemma reopen_live [simp]: "se_live (fst (reopen_pinned ad st)) = se_live st"
  by (simp add: reopen_pinned_def Let_def case_prod_beta split: option.split)

interpretation stn: periodic_engine "stn_engine ad refusal" for ad refusal
proof
  fix plan st st' i
  assume "eg_start (stn_engine ad refusal) plan st = (st', Inr i)"
  then show "eg_live (stn_engine ad refusal) st' \<and> installs plan i"
    using stn_start_installs by (simp add: stn_engine_def)
next
  fix plan st st' e
  assume "eg_start (stn_engine ad refusal) plan st = (st', Inl e)"
  then show "eg_live (stn_engine ad refusal) st' = eg_live (stn_engine ad refusal) st"
    using stn_start_refused by (fastforce simp: stn_engine_def)
qed (auto simp: stn_engine_def stn_stats_def stn_start_def stn_arm_def stn_break_def stn_teardown_def stn_abandon_def
  Let_def case_prod_beta split: option.splits)

section \<open>From the monitor line to the member\<close>

lemma sanitize_frame:
  assumes "\<not> eq_ignore_case (frame_text bus f) command"
  shows "sanitize_response (frame_text bus f) command = frame_text bus f"
proof -
  have cr: "cr_to_lf (frame_text bus f) = frame_text bus f"
    unfolding cr_to_lf_def by (rule map_idI) (auto dest: frame_text_plain)
  have ls: "lines (frame_text bus f) = [frame_text bus f]" using lines_join [of "[f]" bus] by simp
  have "\<not> starts_with (frame_text bus f) ''SEARCHING''"
  proof
    assume "starts_with (frame_text bus f) ''SEARCHING''"
    then have "hd (frame_text bus f) = CHR ''S''"
      by (cases "frame_text bus f") (auto simp: starts_with_def)
    with frame_text_ends(2) [of bus f] show False by (simp add: is_hexdigit_def hexval_def char_code_def)
  qed
  with assms frame_text_ends(1) [of bus f] show ?thesis by (simp add: sanitize_response_def cr ls)
qed

lemma split_data:
  assumes "addressing bus = Can11"
  shows "split_loop bus (map hex_token bs) ctrl cur res = flush_controller ctrl (cur @ map hex_token bs) res"
proof (induction bs arbitrary: cur)
  case (Cons b bs)
  have "read_header bus (hex_token b # map hex_token bs) = None" by (simp add: read_header_def assms)
  with Cons show ?case by simp
qed simp

text \<open>The line of one single frame on an 11-bit bus is the payload it carries.\<close>

lemma single_frame_tokens:
  assumes "answers bus c" "addressing bus = Can11" "0 < length p" "length p \<le> 7"
    "\<not> eq_ignore_case (frame_text bus (c, of_nat (length p) # fill pad 7 p)) command"
  shows "(text_frames ord command (frame_text bus (c, of_nat (length p) # fill pad 7 p)) bus :: ('e, _) outcome)
    = Ok (Some [(key c, map hex_token p)])"
proof -
  let ?f = "(c, of_nat (length p) # fill pad 7 p)"
  have d: "\<not> is_non_data_response (frame_text bus ?f)"
    using frame_text_digit [of bus ?f] assms(1) frame_text_ends(1) [of bus ?f] by (intro digit_not_status) auto
  have ls: "lines (frame_text bus ?f) = [frame_text bus ?f]" using lines_join [of "[?f]" bus] by simp
  have "split_controllers (frame_tokens bus ?f) bus = [(key c, map hex_token p)]"
  proof -
    have w: "wire_header bus c = [fmt03X (unat (ctl_id c) + 8)]" using assms(2) by (simp add: wire_header_def)
    have h: "read_header bus (frame_tokens bus ?f) = Some (c, 1)"
      using read_wire_header [OF assms(1)] by (simp add: frame_tokens_def w)
    have "split_controllers (frame_tokens bus ?f) bus
        = split_loop bus (map hex_token (of_nat (length p) # fill pad 7 p)) (key c) [] []"
      using h by (simp add: split_controllers_def frame_tokens_def w flush_controller_def)
    then show ?thesis
      using strip_single [OF assms(3,4), of pad] by (simp only: split_data [OF assms(2)]) (simp add: flush_controller_def)
  qed
  with d frame_text_ends(1) [of bus ?f] show ?thesis
    by (simp add: text_frames_def sanitize_frame [OF assms(5)] frame_controllers_def assemble_iso_tp_def ls split_frame_text)
qed

lemma upper_blank: "upper_char x = CHR '' '' \<longleftrightarrow> x = CHR '' ''"
proof -
  have False if "97 \<le> char_code x" "char_code x \<le> 122" "char_of (char_code x - 32) = CHR '' ''"
  proof -
    from arg_cong [OF that(3), of char_code] that(1,2) show False by (simp add: code_char_of) (simp add: char_code_def)
  qed
  then show ?thesis by (auto simp: upper_char_def char_code_def)
qed

lemma frame_text_blank: "snd f \<noteq> [] \<Longrightarrow> CHR '' '' \<in> set (frame_text bus f)"
proof -
  assume "snd f \<noteq> []"
  then obtain b bs where "snd f = b # bs" by (cases "snd f") auto
  moreover obtain h hs where "wire_header bus (fst f) = h # hs" by (cases "wire_header bus (fst f)"; cases "addressing bus") (auto simp: wire_header_def)
  moreover have "CHR '' '' \<in> set (join '' '' (x # y # zs))" for x y zs by simp
  ultimately show ?thesis by (cases hs) (simp_all add: frame_text_def frame_tokens_def)
qed

lemma request_command_plain:
  "CHR '' '' \<notin> set (mode_text m @ concat (map (\<lambda>(p, _). pid_suffix m p) (request_members m ls)))"
proof -
  have "CHR '' '' \<notin> set (mode_text m)" by (cases m) (simp_all add: mode_text_def)
  moreover have "CHR '' '' \<notin> set (pid_suffix m (member_pid m e))" for e
  proof -
    have "\<not> is_hexdigit (CHR '' '')" by (simp add: is_hexdigit_def hexval_def char_code_def)
    then show ?thesis using pad0_digits [of 4 "unat e"] fmt02X_digits [of _ "unat e"]
      by (cases m) (auto simp: pid_suffix_def member_pid_def)
  qed
  ultimately show ?thesis by (auto simp: request_members_def)
qed

lemma split_frame_of_members:
  assumes "answers bus c" "addressing bus = Can11" "0 < length p" "length p \<le> 7" "ls \<noteq> []"
  shows "split_multi_pid_response ord (request_members m ls) (frame_text bus (c, of_nat (length p) # fill pad 7 p)) bus
    = split_multi_pid (request_members m ls) [\<lparr> controller = key c, bytes = p \<rparr>]"
proof -
  let ?cmd = "mode_text m @ concat (map (\<lambda>(p, _). pid_suffix m p) (request_members m ls))"
  let ?t = "frame_text bus (c, of_nat (length p) # fill pad 7 p)"
  have "\<not> eq_ignore_case ?t ?cmd"
  proof
    assume eq: "eq_ignore_case ?t ?cmd"
    have "CHR '' '' \<in> set ?t" by (rule frame_text_blank) simp
    then have "CHR '' '' \<in> upper_char ` set ?t" by (rule rev_image_eqI) (rule upper_blank [THEN iffD2, OF refl, symmetric])
    with eq have "CHR '' '' \<in> upper_char ` set ?cmd"
      unfolding eq_ignore_case_def to_uppercase_def by (metis set_map)
    then obtain x where "CHR '' '' = upper_char x" "x \<in> set ?cmd" by (rule imageE)
    then have "CHR '' '' \<in> set ?cmd" using upper_blank [of x] by simp
    with request_command_plain show False by blast
  qed
  from single_frame_tokens [OF assms(1-4) this, where 'e = ChunkSplitError, of ord] assms(5) show ?thesis
    by (simp add: split_multi_pid_response_def chunk_mode_members)
qed

text \<open>A decoder that does not know the first echo of the reply, or is of another mode, leaves the frame to the next.\<close>

lemma foreign_decoder:
  assumes "ls \<noteq> []" "distinct (map fst ls)" "echo_ok m e" "e \<noteq> 0" "m' = m \<Longrightarrow> e \<notin> fst ` set ls"
  shows "\<exists>x. split_multi_pid (request_members m' ls) [payload_for m (ctrl, (e, d) # items, k)] = Err x"
proof (cases "m' = m")
  case False
  then have "mode_reply m \<noteq> mode_reply m'" by (cases m; cases m') (simp_all add: mode_reply_def)
  then show ?thesis
    by (simp add: split_multi_pid_def chunk_mode_members [OF assms(1)] add_echo_table [OF assms(2)] split_payload_def payload_for_def)
next
  case True
  let ?t = "echo_table m ls" and ?r = "echo_bytes m e @ d @ encode_items m items @ replicate k 0"
  have none: "?t e = None" using assms(5) True by (simp add: echo_table_def map_of_eq_None_iff)
  have ne: "?r \<noteq> []" by (cases m) (simp_all add: echo_bytes_def)
  have lead: "?r ! 0 \<noteq> 0"
  proof (cases m)
    case Mode01
    then have "ucast (ucast e :: u8) = e" using assms(3) by (simp add: echo_ok_def u8_of_small)
    then have "(ucast e :: u8) \<noteq> 0" using assms(4) by (metis ucast_0)
    with Mode01 show ?thesis by (simp add: echo_bytes_def)
  next
    case Mode22
    have "drop_bit 8 e = ucast (ucast (drop_bit 8 e) :: u8)"
      by (rule bit_word_eqI) (auto simp: bit_simps dest: bit_imp_le_length)
    with assms(3) Mode22 have "ucast (drop_bit 8 e) \<noteq> (0 :: u8)" by (auto simp: echo_ok_def)
    with Mode22 show ?thesis by (simp add: echo_bytes_def)
  qed
  have "\<exists>x. scan_members m ?t ctrl ?r [] [] = Err x"
    using none lead ne assms(4) by (subst scan_members.simps) (simp add: read_echo_bytes [OF assms(3)])
  then obtain x where "scan_members m ?t ctrl ?r [] [] = Err x" by blast
  moreover have "encode_items m ((e, d) # items) @ replicate k 0 = ?r" by (simp add: encode_items_def)
  ultimately show ?thesis
    by (simp add: True split_multi_pid_def chunk_mode_members [OF assms(1)] add_echo_table [OF assms(2)] split_payload_def payload_for_def)
qed

lemma payload_record: "\<lparr> controller = ctrl, bytes = bytes (payload_for m (ctrl, r)) \<rparr> = payload_for m (ctrl, r)"
  by (cases r) (simp add: payload_for_def)


definition demo_frame :: Frame where
  "demo_frame = \<lparr> frame_id = ''7E8'', extended = False, ts_us = 0, frame_data = 3 # fill [0xAA, 0xAA, 0xAA, 0xAA] 7 [0x41, 0x05, 0x5A],
     frame_raw = frame_text (bus_of Can11) (\<lparr> ctl_id = 0x7E0 \<rparr>, 3 # fill [0xAA, 0xAA, 0xAA, 0xAA] 7 [0x41, 0x05, 0x5A]) \<rparr>"


text \<open>What the session is told was installed is what the chip took. A successful start has written the
  opening command and then the first messages of the plan, stopping behind the first the chip has no
  memory for; the PIDs reported as served, and the decoders, are those of exactly the messages among
  them that were answered with a handle, of which there is one at least.
\<close>

theorem stn_install_is_what_took:
  assumes "stn_start ad plan st = (st', Inr i)"
  shows "\<exists>k \<le> length (pp_messages plan). \<exists>ms. ms = taken ad (se_wire st @ [''STCMM 1'']) (pp_messages plan) k
     \<and> ms \<noteq> [] \<and> pi_accepted i = length ms \<and> pi_served i = concat (map pm_pids ms)
     \<and> se_wire st' = se_wire st @ ''STCMM 1'' # map pm_command (take k (pp_messages plan))
     \<and> (\<forall>j < k. out_of_memory (answer_at ad (se_wire st @ [''STCMM 1'']) (pp_messages plan) j) \<longrightarrow> k = Suc j)
     \<and> (k < length (pp_messages plan) \<longrightarrow> out_of_memory (answer_at ad (se_wire st @ [''STCMM 1'']) (pp_messages plan) (k - 1)))
     \<and> map_option sl_decoders (se_live st')
        = Some (map (\<lambda>m. (periodic_response_id (pm_header m), plan_members plan m)) ms)"
  using assms by (elim stn_start_Ok) auto

definition stn_idle :: StnState where
  "stn_idle = \<lparr> se_live = None, se_wire = [], se_monitor_mode = False, se_addressing = Can11 \<rparr>"

definition two_slots :: adapter where
  "two_slots w cmd = (if length w = 1 then Some ''1A'' else if length w = 2 then Some ''?'' else if length w = 3 then Some ''2''
     else if length w = 4 then Some ''out of memory'' else None)"

definition demo_message :: "string \<Rightarrow> PeriodicMessage" where
  "demo_message pid = \<lparr> pm_period = 25, pm_header = ''7E0'', pm_data = pid, pm_pids = [pid] \<rparr>"

definition demo_plan :: PeriodicPlan where
  "demo_plan = \<lparr> pp_messages = map demo_message [''010C'', ''010D'', ''0105'', ''0111'', ''0104''], pp_lengths = (\<lambda>p. Some 1) \<rparr>"

theorem stn_install_is_what_took_witness:
  "\<exists>st' i. stn_start two_slots demo_plan stn_idle = (st', Inr i) \<and> pi_served i = [''010C'', ''0105''] \<and> length (se_wire st') = 5"
proof -
  have "case stn_start two_slots demo_plan stn_idle of (st', Inr i) \<Rightarrow> length (se_wire st') = 5 \<and> pi_served i = [''010C'', ''0105''] | _ \<Rightarrow> False"
    by code_simp
  then obtain st' i where s: "stn_start two_slots demo_plan stn_idle = (st', Inr i)" "length (se_wire st') = 5"
      "pi_served i = [''010C'', ''0105'']" by (auto split: prod.splits sum.splits)
  with stn_install_is_what_took [OF s(1)] show ?thesis by blast
qed

end
