(* ===== verification/ExchangeLoop.thy ===== *)
theory ExchangeLoop
  imports CommandProcessor Lifecycle SessionHealth
begin

text \<open>
  The polling loop (\<^verbatim>\<open>src/session_manager/callbacks.rs\<close>, the kick of \<^verbatim>\<open>api.rs\<close> and the trace buffer of
  \<^verbatim>\<open>src/session_monitor.rs\<close>): what a completed command does to the session. The reply is split by
  position over the members that were registered for its wire string, what the split learned goes to
  the length cache and to the poll plugin, every member is completed in the subscription manager, and
  the next exchange is picked, encoded and queued.

  One call of the data callback is one step: the code holds a completion guard for the whole call and
  takes its locks one after the other. The dispatching worker runs between the steps, event by event.
  The clocks are arguments; the JSON text of a message is not modelled, its content is.
\<close>

section \<open>The trace buffer\<close>

record MonitorEntry =
  me_command :: string
  me_subscription :: "uuid option"
  me_name :: "string option"
  me_target :: "string option"
  me_response :: string
  me_queue_ms :: real
  me_response_ms :: real
  me_total_ms :: real
  me_success :: bool
  me_mismatch :: bool
  me_response_pid :: "string option"
  me_timestamp :: real
  me_is_at :: bool
  me_tier :: "RefreshTier option"

record MonitorBuffer =
  mb_entries :: "MonitorEntry list"
  mb_capacity :: nat
  mb_callback :: bool

definition monitor_new :: "nat \<Rightarrow> MonitorBuffer" where
  "monitor_new n = \<lparr> mb_entries = [], mb_capacity = n, mb_callback = False \<rparr>"

text \<open>The second component is what the installed callback is handed.\<close>

definition monitor_push :: "MonitorEntry \<Rightarrow> MonitorBuffer \<Rightarrow> MonitorBuffer \<times> MonitorEntry option" where
  "monitor_push e b =
     (let es = mb_entries b @ [e]
      in (b \<lparr> mb_entries := (if length es > mb_capacity b then tl es else es) \<rparr>,
          if mb_callback b then Some e else None))"

definition monitor_last :: "nat \<Rightarrow> MonitorBuffer \<Rightarrow> MonitorEntry list" where
  "monitor_last n b = take n (rev (mb_entries b))"

definition monitor_clear :: "MonitorBuffer \<Rightarrow> MonitorBuffer" where
  "monitor_clear b = b \<lparr> mb_entries := [] \<rparr>"

section \<open>The session as the loop sees it\<close>

datatype LinkKind = Elm | Dvi

text \<open>
  The length cache is one shared cell: it is the one inside the plugin. \<open>xs_flight\<close> registers, per
  wire string, the members of each pipe segment. \<open>xs_controller\<close> is the header the adapter was last
  told to use, \<open>xs_waiters\<close> the commands somebody waits for.
\<close>

record Session =
  xs_subs :: Manager
  xs_proc :: Proc
  xs_plugin :: PollPlugin
  xs_disk :: disk
  xs_flight :: "string \<Rightarrow> string list list option"
  xs_controller :: "string option"
  xs_addressing :: Addressing
  xs_kind :: LinkKind
  xs_primary :: "Controller option"
  xs_waiters :: "string set"
  xs_monitor :: MonitorBuffer
  xs_health :: HealthTracker
  xs_timeout :: u32

record Clock =
  ck_mono :: real
  ck_unix :: real
  ck_ms :: nat

datatype HostMsg =
    ObdData string string "string option" "ParsedResponse option"
  | SubscriptionDone uuid
  | HealthNote HealthEvent

record Resolved =
  rs_member :: string
  rs_raw :: "string option"
  rs_parsed :: "ParsedResponse option"
  rs_completion :: "string option"
  rs_learned :: "u8 option"

record DemuxOutcome =
  do_resolved :: "Resolved list"
  do_invalidate :: "string list"
  do_omitted :: "string list"
  do_mode22 :: "(bool \<times> nat) option"

section \<open>Splitting the reply\<close>

definition fallback_member :: "string \<Rightarrow> string" where
  "fallback_member command =
     (if CHR ''|'' \<in> set command then command
      else (case split_whitespace command of
              f # l # _ \<Rightarrow> if starts_with (to_uppercase f) ''ATSH'' then l else command
            | _ \<Rightarrow> command))"

definition resolve_members ::
  "string \<Rightarrow> (string \<Rightarrow> string list list option) \<Rightarrow> string list list \<times> (string \<Rightarrow> string list list option)" where
  "resolve_members command flight =
     ((case flight command of Some segs \<Rightarrow> segs | None \<Rightarrow> [[fallback_member command]]), flight(command := None))"

text \<open>A single member whose reply was cut into several segments gets them merged.\<close>

definition wire_segments :: "string list list \<Rightarrow> string + WireReply \<Rightarrow> LinkReply list" where
  "wire_segments seg_members outcome =
     (case outcome of
        Inl _ \<Rightarrow> []
      | Inr r \<Rightarrow>
          if length seg_members = 1 \<and> length (segments r) > 1
          then [reply_from_payloads (hd (hd seg_members)) (status (hd (segments r)))
                  (list_ex faulted (segments r)) (concat (map payloads (segments r))) (wr_raw r)]
          else segments r)"

definition unanswered :: "string \<Rightarrow> Resolved" where
  "unanswered m = \<lparr> rs_member = m, rs_raw = None, rs_parsed = None, rs_completion = None, rs_learned = None \<rparr>"

definition lowest_raw :: "ParsedResponse \<Rightarrow> string option" where
  "lowest_raw p =
     (let vs = map snd (all_controllers p) in if vs = [] then None else Some (raw_hex (arg_min_list controller_id vs)))"

definition chunk_member :: "string \<Rightarrow> split_out \<Rightarrow> string \<Rightarrow> Resolved" where
  "chunk_member txt out m =
     (case map_of out m of
        Some p \<Rightarrow> \<lparr> rs_member = m, rs_raw = Some txt, rs_parsed = Some p, rs_completion = lowest_raw p, rs_learned = None \<rparr>
      | None \<Rightarrow> unanswered m)"

definition solo_member :: "string \<Rightarrow> LinkReply \<Rightarrow> Resolved" where
  "solo_member m seg =
     \<lparr> rs_member = m, rs_raw = Some (raw seg), rs_parsed = parsed_for seg m, rs_completion = Some (raw seg),
       rs_learned = observed_len m (payloads seg) \<rparr>"

definition chunk_pairs :: "LengthCache \<Rightarrow> string list \<Rightarrow> (string \<times> u8) list option" where
  "chunk_pairs c ms = those (map (\<lambda>m. map_option (\<lambda>l. (m, l)) (lc_get c m)) ms)"

definition chunk_split :: "LengthCache \<Rightarrow> string list \<Rightarrow> LinkReply \<Rightarrow> (ChunkSplitError, split_out) outcome" where
  "chunk_split c ms seg =
     (case chunk_pairs c ms of
        Some pairs \<Rightarrow> split_multi_pid pairs (payloads seg)
      | None \<Rightarrow> Err (Validation ''member length missing at demux''))"

text \<open>What one segment contributes. A segment without members would index an empty list.\<close>

definition demux_segment :: "LengthCache \<Rightarrow> string list \<Rightarrow> LinkReply option \<Rightarrow> ('e, DemuxOutcome) outcome" where
  "demux_segment c ms reply =
     (case reply of
        None \<Rightarrow> Ok \<lparr> do_resolved = map unanswered ms, do_invalidate = [], do_omitted = [], do_mode22 = None \<rparr>
      | Some seg \<Rightarrow>
          (case ms of
             [] \<Rightarrow> Panic
           | [m] \<Rightarrow> Ok \<lparr> do_resolved = [solo_member m seg], do_invalidate = [], do_omitted = [], do_mode22 = None \<rparr>
           | m # _ \<Rightarrow>
               (let m22 = starts_with m ''22'' in
                case chunk_split c ms seg of
                  Ok out \<Rightarrow>
                    Ok \<lparr> do_resolved = map (chunk_member (raw seg) out) ms, do_invalidate = [],
                         do_omitted = filter (\<lambda>x. map_of out x = None) ms,
                         do_mode22 = (if m22 then Some (True, length ms) else None) \<rparr>
                | Err e \<Rightarrow>
                    Ok \<lparr> do_resolved = map unanswered ms,
                         do_invalidate = (case e of Validation _ \<Rightarrow> if m22 then [] else ms | NonData \<Rightarrow> []),
                         do_omitted = [], do_mode22 = (if m22 then Some (False, length ms) else None) \<rparr>
                | Panic \<Rightarrow> Panic)))"

definition demux_join :: "DemuxOutcome \<Rightarrow> DemuxOutcome \<Rightarrow> DemuxOutcome" where
  "demux_join a b =
     \<lparr> do_resolved = do_resolved a @ do_resolved b, do_invalidate = do_invalidate a @ do_invalidate b,
       do_omitted = do_omitted a @ do_omitted b,
       do_mode22 = (case do_mode22 b of None \<Rightarrow> do_mode22 a | Some x \<Rightarrow> Some x) \<rparr>"

fun demux_all :: "LengthCache \<Rightarrow> string list list \<Rightarrow> LinkReply list \<Rightarrow> ('e, DemuxOutcome) outcome" where
  "demux_all c [] _ = Ok \<lparr> do_resolved = [], do_invalidate = [], do_omitted = [], do_mode22 = None \<rparr>"
| "demux_all c (ms # segs) replies =
     and_then (demux_segment c ms (case replies of [] \<Rightarrow> None | r # _ \<Rightarrow> Some r)) (\<lambda>a.
       and_then (demux_all c segs (tl replies)) (\<lambda>b. Ok (demux_join a b)))"

definition demux_segments :: "LengthCache \<Rightarrow> string list list \<Rightarrow> string + WireReply \<Rightarrow> ('e, DemuxOutcome) outcome" where
  "demux_segments c seg_members outcome = demux_all c seg_members (wire_segments seg_members outcome)"

section \<open>What the split teaches\<close>

definition invalidate_lengths :: "string list \<Rightarrow> PollPlugin \<times> disk \<Rightarrow> PollPlugin \<times> disk" where
  "invalidate_lengths ms pd =
     (let (c, d) = foldl (\<lambda>(c, d) m. lc_invalidate m c d) (pp_cache (fst pd), snd pd) ms
      in (fst pd \<lparr> pp_cache := c \<rparr>, d))"

definition chunk_transport_error :: "string list list \<Rightarrow> string + WireReply \<Rightarrow> bool" where
  "chunk_transport_error seg_members outcome \<longleftrightarrow>
     (case outcome of Inl _ \<Rightarrow> True | Inr _ \<Rightarrow> False) \<and> list_ex (\<lambda>ms. length ms > 1) seg_members"

definition apply_chunk_outcomes ::
  "DemuxOutcome \<Rightarrow> string list list \<Rightarrow> string + WireReply \<Rightarrow> PollPlugin \<times> disk \<Rightarrow> PollPlugin \<times> disk" where
  "apply_chunk_outcomes o1 seg_members outcome pd =
     (let (p1, d1) = invalidate_lengths (do_invalidate o1) pd;
          p2 = foldl (\<lambda>p m. exclude_from_chunks m p) p1 (do_omitted o1);
          p3 = (case do_mode22 o1 of None \<Rightarrow> p2 | Some (ok, n) \<Rightarrow> fst (note_mode22_chunk_outcome ok n p2));
          p4 = (if chunk_transport_error seg_members outcome then fst (clamp_chunk p3) else p3)
      in (p4, d1))"

definition error_of :: "string + WireReply \<Rightarrow> string option" where
  "error_of outcome = (case outcome of Inl e \<Rightarrow> Some e | Inr _ \<Rightarrow> None)"

definition delivered :: "Resolved list \<Rightarrow> Resolved list" where
  "delivered rs = filter (\<lambda>r. rs_raw r \<noteq> None) rs"

definition learn_lengths :: "Resolved list \<Rightarrow> PollPlugin \<times> disk \<Rightarrow> PollPlugin \<times> disk" where
  "learn_lengths rs pd =
     (let (c, d) = foldl (\<lambda>(c, d) r. case rs_learned r of None \<Rightarrow> (c, d) | Some l \<Rightarrow> lc_record (rs_member r) l c d)
                     (pp_cache (fst pd), snd pd) (delivered rs)
      in (fst pd \<lparr> pp_cache := c \<rparr>, d))"

definition member_messages :: "Resolved list \<Rightarrow> string option \<Rightarrow> HostMsg list" where
  "member_messages rs err = map (\<lambda>r. ObdData (rs_member r) (the (rs_raw r)) err (rs_parsed r)) (delivered rs)"

section \<open>Completing the members\<close>

record Completed =
  cp_subs :: Manager
  cp_finished :: "uuid list"
  cp_mismatch :: bool
  cp_response_pid :: "string option"

definition complete_member :: "real \<Rightarrow> Completed \<Rightarrow> Resolved \<Rightarrow> Completed" where
  "complete_member ts c r =
     (let (m, res) = command_completed (rs_member r) (rs_completion r) ts (cp_subs c)
      in \<lparr> cp_subs = m,
           cp_finished = cp_finished c @ (case completed_subscription res of None \<Rightarrow> [] | Some i \<Rightarrow> [i]),
           cp_mismatch = (cp_mismatch c \<or> pid_mismatch res),
           cp_response_pid = (if cp_response_pid c = None then response_pid res else cp_response_pid c) \<rparr>)"

definition complete_members :: "real \<Rightarrow> Resolved list \<Rightarrow> Manager \<Rightarrow> Completed" where
  "complete_members ts rs m =
     foldl (complete_member ts) \<lparr> cp_subs = m, cp_finished = [], cp_mismatch = False, cp_response_pid = None \<rparr> rs"

definition get_pid_tier :: "string \<Rightarrow> Manager \<Rightarrow> RefreshTier option" where
  "get_pid_tier pid m =
     map_option (\<lambda>(_, s). resolve_tier pid (pid_tiers s)) (find (\<lambda>(_, s). pid \<in> pids s) (subscriptions m))"

definition trace_entry ::
  "string \<Rightarrow> string \<Rightarrow> string + WireReply \<Rightarrow> CommandTiming option \<Rightarrow> real \<Rightarrow> Completed \<Rightarrow> MonitorEntry" where
  "trace_entry command pid outcome timing ts c =
     (let up = to_uppercase pid;
          is_at = (starts_with up ''AT'' \<or> starts_with up ''ST'');
          own = (if is_at then None else find (\<lambda>(_, s). pid \<in> pids s) (subscriptions (cp_subs c)))
      in \<lparr> me_command = command, me_subscription = map_option fst own,
           me_name = (case own of None \<Rightarrow> None | Some (_, s) \<Rightarrow> name s),
           me_target = (case own of None \<Rightarrow> None | Some (_, s) \<Rightarrow> target_controller s),
           me_response = (case outcome of Inl _ \<Rightarrow> [] | Inr r \<Rightarrow> wr_raw r),
           me_queue_ms = (case timing of None \<Rightarrow> 0 | Some t \<Rightarrow> queue_time_ms t),
           me_response_ms = (case timing of None \<Rightarrow> 0 | Some t \<Rightarrow> response_time_ms t),
           me_total_ms = (case timing of None \<Rightarrow> 0 | Some t \<Rightarrow> total_time_ms t), me_success = (error_of outcome = None), me_mismatch = cp_mismatch c,
           me_response_pid = cp_response_pid c, me_timestamp = ts, me_is_at = is_at,
           me_tier = (if is_at then None else get_pid_tier pid (cp_subs c)) \<rparr>)"

section \<open>The next exchange\<close>

text \<open>The controller switch and the wire are queued whatever the queue answers.\<close>

definition send_wire :: "NextCommand \<Rightarrow> u32 \<Rightarrow> real \<Rightarrow> Session \<Rightarrow> Session" where
  "send_wire cmd timeout now s =
     (let s1 = (case target cmd of
                  None \<Rightarrow> s
                | Some t \<Rightarrow>
                    (let header = target_header (bus_of (xs_addressing s)) t
                     in if xs_controller s = Some header then s
                        else s \<lparr> xs_proc := fst (queue_command (''ATSH'' @ header) timeout now (xs_proc s)),
                                 xs_controller := Some header \<rparr>))
      in s1 \<lparr> xs_flight := (xs_flight s1)(wire cmd \<mapsto> nc_segments cmd),
              xs_proc := fst (queue_command (wire cmd) timeout now (xs_proc s1)) \<rparr>)"

definition default_target :: "Session \<Rightarrow> string option" where
  "default_target s = (if xs_kind s = Dvi then map_option key (xs_primary s) else None)"

definition due_picks :: "Session \<Rightarrow> DuePick list \<Rightarrow> DuePick list" where
  "due_picks s picks =
     map (\<lambda>d. d \<lparr> dp_controller := (case dp_controller d of None \<Rightarrow> default_target s | Some t \<Rightarrow> Some t) \<rparr>) picks"

definition next_exchange :: "group_order \<Rightarrow> real \<Rightarrow> Session \<Rightarrow> (unit, Session) outcome" where
  "next_exchange ord now s =
     (let (m, picks) = get_next_commands ord (max_picks (xs_plugin s)) (admission (xs_plugin s)) (xs_subs s);
          s1 = s \<lparr> xs_subs := m \<rparr>
      in and_then (next_command (xs_plugin s) (due_picks s picks)) (\<lambda>cmd.
           case cmd of
             Some c \<Rightarrow>
               (let s2 = send_wire c (case timeout_ms c of None \<Rightarrow> xs_timeout s | Some t \<Rightarrow> t) now s1
                in Ok (s2 \<lparr> xs_proc := (xs_proc s2) \<lparr> chain_alive := True \<rparr> \<rparr>))
           | None \<Rightarrow>
               Ok (if has_pending_work (xs_proc s1) (xs_proc s1) (xs_proc s1) then s1
                   else s1 \<lparr> xs_proc := (xs_proc s1) \<lparr> chain_alive := False \<rparr> \<rparr>)))"

section \<open>The data callback\<close>

text \<open>A failed command that no continuous subscription owns is no verdict on the link.\<close>

definition probe_only :: "string list \<Rightarrow> Manager \<Rightarrow> bool" where
  "probe_only ms m \<longleftrightarrow>
     ms \<noteq> [] \<and> \<not> list_ex (\<lambda>(_, s). state s = Active \<and> \<not> is_run_once_only s \<and> list_ex (\<lambda>x. x \<in> pids s) ms) (subscriptions m)"

definition pause_everything :: "Session \<Rightarrow> Session" where
  "pause_everything s =
     (let ids = map fst (filter (\<lambda>(_, x). state x = Active) (subscriptions (xs_subs s)));
          m = foldl (\<lambda>m i. fst (pause_subscription i m)) (xs_subs s) ids
      in s \<lparr> xs_subs := clear_in_flight m, xs_flight := Map.empty,
             xs_proc := (xs_proc s) \<lparr> chain_alive := False \<rparr> \<rparr>)"

definition absorb ::
  "Clock \<Rightarrow> string \<Rightarrow> string list list \<Rightarrow> string + WireReply \<Rightarrow> DemuxOutcome \<Rightarrow> Session \<Rightarrow> Session \<times> HostMsg list" where
  "absorb ck command seg_members outcome dm s =
     (let (p, d) = learn_lengths (do_resolved dm)
                     (apply_chunk_outcomes dm seg_members outcome (xs_plugin s, xs_disk s));
          n = length (delivered (do_resolved dm));
          (h, evs) = on_signals n (ck_ms ck) (xs_health s)
      in (s \<lparr> xs_plugin := p, xs_disk := d, xs_health := h,
              xs_proc := record_signal_completions n (ck_mono ck) (xs_proc s) \<rparr>,
          member_messages (do_resolved dm) (error_of outcome) @ map HealthNote evs
            @ (case outcome of Inl e \<Rightarrow> [ObdData command [] (Some e) None] | Inr _ \<Rightarrow> [])))"

text \<open>The callback up to the point where it decides what comes next: reply absorbed, members completed.\<close>

definition enter_callback :: "string \<Rightarrow> Session \<Rightarrow> Session" where
  "enter_callback command s =
     s \<lparr> xs_flight := (xs_flight s)(command := None), xs_waiters := xs_waiters s - {to_uppercase command},
         xs_proc := (xs_proc s) \<lparr> completion_guards := completion_guards (xs_proc s) + 1 \<rparr> \<rparr>"

definition finish_members ::
  "Clock \<Rightarrow> string \<Rightarrow> string list list \<Rightarrow> string + WireReply \<Rightarrow> DemuxOutcome \<Rightarrow> Proc \<times> CommandTiming option
    \<Rightarrow> Session \<Rightarrow> Session \<times> HostMsg list" where
  "finish_members ck command segs outcome dm pt s =
     (let c = complete_members (ck_unix ck) (do_resolved dm) (xs_subs s);
          entry = trace_entry command (hd (concat segs)) outcome (snd pt) (ck_unix ck) c
      in (s \<lparr> xs_proc := fst pt, xs_subs := cp_subs c, xs_monitor := fst (monitor_push entry (xs_monitor s)) \<rparr>,
          map SubscriptionDone (cp_finished c)))"

definition settle_reply ::
  "Clock \<Rightarrow> string \<Rightarrow> string list list \<Rightarrow> string + WireReply \<Rightarrow> Session \<Rightarrow> (unit, DemuxOutcome \<times> Session \<times> HostMsg list) outcome" where
  "settle_reply ck command segs outcome s =
     (if concat segs = [] then Panic
      else and_then (demux_segments (pp_cache (xs_plugin s)) segs outcome) (\<lambda>dm.
        let (s1, msgs) = absorb ck command segs outcome dm s
        in and_then (mark_command_completed command (ck_mono ck) (xs_proc s1)) (\<lambda>pt.
             let (s2, done_msgs) = finish_members ck command segs outcome dm pt s1
             in Ok (dm, s2, msgs @ done_msgs))))"

definition stops_chain :: "string list list \<Rightarrow> string + WireReply \<Rightarrow> DemuxOutcome \<Rightarrow> Session \<Rightarrow> bool" where
  "stops_chain segs outcome dm s \<longleftrightarrow>
     error_of outcome \<noteq> None \<and> \<not> chunk_transport_error segs outcome
     \<and> \<not> probe_only (map rs_member (do_resolved dm)) (xs_subs s)"

definition data_callback ::
  "group_order \<Rightarrow> Clock \<Rightarrow> string \<Rightarrow> string + WireReply \<Rightarrow> Session \<Rightarrow> (unit, Session \<times> HostMsg list) outcome" where
  "data_callback ord ck command outcome s =
     (let segs = fst (resolve_members command (xs_flight s))
      in and_then (settle_reply ck command segs outcome (enter_callback command s)) (\<lambda>(dm, s3, msgs).
           and_then (if stops_chain segs outcome dm s3 then Ok (pause_everything s3) else next_exchange ord (ck_mono ck) s3) (\<lambda>s4.
             Ok (s4 \<lparr> xs_proc := (xs_proc s4) \<lparr> completion_guards := completion_guards (xs_proc s4) - 1 \<rparr> \<rparr>, msgs))))"

text \<open>
  The kick revives a dead chain. It claims the chain flag, so it cannot start a second chain beside a
  live one, and forgets the marks of a chain that died.
\<close>

definition kick_pipeline_if_idle :: "uuid \<Rightarrow> real \<Rightarrow> Session \<Rightarrow> Session" where
  "kick_pipeline_if_idle i now s =
     (case get_sub i (xs_subs s) of
        None \<Rightarrow> s
      | Some x \<Rightarrow>
          if state x \<noteq> Active then s
          else (let (p, claimed) = try_claim_chain (xs_proc s)
                in if claimed
                   then s \<lparr> xs_subs := clear_in_flight (xs_subs s),
                            xs_proc := fst (queue_command ''AT'' (xs_timeout s) now p) \<rparr>
                   else s))"

definition send_command :: "string \<Rightarrow> u32 \<Rightarrow> real \<Rightarrow> Session \<Rightarrow> Session \<times> (SessionError + unit)" where
  "send_command command timeout now s =
     (let (p, r) = queue_command command timeout now (xs_proc s) in (s \<lparr> xs_proc := p \<rparr>, r))"

fun send_batch_commands :: "string list \<Rightarrow> u32 \<Rightarrow> real \<Rightarrow> Session \<Rightarrow> Session \<times> (SessionError + unit)" where
  "send_batch_commands [] timeout now s = (s, Inr ())"
| "send_batch_commands (c # cs) timeout now s =
     (case send_command c timeout now s of
        (s', Inl e) \<Rightarrow> (s', Inl e)
      | (s', Inr ()) \<Rightarrow> send_batch_commands cs timeout now s')"

section \<open>Every member of an exchange is resolved\<close>

lemma chunk_member_name [simp]: "rs_member (chunk_member txt out m) = m"
  by (simp add: chunk_member_def unanswered_def split: option.split)

lemma unanswered_simps [simp]: "rs_member (unanswered m) = m" "rs_raw (unanswered m) = None" "rs_completion (unanswered m) = None"
  by (simp_all add: unanswered_def)

lemma demux_segment_members:
  "demux_segment c ms r = Ok dm \<Longrightarrow> map rs_member (do_resolved dm) = ms"
  by (auto simp: demux_segment_def Let_def solo_member_def comp_def split: option.splits list.splits outcome.splits)

lemma demux_all_members:
  "demux_all c segs rs = Ok dm \<Longrightarrow> map rs_member (do_resolved dm) = concat segs"
  by (induction c segs rs arbitrary: dm rule: demux_all.induct)
     (auto simp: and_then_Ok demux_join_def dest: demux_segment_members)

lemma demux_members: "demux_segments c segs outcome = Ok dm \<Longrightarrow> map rs_member (do_resolved dm) = concat segs"
  by (simp add: demux_segments_def demux_all_members)

lemma demux_all_silent: "demux_all c segs [] = Ok \<lparr> do_resolved = map unanswered (concat segs), do_invalidate = [], do_omitted = [], do_mode22 = None \<rparr>"
  by (induction segs) (simp_all add: demux_segment_def demux_join_def)

lemma demux_error:
  "demux_segments c segs (Inl e) = Ok \<lparr> do_resolved = map unanswered (concat segs), do_invalidate = [], do_omitted = [], do_mode22 = None \<rparr>"
  by (simp add: demux_segments_def wire_segments_def demux_all_silent)

lemma completed_in_flight: "in_flight_pids (fst (command_completed pid resp ts m)) = in_flight_pids m - {pid}"
  by (simp add: command_completed_def count_response_def Let_def case_prod_beta split: option.split)

lemma complete_members_in_flight:
  "in_flight_pids (cp_subs (complete_members ts rs m)) = in_flight_pids m - rs_member ` set rs"
proof -
  have "in_flight_pids (cp_subs (foldl (complete_member ts) c rs)) = in_flight_pids (cp_subs c) - rs_member ` set rs" for c
  proof (induction rs arbitrary: c)
    case (Cons r rs)
    have "in_flight_pids (cp_subs (complete_member ts c r)) = in_flight_pids (cp_subs c) - {rs_member r}"
      by (simp add: complete_member_def case_prod_beta completed_in_flight)
    with Cons.IH [of "complete_member ts c r"] show ?case by auto
  qed simp
  then show ?thesis by (simp add: complete_members_def)
qed

text \<open>
  The queue, the worker's hand and the outstanding slot: the commands whose completion is still to
  come.
\<close>

definition pending_commands :: "Proc \<Rightarrow> string list" where
  "pending_commands p = map pc_command (queue p) @ in_hand (worker p) @ owed p"

section \<open>What the next exchange leaves\<close>

lemma queue_command_room:
  "length (queue p) < max_queue_size p \<Longrightarrow>
   map pc_command (queue (fst (queue_command c t now p))) = map pc_command (queue p) @ [c]"
  by (simp add: queue_command_def)

lemma send_wire_subs [simp]: "xs_subs (send_wire c t now s) = xs_subs s"
  by (simp add: send_wire_def Let_def split: option.split)

lemma send_wire_flight: "xs_flight (send_wire c t now s) = (xs_flight s)(wire c \<mapsto> nc_segments c)"
  by (simp add: send_wire_def Let_def split: option.split)

lemma send_wire_pending:
  assumes "length (queue (xs_proc s)) + 2 \<le> max_queue_size (xs_proc s)"
  shows "set (pending_commands (xs_proc s)) \<union> {wire c} \<subseteq> set (pending_commands (xs_proc (send_wire c t now s)))"
  using assms
  by (auto simp: send_wire_def Let_def pending_commands_def queue_command_fields owed_def queue_command_def split: option.split)

lemma send_wire_queue:
  assumes "0 < max_queue_size (xs_proc s)"
  shows "queue (xs_proc (send_wire c t now s)) \<noteq> []" "max_queue_size (xs_proc (send_wire c t now s)) = max_queue_size (xs_proc s)"
  using assms by (auto simp: send_wire_def Let_def queue_command_def split: option.split)

lemma send_wire_worker:
  "worker (xs_proc (send_wire c t now s)) = worker (xs_proc s)" "outstanding (xs_proc (send_wire c t now s)) = outstanding (xs_proc s)"
  "dispatching (xs_proc (send_wire c t now s)) = dispatching (xs_proc s)"
  by (simp_all add: send_wire_def Let_def queue_command_fields split: option.split)

lemma next_exchange_cases:
  assumes "next_exchange ord now s = Ok s'"
  obtains (stalled) m where "get_next_commands ord (max_picks (xs_plugin s)) (admission (xs_plugin s)) (xs_subs s) = (m, [])"
      "in_flight_pids m = in_flight_pids (xs_subs s)"
      "s' = (if has_pending_work (xs_proc s) (xs_proc s) (xs_proc s) then s \<lparr> xs_subs := m \<rparr>
             else s \<lparr> xs_subs := m, xs_proc := (xs_proc s) \<lparr> chain_alive := False \<rparr> \<rparr>)"
  | (sent) m picks cmd where "get_next_commands ord (max_picks (xs_plugin s)) (admission (xs_plugin s)) (xs_subs s) = (m, picks)"
      "picks \<noteq> []" "in_flight_pids m = in_flight_pids (xs_subs s) \<union> dp_pid ` set picks"
      "set (concat (nc_segments cmd)) = dp_pid ` set picks"
      "\<exists>t. s' = send_wire cmd t now (s \<lparr> xs_subs := m \<rparr>) \<lparr> xs_proc := (xs_proc (send_wire cmd t now (s \<lparr> xs_subs := m \<rparr>))) \<lparr> chain_alive := True \<rparr> \<rparr>"
proof -
  obtain m picks where g: "get_next_commands ord (max_picks (xs_plugin s)) (admission (xs_plugin s)) (xs_subs s) = (m, picks)" by fastforce
  from next_commands_spec(2) [OF g] have m: "in_flight_pids m = in_flight_pids (xs_subs s) \<union> dp_pid ` set picks" by simp
  show thesis
  proof (cases "picks = []")
    case True
    with assms g m show thesis by (intro stalled [of m]) (auto simp: next_exchange_def due_picks_def next_command_def)
  next
    case False
    then have "due_picks s picks \<noteq> []" by (simp add: due_picks_def)
    from next_command_groups [OF this, where 'e = unit and p = "xs_plugin s"] obtain w gs where
      nc: "(next_command (xs_plugin s) (due_picks s picks) :: (unit, _) outcome) = Ok (Some \<lparr> wire = w, nc_segments = map sorted_segment gs,
        target = dp_controller (hd (due_picks s picks)), timeout_ms = max_timeout (due_picks s picks) \<rparr>)"
        (is "_ = Ok (Some ?cmd)")
      "mset (concat gs) = mset (due_picks s picks)" by blast
    from nc(2) have "set (concat (map sorted_segment gs)) = dp_pid ` set (due_picks s picks)"
      by (metis concat_segments image_set set_mset_mset mset_map)
    then have "set (concat (nc_segments ?cmd)) = dp_pid ` set picks" by (simp add: due_picks_def image_image)
    with False assms g m nc(1) show thesis
      by (intro sent [of m picks ?cmd]) (auto simp: next_exchange_def Let_def)
  qed
qed

lemma next_exchange_total: "\<exists>s'. next_exchange ord now s = Ok s'"
proof -
  obtain m picks where g: "get_next_commands ord (max_picks (xs_plugin s)) (admission (xs_plugin s)) (xs_subs s) = (m, picks)" by fastforce
  show ?thesis
  proof (cases "due_picks s picks = []")
    case True
    with g show ?thesis by (simp add: next_exchange_def next_command_def Let_def)
  next
    case False
    from next_command_groups [OF this, where 'e = unit and p = "xs_plugin s"] g show ?thesis
      by (auto simp: next_exchange_def Let_def)
  qed
qed

section \<open>What one reply does\<close>

lemma mark_completed_spec:
  assumes "mark_command_completed c now p = Ok (q, r)"
  shows "queue q = queue p" "worker q = worker p" "max_queue_size q = max_queue_size p" "chain_alive q = chain_alive p"
    "dispatching q = dispatching p" "set (owed q) = set (owed p) - {c}" "completion_guards q = completion_guards p"
    "hold_dispatch q = hold_dispatch p"
  using assms by (auto simp: mark_command_completed_def Let_def owed_def split: option.splits if_splits)

lemma absorb_fields:
  assumes "absorb ck c segs outcome dm s = (s', msgs)"
  shows "xs_subs s' = xs_subs s" "xs_flight s' = xs_flight s" "queue (xs_proc s') = queue (xs_proc s)"
    "worker (xs_proc s') = worker (xs_proc s)" "max_queue_size (xs_proc s') = max_queue_size (xs_proc s)"
    "chain_alive (xs_proc s') = chain_alive (xs_proc s)" "dispatching (xs_proc s') = dispatching (xs_proc s)"
    "outstanding (xs_proc s') = outstanding (xs_proc s)" "xs_controller s' = xs_controller s" "xs_timeout s' = xs_timeout s"
  using assms by (auto simp: absorb_def Let_def record_signal_completions_def case_prod_beta split: if_splits)

lemma settle_reply_spec:
  assumes "settle_reply ck c segs outcome s = Ok (dm, s', msgs)"
  shows "concat segs \<noteq> []" "(demux_segments (pp_cache (xs_plugin s)) segs outcome :: (unit, _) outcome) = Ok dm"
    "in_flight_pids (xs_subs s') = in_flight_pids (xs_subs s) - set (concat segs)" "xs_flight s' = xs_flight s"
    "queue (xs_proc s') = queue (xs_proc s)" "worker (xs_proc s') = worker (xs_proc s)"
    "dispatching (xs_proc s') = dispatching (xs_proc s)" "max_queue_size (xs_proc s') = max_queue_size (xs_proc s)"
    "chain_alive (xs_proc s') = chain_alive (xs_proc s)" "set (owed (xs_proc s')) = set (owed (xs_proc s)) - {c}"
    "xs_controller s' = xs_controller s" "xs_timeout s' = xs_timeout s"
proof -
  from assms show ne: "concat segs \<noteq> []" by (auto simp: settle_reply_def split: if_splits)
  from assms ne obtain dm' where dm': "(demux_segments (pp_cache (xs_plugin s)) segs outcome :: (unit, _) outcome) = Ok dm'"
    by (auto simp: settle_reply_def and_then_Ok simp del: concat_eq_Nil_conv)
  obtain s1 msgs1 where ab: "absorb ck c segs outcome dm' s = (s1, msgs1)" by fastforce
  with assms ne dm' obtain pt where mk: "mark_command_completed c (ck_mono ck) (xs_proc s1) = Ok pt"
    and r: "dm = dm'" "s' = fst (finish_members ck c segs outcome dm' pt s1)"
    by (auto simp: settle_reply_def and_then_Ok case_prod_beta Let_def simp del: concat_eq_Nil_conv)
  from dm' r(1) show dm: "(demux_segments (pp_cache (xs_plugin s)) segs outcome :: (unit, _) outcome) = Ok dm" by simp
  note a = absorb_fields [OF ab]
  from mk have k: "mark_command_completed c (ck_mono ck) (xs_proc s1) = Ok (fst pt, snd pt)" by simp
  have "rs_member ` set (do_resolved dm) = set (concat segs)" by (metis demux_members [OF dm] image_set)
  then show "in_flight_pids (xs_subs s') = in_flight_pids (xs_subs s) - set (concat segs)"
    by (simp add: r finish_members_def Let_def complete_members_in_flight a)
  show "xs_flight s' = xs_flight s" "queue (xs_proc s') = queue (xs_proc s)" "worker (xs_proc s') = worker (xs_proc s)"
    "dispatching (xs_proc s') = dispatching (xs_proc s)" "max_queue_size (xs_proc s') = max_queue_size (xs_proc s)"
    "chain_alive (xs_proc s') = chain_alive (xs_proc s)" "set (owed (xs_proc s')) = set (owed (xs_proc s)) - {c}"
    "xs_controller s' = xs_controller s" "xs_timeout s' = xs_timeout s"
    using mark_completed_spec [OF k] a by (simp_all add: r finish_members_def Let_def owed_def)
qed

lemma enter_callback_fields [simp]:
  "xs_subs (enter_callback c s) = xs_subs s" "xs_flight (enter_callback c s) = (xs_flight s)(c := None)"
  "queue (xs_proc (enter_callback c s)) = queue (xs_proc s)" "worker (xs_proc (enter_callback c s)) = worker (xs_proc s)"
  "dispatching (xs_proc (enter_callback c s)) = dispatching (xs_proc s)"
  "max_queue_size (xs_proc (enter_callback c s)) = max_queue_size (xs_proc s)"
  "chain_alive (xs_proc (enter_callback c s)) = chain_alive (xs_proc s)"
  "owed (xs_proc (enter_callback c s)) = owed (xs_proc s)" "xs_plugin (enter_callback c s) = xs_plugin s"
  "xs_controller (enter_callback c s) = xs_controller s" "xs_timeout (enter_callback c s) = xs_timeout s"
  by (simp_all add: enter_callback_def owed_def)

lemma data_callback_cases:
  assumes "data_callback ord ck c outcome s = Ok (s', msgs)"
  obtains segs dm s3 s4 where "segs = fst (resolve_members c (xs_flight s))"
    "settle_reply ck c segs outcome (enter_callback c s) = Ok (dm, s3, msgs)"
    "if stops_chain segs outcome dm s3 then s4 = pause_everything s3 else next_exchange ord (ck_mono ck) s3 = Ok s4"
    "s' = s4 \<lparr> xs_proc := (xs_proc s4) \<lparr> completion_guards := completion_guards (xs_proc s4) - 1 \<rparr> \<rparr>"
  using assms by (fastforce simp: data_callback_def Let_def and_then_Ok split: if_splits)

end
