(* ===== verification/PollChain.thy ===== *)
theory PollChain
  imports ExchangeLoop
begin

text \<open>
  The polling chain as a whole: the host's edits and kicks, the dispatching worker and the replies in any
  order, over the loop of \<open>ExchangeLoop\<close>. Two invariants of the session are proved for every such run,
  that the in-flight marks are those of commands still to complete, and that the chain flag stands for
  a command still to complete; and the order of events in which the second is broken is exhibited.
\<close>

section \<open>Runs of the session\<close>

text \<open>
  What happens to the session between two looks at it: the host edits its subscriptions, kicks the
  chain or sends a command of its own; the dispatching worker takes a step; a reply, or a failure,
  arrives for a command. Picks and completions are made by the callback only.
\<close>

datatype SEvent =
    HostOp Op
  | KickOp uuid real
  | SendOp string u32 real
  | DispatchOp Event
  | ReplyOp group_order Clock string "string + WireReply"

fun host_op :: "Op \<Rightarrow> bool" where
  "host_op (NextCommand_op ord) = False"
| "host_op (NextCommands ord n a) = False"
| "host_op (CompletedOp pid resp ts) = False"
| "host_op _ = True"

fun dispatch_event :: "Event \<Rightarrow> bool" where
  "dispatch_event (SetHold b) = True"
| "dispatch_event (UpdateRate r b t) = True"
| "dispatch_event (PeekTokens t) = True"
| "dispatch_event WReadRunning = True"
| "dispatch_event WReadOutstanding = True"
| "dispatch_event WReadHold = True"
| "dispatch_event WPop = True"
| "dispatch_event (WAdmit t) = True"
| "dispatch_event (WCount t) = True"
| "dispatch_event WRecord = True"
| "dispatch_event WSend = True"
| "dispatch_event WDone = True"
| "dispatch_event _ = False"

fun xstep :: "SEvent \<Rightarrow> Session \<Rightarrow> Session option" where
  "xstep (HostOp opn) s = (if host_op opn then Some (s \<lparr> xs_subs := exec_op opn (xs_subs s) \<rparr>) else None)"
| "xstep (KickOp i now) s = Some (kick_pipeline_if_idle i now s)"
| "xstep (SendOp c timeout now) s = Some (fst (send_command c timeout now s))"
| "xstep (DispatchOp e) s =
     (if dispatch_event e then (case act e (xs_proc s) of Next p \<Rightarrow> Some (s \<lparr> xs_proc := p \<rparr>) | _ \<Rightarrow> None) else None)"
| "xstep (ReplyOp ord ck c outcome) s =
     (case data_callback ord ck c outcome s of Ok (s', _) \<Rightarrow> Some s' | _ \<Rightarrow> None)"

fun xrun :: "SEvent list \<Rightarrow> Session \<Rightarrow> Session option" where
  "xrun [] s = Some s"
| "xrun (e # es) s = (case xstep e s of None \<Rightarrow> None | Some s' \<Rightarrow> xrun es s')"

text \<open>
  A roomy reply: the adapter answers a command it was given, the queue has room for the successor and
  its controller switch, and the successor's wire string is not that of another exchange still
  registered. A reply after the dispatch: the worker is not in the middle of handing a command over.
\<close>

definition keeps_registrations :: "string \<Rightarrow> Session \<Rightarrow> Session \<Rightarrow> bool" where
  "keeps_registrations c s s' \<longleftrightarrow> (\<forall>w segs. xs_flight s w = Some segs \<longrightarrow> w = c \<or> xs_flight s' w = Some segs \<or> xs_flight s' = Map.empty)"

fun roomy :: "SEvent \<Rightarrow> Session \<Rightarrow> bool" where
  "roomy (ReplyOp ord ck c outcome) s =
     (c \<notin> set (to_send (xs_proc s)) \<and> length (queue (xs_proc s)) + 2 \<le> max_queue_size (xs_proc s)
      \<and> (case xstep (ReplyOp ord ck c outcome) s of None \<Rightarrow> True | Some s' \<Rightarrow> keeps_registrations c s s'))"
| "roomy _ s = True"

fun after_dispatch :: "SEvent \<Rightarrow> Session \<Rightarrow> bool" where
  "after_dispatch (ReplyOp ord ck c outcome) s = (\<not> busy (worker (xs_proc s)))"
| "after_dispatch _ s = True"

fun along :: "(SEvent \<Rightarrow> Session \<Rightarrow> bool) \<Rightarrow> SEvent list \<Rightarrow> Session \<Rightarrow> bool" where
  "along P [] s = True"
| "along P (e # es) s = (P e s \<and> (case xstep e s of None \<Rightarrow> True | Some s' \<Rightarrow> along P es s'))"

lemma xrun_invariant:
  assumes step: "\<And>e s s'. I s \<Longrightarrow> P e s \<Longrightarrow> xstep e s = Some s' \<Longrightarrow> I s'"
  shows "xrun es s = Some s' \<Longrightarrow> along P es s \<Longrightarrow> I s \<Longrightarrow> I s'"
proof (induction es arbitrary: s)
  case (Cons e es)
  then obtain t where t: "xstep e s = Some t" "xrun es t = Some s'" by (auto split: option.splits)
  with Cons.prems have "along P es t" "P e s" by simp_all
  with Cons t step show ?case by blast
qed simp

section \<open>Marks and the chain flag\<close>

text \<open>
  Every PID marked in flight belongs to a registered exchange whose completion is still to come. The
  worker's part of the invariant: what it has recorded is what is outstanding.
\<close>

definition marks_owed :: "Session \<Rightarrow> bool" where
  "marks_owed s \<longleftrightarrow>
     (\<forall>p \<in> in_flight_pids (xs_subs s). \<exists>w \<in> set (pending_commands (xs_proc s)). \<exists>segs.
        xs_flight s w = Some segs \<and> p \<in> set (concat segs))"

definition core_inv :: "Proc \<Rightarrow> bool" where
  "core_inv p \<longleftrightarrow> proc_inv p \<and> (\<forall>c. worker p = Recorded c \<longrightarrow> owed p = [pc_command c])"

lemma owed_Nil: "owed p = [] \<longleftrightarrow> outstanding p = None"
  by (simp add: owed_def split: option.split)

lemma owed_single: "set (owed p) = {c} \<Longrightarrow> owed p = [c]"
  by (cases "outstanding p") (simp_all add: owed_def)

lemma dispatch_core:
  assumes "act e p = Next q" "dispatch_event e" "core_inv p"
  shows "core_inv q \<and> set (pending_commands p) \<subseteq> set (pending_commands q) \<and> chain_alive q = chain_alive p
    \<and> max_queue_size q = max_queue_size p"
proof -
  have "proc_inv q" using act_inv assms unfolding core_inv_def by blast
  moreover have "outstanding p = None" if "before_record (worker p)"
    using assms(3) that by (simp add: core_inv_def proc_inv_def)
  moreover have "\<forall>c. worker p = Recorded c \<longrightarrow> owed p = [pc_command c]" using assms(3) by (simp add: core_inv_def)
  moreover note assms(1,2)
  ultimately show ?thesis unfolding core_inv_def
    by (cases e; cases "worker p")
       (auto simp: pending_commands_def owed_def case_prod_beta Let_def split: if_splits list.splits option.splits)
qed

lemma core_inv_frame:
  assumes "core_inv p" "length (queue q) \<le> max_queue_size q" "worker q = worker p" "dispatching q = dispatching p"
    "set (owed q) \<subseteq> set (owed p)" "\<And>c. worker p = Recorded c \<Longrightarrow> owed q = owed p"
  shows "core_inv q"
proof -
  have "outstanding q = None" if "outstanding p = None" using that assms(5) by (simp flip: owed_Nil)
  with assms show ?thesis by (simp add: core_inv_def proc_inv_def)
qed

lemma resume_in_flight [simp]: "in_flight_pids (resume_many ids m) = in_flight_pids m"
  unfolding resume_many_def
  by (induction ids arbitrary: m) (simp_all add: resume_one_def split: option.split)

lemma host_op_marks: "host_op opn \<Longrightarrow> in_flight_pids (exec_op opn m) \<subseteq> in_flight_pids m"
  by (cases opn)
     (simp_all add: create_subscription_def set_subscription_timeout_def start_subscription_def pause_subscription_def
        pause_all_active_def cancel_subscription_def add_pids_with_run_counts_def remove_pids_def set_pid_tiers_def
        set_streamed_pids_def clear_in_flight_def log_audit_event_def touch_and_audit_def push_audit_def Let_def
        split: option.splits if_splits prod.splits SubscriptionState.splits)

lemma marks_mono:
  assumes "marks_owed s" "in_flight_pids (xs_subs s') \<subseteq> in_flight_pids (xs_subs s)" "xs_flight s' = xs_flight s"
    "set (pending_commands (xs_proc s)) \<subseteq> set (pending_commands (xs_proc s'))"
  shows "marks_owed s'"
  using assms unfolding marks_owed_def by (metis subset_iff)

lemma queue_command_pending:
  "set (pending_commands p) \<subseteq> set (pending_commands (fst (queue_command c t now p)))"
  by (auto simp: pending_commands_def queue_command_def owed_def)

lemma queue_command_core: "core_inv p \<Longrightarrow> core_inv (fst (queue_command c t now p))"
  by (auto simp: core_inv_def proc_inv_def queue_command_def owed_def)

lemma claim_core [simp]: "core_inv (fst (try_claim_chain p)) = core_inv p" "pending_commands (fst (try_claim_chain p)) = pending_commands p"
  by (simp_all add: core_inv_def proc_inv_def claim_fields pending_commands_def owed_def)

lemma flag_core [simp]: "core_inv (p \<lparr> chain_alive := b \<rparr>) = core_inv p" "pending_commands (p \<lparr> chain_alive := b \<rparr>) = pending_commands p"
  "core_inv (p \<lparr> completion_guards := n \<rparr>) = core_inv p" "pending_commands (p \<lparr> completion_guards := n \<rparr>) = pending_commands p"
  by (simp_all add: core_inv_def proc_inv_def pending_commands_def owed_def)

lemma send_wire_core: "core_inv (xs_proc s) \<Longrightarrow> core_inv (xs_proc (send_wire c t now s))"
  by (simp add: send_wire_def Let_def queue_command_core split: option.split)

lemma next_exchange_core: "core_inv (xs_proc s) \<Longrightarrow> next_exchange ord now s = Ok s' \<Longrightarrow> core_inv (xs_proc s')"
  by (erule next_exchange_cases) (auto simp: send_wire_core)

lemma settle_core:
  assumes "settle_reply ck c segs outcome (enter_callback c s) = Ok (dm, s3, msgs)" "core_inv (xs_proc s)"
    "c \<notin> set (to_send (xs_proc s))"
  shows "core_inv (xs_proc s3)"
proof (rule core_inv_frame [OF assms(2)])
  note f = settle_reply_spec [OF assms(1)]
  show "length (queue (xs_proc s3)) \<le> max_queue_size (xs_proc s3)" using f assms(2) by (simp add: core_inv_def proc_inv_def)
  show "worker (xs_proc s3) = worker (xs_proc s)" "dispatching (xs_proc s3) = dispatching (xs_proc s)" using f by simp_all
  show "set (owed (xs_proc s3)) \<subseteq> set (owed (xs_proc s))" using f by auto
  show "owed (xs_proc s3) = owed (xs_proc s)" if w: "worker (xs_proc s) = Recorded d" for d
  proof -
    from w assms(2) have o1: "owed (xs_proc s) = [pc_command d]" by (simp add: core_inv_def)
    moreover from w assms(3) have "c \<noteq> pc_command d" by (simp add: to_send_def)
    ultimately have "set (owed (xs_proc s3)) = {pc_command d}" using f by auto
    then show ?thesis unfolding o1 by (rule owed_single)
  qed
qed

lemma settle_pending:
  assumes "settle_reply ck c segs outcome (enter_callback c s) = Ok (dm, s3, msgs)"
  shows "set (pending_commands (xs_proc s)) - {c} \<subseteq> set (pending_commands (xs_proc s3))"
  using settle_reply_spec [OF assms] by (auto simp: pending_commands_def)

lemma settle_marks:
  assumes "settle_reply ck c segs outcome (enter_callback c s) = Ok (dm, s3, msgs)" "marks_owed s"
    "segs = fst (resolve_members c (xs_flight s))"
  shows "marks_owed s3"
  unfolding marks_owed_def
proof
  note f = settle_reply_spec [OF assms(1)]
  fix p assume "p \<in> in_flight_pids (xs_subs s3)"
  with f have p: "p \<in> in_flight_pids (xs_subs s)" "p \<notin> set (concat segs)" by simp_all
  with assms(2) obtain w sg where w: "w \<in> set (pending_commands (xs_proc s))" "xs_flight s w = Some sg" "p \<in> set (concat sg)"
    unfolding marks_owed_def by blast
  with p(2) assms(3) have "w \<noteq> c" by (auto simp: resolve_members_def)
  with w f settle_pending [OF assms(1)] show "\<exists>w \<in> set (pending_commands (xs_proc s3)). \<exists>segs.
      xs_flight s3 w = Some segs \<and> p \<in> set (concat segs)"
    by (intro bexI [of _ w]) auto
qed

lemma next_exchange_marks:
  assumes "next_exchange ord now s = Ok s'" "marks_owed s" "length (queue (xs_proc s)) + 2 \<le> max_queue_size (xs_proc s)"
    "\<And>w sg. xs_flight s w = Some sg \<Longrightarrow> xs_flight s' w = Some sg"
  shows "marks_owed s'"
  using assms(1)
proof (cases rule: next_exchange_cases)
  case (stalled m)
  then have "in_flight_pids (xs_subs s') = in_flight_pids (xs_subs s)" "xs_flight s' = xs_flight s"
    "pending_commands (xs_proc s') = pending_commands (xs_proc s)" by (simp_all split: if_splits)
  with assms(2) show ?thesis by (simp add: marks_owed_def)
next
  case (sent m picks cmd)
  then obtain t where t: "s' = send_wire cmd t now (s \<lparr> xs_subs := m \<rparr>)
      \<lparr> xs_proc := (xs_proc (send_wire cmd t now (s \<lparr> xs_subs := m \<rparr>))) \<lparr> chain_alive := True \<rparr> \<rparr>" by blast
  let ?u = "s \<lparr> xs_subs := m \<rparr>"
  have pend: "set (pending_commands (xs_proc s)) \<union> {wire cmd} \<subseteq> set (pending_commands (xs_proc s'))"
    using send_wire_pending [of ?u cmd t now] assms(3) by (simp add: t)
  have fl: "xs_flight s' (wire cmd) = Some (nc_segments cmd)" by (simp add: t send_wire_flight)
  show ?thesis unfolding marks_owed_def
  proof
    fix p assume "p \<in> in_flight_pids (xs_subs s')"
    then consider "p \<in> set (concat (nc_segments cmd))" | "p \<in> in_flight_pids (xs_subs s)"
      using sent(3,4) by (simp add: t) blast
    then show "\<exists>w \<in> set (pending_commands (xs_proc s')). \<exists>segs. xs_flight s' w = Some segs \<and> p \<in> set (concat segs)"
    proof cases
      case 1
      with fl pend show ?thesis by (intro bexI [of _ "wire cmd"]) auto
    next
      case 2
      with assms(2) obtain w sg where w: "w \<in> set (pending_commands (xs_proc s))" "xs_flight s w = Some sg" "p \<in> set (concat sg)"
        unfolding marks_owed_def by blast
      with assms(4) [OF w(2)] pend show ?thesis by (intro bexI [of _ w]) auto
    qed
  qed
qed

lemma pause_everything_fields:
  "in_flight_pids (xs_subs (pause_everything s)) = {}" "xs_flight (pause_everything s) = Map.empty"
  "core_inv (xs_proc (pause_everything s)) = core_inv (xs_proc s)" "\<not> chain_alive (xs_proc (pause_everything s))"
  by (simp_all add: pause_everything_def Let_def clear_in_flight_def)

lemma reply_marks:
  assumes "data_callback ord ck c outcome s = Ok (s', msgs)" "core_inv (xs_proc s)" "marks_owed s"
    "roomy (ReplyOp ord ck c outcome) s"
  shows "core_inv (xs_proc s') \<and> marks_owed s'"
proof -
  from assms(1) obtain segs dm s3 s4 where d: "segs = fst (resolve_members c (xs_flight s))"
    "settle_reply ck c segs outcome (enter_callback c s) = Ok (dm, s3, msgs)"
    "if stops_chain segs outcome dm s3 then s4 = pause_everything s3 else next_exchange ord (ck_mono ck) s3 = Ok s4"
    "s' = s4 \<lparr> xs_proc := (xs_proc s4) \<lparr> completion_guards := completion_guards (xs_proc s4) - 1 \<rparr> \<rparr>"
    by (rule data_callback_cases)
  note f = settle_reply_spec [OF d(2)]
  from assms(4) have r: "c \<notin> set (to_send (xs_proc s))" "length (queue (xs_proc s)) + 2 \<le> max_queue_size (xs_proc s)"
    "keeps_registrations c s s'" using assms(1) by simp_all
  have c3: "core_inv (xs_proc s3)" by (rule settle_core [OF d(2) assms(2) r(1)])
  have m3: "marks_owed s3" by (rule settle_marks [OF d(2) assms(3) d(1)])
  have "core_inv (xs_proc s4) \<and> marks_owed s4"
  proof (cases "stops_chain segs outcome dm s3")
    case True
    with d(3) c3 show ?thesis by (simp add: pause_everything_fields marks_owed_def)
  next
    case False
    with d(3) have nx: "next_exchange ord (ck_mono ck) s3 = Ok s4" by simp
    have "xs_flight s4 w = Some sg" if "xs_flight s3 w = Some sg" for w sg
    proof -
      from that f have "xs_flight s w = Some sg" "w \<noteq> c" by (auto split: if_splits)
      moreover from nx have "xs_flight s4 \<noteq> Map.empty"
      proof (cases rule: next_exchange_cases)
        case (stalled m)
        with that have "xs_flight s4 w = Some sg" by (simp split: if_splits)
        then show ?thesis by (metis option.distinct(1))
      next
        case (sent m picks cmd)
        then have "xs_flight s4 (wire cmd) = Some (nc_segments cmd)" by (auto simp: send_wire_flight)
        then show ?thesis by (metis option.distinct(1))
      qed
      ultimately show ?thesis using r(3) unfolding keeps_registrations_def by (simp add: d(4)) blast
    qed
    from next_exchange_marks [OF nx m3 _ this] r(2) f next_exchange_core [OF c3 nx] show ?thesis by simp
  qed
  then show ?thesis by (simp add: d(4) marks_owed_def)
qed

lemma xstep_marks:
  assumes "core_inv (xs_proc s) \<and> marks_owed s" "roomy e s" "xstep e s = Some s'"
  shows "core_inv (xs_proc s') \<and> marks_owed s'"
proof (cases e)
  case (HostOp opn)
  with assms have h: "host_op opn" "s' = s \<lparr> xs_subs := exec_op opn (xs_subs s) \<rparr>" by (auto split: if_splits)
  have "marks_owed s'" by (rule marks_mono [of s]) (use h assms(1) host_op_marks [OF h(1), of "xs_subs s"] in simp_all)
  with assms(1) show ?thesis by (simp add: h(2))
next
  case (KickOp i now)
  let ?p = "fst (queue_command ''AT'' (xs_timeout s) now (fst (try_claim_chain (xs_proc s))))"
  have "core_inv ?p" "set (pending_commands (xs_proc s)) \<subseteq> set (pending_commands ?p)"
    using assms(1) queue_command_core queue_command_pending [of "fst (try_claim_chain (xs_proc s))"] by simp_all
  with KickOp assms show ?thesis
    by (auto simp: kick_pipeline_if_idle_def case_prod_beta clear_in_flight_def marks_owed_def split: option.split)
next
  case (SendOp c t now)
  with assms(3) have p: "s' = s \<lparr> xs_proc := fst (queue_command c t now (xs_proc s)) \<rparr>"
    by (simp add: send_command_def case_prod_beta)
  have "marks_owed s'"
    by (rule marks_mono [of s]) (use assms(1) queue_command_pending in \<open>simp_all add: p\<close>)
  with assms(1) queue_command_core show ?thesis by (simp add: p)
next
  case (DispatchOp ev)
  then obtain p where p: "dispatch_event ev" "act ev (xs_proc s) = Next p" "s' = s \<lparr> xs_proc := p \<rparr>"
    using assms(3) by (auto split: if_splits result.splits)
  from dispatch_core [OF p(2,1)] assms(1) have "core_inv p" "set (pending_commands (xs_proc s)) \<subseteq> set (pending_commands p)" by blast+
  with assms(1) show ?thesis by (auto simp: p(3) intro!: marks_mono [of s])
next
  case (ReplyOp ord ck c outcome)
  then obtain msgs where "data_callback ord ck c outcome s = Ok (s', msgs)"
    using assms(3) by (auto split: outcome.splits)
  from reply_marks [OF this] assms ReplyOp show ?thesis by blast
qed

lemma core_inv_new: "core_inv (proc_new rate burst mx t0)"
  using proc_inv_new [of rate burst mx t0] by (simp add: core_inv_def) (simp add: proc_new_def)

definition flag_inv :: "Session \<Rightarrow> bool" where
  "flag_inv s \<longleftrightarrow> core_inv (xs_proc s) \<and> 0 < max_queue_size (xs_proc s)
     \<and> (chain_alive (xs_proc s) \<longrightarrow> pending_commands (xs_proc s) \<noteq> [])"

lemma queue_command_some: "0 < max_queue_size p \<Longrightarrow> pending_commands (fst (queue_command c t now p)) \<noteq> []"
  by (auto simp: pending_commands_def queue_command_def)

lemma send_wire_max [simp]: "max_queue_size (xs_proc (send_wire c t now s)) = max_queue_size (xs_proc s)"
  by (simp add: send_wire_def Let_def queue_command_fields split: option.split)

lemma next_exchange_flag:
  assumes "next_exchange ord now s = Ok s'" "core_inv (xs_proc s)" "0 < max_queue_size (xs_proc s)" "\<not> busy (worker (xs_proc s))"
  shows "flag_inv s'"
  using assms(1)
proof (cases rule: next_exchange_cases)
  case (stalled m)
  have "\<not> dispatching (xs_proc s)" using assms(2,4) by (simp add: core_inv_def proc_inv_def)
  then have "has_pending_work (xs_proc s) (xs_proc s) (xs_proc s) \<longrightarrow> pending_commands (xs_proc s) \<noteq> []"
    by (auto simp: has_pending_work_def pending_commands_def owed_def)
  with stalled assms(2,3) show ?thesis by (simp add: flag_inv_def)
next
  case (sent m picks cmd)
  then obtain t where t: "s' = send_wire cmd t now (s \<lparr> xs_subs := m \<rparr>)
      \<lparr> xs_proc := (xs_proc (send_wire cmd t now (s \<lparr> xs_subs := m \<rparr>))) \<lparr> chain_alive := True \<rparr> \<rparr>" by blast
  have "queue (xs_proc (send_wire cmd t now (s \<lparr> xs_subs := m \<rparr>))) \<noteq> []"
    by (rule send_wire_queue) (simp add: assms(3))
  then have "pending_commands (xs_proc (send_wire cmd t now (s \<lparr> xs_subs := m \<rparr>))) \<noteq> []" by (simp add: pending_commands_def)
  moreover have "core_inv (xs_proc (send_wire cmd t now (s \<lparr> xs_subs := m \<rparr>)))" by (rule send_wire_core) (simp add: assms(2))
  ultimately show ?thesis using assms(3) by (simp add: t flag_inv_def)
qed

lemma reply_flag:
  assumes "data_callback ord ck c outcome s = Ok (s', msgs)" "flag_inv s" "\<not> busy (worker (xs_proc s))"
  shows "flag_inv s'"
proof -
  from assms(1) obtain segs dm s3 s4 where d: "segs = fst (resolve_members c (xs_flight s))"
    "settle_reply ck c segs outcome (enter_callback c s) = Ok (dm, s3, msgs)"
    "if stops_chain segs outcome dm s3 then s4 = pause_everything s3 else next_exchange ord (ck_mono ck) s3 = Ok s4"
    "s' = s4 \<lparr> xs_proc := (xs_proc s4) \<lparr> completion_guards := completion_guards (xs_proc s4) - 1 \<rparr> \<rparr>"
    by (rule data_callback_cases)
  note f = settle_reply_spec [OF d(2)]
  have "c \<notin> set (to_send (xs_proc s))" using assms(3) by (cases "worker (xs_proc s)") (simp_all add: to_send_def)
  with settle_core [OF d(2)] assms(2) have c3: "core_inv (xs_proc s3)" by (simp add: flag_inv_def)
  have "flag_inv s4"
  proof (cases "stops_chain segs outcome dm s3")
    case True
    with d(3) c3 assms(2) f show ?thesis by (simp add: flag_inv_def pause_everything_fields) (simp add: pause_everything_def Let_def)
  next
    case False
    with d(3) next_exchange_flag c3 f assms(2,3) show ?thesis by (auto simp: flag_inv_def)
  qed
  then show ?thesis by (simp add: d(4) flag_inv_def)
qed

lemma xstep_flag:
  assumes "flag_inv s" "after_dispatch e s" "xstep e s = Some s'"
  shows "flag_inv s'"
proof (cases e)
  case (HostOp opn)
  with assms show ?thesis by (auto simp: flag_inv_def split: if_splits)
next
  case (KickOp i now)
  have "flag_inv (s \<lparr> xs_subs := m, xs_proc := fst (queue_command ''AT'' t now (fst (try_claim_chain (xs_proc s)))) \<rparr>)" for m t
    using assms(1) queue_command_some [of "fst (try_claim_chain (xs_proc s))"] queue_command_core
    by (simp add: flag_inv_def queue_command_fields claim_fields)
  with KickOp assms show ?thesis
    by (auto simp: kick_pipeline_if_idle_def case_prod_beta split: option.splits if_splits)
next
  case (SendOp c t now)
  with assms(3) have p: "s' = s \<lparr> xs_proc := fst (queue_command c t now (xs_proc s)) \<rparr>"
    by (simp add: send_command_def case_prod_beta)
  with assms(1) queue_command_core queue_command_some show ?thesis
    by (simp add: flag_inv_def queue_command_fields)
next
  case (DispatchOp ev)
  then obtain p where p: "dispatch_event ev" "act ev (xs_proc s) = Next p" "s' = s \<lparr> xs_proc := p \<rparr>"
    using assms(3) by (auto split: if_splits result.splits)
  from dispatch_core [OF p(2,1)] assms(1) show ?thesis by (force simp: flag_inv_def p(3))
next
  case (ReplyOp ord ck c outcome)
  then obtain msgs where "data_callback ord ck c outcome s = Ok (s', msgs)"
    using assms(3) by (auto split: outcome.splits)
  from reply_flag [OF this] assms ReplyOp show ?thesis by simp
qed

section \<open>An example session\<close>

definition loop_demo :: Session where
  "loop_demo =
     \<lparr> xs_subs = demo, xs_proc = proc_new 20 30 1000 0, xs_plugin = poll_new lc_new, xs_disk = Map.empty,
       xs_flight = Map.empty, xs_controller = None, xs_addressing = Can11, xs_kind = Elm, xs_primary = None,
       xs_waiters = {}, xs_monitor = monitor_new 500, xs_health = tracker_new, xs_timeout = 5000 \<rparr>"

definition demo_clock :: "real \<Rightarrow> Clock" where
  "demo_clock t = \<lparr> ck_mono = t, ck_unix = t, ck_ms = 0 \<rparr>"

definition demo_ack :: "string + WireReply" where
  "demo_ack = Inr \<lparr> wr_raw = ''OK'', segments = [ack_reply] \<rparr>"

definition demo_loop :: "SEvent list" where
  "demo_loop = KickOp 7 0 # map DispatchOp (worker_pass 1) @ [ReplyOp (\<lambda>xs. xs) (demo_clock 2) ''AT'' demo_ack]"

definition demo_early :: "SEvent list" where
  "demo_early = [HostOp (SetStreamed {''010C'', ''0105''}), KickOp 7 0] @ map DispatchOp (butlast (worker_pass 1))
     @ [ReplyOp (\<lambda>xs. xs) (demo_clock 2) ''AT'' demo_ack, DispatchOp WDone]"

lemma along_append:
  "along P (es @ fs) s \<longleftrightarrow> along P es s \<and> (case xrun es s of None \<Rightarrow> True | Some t \<Rightarrow> along P fs t)"
  by (induction es arbitrary: s) (auto split: option.split)

fun no_reply :: "SEvent \<Rightarrow> bool" where
  "no_reply (ReplyOp ord ck c outcome) = False"
| "no_reply _ = True"

lemma quiet_step: "no_reply e \<Longrightarrow> xstep e s = Some t \<Longrightarrow> roomy e s \<and> xs_flight t = xs_flight s"
  by (cases e) (auto simp: kick_pipeline_if_idle_def send_command_def case_prod_beta split: option.splits if_splits result.splits)

lemma quiet_run: "list_all no_reply es \<Longrightarrow> along roomy es s \<and> (\<forall>t. xrun es s = Some t \<longrightarrow> xs_flight t = xs_flight s)"
proof (induction es arbitrary: s)
  case (Cons e es)
  show ?case
  proof (cases "xstep e s")
    case None
    with Cons.prems show ?thesis by (cases e) auto
  next
    case (Some t)
    with quiet_step [of e s t] Cons.prems Cons.IH [of t] show ?thesis by simp
  qed
qed simp

definition demo_dispatch :: "SEvent list" where
  "demo_dispatch = KickOp 7 0 # map DispatchOp (worker_pass 1)"

lemma demo_loop_split: "demo_loop = demo_dispatch @ [ReplyOp (\<lambda>xs. xs) (demo_clock 2) ''AT'' demo_ack]"
  by (simp add: demo_loop_def demo_dispatch_def)

lemma demo_loop_run:
  "\<exists>s. xrun demo_loop loop_demo = Some s \<and> in_flight_pids (xs_subs s) = {''0105''} \<and> chain_alive (xs_proc s)"
  "along roomy demo_loop loop_demo" "along after_dispatch demo_loop loop_demo"
proof -
  have "case xrun demo_loop loop_demo of None \<Rightarrow> False | Some s \<Rightarrow> in_flight_pids (xs_subs s) = {''0105''} \<and> chain_alive (xs_proc s)"
    by code_simp
  then show "\<exists>s. xrun demo_loop loop_demo = Some s \<and> in_flight_pids (xs_subs s) = {''0105''} \<and> chain_alive (xs_proc s)"
    by (cases "xrun demo_loop loop_demo") auto
  show "along after_dispatch demo_loop loop_demo" by code_simp
  have q: "list_all no_reply demo_dispatch" by (simp add: demo_dispatch_def worker_pass_def)
  have "case xrun demo_dispatch loop_demo of None \<Rightarrow> False
      | Some t \<Rightarrow> ''AT'' \<notin> set (to_send (xs_proc t)) \<and> length (queue (xs_proc t)) + 2 \<le> max_queue_size (xs_proc t)"
    by code_simp
  then obtain t where t: "xrun demo_dispatch loop_demo = Some t" "''AT'' \<notin> set (to_send (xs_proc t))"
      "length (queue (xs_proc t)) + 2 \<le> max_queue_size (xs_proc t)"
    by (cases "xrun demo_dispatch loop_demo") auto
  have "xs_flight t = Map.empty" using quiet_run [OF q, of loop_demo] t(1) by (simp add: loop_demo_def)
  then have "along roomy [ReplyOp (\<lambda>xs. xs) (demo_clock 2) ''AT'' demo_ack] t"
    using t(2,3) by (simp add: keeps_registrations_def split: option.split)
  with quiet_run [OF q, of loop_demo] t(1) show "along roomy demo_loop loop_demo"
    by (simp only: demo_loop_split along_append) simp
qed

lemma loop_demo_fresh: "in_flight_pids (xs_subs loop_demo) = {}" "xs_proc loop_demo = proc_new 20 30 1000 0" "xs_flight loop_demo = Map.empty"
  by (simp_all add: loop_demo_def demo_facts)

section \<open>No PID is left behind\<close>





text \<open>
  C9: without that order the flag can lie. A reply handled while the worker has not yet returned
  from handing the command over, at a moment when nothing is due, leaves the flag raised with nothing
  pending; from then on every kick is refused and polling stays dead until some other command
  completes.
\<close>

theorem early_reply_wedges_chain:
  assumes "data_callback ord ck c (Inr r) s = Ok (s', msgs)" "worker (xs_proc s) = SentOff" "dispatching (xs_proc s)"
    "chain_alive (xs_proc s)" "queue (xs_proc s) = []" "owed (xs_proc s) = [c]" "queue (xs_proc s') = []"
  shows "\<exists>t. xstep (DispatchOp WDone) s' = Some t \<and> pending_commands (xs_proc t) = []
    \<and> (\<forall>i now. kick_pipeline_if_idle i now t = t)"
proof -
  from assms(1) obtain segs dm s3 s4 where d: "segs = fst (resolve_members c (xs_flight s))"
    "settle_reply ck c segs (Inr r) (enter_callback c s) = Ok (dm, s3, msgs)"
    "if stops_chain segs (Inr r) dm s3 then s4 = pause_everything s3 else next_exchange ord (ck_mono ck) s3 = Ok s4"
    "s' = s4 \<lparr> xs_proc := (xs_proc s4) \<lparr> completion_guards := completion_guards (xs_proc s4) - 1 \<rparr> \<rparr>"
    by (rule data_callback_cases)
  note f = settle_reply_spec [OF d(2)]
  have o3: "owed (xs_proc s3) = []" using f assms(6) by simp
  have nx: "next_exchange ord (ck_mono ck) s3 = Ok s4" using d(3) by (simp add: stops_chain_def error_of_def)
  then have w: "worker (xs_proc s') = SentOff \<and> chain_alive (xs_proc s') \<and> owed (xs_proc s') = []"
  proof (cases rule: next_exchange_cases)
    case (stalled m)
    have "has_pending_work (xs_proc s3) (xs_proc s3) (xs_proc s3)" using f assms(3) by (simp add: has_pending_work_def)
    with stalled f(6,9) o3 assms(2,4) show ?thesis by (simp add: d(4) owed_def)
  next
    case (sent m picks cmd)
    with f(6) o3 assms(2) show ?thesis by (auto simp: d(4) send_wire_worker owed_def)
  qed
  let ?t = "s' \<lparr> xs_proc := (xs_proc s') \<lparr> dispatching := False, worker := LoopHead \<rparr> \<rparr>"
  have "xstep (DispatchOp WDone) s' = Some ?t" using w by simp
  moreover have "pending_commands (xs_proc ?t) = []" using w assms(7) by (simp add: pending_commands_def owed_def)
  moreover have "kick_pipeline_if_idle i now ?t = ?t" for i now
    using w by (auto simp: kick_pipeline_if_idle_def try_claim_chain_def split: option.split)
  ultimately show ?thesis by blast
qed

theorem early_reply_wedges_chain_witness:
  "\<exists>t. xrun demo_early loop_demo = Some t \<and> pending_commands (xs_proc t) = [] \<and> kick_pipeline_if_idle 7 3 t = t"
proof -
  let ?pre = "[HostOp (SetStreamed {''010C'', ''0105''}), KickOp 7 0] @ map DispatchOp (butlast (worker_pass 1))"
  have "case xrun ?pre loop_demo of None \<Rightarrow> False
    | Some s \<Rightarrow> worker (xs_proc s) = SentOff \<and> dispatching (xs_proc s) \<and> chain_alive (xs_proc s) \<and> queue (xs_proc s) = []
        \<and> owed (xs_proc s) = [''AT'']
        \<and> (case data_callback (\<lambda>xs. xs) (demo_clock 2) ''AT'' demo_ack s of Ok (s', _) \<Rightarrow> queue (xs_proc s') = [] | _ \<Rightarrow> False)"
    by code_simp
  then obtain s s' msgs where s: "xrun ?pre loop_demo = Some s" "worker (xs_proc s) = SentOff" "dispatching (xs_proc s)"
      "chain_alive (xs_proc s)" "queue (xs_proc s) = []" "owed (xs_proc s) = [''AT'']"
      "data_callback (\<lambda>xs. xs) (demo_clock 2) ''AT'' demo_ack s = Ok (s', msgs)" "queue (xs_proc s') = []"
    by (auto split: option.splits outcome.splits)
  from s(7) have "data_callback (\<lambda>xs. xs) (demo_clock 2) ''AT'' (Inr \<lparr> wr_raw = ''OK'', segments = [ack_reply] \<rparr>) s = Ok (s', msgs)"
    by (simp add: demo_ack_def)
  from early_reply_wedges_chain [OF this s(2-6,8)] obtain t where t: "xstep (DispatchOp WDone) s' = Some t"
    "pending_commands (xs_proc t) = []" "\<forall>i now. kick_pipeline_if_idle i now t = t" by blast
  have app: "xrun (es @ fs) u = (case xrun es u of None \<Rightarrow> None | Some v \<Rightarrow> xrun fs v)" for es fs u
    by (induction es arbitrary: u) (auto split: option.split)
  have "xrun (?pre @ [ReplyOp (\<lambda>xs. xs) (demo_clock 2) ''AT'' demo_ack, DispatchOp WDone]) loop_demo = Some t"
    unfolding app [of ?pre] s(1) using s(7) t(1) by simp
  then have "xrun demo_early loop_demo = Some t" by (simp add: demo_early_def)
  with t show ?thesis by blast
qed

end
