(* ===== verification/ReplyDelivery.thy ===== *)
theory ReplyDelivery
  imports PollChain
begin

text \<open>
  What a reply delivers through the loop of \<open>ExchangeLoop\<close>: a batched reply reaches its members by
  position, a chunk reply reaches each member with the bytes the vehicle sent for it, and a failed
  command is answered by the policy of the code, which tells a failed batch, a failed probe and a
  failed link apart.
\<close>

section \<open>Positional delivery\<close>

fun is_data_msg :: "HostMsg \<Rightarrow> bool" where
  "is_data_msg (ObdData p txt err v) = True"
| "is_data_msg _ = False"

fun msg_pid :: "HostMsg \<Rightarrow> string" where
  "msg_pid (ObdData p txt err v) = p"
| "msg_pid _ = []"

definition data_pids :: "HostMsg list \<Rightarrow> string list" where
  "data_pids msgs = map msg_pid (filter is_data_msg msgs)"

text \<open>The message shows the text of the reply segment at the position its member was sent in.\<close>

fun from_own_segment :: "string list list \<Rightarrow> LinkReply list \<Rightarrow> HostMsg \<Rightarrow> bool" where
  "from_own_segment segs replies (ObdData p txt err v) \<longleftrightarrow>
     err = None \<and> list_ex (\<lambda>(ms, r). p \<in> set ms \<and> txt = raw r) (zip segs replies)"
| "from_own_segment segs replies _ = True"

definition solo_or_split :: "string list list \<Rightarrow> WireReply \<Rightarrow> bool" where
  "solo_or_split segs r \<longleftrightarrow> \<not> (length segs = 1 \<and> length (segments r) > 1)"

lemma data_pids_simps [simp]:
  "data_pids (xs @ ys) = data_pids xs @ data_pids ys" "data_pids (map HealthNote evs) = []" "data_pids (map SubscriptionDone is) = []"
  by (induction evs; induction "is"; simp add: data_pids_def)+

lemma data_pids_members: "data_pids (member_messages rs err) = map rs_member (delivered rs)"
  by (induction rs) (simp_all add: data_pids_def member_messages_def delivered_def)

lemma callback_messages:
  assumes "data_callback ord ck c outcome s = Ok (s', msgs)" "xs_flight s c = Some segs"
  obtains dm evs fin where "(demux_segments (pp_cache (xs_plugin s)) segs outcome :: (unit, _) outcome) = Ok dm"
    "msgs = member_messages (do_resolved dm) (error_of outcome) @ map HealthNote evs
       @ (case outcome of Inl e \<Rightarrow> [ObdData c [] (Some e) None] | Inr _ \<Rightarrow> []) @ map SubscriptionDone fin"
proof -
  from assms(1) obtain segs' dm s3 s4 where d: "segs' = fst (resolve_members c (xs_flight s))"
    "settle_reply ck c segs' outcome (enter_callback c s) = Ok (dm, s3, msgs)" by (rule data_callback_cases)
  from d(1) assms(2) have e: "segs' = segs" by (simp add: resolve_members_def)
  note f = settle_reply_spec [OF d(2)]
  from f(2) e have dm: "(demux_segments (pp_cache (xs_plugin s)) segs outcome :: (unit, _) outcome) = Ok dm" by simp
  from d(2) f(1,2) show thesis
    by (intro that [OF dm])
       (auto simp: e settle_reply_def and_then_Ok case_prod_beta Let_def absorb_def finish_members_def simp del: concat_eq_Nil_conv)
qed

lemma demux_all_positional:
  assumes "(demux_all c segs replies :: ('e, _) outcome) = Ok dm" "r \<in> set (delivered (do_resolved dm))"
  shows "\<exists>(ms, q) \<in> set (zip segs replies). rs_member r \<in> set ms \<and> rs_raw r = Some (raw q)"
  using assms
proof (induction c segs replies arbitrary: dm rule: demux_all.induct)
  case (2 c ms segs replies)
  then obtain a b where ab: "(demux_segment c ms (case replies of [] \<Rightarrow> None | q # _ \<Rightarrow> Some q) :: ('e, _) outcome) = Ok a"
      "(demux_all c segs (tl replies) :: ('e, _) outcome) = Ok b" "dm = demux_join a b" by (auto simp: and_then_Ok)
  from 2(3) ab(3) consider "r \<in> set (delivered (do_resolved a))" | "r \<in> set (delivered (do_resolved b))"
    by (auto simp: demux_join_def delivered_def)
  then show ?case
  proof cases
    case 1
    then show ?thesis using ab(1)
      by (cases replies)
         (auto simp: demux_segment_def delivered_def Let_def solo_member_def chunk_member_def unanswered_def
            split: list.splits outcome.splits option.splits)
  next
    case 2
    from "2.IH" [OF ab(2) 2] show ?thesis by (cases replies) auto
  qed
qed (simp add: delivered_def)

text \<open>A batched reply reaches its members by position. When the reply to a registered exchange
  arrives, the host gets at most one data message per member, in the order of the exchange, none of
  them an error, and each carries the text of the reply segment at the position of the pipe segment
  its member was sent in.
\<close>

theorem batch_is_positional:
  assumes "data_callback ord ck c (Inr r) s = Ok (s', msgs)" "xs_flight s c = Some segs" "solo_or_split segs r"
  shows "subseq (data_pids msgs) (concat segs) \<and> list_all (from_own_segment segs (segments r)) msgs"
proof -
  from callback_messages [OF assms(1,2)] obtain dm evs fin where
    dm: "(demux_segments (pp_cache (xs_plugin s)) segs (Inr r) :: (unit, _) outcome) = Ok dm" and
    m: "msgs = member_messages (do_resolved dm) (error_of (Inr r)) @ map HealthNote evs @ map SubscriptionDone fin"
    by auto
  have "map rs_member (delivered (do_resolved dm)) = map rs_member (filter (\<lambda>x. rs_raw x \<noteq> None) (do_resolved dm))"
    by (simp add: delivered_def)
  also have "subseq \<dots> (map rs_member (do_resolved dm))" by (rule subseq_map) simp
  finally have "subseq (data_pids msgs) (concat segs)"
    by (simp add: m data_pids_members demux_members [OF dm])
  moreover have "wire_segments segs (Inr r) = segments r"
    using assms(3) by (auto simp: wire_segments_def solo_or_split_def)
  with dm have "(demux_all (pp_cache (xs_plugin s)) segs (segments r) :: (unit, _) outcome) = Ok dm"
    by (simp add: demux_segments_def)
  from demux_all_positional [OF this] have "list_all (from_own_segment segs (segments r)) msgs"
    by (fastforce simp: m list_all_iff member_messages_def error_of_def list_ex_iff)
  ultimately show ?thesis by blast
qed

definition batch_demo :: Session where
  "batch_demo = loop_demo \<lparr> xs_flight := [''010C|0105'' \<mapsto> [[''010C''], [''0105'']]] \<rparr>"

definition batch_reply :: WireReply where
  "batch_reply =
     \<lparr> wr_raw = ''410C1AF8|41055A'',
        segments = [reply_from_payloads ''010C'' StOk False [\<lparr> controller = ''7E8'', bytes = [0x41, 0x0C, 0x1A, 0xF8] \<rparr>] ''410C1AF8'',
                    reply_from_payloads ''0105'' StOk False [\<lparr> controller = ''7E8'', bytes = [0x41, 0x05, 0x5A] \<rparr>] ''41055A''] \<rparr>"

theorem batch_is_positional_witness:
  "\<exists>s' msgs. data_callback (\<lambda>xs. xs) (demo_clock 2) ''010C|0105'' (Inr batch_reply) batch_demo = Ok (s', msgs)
    \<and> data_pids msgs = [''010C'', ''0105''] \<and> list_all (from_own_segment [[''010C''], [''0105'']] (segments batch_reply)) msgs"
proof -
  have "case data_callback (\<lambda>xs. xs) (demo_clock 2) ''010C|0105'' (Inr batch_reply) batch_demo of
      Ok (s', msgs) \<Rightarrow> data_pids msgs = [''010C'', ''0105''] | _ \<Rightarrow> False" by code_simp
  then obtain s' msgs where c: "data_callback (\<lambda>xs. xs) (demo_clock 2) ''010C|0105'' (Inr batch_reply) batch_demo = Ok (s', msgs)"
      "data_pids msgs = [''010C'', ''0105'']" by (auto split: outcome.splits)
  have "solo_or_split [[''010C''], [''0105'']] batch_reply" by (simp add: solo_or_split_def)
  with batch_is_positional [OF c(1)] c show ?thesis by (simp add: batch_demo_def)
qed

section \<open>A chunk reply reaches its members\<close>

lemma those_map: "\<forall>x \<in> set xs. f x = Some (g x) \<Longrightarrow> those (map f xs) = Some (map g xs)"
  by (induction xs) simp_all

definition chunk_of :: "chunk_mode \<Rightarrow> (u16 \<times> u8) list \<Rightarrow> string list" where
  "chunk_of m learned = map (\<lambda>(e, l). member_pid m e) learned"

lemma chunk_pairs_learned:
  assumes "\<forall>(e, l) \<in> set learned. lc_get c (member_pid m e) = Some l"
  shows "chunk_pairs c (chunk_of m learned) = Some (request_members m learned)"
proof -
  have "chunk_pairs c (chunk_of m learned) = those (map (\<lambda>(e, l). map_option (\<lambda>n. (member_pid m e, n)) (lc_get c (member_pid m e))) learned)"
    by (simp add: chunk_pairs_def chunk_of_def comp_def case_prod_unfold)
  also have "\<dots> = Some (map (\<lambda>(e, l). (member_pid m e, l)) learned)"
    by (rule those_map) (use assms in auto)
  finally show ?thesis by (simp add: request_members_def)
qed

definition inhabited :: "split_out \<Rightarrow> bool" where
  "inhabited out \<longleftrightarrow> (\<forall>x \<in> set out. all_controllers (snd x) \<noteq> [])"

lemma inhabited_add: "inhabited out \<Longrightarrow> inhabited (add_member pid ctrl r out)"
  by (auto simp: inhabited_def add_member_def Let_def dest!: set_alist_update)

lemma inhabited_items: "inhabited out \<Longrightarrow> inhabited (add_items m t ctrl items out)"
  unfolding add_items_def by (induction items arbitrary: out) (simp_all add: inhabited_add case_prod_beta)

lemma inhabited_replies: "inhabited (add_replies m t replies [])"
proof -
  have "inhabited out \<Longrightarrow> inhabited (add_replies m t replies out)" for out
    unfolding add_replies_def by (induction replies arbitrary: out) (simp_all add: inhabited_items case_prod_beta)
  moreover have "inhabited []" by (simp add: inhabited_def)
  ultimately show ?thesis .
qed

text \<open>
  C10: a chunk reply reaches every member with the bytes the vehicle sent for it. For a chunk whose
  lengths are learned, answered by any controllers with any of its members in any order, nothing is
  demoted; each member some controller answered is reported with, per controller, exactly the data
  that controller sent for it, under an echo that names the member; and a member nobody answered is
  not reported but routed alone from then on.
\<close>

theorem chunk_answers_reach_members:
  assumes "2 \<le> length learned" "distinct (map fst learned)" "\<forall>e \<in> fst ` set learned. echo_ok m e"
    "replies \<noteq> []" "distinct (map fst replies)" "\<forall>r \<in> set replies. reply_ok m learned r"
    "\<forall>(e, l) \<in> set learned. lc_get c (member_pid m e) = Some l"
    "payloads seg = map (payload_for m) replies" "(e, l) \<in> set learned"
  shows "\<exists>dm. (demux_segments c [chunk_of m learned] (Inr \<lparr> wr_raw = txt, segments = [seg] \<rparr>) :: (unit, _) outcome) = Ok dm
    \<and> do_invalidate dm = []
    \<and> (if \<exists>(ctrl, items, k) \<in> set replies. map_of items e \<noteq> None
       then \<exists>p. ObdData (member_pid m e) (raw seg) None (Some p) \<in> set (member_messages (do_resolved dm) None)
          \<and> member_pid m e \<notin> set (do_omitted dm)
          \<and> (\<forall>ctrl. map_of (all_controllers p) ctrl =
               (case map_of replies ctrl of None \<Rightarrow> None
                | Some (items, _) \<Rightarrow> map_option (member_response m ctrl e) (map_of items e)))
       else member_pid m e \<in> set (do_omitted dm)
          \<and> member_pid m e \<notin> set (data_pids (member_messages (do_resolved dm) None)))"
proof -
  from assms(1) obtain a b rest where ab: "learned = a # b # rest" by (cases learned; cases "tl learned") auto
  have ne: "learned \<noteq> []" using ab by simp
  let ?table = "\<lambda>ctrl. case map_of replies ctrl of None \<Rightarrow> None
      | Some (items, _) \<Rightarrow> map_option (member_response m ctrl e) (map_of items e)"
  from split_exact [OF ne assms(2-6)] obtain out where
    out: "split_multi_pid (request_members m learned) (map (payload_for m) replies) = Ok out"
    and look: "\<forall>e \<in> fst ` set learned. \<forall>ctrl. lookup_member out (member_pid m e) ctrl =
        (case map_of replies ctrl of None \<Rightarrow> None | Some (items, _) \<Rightarrow> map_option (member_response m ctrl e) (map_of items e))"
    by blast
  have "e \<in> fst ` set learned" using assms(9) by force
  with look have tab: "lookup_member out (member_pid m e) ctrl = ?table ctrl" for ctrl by blast
  have "out = add_replies m (echo_table m learned) replies []" using out split_replies [OF assms(6,3), of "[]"] assms(1-6) ne
    by (simp add: split_multi_pid_def chunk_mode_members add_echo_table)
  then have inh: "inhabited out" by (simp add: inhabited_replies)
  have sp: "chunk_split c (chunk_of m learned) seg = Ok out"
    using chunk_pairs_learned [OF assms(7)] out by (simp add: chunk_split_def assms(8))
  have dm: "\<exists>dm. (demux_segments c [chunk_of m learned] (Inr \<lparr> wr_raw = txt, segments = [seg] \<rparr>) :: (unit, _) outcome) = Ok dm
      \<and> do_invalidate dm = [] \<and> do_resolved dm = map (chunk_member (raw seg) out) (chunk_of m learned)
      \<and> do_omitted dm = filter (\<lambda>x. map_of out x = None) (chunk_of m learned)"
    using sp by (simp add: demux_segments_def wire_segments_def demux_segment_def demux_join_def ab chunk_of_def case_prod_beta Let_def)
  then obtain dm where d: "(demux_segments c [chunk_of m learned] (Inr \<lparr> wr_raw = txt, segments = [seg] \<rparr>) :: (unit, _) outcome) = Ok dm"
      "do_invalidate dm = []" "do_resolved dm = map (chunk_member (raw seg) out) (chunk_of m learned)"
      "do_omitted dm = filter (\<lambda>x. map_of out x = None) (chunk_of m learned)" by blast
  have mem: "member_pid m e \<in> set (chunk_of m learned)" using assms(9) by (force simp: chunk_of_def)
  show ?thesis
  proof (cases "map_of out (member_pid m e)")
    case None
    then have "?table ctrl = None" for ctrl using tab [of ctrl] by (simp add: lookup_member_def)
    then have "\<not> (\<exists>(ctrl, items, k) \<in> set replies. map_of items e \<noteq> None)"
      using assms(5) by (fastforce simp: map_of_eq_Some_iff split: option.splits)
    moreover have "member_pid m e \<notin> set (data_pids (member_messages (do_resolved dm) None))"
      using None by (auto simp: data_pids_members d(3) delivered_def chunk_member_def split: option.splits)
    ultimately show ?thesis using None mem d by simp
  next
    case (Some p)
    then have look_p: "map_of (all_controllers p) ctrl = ?table ctrl" for ctrl using tab [of ctrl] by (simp add: lookup_member_def)
    from inh Some have "all_controllers p \<noteq> []" by (fastforce simp: inhabited_def dest: map_of_SomeD)
    then obtain ctrl where "map_of (all_controllers p) ctrl \<noteq> None" by (cases "all_controllers p") (auto intro: that [of "fst (hd (all_controllers p))"])
    with look_p have "?table ctrl \<noteq> None" by simp
    then have ans: "\<exists>(ctrl, items, k) \<in> set replies. map_of items e \<noteq> None"
      by (fastforce dest: map_of_SomeD split: option.splits)
    have "chunk_member (raw seg) out (member_pid m e) \<in> set (do_resolved dm)"
      unfolding d(3) set_map using mem by (rule imageI)
    moreover have "rs_raw (chunk_member (raw seg) out (member_pid m e)) \<noteq> None" using Some by (simp add: chunk_member_def)
    ultimately have "chunk_member (raw seg) out (member_pid m e) \<in> set (delivered (do_resolved dm))" by (simp add: delivered_def)
    then have "ObdData (member_pid m e) (raw seg) None (Some p) \<in> set (member_messages (do_resolved dm) None)"
      using Some unfolding member_messages_def by (force simp: chunk_member_def)
    with ans look_p d Some show ?thesis by auto
  qed
qed

definition chunk_cache :: LengthCache where
  "chunk_cache = fst (lc_record ''22F405'' 1 (fst (lc_record ''22F40C'' 2 lc_new Map.empty)) Map.empty)"

definition chunk_replies :: "(string \<times> (u16 \<times> u8 list) list \<times> nat) list" where
  "chunk_replies = [(''7E0'', [(0xF405, [0x50]), (0xF40C, [0x1A, 0xF8])], 3), (''7E8'', [(0xF40C, [0x00, 0x01])], 0)]"

definition chunk_segment :: LinkReply where
  "chunk_segment = \<lparr> status = StOk, parsed = None, faulted = False, payloads = map (payload_for Mode22) chunk_replies, raw = ''62F4'' \<rparr>"

theorem chunk_answers_reach_members_witness:
  "\<exists>dm p. (demux_segments chunk_cache [chunk_of Mode22 [(0xF40C, 2), (0xF405, 1)]]
        (Inr \<lparr> wr_raw = [], segments = [chunk_segment] \<rparr>) :: (unit, _) outcome) = Ok dm
    \<and> ObdData (member_pid Mode22 0xF405) ''62F4'' None (Some p) \<in> set (member_messages (do_resolved dm) None)
    \<and> map_of (all_controllers p) ''7E0'' = Some (member_response Mode22 ''7E0'' 0xF405 [0x50])
    \<and> map_of (all_controllers p) ''7E8'' = None"
proof -
  have "lc_get chunk_cache (member_pid Mode22 0xF40C) = Some 2" "lc_get chunk_cache (member_pid Mode22 0xF405) = Some 1"
    by code_simp+
  then have g: "\<forall>(e, l) \<in> set [(0xF40C :: u16, 2 :: u8), (0xF405, 1)]. lc_get chunk_cache (member_pid Mode22 e) = Some l" by simp
  have h: "\<exists>(ctrl, items, k) \<in> set chunk_replies. map_of items (0xF405 :: u16) \<noteq> None" by (simp add: chunk_replies_def)
  have X: "\<exists>dm. (demux_segments chunk_cache [chunk_of Mode22 [(0xF40C, 2), (0xF405, 1)]]
        (Inr \<lparr> wr_raw = [], segments = [chunk_segment] \<rparr>) :: (unit, _) outcome) = Ok dm
    \<and> do_invalidate dm = []
    \<and> (if \<exists>(ctrl, items, k) \<in> set chunk_replies. map_of items (0xF405 :: u16) \<noteq> None
       then \<exists>p. ObdData (member_pid Mode22 0xF405) (raw chunk_segment) None (Some p) \<in> set (member_messages (do_resolved dm) None)
          \<and> member_pid Mode22 0xF405 \<notin> set (do_omitted dm)
          \<and> (\<forall>ctrl. map_of (all_controllers p) ctrl =
               (case map_of chunk_replies ctrl of None \<Rightarrow> None
                | Some (items, _) \<Rightarrow> map_option (member_response Mode22 ctrl 0xF405) (map_of items 0xF405)))
       else member_pid Mode22 0xF405 \<in> set (do_omitted dm)
          \<and> member_pid Mode22 0xF405 \<notin> set (data_pids (member_messages (do_resolved dm) None)))"
    by (rule chunk_answers_reach_members [OF _ _ _ _ _ _ g])
       (simp_all add: echo_ok_def reply_ok_def chunk_replies_def chunk_segment_def)
  from X [unfolded if_P [OF h]] obtain dm p where d: "(demux_segments chunk_cache [chunk_of Mode22 [(0xF40C, 2), (0xF405, 1)]]
        (Inr \<lparr> wr_raw = [], segments = [chunk_segment] \<rparr>) :: (unit, _) outcome) = Ok dm"
      "ObdData (member_pid Mode22 0xF405) (raw chunk_segment) None (Some p) \<in> set (member_messages (do_resolved dm) None)"
      "\<forall>ctrl. map_of (all_controllers p) ctrl = (case map_of chunk_replies ctrl of None \<Rightarrow> None
                | Some (items, _) \<Rightarrow> map_option (member_response Mode22 ctrl 0xF405) (map_of items 0xF405))"
    by blast
  have "map_of chunk_replies ''7E0'' = Some ([(0xF405, [0x50]), (0xF40C, [0x1A, 0xF8])], 3)"
    "map_of chunk_replies ''7E8'' = Some ([(0xF40C, [0x00, 0x01])], 0)" by (simp_all add: chunk_replies_def)
  then have "map_of (all_controllers p) ''7E0'' = Some (member_response Mode22 ''7E0'' 0xF405 [0x50])"
    "map_of (all_controllers p) ''7E8'' = None" using d(3) by simp_all
  moreover have "raw chunk_segment = ''62F4''" by (simp add: chunk_segment_def)
  ultimately show ?thesis using d(1,2) by metis
qed

section \<open>What a failed command stops\<close>

lemma complete_members_settled:
  assumes "manager_inv m"
  shows "manager_inv (cp_subs (complete_members ts rs m)) \<and> settled_table m (cp_subs (complete_members ts rs m))"
proof -
  have "manager_inv (cp_subs c) \<Longrightarrow> manager_inv (cp_subs (foldl (complete_member ts) c rs))
      \<and> settled_table (cp_subs c) (cp_subs (foldl (complete_member ts) c rs))" for c
  proof (induction rs arbitrary: c)
    case (Cons r rs)
    have c: "cp_subs (complete_member ts c r) = fst (command_completed (rs_member r) (rs_completion r) ts (cp_subs c))"
      by (simp add: complete_member_def case_prod_beta)
    have "settled_table (cp_subs c) (cp_subs (complete_member ts c r))"
      using completed_effect(1) Cons.prems by (simp add: c manager_inv_def)
    moreover have "manager_inv (cp_subs (complete_member ts c r))" by (simp add: c inv_completed Cons.prems)
    ultimately show ?case using Cons.IH [of "complete_member ts c r"] by (auto intro: settled_table_trans)
  qed simp
  from this [of "\<lparr> cp_subs = m, cp_finished = [], cp_mismatch = False, cp_response_pid = None \<rparr>"] assms
  show ?thesis by (simp add: complete_members_def)
qed

lemma settled_lookup:
  assumes "settled_table m m'"
  shows "rel_option settled (get_sub i m) (get_sub i m')"
proof -
  have "list_all2 (\<lambda>(i, s) (j, s'). i = j \<and> settled s s') xs ys \<Longrightarrow> rel_option settled (map_of xs i) (map_of ys i)" for xs ys
    by (induction xs ys rule: list_all2_induct) auto
  with assms show ?thesis by (simp add: settled_table_def get_sub_def)
qed

lemma settled_member:
  assumes "settled_table m m'"
  shows "(i, x) \<in> set (subscriptions m) \<Longrightarrow> \<exists>x'. (i, x') \<in> set (subscriptions m') \<and> settled x x'"
    and "(i, x') \<in> set (subscriptions m') \<Longrightarrow> \<exists>x. (i, x) \<in> set (subscriptions m) \<and> settled x x'"
proof -
  have "list_all2 (\<lambda>(i, s) (j, s'). i = j \<and> settled s s') xs ys \<Longrightarrow>
      ((i, x) \<in> set xs \<longrightarrow> (\<exists>x'. (i, x') \<in> set ys \<and> settled x x'))
      \<and> ((i, x') \<in> set ys \<longrightarrow> (\<exists>x. (i, x) \<in> set xs \<and> settled x x'))" for xs ys
    by (induction xs ys rule: list_all2_induct) auto
  with assms show "(i, x) \<in> set (subscriptions m) \<Longrightarrow> \<exists>x'. (i, x') \<in> set (subscriptions m') \<and> settled x x'"
    "(i, x') \<in> set (subscriptions m') \<Longrightarrow> \<exists>x. (i, x) \<in> set (subscriptions m) \<and> settled x x'"
    unfolding settled_table_def by blast+
qed

lemma paused_by_fold:
  "get_sub j (foldl (\<lambda>m i. fst (pause_subscription i m)) m is)
   = map_option (\<lambda>x. if j \<in> set is \<and> state x \<noteq> Cancelled then x \<lparr> state := Paused, host_paused := True \<rparr> else x) (get_sub j m)"
proof (induction "is" arbitrary: m)
  case (Cons i "is")
  have "get_sub j (fst (pause_subscription i m)) =
      map_option (\<lambda>x. if j = i \<and> state x \<noteq> Cancelled then x \<lparr> state := Paused, host_paused := True \<rparr> else x) (get_sub j m)"
    by (cases "get_sub j m") (auto simp: pause_subscription_def split: option.split)
  with Cons show ?case by (auto simp: option.map_comp comp_def intro!: option.map_cong)
qed (simp add: option.map_ident)

lemma pause_everything_stops:
  assumes "get_sub j (xs_subs (pause_everything s)) = Some x"
  shows "state x \<noteq> Active"
proof -
  let ?is = "map fst (filter (\<lambda>(_, x). state x = Active) (subscriptions (xs_subs s)))"
  from assms have "get_sub j (foldl (\<lambda>m i. fst (pause_subscription i m)) (xs_subs s) ?is) = Some x"
    by (simp add: pause_everything_def Let_def get_sub_def clear_in_flight_def)
  then obtain y where y: "get_sub j (xs_subs s) = Some y"
      "x = (if j \<in> set ?is \<and> state y \<noteq> Cancelled then y \<lparr> state := Paused, host_paused := True \<rparr> else y)"
    by (auto simp only: paused_by_fold map_option_eq_Some)
  have "j \<in> set ?is" if "state y = Active" using y(1) that by (force simp: get_sub_def dest: map_of_SomeD)
  with y(2) show ?thesis by (auto split: if_splits)
qed

lemma pause_everything_ends:
  "in_flight_pids (xs_subs (pause_everything s)) = {}" "xs_flight (pause_everything s) = Map.empty"
  "\<not> chain_alive (xs_proc (pause_everything s))" "queue (xs_proc (pause_everything s)) = queue (xs_proc s)"
  by (simp_all add: pause_everything_def Let_def clear_in_flight_def)

lemma next_exchange_subs:
  assumes "next_exchange ord now s = Ok s'"
  shows "subscriptions (xs_subs s') = subscriptions (xs_subs s)"
  using assms
proof (cases rule: next_exchange_cases)
  case (stalled m)
  then show ?thesis using next_commands_spec(2) [OF stalled(1)] by simp
next
  case (sent m picks cmd)
  then show ?thesis using next_commands_spec(2) [OF sent(1)] by auto
qed

lemma settle_reply_subs:
  assumes "settle_reply ck c segs outcome s = Ok (dm, s', msgs)"
  shows "xs_subs s' = cp_subs (complete_members (ck_unix ck) (do_resolved dm) (xs_subs s))"
proof -
  from assms obtain s1 msgs1 pt where "absorb ck c segs outcome dm s = (s1, msgs1)"
      "s' = fst (finish_members ck c segs outcome dm pt s1)"
    by (auto simp: settle_reply_def and_then_Ok case_prod_beta Let_def split: if_splits simp del: concat_eq_Nil_conv)
       (metis prod.collapse)
  with absorb_fields(1) show ?thesis by (fastforce simp: finish_members_def Let_def)
qed

definition continuous_owner :: "string \<Rightarrow> Subscription \<Rightarrow> bool" where
  "continuous_owner p x \<longleftrightarrow> state x = Active \<and> \<not> is_run_once_only x \<and> p \<in> pids x \<and> pid_run_counts x p = Some None"

lemma settled_owner:
  assumes "settled x x'"
  shows "state x' = Active \<Longrightarrow> \<not> is_run_once_only x' \<Longrightarrow> p \<in> pids x' \<Longrightarrow> state x = Active \<and> \<not> is_run_once_only x \<and> p \<in> pids x"
    and "continuous_owner p x \<Longrightarrow> state x' = Active \<and> \<not> is_run_once_only x' \<and> p \<in> pids x'"
  using assms by (auto simp: settled_def continuous_owner_def)

text \<open>What a failed exchange must not hold to be a verdict on the link, and what stopping means.\<close>

definition polled_alone :: "string list list \<Rightarrow> Manager \<Rightarrow> bool" where
  "polled_alone segs m \<longleftrightarrow> \<not> list_ex (\<lambda>ms. length ms > 1) segs
     \<and> (\<exists>(i, x) \<in> set (subscriptions m). \<exists>p \<in> set (concat segs). continuous_owner p x)"

definition no_verdict :: "string list list \<Rightarrow> Manager \<Rightarrow> bool" where
  "no_verdict segs m \<longleftrightarrow> list_ex (\<lambda>ms. length ms > 1) segs
     \<or> (\<forall>(i, x) \<in> set (subscriptions m). state x = Active \<longrightarrow> is_run_once_only x \<or> pids x \<inter> set (concat segs) = {})"

lemma probe_only_iff:
  "ms \<noteq> [] \<Longrightarrow> \<not> probe_only ms m \<longleftrightarrow>
     (\<exists>(i, x) \<in> set (subscriptions m). state x = Active \<and> \<not> is_run_once_only x \<and> (\<exists>p \<in> set ms. p \<in> pids x))"
  by (simp add: probe_only_def list_ex_iff)

lemma polled_alone_stays:
  assumes "settled_table m m'" "polled_alone segs m"
  shows "\<not> list_ex (\<lambda>ms. length ms > 1) segs \<and> concat segs \<noteq> [] \<and> \<not> probe_only (concat segs) m'"
proof -
  from assms(2) obtain i x p where x: "\<not> list_ex (\<lambda>ms. length ms > 1) segs" "(i, x) \<in> set (subscriptions m)"
      "p \<in> set (concat segs)" "continuous_owner p x"
    unfolding polled_alone_def by blast
  from settled_member(1) [OF assms(1) x(2)] obtain x' where x': "(i, x') \<in> set (subscriptions m')" "settled x x'" by blast
  from x(3) have ne: "concat segs \<noteq> []" by force
  have "\<not> probe_only (concat segs) m'"
    unfolding probe_only_iff [OF ne] using settled_owner(2) [OF x'(2) x(4)] x(3) x'(1) by blast
  with x(1) ne show ?thesis by blast
qed

lemma no_verdict_stays:
  assumes "settled_table m m'" "no_verdict segs m" "concat segs \<noteq> []"
  shows "list_ex (\<lambda>ms. length ms > 1) segs \<or> probe_only (concat segs) m'"
proof (rule ccontr)
  assume n: "\<not> (list_ex (\<lambda>ms. length ms > 1) segs \<or> probe_only (concat segs) m')"
  then obtain i x' p where x: "(i, x') \<in> set (subscriptions m')" "state x' = Active" "\<not> is_run_once_only x'"
      "p \<in> set (concat segs)" "p \<in> pids x'"
    using probe_only_iff [OF assms(3)] by blast
  from settled_member(2) [OF assms(1) x(1)] obtain x0 where x0: "(i, x0) \<in> set (subscriptions m)" "settled x0 x'" by blast
  from settled_owner(1) [OF x0(2) x(2,3,5)] x0(1) x(4) n assms(2) show False unfolding no_verdict_def by blast
qed

lemma failed_reply_messages:
  assumes "data_callback ord ck c (Inl e) s = Ok (s', msgs)" "xs_flight s c = Some segs"
  shows "filter is_data_msg msgs = [ObdData c [] (Some e) None]"
proof -
  have q: "filter is_data_msg (map HealthNote evs) = []" "filter is_data_msg (map SubscriptionDone is) = []" for evs "is"
    by (induction evs; induction "is"; simp)+
  from callback_messages [OF assms] obtain dm evs fin where dm: "(demux_segments (pp_cache (xs_plugin s)) segs (Inl e) :: (unit, _) outcome) = Ok dm"
      and m: "msgs = member_messages (do_resolved dm) (error_of (Inl e)) @ map HealthNote evs @ [ObdData c [] (Some e) None] @ map SubscriptionDone fin"
    by auto
  from dm have "do_resolved dm = map unanswered (concat segs)" by (auto simp: demux_error)
  then have "delivered (do_resolved dm) = []" by (simp add: delivered_def filter_empty_conv)
  then show ?thesis by (simp add: m q member_messages_def)
qed

text \<open>
  C11: a failed command stops polling exactly when the failure speaks for the link. The host gets one
  error and no data. When the exchange held a chunk, or no member of it belongs to an active
  continuous subscription, no subscription is paused by it. When every member went out alone and one
  of them is polled without limit by an active continuous subscription, polling stops: no
  subscription is active any more, nothing is in flight or registered, and the chain flag is down.
\<close>

theorem failure_policy:
  assumes "data_callback ord ck c (Inl e) s = Ok (s', msgs)" "xs_flight s c = Some segs" "manager_inv (xs_subs s)"
  shows "filter is_data_msg msgs = [ObdData c [] (Some e) None]
    \<and> (no_verdict segs (xs_subs s) \<longrightarrow> rel_option settled (get_sub i (xs_subs s)) (get_sub i (xs_subs s')))
    \<and> (polled_alone segs (xs_subs s) \<longrightarrow> (\<forall>x. get_sub i (xs_subs s') = Some x \<longrightarrow> state x \<noteq> Active)
         \<and> in_flight_pids (xs_subs s') = {} \<and> xs_flight s' = Map.empty \<and> \<not> chain_alive (xs_proc s')
         \<and> queue (xs_proc s') = queue (xs_proc s))"
proof -
  from assms(1) obtain segs' dm s3 s4 where d0: "segs' = fst (resolve_members c (xs_flight s))"
    "settle_reply ck c segs' (Inl e) (enter_callback c s) = Ok (dm, s3, msgs)"
    "if stops_chain segs' (Inl e) dm s3 then s4 = pause_everything s3 else next_exchange ord (ck_mono ck) s3 = Ok s4"
    "s' = s4 \<lparr> xs_proc := (xs_proc s4) \<lparr> completion_guards := completion_guards (xs_proc s4) - 1 \<rparr> \<rparr>"
    by (rule data_callback_cases)
  have sg: "segs' = segs" using d0(1) assms(2) by (simp add: resolve_members_def)
  note d = d0 [unfolded sg]
  note f = settle_reply_spec [OF d(2)]
  have mem: "map rs_member (do_resolved dm) = concat segs" by (rule demux_members [OF f(2)])
  have st: "settled_table (xs_subs s) (xs_subs s3)"
    using complete_members_settled [OF assms(3)] by (simp add: settle_reply_subs [OF d(2)])
  have stop: "stops_chain segs (Inl e) dm s3 \<longleftrightarrow> \<not> list_ex (\<lambda>ms. length ms > 1) segs \<and> \<not> probe_only (concat segs) (xs_subs s3)"
    by (simp add: stops_chain_def error_of_def chunk_transport_error_def mem)
  have goes_on: "rel_option settled (get_sub i (xs_subs s)) (get_sub i (xs_subs s'))" if "\<not> stops_chain segs (Inl e) dm s3"
    using that d(3) next_exchange_subs [of ord "ck_mono ck" s3 s4] settled_lookup [OF st, of i] by (simp add: d(4) get_sub_def)
  have halted: "(\<forall>x. get_sub i (xs_subs s') = Some x \<longrightarrow> state x \<noteq> Active) \<and> in_flight_pids (xs_subs s') = {}
      \<and> xs_flight s' = Map.empty \<and> \<not> chain_alive (xs_proc s') \<and> queue (xs_proc s') = queue (xs_proc s)"
    if "stops_chain segs (Inl e) dm s3"
  proof -
    from that d(3) have "s4 = pause_everything s3" by simp
    then have e: "xs_subs s' = xs_subs (pause_everything s3)" "xs_flight s' = xs_flight (pause_everything s3)"
        "chain_alive (xs_proc s') = chain_alive (xs_proc (pause_everything s3))" "queue (xs_proc s') = queue (xs_proc (pause_everything s3))"
      by (simp_all add: d(4))
    have q: "queue (xs_proc (pause_everything s3)) = queue (xs_proc s)"
      using f(5) by (simp add: pause_everything_ends(4))
    show ?thesis unfolding e
      by (intro conjI allI impI pause_everything_ends(1-3) q) (erule pause_everything_stops)
  qed
  have "\<not> stops_chain segs (Inl e) dm s3" if "no_verdict segs (xs_subs s)"
    using no_verdict_stays [OF st that f(1)] unfolding stop by simp
  then have A: "no_verdict segs (xs_subs s) \<longrightarrow> rel_option settled (get_sub i (xs_subs s)) (get_sub i (xs_subs s'))"
    by (intro impI goes_on)
  have "stops_chain segs (Inl e) dm s3" if "polled_alone segs (xs_subs s)"
    using polled_alone_stays [OF st that] unfolding stop by simp
  then have "polled_alone segs (xs_subs s) \<longrightarrow> (\<forall>x. get_sub i (xs_subs s') = Some x \<longrightarrow> state x \<noteq> Active)
      \<and> in_flight_pids (xs_subs s') = {} \<and> xs_flight s' = Map.empty \<and> \<not> chain_alive (xs_proc s') \<and> queue (xs_proc s') = queue (xs_proc s)"
    by (intro impI halted)
  with A failed_reply_messages [OF assms(1,2)] show ?thesis by (intro conjI)
qed

theorem failure_policy_witness:
  "\<exists>s' msgs. data_callback (\<lambda>xs. xs) (demo_clock 2) ''010C|0105'' (Inl ''NO LINK'') batch_demo = Ok (s', msgs)
    \<and> filter is_data_msg msgs = [ObdData ''010C|0105'' [] (Some ''NO LINK'') None] \<and> \<not> chain_alive (xs_proc s')"
proof -
  have "case data_callback (\<lambda>xs. xs) (demo_clock 2) ''010C|0105'' (Inl ''NO LINK'') batch_demo of Ok _ \<Rightarrow> True | _ \<Rightarrow> False"
    by code_simp
  then obtain s' msgs where c: "data_callback (\<lambda>xs. xs) (demo_clock 2) ''010C|0105'' (Inl ''NO LINK'') batch_demo = Ok (s', msgs)"
    by (auto split: outcome.splits)
  have fl: "xs_flight batch_demo ''010C|0105'' = Some [[''010C''], [''0105'']]" "xs_subs batch_demo = demo"
    by (simp_all add: batch_demo_def loop_demo_def)
  have "list_ex (\<lambda>(i, x). list_ex (\<lambda>p. continuous_owner p x) [''010C'', ''0105'']) (subscriptions demo)" by code_simp
  then have "\<exists>(i, x) \<in> set (subscriptions demo). \<exists>p \<in> {''010C'', ''0105''}. continuous_owner p x" by (force simp: list_ex_iff)
  with failure_policy [OF c fl(1)] reachable_inv [OF demo_reachable] show ?thesis by (simp add: c fl polled_alone_def)
qed

end
