(* ===== verification/PeriodicSession.thy ===== *)
theory PeriodicSession
  imports PollChain DviLink StnEngine
begin

text \<open>
  The session's bracket around a periodic engine (\<^verbatim>\<open>src/session_manager/sp_runtime.rs\<close>, the silence
  watchdog of \<^verbatim>\<open>callbacks.rs\<close>): the gate that decides whether the active signals can go periodic, the
  plan, the quiescing of the poll loop, and the way back to polling. It is written against the record of
  engine operations and proved against the contract \<open>periodic_engine\<close> alone; the results are then read off
  for both engines of the code.

  While the bracket waits, the rest of the session runs on: what happens then is a list of session events
  of \<open>PollChain\<close>. The order in which a set of PIDs is walked is a parameter, as is whether the host
  detached its tap in time. The JSON of the delivered signals is not modelled.
\<close>

section \<open>State\<close>

record ActivePeriodic =
  ap_paused :: "uuid list"
  ap_served :: "string list"

record 's Bracket =
  br_session :: Session
  br_engine :: 's
  br_active :: "ActivePeriodic option"
  br_streaming :: bool
  br_last_rx :: nat
  br_armed :: nat
  br_backoff :: nat

record PeriodicFacts =
  pf_supported :: bool
  pf_concurrent :: bool
  pf_periods :: TierPeriods

datatype StartError =
    NoPeriodicEngine
  | StreamLive
  | AlreadyActive
  | NothingToPoll
  | WaitingForLength string
  | Misfit string
  | NoPhysicalAddress string
  | NoEligible
  | EngineFailed PeriodicError

definition PERIODIC_SILENT_MS :: nat where "PERIODIC_SILENT_MS = 3000"
definition PERIODIC_BACKOFF_MS :: nat where "PERIODIC_BACKOFF_MS = 30000"

section \<open>The gate and the plan\<close>

definition snapshot_tier :: "RefreshTier option \<Rightarrow> RefreshTier" where
  "snapshot_tier t = (case t of Some Fast \<Rightarrow> Fast | Some Slow \<Rightarrow> Slow | _ \<Rightarrow> Medium)"

definition sub_signals :: "(string set \<Rightarrow> string list) \<Rightarrow> Manager \<Rightarrow> Subscription \<Rightarrow> stn_signal list" where
  "sub_signals ord m s =
     (if state s \<noteq> Active then []
      else map (\<lambda>p. (p, target_controller s, snapshot_tier (get_pid_tier p m)))
             (filter (\<lambda>p. case pid_run_counts s p of Some (Some _) \<Rightarrow> False | _ \<Rightarrow> True) (ord (pids s))))"

definition periodic_signals :: "(string set \<Rightarrow> string list) \<Rightarrow> Manager \<Rightarrow> stn_signal list" where
  "periodic_signals ord m = concat (map (\<lambda>(_, s). sub_signals ord m s) (subscriptions m))"

fun length_gate :: "LengthCache \<Rightarrow> stn_signal list \<Rightarrow> StartError option" where
  "length_gate c [] = None"
| "length_gate c ((pid, _) # sigs) =
     (case lc_get c pid of
        None \<Rightarrow> Some (WaitingForLength pid)
      | Some len \<Rightarrow> if 1 + member_cost pid len > 7 then Some (Misfit pid) else length_gate c sigs)"

fun resolve_headers :: "Bus \<Rightarrow> stn_signal list \<Rightarrow> StartError + stn_signal list" where
  "resolve_headers bs [] = Inr []"
| "resolve_headers bs ((pid, tgt, tier) # sigs) =
     (case (case tgt of
              None \<Rightarrow> Inr None
            | Some t \<Rightarrow> (case from_target bs t of None \<Rightarrow> Inl (NoPhysicalAddress t) | Some c \<Rightarrow> Inr (Some (request_header bs c)))) of
        Inl e \<Rightarrow> Inl e
      | Inr h \<Rightarrow> (case resolve_headers bs sigs of Inl e \<Rightarrow> Inl e | Inr rest \<Rightarrow> Inr ((pid, h, tier) # rest)))"

definition default_header :: "Bus \<Rightarrow> Controller option \<Rightarrow> string" where
  "default_header bs primary =
     request_header bs (case primary of
         Some c \<Rightarrow> c
       | None \<Rightarrow> (case addressing bs of Can11 \<Rightarrow> \<lparr> ctl_id = 0x7E0 \<rparr> | Can29 _ \<Rightarrow> \<lparr> ctl_id = 0x10 \<rparr>))"

definition plan_lengths :: "LengthCache \<Rightarrow> stn_signal list \<Rightarrow> string \<Rightarrow> u8 option" where
  "plan_lengths c sigs p = (if p \<in> fst ` set sigs then lc_get c p else None)"

definition periodic_plan ::
  "PeriodicFacts \<Rightarrow> (string set \<Rightarrow> string list) \<Rightarrow> Session \<Rightarrow> (unit, StartError + PeriodicPlan) outcome" where
  "periodic_plan pf ord s =
     (let sigs = periodic_signals ord (xs_subs s);
          cache = pp_cache (xs_plugin s);
          bs = bus_of (xs_addressing s)
      in if sigs = [] then Ok (Inl NothingToPoll)
         else case length_gate cache sigs of
             Some e \<Rightarrow> Ok (Inl e)
           | None \<Rightarrow>
               (case resolve_headers bs sigs of
                  Inl e \<Rightarrow> Ok (Inl e)
                | Inr resolved \<Rightarrow>
                    and_then (build_periodic_set resolved (admission (xs_plugin s)) (default_header bs (xs_primary s)) (pf_periods pf) True)
                      (\<lambda>(messages, leftovers).
                         Ok (if messages = [] then Inl NoEligible
                             else Inr \<lparr> pp_messages = messages, pp_lengths = plan_lengths cache sigs \<rparr>))))"

section \<open>Starting, arming, stopping\<close>

definition set_hold :: "bool \<Rightarrow> Session \<Rightarrow> Session" where
  "set_hold b s = s \<lparr> xs_proc := (xs_proc s) \<lparr> hold_dispatch := b \<rparr> \<rparr>"

definition with_subs :: "(Manager \<Rightarrow> Manager) \<Rightarrow> Session \<Rightarrow> Session" where
  "with_subs f s = s \<lparr> xs_subs := f (xs_subs s) \<rparr>"

text \<open>What the other threads do while the bracket waits.\<close>

definition meanwhile :: "SEvent list \<Rightarrow> Session \<Rightarrow> Session" where
  "meanwhile evs s = (case xrun evs s of None \<Rightarrow> s | Some t \<Rightarrow> t)"

definition kick_all :: "uuid list \<Rightarrow> real \<Rightarrow> Session \<Rightarrow> Session" where
  "kick_all ids now s = foldl (\<lambda>s i. kick_pipeline_if_idle i now s) s ids"

definition pause_and_drain :: "SEvent list \<Rightarrow> Session \<Rightarrow> Session \<times> uuid list" where
  "pause_and_drain evs s =
     (let (m, paused) = pause_all_active (xs_subs s);
          s1 = s \<lparr> xs_subs := clear_in_flight m, xs_proc := (xs_proc s) \<lparr> queue := [] \<rparr> \<rparr>
      in (meanwhile evs s1, paused))"

definition resume_polling :: "uuid list \<Rightarrow> real \<Rightarrow> Session \<Rightarrow> Session" where
  "resume_polling ids now s = kick_all ids now (with_subs (resume_many ids) s)"

definition start_stn_periodic ::
  "'s Engine \<Rightarrow> PeriodicFacts \<Rightarrow> (string set \<Rightarrow> string list) \<Rightarrow> SEvent list \<Rightarrow> SEvent list \<Rightarrow> real \<Rightarrow> 's Bracket
    \<Rightarrow> (unit, 's Bracket \<times> (StartError + nat)) outcome" where
  "start_stn_periodic E pf ord draining installing now b =
     (if \<not> pf_supported pf then Ok (b, Inl NoPeriodicEngine)
      else if br_streaming b then Ok (b, Inl StreamLive)
      else if br_active b \<noteq> None then Ok (b, Inl AlreadyActive)
      else and_then (periodic_plan pf ord (br_session b)) (\<lambda>p.
        case p of
          Inl e \<Rightarrow> Ok (b, Inl e)
        | Inr plan \<Rightarrow>
            (let (s1, paused) = (if pf_concurrent pf then (set_hold True (br_session b), [])
                                 else pause_and_drain draining (br_session b));
                 (eng, r) = eg_start E plan (br_engine b);
                 s2 = meanwhile installing s1
             in case r of
                  Inl e \<Rightarrow>
                    Ok (b \<lparr> br_engine := eng,
                            br_session := if pf_concurrent pf then set_hold False s2 else resume_polling paused now s2 \<rparr>,
                        Inl (EngineFailed e))
                | Inr inst \<Rightarrow>
                    (let served = (if pf_concurrent pf then pi_served inst else []);
                         s3 = (if pf_concurrent pf then set_hold False (with_subs (set_streamed_pids (set served)) s2)
                               else set_hold True s2)
                     in Ok (b \<lparr> br_engine := eng, br_session := s3,
                                br_active := Some \<lparr> ap_paused = paused, ap_served = served \<rparr>,
                                br_last_rx := 0, br_armed := 0 \<rparr>,
                            Inr (length (pp_messages plan)))))))"

definition arm_periodic_transport :: "'s Engine \<Rightarrow> nat \<Rightarrow> 's Bracket \<Rightarrow> 's Bracket \<times> ((PeriodicError option) + unit)" where
  "arm_periodic_transport E now_ms b =
     (case br_active b of
        None \<Rightarrow> (b, Inl None)
      | Some _ \<Rightarrow>
          (let (eng, r) = eg_arm E (br_engine b)
           in case r of
                Inl e \<Rightarrow> (b \<lparr> br_engine := eng \<rparr>, Inl (Some e))
              | Inr () \<Rightarrow> (b \<lparr> br_engine := eng, br_armed := now_ms \<rparr>, Inr ())))"

text \<open>A decoded batch reaches the host, the counters and the watchdog's clock.\<close>

definition periodic_sink :: "(ParsedResponse \<Rightarrow> string) \<Rightarrow> Clock \<Rightarrow> split_out \<Rightarrow> 's Bracket \<Rightarrow> 's Bracket \<times> HostMsg list" where
  "periodic_sink debug ck batch b =
     (let s = br_session b; n = length batch;
          (h, evs) = on_signals n (ck_ms ck) (xs_health s)
      in (b \<lparr> br_last_rx := ck_ms ck,
              br_session := s \<lparr> xs_proc := record_signal_completions n (ck_mono ck) (xs_proc s), xs_health := h \<rparr> \<rparr>,
          map (\<lambda>(pid, p). ObdData pid (debug p) None (Some p)) batch @ map HealthNote evs))"

definition active_ids :: "Manager \<Rightarrow> uuid list" where
  "active_ids m = map fst (filter (\<lambda>(_, s). state s = Active) (subscriptions m))"

definition stop_stn_periodic :: "'s Engine \<Rightarrow> bool \<Rightarrow> SEvent list \<Rightarrow> real \<Rightarrow> 's Bracket \<Rightarrow> 's Bracket" where
  "stop_stn_periodic E tap_detached detaching now b =
     (case br_active b of
        None \<Rightarrow> b
      | Some a \<Rightarrow>
          (let eng = eg_break E (br_engine b);
               s1 = set_hold False (meanwhile detaching (br_session b));
               s2 = with_subs (set_streamed_pids {}) (resume_polling (ap_paused a) now s1)
           in b \<lparr> br_engine := (if tap_detached then eg_teardown E eng else eg_abandon E eng), br_active := None,
                  br_session := kick_all (active_ids (xs_subs s2)) now s2 \<rparr>))"

definition periodic_silence_check :: "'s Engine \<Rightarrow> bool \<Rightarrow> SEvent list \<Rightarrow> nat \<Rightarrow> real \<Rightarrow> 's Bracket \<Rightarrow> 's Bracket" where
  "periodic_silence_check E tap_detached detaching now_ms now b =
     (if br_active b = None \<or> br_armed b = 0 then b
      else if now_ms - max (br_last_rx b) (br_armed b) < PERIODIC_SILENT_MS then b
      else stop_stn_periodic E tap_detached detaching now
             (b \<lparr> br_backoff := now_ms + PERIODIC_BACKOFF_MS, br_armed := 0 \<rparr>))"

section \<open>The fields the bracket touches\<close>

lemma set_hold_fields [simp]:
  "xs_subs (set_hold h s) = xs_subs s" "hold_dispatch (xs_proc (set_hold h s)) = h"
  by (simp_all add: set_hold_def)

lemma with_subs_fields [simp]: "xs_subs (with_subs f s) = f (xs_subs s)" "xs_proc (with_subs f s) = xs_proc s"
  by (simp_all add: with_subs_def)

lemma queue_command_hold [simp]: "hold_dispatch (fst (queue_command c t now p)) = hold_dispatch p"
  by (simp add: queue_command_def)

lemma kick_fields [simp]:
  "hold_dispatch (xs_proc (kick_pipeline_if_idle i now s)) = hold_dispatch (xs_proc s)"
  "subscriptions (xs_subs (kick_pipeline_if_idle i now s)) = subscriptions (xs_subs s)"
  "streamed_pids (xs_subs (kick_pipeline_if_idle i now s)) = streamed_pids (xs_subs s)"
  by (simp_all add: kick_pipeline_if_idle_def case_prod_beta try_claim_chain_def queue_command_fields clear_in_flight_def split: option.split)

lemma kick_all_fields [simp]:
  "hold_dispatch (xs_proc (kick_all ids now s)) = hold_dispatch (xs_proc s)"
  "subscriptions (xs_subs (kick_all ids now s)) = subscriptions (xs_subs s)"
  "streamed_pids (xs_subs (kick_all ids now s)) = streamed_pids (xs_subs s)"
proof -
  have "hold_dispatch (xs_proc (kick_all ids now s)) = hold_dispatch (xs_proc s)
      \<and> subscriptions (xs_subs (kick_all ids now s)) = subscriptions (xs_subs s)
      \<and> streamed_pids (xs_subs (kick_all ids now s)) = streamed_pids (xs_subs s)"
    unfolding kick_all_def by (induction ids arbitrary: s) simp_all
  then show "hold_dispatch (xs_proc (kick_all ids now s)) = hold_dispatch (xs_proc s)"
    "subscriptions (xs_subs (kick_all ids now s)) = subscriptions (xs_subs s)"
    "streamed_pids (xs_subs (kick_all ids now s)) = streamed_pids (xs_subs s)" by simp_all
qed

lemma resume_one_streamed [simp]: "streamed_pids (resume_one i m) = streamed_pids m"
  by (simp add: resume_one_def split: option.split)

lemma resume_many_streamed [simp]: "streamed_pids (resume_many ids m) = streamed_pids m"
  unfolding resume_many_def by (induction ids arbitrary: m) simp_all

lemma resume_polling_fields [simp]:
  "hold_dispatch (xs_proc (resume_polling ids now s)) = hold_dispatch (xs_proc s)"
  "subscriptions (xs_subs (resume_polling ids now s)) = subscriptions (resume_many ids (xs_subs s))"
  "streamed_pids (xs_subs (resume_polling ids now s)) = streamed_pids (xs_subs s)"
  by (simp_all add: resume_polling_def)

section \<open>What the rest of the session leaves alone\<close>

text \<open>The hold and the skip set belong to the bracket: nobody else writes them while the session is connected.\<close>

fun bracket_free :: "SEvent \<Rightarrow> bool" where
  "bracket_free (HostOp (SetStreamed ps)) = False"
| "bracket_free (DispatchOp (SetHold h)) = False"
| "bracket_free _ = True"

lemma act_hold: "act e p = Next q \<Longrightarrow> dispatch_event e \<Longrightarrow> (\<And>h. e \<noteq> SetHold h) \<Longrightarrow> hold_dispatch q = hold_dispatch p"
  by (cases e) (auto simp: Let_def case_prod_beta split: WorkerPc.splits list.splits if_splits)

lemma next_exchange_bracket:
  assumes "next_exchange ord now s = Ok s'"
  shows "hold_dispatch (xs_proc s') = hold_dispatch (xs_proc s) \<and> streamed_pids (xs_subs s') = streamed_pids (xs_subs s)"
  using assms
proof (cases rule: next_exchange_cases)
  case (stalled m)
  then show ?thesis using next_commands_spec(2) [OF stalled(1)] by simp
next
  case (sent m picks cmd)
  have "hold_dispatch (xs_proc (send_wire c t now s)) = hold_dispatch (xs_proc s)" for c t s
    by (simp add: send_wire_def Let_def split: option.split)
  with sent(5) show ?thesis using next_commands_spec(2) [OF sent(1)] by auto
qed

lemma completed_streamed [simp]: "streamed_pids (fst (command_completed pid resp ts m)) = streamed_pids m"
  by (simp add: command_completed_def count_response_def Let_def case_prod_beta split: option.split)

lemma complete_members_streamed [simp]: "streamed_pids (cp_subs (complete_members ts rs m)) = streamed_pids m"
proof -
  have "streamed_pids (cp_subs (foldl (complete_member ts) c rs)) = streamed_pids (cp_subs c)" for c
    by (induction rs arbitrary: c) (simp_all add: complete_member_def case_prod_beta)
  then show ?thesis by (simp add: complete_members_def)
qed

lemma settle_reply_bracket:
  assumes "settle_reply ck c segs outcome s = Ok (dm, s', msgs)"
  shows "hold_dispatch (xs_proc s') = hold_dispatch (xs_proc s) \<and> streamed_pids (xs_subs s') = streamed_pids (xs_subs s)"
proof -
  obtain s1 m1 where ab: "absorb ck c segs outcome dm s = (s1, m1)" by fastforce
  from assms have "concat segs \<noteq> []" by (auto simp: settle_reply_def split: if_splits)
  with assms ab obtain pt where pt: "mark_command_completed c (ck_mono ck) (xs_proc s1) = Ok pt"
      "s' = fst (finish_members ck c segs outcome dm pt s1)"
    by (auto simp: settle_reply_def and_then_Ok case_prod_beta Let_def simp del: concat_eq_Nil_conv)
  from pt(1) have "hold_dispatch (fst pt) = hold_dispatch (xs_proc s1)"
    using mark_completed_spec(8) [of c "ck_mono ck" "xs_proc s1" "fst pt" "snd pt"] by simp
  moreover have "hold_dispatch (xs_proc s1) = hold_dispatch (xs_proc s)"
    using ab by (auto simp: absorb_def Let_def record_signal_completions_def case_prod_beta split: if_splits)
  ultimately show ?thesis using absorb_fields(1) [OF ab] by (simp add: pt(2) finish_members_def Let_def)
qed

lemma pause_everything_bracket:
  "hold_dispatch (xs_proc (pause_everything s)) = hold_dispatch (xs_proc s)"
  "streamed_pids (xs_subs (pause_everything s)) = streamed_pids (xs_subs s)"
proof -
  have "streamed_pids (fst (pause_subscription i m)) = streamed_pids m" for i m
    by (simp add: pause_subscription_def split: option.split)
  then have "streamed_pids (foldl (\<lambda>m i. fst (pause_subscription i m)) m is) = streamed_pids m" for "is" m
    by (induction "is" arbitrary: m) simp_all
  then show "streamed_pids (xs_subs (pause_everything s)) = streamed_pids (xs_subs s)"
    by (simp add: pause_everything_def Let_def clear_in_flight_def)
  show "hold_dispatch (xs_proc (pause_everything s)) = hold_dispatch (xs_proc s)"
    by (simp add: pause_everything_def Let_def)
qed

lemma data_callback_bracket:
  assumes "data_callback ord ck c outcome s = Ok (s', msgs)"
  shows "hold_dispatch (xs_proc s') = hold_dispatch (xs_proc s) \<and> streamed_pids (xs_subs s') = streamed_pids (xs_subs s)"
proof -
  from assms obtain segs dm s3 s4 where d: "settle_reply ck c segs outcome (enter_callback c s) = Ok (dm, s3, msgs)"
    "if stops_chain segs outcome dm s3 then s4 = pause_everything s3 else next_exchange ord (ck_mono ck) s3 = Ok s4"
    "s' = s4 \<lparr> xs_proc := (xs_proc s4) \<lparr> completion_guards := completion_guards (xs_proc s4) - 1 \<rparr> \<rparr>"
    by (rule data_callback_cases)
  have "hold_dispatch (xs_proc (enter_callback c s)) = hold_dispatch (xs_proc s)" by (simp add: enter_callback_def)
  with settle_reply_bracket [OF d(1)] have "hold_dispatch (xs_proc s3) = hold_dispatch (xs_proc s) \<and> streamed_pids (xs_subs s3) = streamed_pids (xs_subs s)"
    by simp
  with d(2,3) next_exchange_bracket [of ord "ck_mono ck" s3 s4] pause_everything_bracket [of s3] show ?thesis
    by (auto split: if_splits)
qed

lemma host_op_streamed:
  assumes "host_op opn" "\<And>ps. opn \<noteq> SetStreamed ps"
  shows "streamed_pids (exec_op opn m) = streamed_pids m"
proof (cases opn)
  case (SetStreamed ps)
  with assms(2) show ?thesis by blast
qed (use assms(1) in \<open>simp_all add: create_subscription_def set_subscription_timeout_def start_subscription_def pause_subscription_def
        pause_all_active_def cancel_subscription_def add_pids_with_run_counts_def remove_pids_def set_pid_tiers_def
        clear_in_flight_def log_audit_event_def touch_and_audit_def push_audit_def Let_def
        split: option.splits if_splits prod.splits SubscriptionState.splits\<close>)

lemma xstep_bracket:
  assumes "bracket_free e" "xstep e s = Some t"
  shows "hold_dispatch (xs_proc t) = hold_dispatch (xs_proc s) \<and> streamed_pids (xs_subs t) = streamed_pids (xs_subs s)"
proof (cases e)
  case (HostOp opn)
  with assms(1) have "opn \<noteq> SetStreamed ps" for ps by auto
  with assms(2) HostOp show ?thesis using host_op_streamed [of opn "xs_subs s"] by (auto split: if_splits)
next
  case (DispatchOp ev)
  with assms(1) have "ev \<noteq> SetHold h" for h by auto
  with assms(2) DispatchOp show ?thesis using act_hold [of ev "xs_proc s"] by (auto split: if_splits result.splits)
next
  case (ReplyOp ord ck c outcome)
  with assms show ?thesis using data_callback_bracket by (auto split: outcome.splits)
qed (use assms in \<open>auto simp: send_command_def case_prod_beta\<close>)

lemma meanwhile_bracket:
  assumes "list_all bracket_free evs"
  shows "hold_dispatch (xs_proc (meanwhile evs s)) = hold_dispatch (xs_proc s)
    \<and> streamed_pids (xs_subs (meanwhile evs s)) = streamed_pids (xs_subs s)"
proof -
  have "xrun evs s = Some t \<Longrightarrow> hold_dispatch (xs_proc t) = hold_dispatch (xs_proc s) \<and> streamed_pids (xs_subs t) = streamed_pids (xs_subs s)" for t
    using assms by (induction evs arbitrary: s) (auto split: option.splits dest: xstep_bracket)
  then show ?thesis by (simp add: meanwhile_def split: option.split)
qed

section \<open>Runs of the bracket\<close>

text \<open>
  Everything that happens to the bracket and the session around it, from a session that is polling: the
  lifecycle operations, decoded batches, the watchdog, and the events of the session itself.
\<close>

inductive bracket_run :: "'s Engine \<Rightarrow> PeriodicFacts \<Rightarrow> 's Bracket \<Rightarrow> bool" for E pf where
  polling: "\<not> eg_live E (br_engine b) \<Longrightarrow> br_active b = None \<Longrightarrow> \<not> hold_dispatch (xs_proc (br_session b)) \<Longrightarrow>
    streamed_pids (xs_subs (br_session b)) = {} \<Longrightarrow> bracket_run E pf b"
| start: "bracket_run E pf b \<Longrightarrow> start_stn_periodic E pf ord ds is now b = Ok (b', r) \<Longrightarrow>
    list_all bracket_free (ds @ is) \<Longrightarrow> bracket_run E pf b'"
| arm: "bracket_run E pf b \<Longrightarrow> bracket_run E pf (fst (arm_periodic_transport E t b))"
| batch: "bracket_run E pf b \<Longrightarrow> bracket_run E pf (fst (periodic_sink debug ck batch b))"
| stop: "bracket_run E pf b \<Longrightarrow> list_all bracket_free evs \<Longrightarrow> bracket_run E pf (stop_stn_periodic E det evs now b)"
| silence: "bracket_run E pf b \<Longrightarrow> list_all bracket_free evs \<Longrightarrow> bracket_run E pf (periodic_silence_check E det evs t now b)"
| session: "bracket_run E pf b \<Longrightarrow> bracket_free e \<Longrightarrow> xstep e (br_session b) = Some s' \<Longrightarrow> bracket_run E pf (b \<lparr> br_session := s' \<rparr>)"

inductive_cases bracket_runE: "bracket_run E pf b"

definition bracket_ok :: "'s Engine \<Rightarrow> PeriodicFacts \<Rightarrow> 's Bracket \<Rightarrow> bool" where
  "bracket_ok E pf b \<longleftrightarrow>
     (eg_live E (br_engine b) \<longleftrightarrow> br_active b \<noteq> None)
     \<and> (hold_dispatch (xs_proc (br_session b)) \<longleftrightarrow> br_active b \<noteq> None \<and> \<not> pf_concurrent pf)
     \<and> streamed_pids (xs_subs (br_session b)) = (case br_active b of None \<Rightarrow> {} | Some a \<Rightarrow> set (ap_served a))"

lemma drain_fields:
  assumes "list_all bracket_free evs"
  shows "hold_dispatch (xs_proc (fst (pause_and_drain evs s))) = hold_dispatch (xs_proc s)"
    "streamed_pids (xs_subs (fst (pause_and_drain evs s))) = streamed_pids (xs_subs s)"
    "snd (pause_and_drain evs s) = active_ids (xs_subs s)"
  using meanwhile_bracket [OF assms]
  by (simp_all add: pause_and_drain_def Let_def pause_all_active_def clear_in_flight_def active_ids_def case_prod_unfold)

lemma start_cases:
  assumes "start_stn_periodic E pf ord ds is now b = Ok (b', r)"
  obtains (refused) e where "b' = b" "r = Inl e"
  | (failed) plan s1 paused eng e where "periodic_plan pf ord (br_session b) = Ok (Inr plan)" "br_active b = None"
      "(s1, paused) = (if pf_concurrent pf then (set_hold True (br_session b), []) else pause_and_drain ds (br_session b))"
      "eg_start E plan (br_engine b) = (eng, Inl e)" "r = Inl (EngineFailed e)"
      "b' = b \<lparr> br_engine := eng, br_session := if pf_concurrent pf then set_hold False (meanwhile is s1)
                   else resume_polling paused now (meanwhile is s1) \<rparr>"
  | (started) plan s1 paused eng inst where "periodic_plan pf ord (br_session b) = Ok (Inr plan)" "br_active b = None"
      "(s1, paused) = (if pf_concurrent pf then (set_hold True (br_session b), []) else pause_and_drain ds (br_session b))"
      "eg_start E plan (br_engine b) = (eng, Inr inst)" "r = Inr (length (pp_messages plan))"
      "b' = b \<lparr> br_engine := eng,
          br_session := if pf_concurrent pf then set_hold False (with_subs (set_streamed_pids (set (pi_served inst))) (meanwhile is s1))
            else set_hold True (meanwhile is s1),
          br_active := Some \<lparr> ap_paused = paused, ap_served = if pf_concurrent pf then pi_served inst else [] \<rparr>,
          br_last_rx := 0, br_armed := 0 \<rparr>"
proof (cases "pf_supported pf \<and> \<not> br_streaming b \<and> br_active b = None")
  case False
  with assms have "b' = b \<and> (\<exists>e. r = Inl e)" by (auto simp: start_stn_periodic_def split: if_splits)
  then show thesis using refused by blast
next
  case True
  with assms obtain p where p: "periodic_plan pf ord (br_session b) = Ok p"
    by (auto simp: start_stn_periodic_def and_then_Ok)
  show thesis
  proof (cases p)
    case (Inl e)
    with assms True p show thesis by (intro refused) (auto simp: start_stn_periodic_def)
  next
    case (Inr plan)
    obtain s1 paused where q: "(if pf_concurrent pf then (set_hold True (br_session b), []) else pause_and_drain ds (br_session b)) = (s1, paused)"
      by fastforce
    obtain eng v where e: "eg_start E plan (br_engine b) = (eng, v)" by fastforce
    show thesis
    proof (cases v)
      case (Inl x)
      with assms True p Inr q e show thesis by (intro failed [of plan s1 paused eng x]) (auto simp: start_stn_periodic_def Let_def)
    next
      case (Inr inst)
      with assms True p \<open>p = Inr plan\<close> q e show thesis
        by (intro started [of plan s1 paused eng inst]) (auto simp: start_stn_periodic_def Let_def)
    qed
  qed
qed

context periodic_engine
begin

lemma stop_ok:
  assumes "list_all bracket_free evs" "bracket_ok E pf b"
  shows "bracket_ok E pf (stop_stn_periodic E det evs now b)"
  using assms meanwhile_bracket [OF assms(1), of "br_session b"]
  by (auto simp: stop_stn_periodic_def bracket_ok_def Let_def teardown_ends abandon_ends set_streamed_pids_def split: option.split)

lemma start_ok:
  assumes "start_stn_periodic E pf ord ds is now b = Ok (b', r)" "list_all bracket_free (ds @ is)" "bracket_ok E pf b"
  shows "bracket_ok E pf b'"
  using assms(1)
proof (cases rule: start_cases)
  case (refused e)
  with assms(3) show ?thesis by simp
next
  case (failed plan s1 paused eng e)
  from assms(2) have q: "list_all bracket_free ds" "list_all bracket_free is" by simp_all
  have l: "\<not> eg_live E eng" using start_fails [OF failed(4)] assms(3) failed(2) by (simp add: bracket_ok_def)
  note m = meanwhile_bracket [OF q(2), of s1]
  show ?thesis
  proof (cases "pf_concurrent pf")
    case True
    with failed(3) m assms(3) failed(2) l show ?thesis by (simp add: bracket_ok_def failed(6))
  next
    case False
    with failed(3) have "s1 = fst (pause_and_drain ds (br_session b))" by (metis fst_conv)
    with drain_fields [OF q(1), of "br_session b"] False m assms(3) failed(2) l show ?thesis by (simp add: bracket_ok_def failed(6))
  qed
next
  case (started plan s1 paused eng inst)
  from assms(2) have q: "list_all bracket_free ds" "list_all bracket_free is" by simp_all
  have l: "eg_live E eng" using start_installs [OF started(4)] by simp
  note m = meanwhile_bracket [OF q(2), of s1]
  show ?thesis
  proof (cases "pf_concurrent pf")
    case True
    with l show ?thesis by (simp add: bracket_ok_def started(6) set_streamed_pids_def)
  next
    case False
    with started(3) have "s1 = fst (pause_and_drain ds (br_session b))" by (metis fst_conv)
    with drain_fields [OF q(1), of "br_session b"] False m assms(3) started(2) l show ?thesis by (simp add: bracket_ok_def started(6))
  qed
qed

lemma run_ok: "bracket_run E pf b \<Longrightarrow> bracket_ok E pf b"
proof (induction rule: bracket_run.induct)
  case (start b ord ds "is" now b' r)
  then show ?case using start_ok by blast
next
  case (arm b t)
  then show ?case
    using arm_live [of "br_engine b"] by (auto simp: arm_periodic_transport_def bracket_ok_def case_prod_beta split: option.splits sum.splits unit.splits)
next
  case (batch b debug ck batch)
  then show ?case by (auto simp: periodic_sink_def bracket_ok_def Let_def record_signal_completions_def case_prod_beta)
next
  case (stop b evs det now)
  then show ?case using stop_ok by blast
next
  case (silence b evs det t now)
  moreover from this have "bracket_ok E pf (b \<lparr> br_backoff := t + PERIODIC_BACKOFF_MS, br_armed := 0 \<rparr>)"
    by (simp add: bracket_ok_def)
  ultimately show ?case using stop_ok by (auto simp: periodic_silence_check_def)
next
  case (session b e s')
  then show ?case using xstep_bracket [of e "br_session b" s'] by (simp add: bracket_ok_def)
qed (simp add: bracket_ok_def)

end

section \<open>No poll of a served PID\<close>

lemma picks_not_streamed:
  assumes "get_next_commands ord n a m = (m', ds)" "d \<in> set ds"
  shows "dp_pid d \<notin> streamed_pids m"
  using next_commands_spec(1) [OF assms(1)] assms(2) eligible_pid unfolding picks_of_def by metis

lemma held_never_fetches: "hold_dispatch p \<Longrightarrow> act WReadHold p = Next q \<Longrightarrow> worker q = LoopHead"
  by (auto split: WorkerPc.splits)

section \<open>Polling comes back\<close>

lemma get_resumed:
  "get_sub i (resume_many ids m) =
     map_option (\<lambda>x. if i \<in> set ids \<and> state x = Paused \<and> \<not> host_paused x then x \<lparr> state := Active \<rparr> else x) (get_sub i m)"
proof (induction ids arbitrary: m)
  case (Cons j ids)
  have "get_sub i (resume_one j m) =
      map_option (\<lambda>x. if i = j \<and> state x = Paused \<and> \<not> host_paused x then x \<lparr> state := Active \<rparr> else x) (get_sub i m)"
    by (cases "get_sub i m") (auto simp: resume_one_def split: option.split)
  with Cons [of "resume_one j m"] show ?case
    by (cases "get_sub i m") (auto simp: resume_many_def)
qed (simp add: resume_many_def option.map_ident)

lemma get_sub_subs: "subscriptions m = subscriptions m' \<Longrightarrow> get_sub i m = get_sub i m'"
  by (simp add: get_sub_def)

lemma get_resume_polling: "get_sub i (xs_subs (resume_polling ids now s)) = get_sub i (resume_many ids (xs_subs s))"
  by (rule get_sub_subs) simp

lemma active_id: "get_sub i m = Some x \<Longrightarrow> state x = Active \<Longrightarrow> i \<in> set (active_ids m)"
  by (force simp: active_ids_def get_sub_def dest: map_of_SomeD)

text \<open>What the bracket paused and the host then left alone.\<close>

definition left_paused :: "uuid \<Rightarrow> Session \<Rightarrow> bool" where
  "left_paused i s \<longleftrightarrow> (case get_sub i (xs_subs s) of None \<Rightarrow> False | Some x \<Rightarrow> state x = Paused \<and> \<not> host_paused x)"

definition is_polled :: "uuid \<Rightarrow> Session \<Rightarrow> bool" where
  "is_polled i s \<longleftrightarrow> (case get_sub i (xs_subs s) of None \<Rightarrow> False | Some x \<Rightarrow> state x = Active)"

lemma resumed_is_polled: "i \<in> set ids \<Longrightarrow> left_paused i s \<or> is_polled i s \<Longrightarrow> is_polled i (resume_polling ids now s)"
  by (auto simp: left_paused_def is_polled_def get_resume_polling get_resumed split: option.splits)

lemma is_polled_cong: "subscriptions (xs_subs s) = subscriptions (xs_subs t) \<Longrightarrow> is_polled i s = is_polled i t"
  by (simp add: is_polled_def get_sub_def)

lemma stop_resumes:
  assumes "br_active b = Some a" "i \<in> set (ap_paused a)" "left_paused i (meanwhile evs (br_session b)) \<or> is_polled i (meanwhile evs (br_session b))"
  shows "is_polled i (br_session (stop_stn_periodic E det evs now b))"
proof -
  let ?s1 = "set_hold False (meanwhile evs (br_session b))"
  have "left_paused i ?s1 \<or> is_polled i ?s1" using assms(3) by (simp add: left_paused_def is_polled_def)
  from resumed_is_polled [OF assms(2) this, of now] have "is_polled i (resume_polling (ap_paused a) now ?s1)" .
  then show ?thesis
    using assms(1) by (simp add: stop_stn_periodic_def Let_def is_polled_def get_sub_def set_streamed_pids_def)
qed

section \<open>What the gate admits\<close>

lemma gate_budgets:
  assumes "length_gate c sigs = None" "sig \<in> set sigs"
  shows "\<exists>l. lc_get c (fst sig) = Some l \<and> \<not> 1 + member_cost (fst sig) l > 7"
  using assms by (induction c sigs rule: length_gate.induct) (auto split: option.splits if_splits)

lemma resolved_signals:
  "resolve_headers bs sigs = Inr out \<Longrightarrow> list_all2 (\<lambda>x y. fst y = fst x \<and> snd (snd y) = snd (snd x)) sigs out"
  by (induction bs sigs arbitrary: out rule: resolve_headers.induct) (auto split: option.splits sum.splits)

lemma plan_cases:
  assumes "periodic_plan pf ord s = Ok (Inr plan)"
  obtains resolved leftovers where "length_gate (pp_cache (xs_plugin s)) (periodic_signals ord (xs_subs s)) = None"
    "resolve_headers (bus_of (xs_addressing s)) (periodic_signals ord (xs_subs s)) = Inr resolved"
    "build_periodic_set resolved (admission (xs_plugin s)) (default_header (bus_of (xs_addressing s)) (xs_primary s)) (pf_periods pf) True
       = Ok (pp_messages plan, leftovers)" "pp_messages plan \<noteq> []"
  using assms by (auto simp: periodic_plan_def Let_def and_then_Ok split: if_splits option.splits sum.splits)

text \<open>
  A PID the wire can ask for: a mode and an echo, and a learned length whose sum with the echo fits a
  byte, as every length below 252 does.
\<close>

definition pollable :: "LengthCache \<Rightarrow> stn_signal \<Rightarrow> bool" where
  "pollable c sig \<longleftrightarrow> 2 \<le> length (fst sig) \<and> (\<forall>l. lc_get c (fst sig) = Some l \<longrightarrow> cost_of (fst sig, l) \<le> 254)"

lemma echo_len_upper [simp]: "echo_len (to_uppercase p) = echo_len p"
  by (simp add: echo_len_def to_uppercase_def)

lemma resolved_budgeted:
  assumes "length_gate (pp_cache p) sigs = None" "resolve_headers bs sigs = Inr resolved" "\<forall>sig \<in> set sigs. pollable (pp_cache p) sig"
    "y \<in> set resolved"
  shows "budgeted (admission p) y \<and> \<not> left_out (admission p) True (to_uppercase (fst y))"
proof -
  from list_all2_in [OF resolved_signals [OF assms(2)] assms(4)] obtain x where x: "x \<in> set sigs" "fst y = fst x" by blast
  from gate_budgets [OF assms(1) x(1)] obtain l where l: "lc_get (pp_cache p) (fst x) = Some l" "\<not> 1 + member_cost (fst x) l > 7" by blast
  have g: "get_len (admission p) (to_uppercase (fst y)) = Some l"
    using l(1) by (simp add: get_len_def admission_def lc_get_def x(2))
  have c: "cost_of (fst x, l) \<le> 254" "2 \<le> length (fst x)" using assms(3) x(1) l(1) by (auto simp: pollable_def)
  have "cost_of (learned (admission p) (to_uppercase (fst y))) = cost_of (fst x, l)"
    using g by (simp add: learned_def cost_of_def x(2))
  with g c single_frame_test [OF c(1)] l(2) show ?thesis by (simp add: budgeted_def left_out_def x(2))
qed


definition demo_facts_stn :: PeriodicFacts where
  "demo_facts_stn = \<lparr> pf_supported = True, pf_concurrent = False, pf_periods = default_periods \<rparr>"

definition learned_demo :: Session where
  "learned_demo = loop_demo \<lparr> xs_plugin := poll_new \<lparr> lengths = [''010C'' \<mapsto> 2, ''0105'' \<mapsto> 1], store_file = None \<rparr> \<rparr>"

definition list_pids :: "string set \<Rightarrow> string list" where
  "list_pids s = filter (\<lambda>p. p \<in> s) [''010C'', ''0105'']"

definition demo_bracket :: "StnState Bracket" where
  "demo_bracket = \<lparr> br_session = learned_demo, br_engine = stn_idle, br_active = None, br_streaming = False,
     br_last_rx = 0, br_armed = 0, br_backoff = 0 \<rparr>"

definition chip :: adapter where
  "chip w cmd = (if cmd = ''STM'' then None else if take 6 cmd = ''STPPMA'' then Some ''1'' else Some ''OK'')"

lemma demo_signals:
  "periodic_signals list_pids (xs_subs learned_demo) = [(''010C'', None, Fast), (''0105'', None, Slow)]"
  by code_simp

lemma demo_gate:
  "length_gate (pp_cache (xs_plugin learned_demo)) (periodic_signals list_pids (xs_subs learned_demo)) = None"
  "resolve_headers (bus_of (xs_addressing learned_demo)) (periodic_signals list_pids (xs_subs learned_demo))
     = Inr [(''010C'', None, Fast), (''0105'', None, Slow)]"
  unfolding demo_signals by code_simp+

definition started :: "StnState Bracket" where
  "started = (case start_stn_periodic (stn_engine chip None) demo_facts_stn list_pids [] [] 1 demo_bracket of
     Ok (b, _) \<Rightarrow> b | _ \<Rightarrow> demo_bracket)"

lemma demo_start:
  "start_stn_periodic (stn_engine chip None) demo_facts_stn list_pids [] [] 1 demo_bracket = Ok (started, Inr 2)"
proof -
  have "case start_stn_periodic (stn_engine chip None) demo_facts_stn list_pids [] [] 1 demo_bracket of
      Ok (b, Inr n) \<Rightarrow> n = 2 | _ \<Rightarrow> False"
    by code_simp
  then show ?thesis unfolding started_def by (cases "start_stn_periodic (stn_engine chip None) demo_facts_stn list_pids [] [] 1 demo_bracket") (auto split: sum.splits)
qed


text \<open>
  C16: the bracket and its engine agree at every moment. In any run, whatever the session does meanwhile,
  the session has an active set exactly when the engine is live; the worker is held exactly while a set is
  active on a link that cannot poll beside it; and on a link that can, no pick of the scheduler is a PID
  the set serves. This holds for the STN chip and for the DVI tool.
\<close>

theorem bracket_consistent:
  assumes "bracket_run (stn_engine ad refusal) pf b" "bracket_run (dvi_engine tool) pf' c"
  shows "(se_live (br_engine b) \<noteq> None \<longleftrightarrow> br_active b \<noteq> None)
    \<and> (eg_live (dvi_engine tool) (br_engine c) \<longleftrightarrow> br_active c \<noteq> None)
    \<and> (hold_dispatch (xs_proc (br_session b)) \<longleftrightarrow> br_active b \<noteq> None \<and> \<not> pf_concurrent pf)
    \<and> (hold_dispatch (xs_proc (br_session c)) \<longleftrightarrow> br_active c \<noteq> None \<and> \<not> pf_concurrent pf')
    \<and> (\<forall>a ord n adm m ds. br_active c = Some a \<longrightarrow> get_next_commands ord n adm (xs_subs (br_session c)) = (m, ds)
         \<longrightarrow> set (map dp_pid ds) \<inter> set (ap_served a) = {})"
proof -
  have b: "bracket_ok (stn_engine ad refusal) pf b" by (rule stn.run_ok [OF assms(1)])
  have c: "bracket_ok (dvi_engine tool) pf' c" by (rule dvi.run_ok [OF assms(2)])
  have "set (map dp_pid ds) \<inter> set (ap_served a) = {}"
    if "br_active c = Some a" "get_next_commands ord n adm (xs_subs (br_session c)) = (m, ds)" for a ord n adm m ds
    using c picks_not_streamed [OF that(2)] that(1) by (auto simp: bracket_ok_def)
  with b c show ?thesis by (simp add: bracket_ok_def stn_engine_def)
qed

definition demo_facts_dvi :: PeriodicFacts where
  "demo_facts_dvi = \<lparr> pf_supported = True, pf_concurrent = True, pf_periods = default_periods \<rparr>"

definition dvi_bracket :: "(DviState \<times> DviEffect list) Bracket" where
  "dvi_bracket = \<lparr> br_session = learned_demo, br_engine = (dvi_new Can11, []), br_active = None, br_streaming = False,
     br_last_rx = 0, br_armed = 0, br_backoff = 0 \<rparr>"

definition started_dvi :: "(DviState \<times> DviEffect list) Bracket" where
  "started_dvi = (case start_stn_periodic (dvi_engine (\<lambda>_. True)) demo_facts_dvi list_pids [] [] 1 dvi_bracket of
     Ok (b, _) \<Rightarrow> b | _ \<Rightarrow> dvi_bracket)"

lemma demo_start_dvi:
  "start_stn_periodic (dvi_engine (\<lambda>_. True)) demo_facts_dvi list_pids [] [] 1 dvi_bracket = Ok (started_dvi, Inr 2)"
proof -
  have "case start_stn_periodic (dvi_engine (\<lambda>_. True)) demo_facts_dvi list_pids [] [] 1 dvi_bracket of
      Ok (b, Inr n) \<Rightarrow> n = 2 | _ \<Rightarrow> False"
    by code_simp
  then show ?thesis unfolding started_dvi_def
    by (cases "start_stn_periodic (dvi_engine (\<lambda>_. True)) demo_facts_dvi list_pids [] [] 1 dvi_bracket") (auto split: sum.splits)
qed

lemma demo_quiet: "\<not> hold_dispatch (xs_proc learned_demo)" "streamed_pids (xs_subs learned_demo) = {}"
  by (simp_all add: learned_demo_def loop_demo_def proc_new_def demo_facts)

lemma started_run: "bracket_run (stn_engine chip None) demo_facts_stn started"
proof (rule bracket_run.start [OF _ demo_start])
  show "bracket_run (stn_engine chip None) demo_facts_stn demo_bracket"
    by (rule bracket_run.polling) (simp_all add: demo_bracket_def demo_quiet stn_engine_def stn_idle_def)
qed simp

lemma started_dvi_run: "bracket_run (dvi_engine (\<lambda>_. True)) demo_facts_dvi started_dvi"
proof (rule bracket_run.start [OF _ demo_start_dvi])
  show "bracket_run (dvi_engine (\<lambda>_. True)) demo_facts_dvi dvi_bracket"
    by (rule bracket_run.polling) (simp_all add: dvi_bracket_def demo_quiet dvi_engine_def dvi_new_def)
qed simp

lemma started_active: "br_active started \<noteq> None" "map_option ap_served (br_active started_dvi) = Some [''010C'', ''0105'']"
    "map_option ap_paused (br_active started) = Some [7]"
  by code_simp+

theorem bracket_consistent_witness:
  "se_live (br_engine started) \<noteq> None \<and> hold_dispatch (xs_proc (br_session started))
   \<and> \<not> hold_dispatch (xs_proc (br_session started_dvi))
   \<and> set (map dp_pid (snd (get_next_commands (\<lambda>xs. xs) 1 single_admission (xs_subs (br_session started_dvi)))))
       \<inter> {''010C'', ''0105''} = {}"
proof -
  obtain a where a: "br_active started_dvi = Some a" "ap_served a = [''010C'', ''0105'']" using started_active(2) by auto
  obtain m ds where g: "get_next_commands (\<lambda>xs. xs) 1 single_admission (xs_subs (br_session started_dvi)) = (m, ds)" by fastforce
  note c = bracket_consistent [OF started_run started_dvi_run]
  have "set (map dp_pid ds) \<inter> set (ap_served a) = {}" using c a(1) g by blast
  with c started_active(1) a g show ?thesis by (simp add: demo_facts_stn_def demo_facts_dvi_def)
qed

section \<open>The way back\<close>

text \<open>A subscription the host still wants: not cancelled, and paused by nobody but the bracket.\<close>

definition wanted :: "uuid \<Rightarrow> Session \<Rightarrow> bool" where
  "wanted i s \<longleftrightarrow> left_paused i s \<or> is_polled i s"



section \<open>The watchdog\<close>

text \<open>Batches and checks as they happen to a running set.\<close>

datatype Beat = Batch Clock split_out | Check nat real

fun beat_ms :: "Beat \<Rightarrow> nat" where
  "beat_ms (Batch ck out) = ck_ms ck"
| "beat_ms (Check t now) = t"

fun beat :: "'s Engine \<Rightarrow> 's Bracket \<Rightarrow> Beat \<Rightarrow> 's Bracket" where
  "beat E b (Batch ck out) = fst (periodic_sink (\<lambda>_. []) ck out b)"
| "beat E b (Check t now) = periodic_silence_check E True [] t now b"

definition heard :: "nat \<Rightarrow> Beat list \<Rightarrow> nat" where
  "heard h bs = last (h # concat (map (\<lambda>x. case x of Batch ck out \<Rightarrow> [ck_ms ck] | Check t now \<Rightarrow> []) bs))"

definition silent_check :: "nat \<Rightarrow> Beat list \<Rightarrow> nat \<Rightarrow> bool" where
  "silent_check h bs t \<longleftrightarrow> (\<exists>pre now post. bs = pre @ Check t now # post \<and> 3000 \<le> t - heard h pre)"

lemma heard_simps [simp]: "heard h [] = h" "heard h (Batch ck out # bs) = heard (ck_ms ck) bs" "heard h (Check t now # bs) = heard h bs"
  by (simp_all add: heard_def)

lemma silent_nil [simp]: "silent_check h [] = (\<lambda>t. False)"
  by (simp add: silent_check_def fun_eq_iff)

lemma silent_batch [simp]: "silent_check h (Batch ck out # bs) t \<longleftrightarrow> silent_check (ck_ms ck) bs t"
proof
  assume "silent_check h (Batch ck out # bs) t"
  then obtain pre now post where p: "Batch ck out # bs = pre @ Check t now # post" "3000 \<le> t - heard h pre" by (auto simp: silent_check_def)
  then obtain pre' where "pre = Batch ck out # pre'" "bs = pre' @ Check t now # post" by (cases pre) auto
  with p(2) show "silent_check (ck_ms ck) bs t" by (auto simp: silent_check_def)
next
  assume "silent_check (ck_ms ck) bs t"
  then obtain pre now post where "bs = pre @ Check t now # post" "3000 \<le> t - heard (ck_ms ck) pre" by (auto simp: silent_check_def)
  then have "Batch ck out # bs = (Batch ck out # pre) @ Check t now # post \<and> 3000 \<le> t - heard h (Batch ck out # pre)" by simp
  then show "silent_check h (Batch ck out # bs) t" unfolding silent_check_def by blast
qed

lemma silent_skip [simp]: "silent_check h (Check u now # bs) t \<longleftrightarrow> (t = u \<and> 3000 \<le> u - h) \<or> silent_check h bs t"
proof
  assume "silent_check h (Check u now # bs) t"
  then obtain pre n post where p: "Check u now # bs = pre @ Check t n # post" "3000 \<le> t - heard h pre" by (auto simp: silent_check_def)
  then show "(t = u \<and> 3000 \<le> u - h) \<or> silent_check h bs t" by (cases pre) (auto simp: silent_check_def)
next
  assume "(t = u \<and> 3000 \<le> u - h) \<or> silent_check h bs t"
  then show "silent_check h (Check u now # bs) t"
  proof
    assume "t = u \<and> 3000 \<le> u - h"
    then have "Check u now # bs = [] @ Check t now # bs \<and> 3000 \<le> t - heard h []" by simp
    then show ?thesis unfolding silent_check_def by blast
  next
    assume "silent_check h bs t"
    then obtain pre n post where "bs = pre @ Check t n # post" "3000 \<le> t - heard h pre" by (auto simp: silent_check_def)
    then have "Check u now # bs = (Check u now # pre) @ Check t n # post \<and> 3000 \<le> t - heard h (Check u now # pre)" by simp
    then show ?thesis unfolding silent_check_def by blast
  qed
qed

lemma sink_watch [simp]: "br_active (fst (periodic_sink dbg ck out b)) = br_active b" "br_armed (fst (periodic_sink dbg ck out b)) = br_armed b"
  "br_last_rx (fst (periodic_sink dbg ck out b)) = ck_ms ck" "br_backoff (fst (periodic_sink dbg ck out b)) = br_backoff b"
  "br_engine (fst (periodic_sink dbg ck out b)) = br_engine b"
  by (simp_all add: periodic_sink_def Let_def case_prod_beta)

lemma beats_ended:
  "br_active b = None \<Longrightarrow> br_active (foldl (beat E) b bs) = None \<and> br_backoff (foldl (beat E) b bs) = br_backoff b
     \<and> br_engine (foldl (beat E) b bs) = br_engine b"
proof (induction bs arbitrary: b)
  case (Cons x bs)
  have "br_active (beat E b x) = None \<and> br_backoff (beat E b x) = br_backoff b \<and> br_engine (beat E b x) = br_engine b"
    using Cons.prems by (cases x) (simp_all add: periodic_silence_check_def)
  with Cons.IH show ?case by simp
qed simp

lemma stop_ends:
  "br_active b \<noteq> None \<Longrightarrow> br_active (stop_stn_periodic E det evs now b) = None
    \<and> br_backoff (stop_stn_periodic E det evs now b) = br_backoff b"
  by (auto simp: stop_stn_periodic_def Let_def)

context periodic_engine
begin

lemma watchdog_exact:
  assumes "br_active b \<noteq> None" "br_armed b \<noteq> 0" "h = max (br_last_rx b) (br_armed b)" "sorted (h # map beat_ms bs)"
  shows "(br_active (foldl (beat E) b bs) = None \<longleftrightarrow> (\<exists>t. silent_check h bs t))
    \<and> (br_active (foldl (beat E) b bs) = None \<longrightarrow> \<not> eg_live E (br_engine (foldl (beat E) b bs))
         \<and> (\<exists>t. silent_check h bs t \<and> (\<forall>u. silent_check h bs u \<longrightarrow> t \<le> u) \<and> br_backoff (foldl (beat E) b bs) = t + PERIODIC_BACKOFF_MS))"
  using assms
proof (induction bs arbitrary: b h)
  case (Cons x bs)
  show ?case
  proof (cases x)
    case (Batch ck out)
    let ?b = "beat E b x"
    have "br_active ?b \<noteq> None" "br_armed ?b \<noteq> 0" "ck_ms ck = max (br_last_rx ?b) (br_armed ?b)" "sorted (ck_ms ck # map beat_ms bs)"
      using Cons.prems Batch by auto
    from Cons.IH [OF this] show ?thesis by (simp add: Batch)
  next
    case (Check t now)
    show ?thesis
    proof (cases "t - h < 3000")
      case True
      then have "beat E b x = b" using Cons.prems Check by (simp add: periodic_silence_check_def PERIODIC_SILENT_MS_def)
      moreover have "sorted (h # map beat_ms bs)" using Cons.prems(4) by simp
      ultimately show ?thesis using Cons.IH [OF Cons.prems(1,2,3)] True by (simp add: Check)
    next
      case False
      let ?c = "b \<lparr> br_backoff := t + PERIODIC_BACKOFF_MS, br_armed := 0 \<rparr>"
      have s: "beat E b x = stop_stn_periodic E True [] now ?c"
        using Cons.prems False Check by (auto simp: periodic_silence_check_def PERIODIC_SILENT_MS_def)
      have e: "br_active (beat E b x) = None" "br_backoff (beat E b x) = t + PERIODIC_BACKOFF_MS"
        using stop_ends [of ?c E True "[]" now] Cons.prems(1) by (simp_all add: s)
      have l: "\<not> eg_live E (br_engine (beat E b x))"
        using Cons.prems(1) by (auto simp: s stop_stn_periodic_def Let_def teardown_ends)
      have "t \<le> u" if "silent_check h bs u" for u
      proof -
        from that obtain pre n post where "bs = pre @ Check u n # post" by (auto simp: silent_check_def)
        with Cons.prems(4) Check show ?thesis by auto
      qed
      with beats_ended [OF e(1), of E bs] e l False show ?thesis by (auto simp: Check)
    qed
  qed
qed simp

end


definition armed_dvi :: "(DviState \<times> DviEffect list) Bracket" where
  "armed_dvi = fst (arm_periodic_transport (dvi_engine (\<lambda>_. True)) 1000 started_dvi)"

definition demo_beats :: "Beat list" where
  "demo_beats = [Check 3000 0, Batch \<lparr> ck_mono = 3.5, ck_unix = 3.5, ck_ms = 3500 \<rparr> [], Check 6000 0, Check 6600 0, Check 9000 0]"


end
