(* ===== verification/UdsStream.thy ===== *)
theory UdsStream
  imports PeriodicSession PeriodicStream
begin

text \<open>
  UDS periodic streaming in the session (\<^verbatim>\<open>src/session_manager/uds_stream.rs\<close>, the stop of
  \<^verbatim>\<open>engage.rs\<close>): the start sequence, the keepalive beat with the signal changes made in its window, and the way
  back to polling. \<open>PeriodicStream\<close> holds the pure packing and decoding.

  The vehicle is a parameter in two forms: what it answers to a command of the start sequence after
  those sent before, and which lines the monitor tap hands to the beat thread until it stops waiting for a
  reply. What other threads do to the session is a list of session events, as in \<open>PeriodicSession\<close>. The
  log, the counters of received lines and the waits of fixed length are not modelled.
\<close>

section \<open>The stream\<close>

record ActiveStream =
  as_paused :: "uuid list"
  as_response_ids :: "string list"
  as_keepalive_wire :: string
  as_loop_stop :: bool
  as_monitor_active :: bool
  as_unpack :: unpack_map
  as_adds :: "string list"
  as_removes :: "string list"
  as_fill :: "u8 \<Rightarrow> nat option"
  as_slot_count :: nat
  as_header :: string
  as_rate_mode :: u8

record Streaming =
  ss_session :: Session
  ss_stream :: "ActiveStream option"
  ss_profiles :: "string \<Rightarrow> StreamProfile option"
  ss_wire :: "string list"

record StreamStartInfo =
  si_response_ids :: "string list"
  si_keepalive_interval_ms :: nat
  si_slots_used :: nat
  si_excluded :: "string list"

datatype StreamError =
    NoProfile string
  | StreamActive
  | NothingToStream
  | AtshNotQueued
  | SessionRefused
  | DefinesRefused
  | DefinesDemoted BuildDefinesError
  | NoStreamable "string list"
  | EveryDefineRefused
  | StartRefused
  | MonitorRefused string

section \<open>Signal changes in the keepalive window\<close>

definition flat :: "string \<Rightarrow> string" where
  "flat l = filter (\<lambda>c. c \<noteq> CHR '' '') (to_uppercase l)"

text \<open>The lines the waiting thread sees until its deadline: the first that has the token answers, a negative response other
  than "pending" ends the wait.\<close>

fun wait_ack :: "string \<Rightarrow> string list \<Rightarrow> string option" where
  "wait_ack token [] = None"
| "wait_ack token (l # ls) =
     (if contains (flat l) token then Some l
      else if contains (flat l) ''7F'' then (if contains (flat l) ''78'' then wait_ack token ls else None)
      else wait_ack token ls)"

definition stpx :: "string \<Rightarrow> string \<Rightarrow> string \<Rightarrow> string" where
  "stpx header data r = ''STPX H:'' @ header @ '',D:'' @ data @ '',R:'' @ r"

text \<open>What is asked of the vehicle in the window, and how it is written.\<close>

datatype GapRequest =
    StopSchedule
  | ProbeLength string
  | DefineRecord u8 string nat
  | ArmSchedule u8 "u8 list"

definition schedule_command :: "u8 \<Rightarrow> u8 list \<Rightarrow> string" where
  "schedule_command rate slots = ''2A'' @ fmt02X (unat rate) @ concat (map (\<lambda>s. fmt02X (unat s)) slots)"

fun gap_text :: "string \<Rightarrow> GapRequest \<Rightarrow> string" where
  "gap_text header StopSchedule = stpx header ''2A04'' ''1''"
| "gap_text header (ProbeLength pid) = stpx header pid ''1''"
| "gap_text header (DefineRecord slot src len) = stpx header (define_command (unat slot) src len) ''1''"
| "gap_text header (ArmSchedule rate slots) = stpx header (schedule_command rate slots) ''0''"

text \<open>The window of one beat: what was asked with the line that answered it, and the tables the changes work on.\<close>

record Gap =
  gp_log :: "(GapRequest \<times> string option) list"
  gp_cache :: LengthCache
  gp_disk :: disk
  gp_unpack :: unpack_map
  gp_fill :: "u8 \<Rightarrow> nat option"
  gp_events :: "(string \<times> bool) list"

type_synonym tap_lines = "string list \<Rightarrow> string list"

definition gap_exchange :: "tap_lines \<Rightarrow> string \<Rightarrow> GapRequest \<Rightarrow> string \<Rightarrow> Gap \<Rightarrow> Gap \<times> string option" where
  "gap_exchange tap header req token g =
     (let ack = wait_ack token (tap (map (\<lambda>e. gap_text header (fst e)) (gp_log g) @ [gap_text header req]))
      in (g \<lparr> gp_log := gp_log g @ [(req, ack)] \<rparr>, ack))"

definition retain_signals :: "string list \<Rightarrow> unpack_map \<Rightarrow> unpack_map" where
  "retain_signals removes um =
     (\<lambda>s. case um s of
        None \<Rightarrow> None
      | Some sigs \<Rightarrow> (let kept = filter (\<lambda>x. ps_pid x \<notin> set removes) sigs in if kept = [] then None else Some kept))"

definition echo_bytes_of :: "string \<Rightarrow> nat" where
  "echo_bytes_of pid = (if length pid \<ge> 6 then 3 else 2)"

definition probe_total :: "string \<Rightarrow> nat" where
  "probe_total line =
     (let toks = split_whitespace line
      in case (if 1 < length toks then u8_from_hex (toks ! 1) else None) of
           None \<Rightarrow> 0
         | Some p \<Rightarrow>
             if drop_bit 4 p = 1
             then or (unat (and p 0x0F) * 256)
               (case (if 2 < length toks then from_str_radix16 (2 ^ 64 - 1) (toks ! 2) else None) of None \<Rightarrow> 0 | Some n \<Rightarrow> n)
             else unat p)"

text \<open>The solo request for a length. \<open>Panic\<close> is the slice behind the mode of a PID too short to have one; the length is
  recorded in a byte.\<close>

definition gap_probe :: "tap_lines \<Rightarrow> string \<Rightarrow> string \<Rightarrow> Gap \<Rightarrow> (unit, Gap \<times> nat) outcome" where
  "gap_probe tap header pid g =
     (if length pid < 2 then Panic
      else (let (g1, ack) = gap_exchange tap header (ProbeLength pid) ((if length pid \<ge> 6 then ''62'' else ''41'') @ drop 2 pid) g
            in case ack of
                 None \<Rightarrow> Ok (g1, 0)
               | Some line \<Rightarrow>
                   (let len = probe_total line - echo_bytes_of pid
                    in if len = 0 then Ok (g1, 0)
                       else (let (c, d) = lc_record pid (of_nat len) (gp_cache g1) (gp_disk g1)
                             in Ok (g1 \<lparr> gp_cache := c, gp_disk := d \<rparr>, len)))))"

definition gap_length :: "tap_lines \<Rightarrow> string \<Rightarrow> string \<Rightarrow> Gap \<Rightarrow> (unit, Gap \<times> nat) outcome" where
  "gap_length tap header pid g =
     (let len = (case lc_get (gp_cache g) pid of None \<Rightarrow> 0 | Some l \<Rightarrow> unat l)
      in if len = 0 then gap_probe tap header pid g else Ok (g, len))"

text \<open>First fit over the bytes of every acknowledged record.\<close>

definition filled :: "(u8 \<Rightarrow> nat option) \<Rightarrow> u8 \<Rightarrow> nat" where
  "filled f s = (case f s of None \<Rightarrow> 0 | Some n \<Rightarrow> n)"

definition find_slot :: "nat \<Rightarrow> (u8 \<Rightarrow> nat option) \<Rightarrow> nat \<Rightarrow> u8 option" where
  "find_slot slots f len =
     find (\<lambda>s. filled f s + len \<le> SLOT_DATA_BYTES) (map of_nat [0..<unat (of_nat slots :: u8)])"

definition note_event :: "string \<Rightarrow> bool \<Rightarrow> Gap \<Rightarrow> Gap" where
  "note_event pid added g = g \<lparr> gp_events := gp_events g @ [(pid, added)] \<rparr>"

definition gap_define :: "tap_lines \<Rightarrow> string \<Rightarrow> string \<Rightarrow> string \<Rightarrow> u8 \<Rightarrow> nat \<Rightarrow> Gap \<Rightarrow> Gap" where
  "gap_define tap header pid src slot len g =
     (let (g1, ack) = gap_exchange tap header (DefineRecord slot src len) ''6C01F2'' g;
          old = (case gp_unpack g1 slot of None \<Rightarrow> [] | Some sigs \<Rightarrow> sigs)
      in if ack = None then note_event pid False g1
         else note_event pid True (g1 \<lparr>
           gp_unpack := (gp_unpack g1)(slot \<mapsto> old @ [\<lparr> ps_pid = pid, ps_offset = filled (gp_fill g1) slot, ps_len = len \<rparr>]),
           gp_fill := (gp_fill g1)(slot \<mapsto> filled (gp_fill g1) slot + len) \<rparr>))"

definition gap_add :: "tap_lines \<Rightarrow> string \<Rightarrow> nat \<Rightarrow> string \<Rightarrow> Gap \<Rightarrow> (unit, Gap) outcome" where
  "gap_add tap header slots pid g =
     and_then (gap_length tap header pid g) (\<lambda>(g1, len).
       Ok (case (source_did pid, find_slot slots (gp_fill g1) len, 0 < len \<and> len \<le> SLOT_DATA_BYTES) of
             (Some src, Some slot, True) \<Rightarrow> gap_define tap header pid src slot len g1
           | _ \<Rightarrow> note_event pid False g1))"

fun gap_adds :: "tap_lines \<Rightarrow> string \<Rightarrow> nat \<Rightarrow> string list \<Rightarrow> Gap \<Rightarrow> (unit, Gap) outcome" where
  "gap_adds tap header slots [] g = Ok g"
| "gap_adds tap header slots (pid # ps) g = and_then (gap_add tap header slots pid g) (gap_adds tap header slots ps)"

definition sorted_slots :: "(u8 \<Rightarrow> 'a option) \<Rightarrow> u8 list" where
  "sorted_slots f = filter (\<lambda>s. f s \<noteq> None) (map word_of_int [0..255])"

definition process_pending_signals :: "tap_lines \<Rightarrow> ActiveStream \<Rightarrow> Gap \<Rightarrow> (unit, Gap) outcome" where
  "process_pending_signals tap a g =
     (let g1 = (if as_removes a = [] then g else g \<lparr> gp_unpack := retain_signals (as_removes a) (gp_unpack g) \<rparr>)
      in if as_adds a = [] then Ok g1
         else and_then (gap_adds tap (as_header a) (as_slot_count a) (as_adds a)
                (fst (gap_exchange tap (as_header a) StopSchedule ''016A'' g1)))
              (\<lambda>g2. Ok (g2 \<lparr> gp_log := gp_log g2 @
                  [(ArmSchedule (as_rate_mode a) (sorted_slots (gp_fill g2)), None)] \<rparr>)))"

definition stream_change_signal :: "string \<Rightarrow> bool \<Rightarrow> ActiveStream option \<Rightarrow> ActiveStream option \<times> bool" where
  "stream_change_signal pid0 add st =
     (case st of
        None \<Rightarrow> (None, False)
      | Some a \<Rightarrow>
          (let pid = to_uppercase (trim pid0)
           in (Some (if add then a \<lparr> as_removes := filter (\<lambda>x. x \<noteq> pid) (as_removes a), as_adds := add_new (as_adds a) pid \<rparr>
                     else a \<lparr> as_adds := filter (\<lambda>x. x \<noteq> pid) (as_adds a), as_removes := add_new (as_removes a) pid \<rparr>), True)))"

section \<open>The transport loop\<close>

definition raw_write :: "string \<Rightarrow> Streaming \<Rightarrow> Streaming" where
  "raw_write w st = st \<lparr> ss_wire := ss_wire st @ [w] \<rparr>"

definition arm_wires :: "ActiveStream \<Rightarrow> string list" where
  "arm_wires a =
     ''STFAC'' # map (\<lambda>i. ''STFPA '' @ i @ '',7FF'') (as_response_ids a)
       @ [''STFPA '' @ periodic_response_id (as_header a) @ '',7FF'', ''STM'']"

definition arm_stream_transport :: "Streaming \<Rightarrow> Streaming \<times> bool" where
  "arm_stream_transport st =
     (case ss_stream st of
        None \<Rightarrow> (st, False)
      | Some a \<Rightarrow> (foldl (\<lambda>s w. raw_write w s) st (arm_wires a) \<lparr> ss_stream := Some (a \<lparr> as_monitor_active := True \<rparr>) \<rparr>, True))"

text \<open>One beat of the keepalive loop: break, keepalive, the pending changes, and the monitor again unless a stop came
  in between.\<close>

definition open_gap :: "ActiveStream \<Rightarrow> Session \<Rightarrow> Gap" where
  "open_gap a s =
     \<lparr> gp_log = [], gp_cache = pp_cache (xs_plugin s), gp_disk = xs_disk s,
       gp_unpack = as_unpack a, gp_fill = as_fill a, gp_events = [] \<rparr>"

definition keepalive_beat :: "tap_lines \<Rightarrow> bool \<Rightarrow> ActiveStream \<Rightarrow> Streaming \<Rightarrow> (unit, Streaming \<times> Gap) outcome" where
  "keepalive_beat tap stopping a st =
     (let s1 = raw_write (as_keepalive_wire a) (raw_write '' '' st);
          s = ss_session st
      in and_then (process_pending_signals tap a (open_gap a s)) (\<lambda>g.
           Ok (s1 \<lparr> ss_wire := ss_wire s1 @ map (\<lambda>e. gap_text (as_header a) (fst e)) (gp_log g)
                      @ (if stopping then [] else [''STM'']),
                    ss_session := s \<lparr> xs_plugin := (xs_plugin s) \<lparr> pp_cache := gp_cache g \<rparr>, xs_disk := gp_disk g \<rparr>,
                    ss_stream := Some (a \<lparr> as_unpack := gp_unpack g, as_fill := gp_fill g, as_adds := [], as_removes := [],
                      as_loop_stop := stopping, as_monitor_active := \<not> stopping \<rparr>) \<rparr>,
               g)))"

section \<open>Starting\<close>

type_synonym ecu = "string list \<Rightarrow> string \<Rightarrow> LinkReply option"

definition opens_with :: "LinkReply option \<Rightarrow> u8 list \<Rightarrow> bool" where
  "opens_with r pre = (case r of None \<Rightarrow> False | Some l \<Rightarrow> list_ex (\<lambda>p. take (length pre) (bytes p) = pre) (payloads l))"

definition ask :: "ecu \<Rightarrow> string \<Rightarrow> string list \<Rightarrow> string list \<times> LinkReply option" where
  "ask ecu cmd so_far = (so_far @ [cmd], ecu so_far cmd)"

definition tier_rank :: "RefreshTier option \<Rightarrow> nat" where
  "tier_rank t = (case t of Some Fast \<Rightarrow> 0 | Some Medium \<Rightarrow> 1 | Some Slow \<Rightarrow> 2 | None \<Rightarrow> 3)"

text \<open>By tier, then by PID: two stable sorts.\<close>

definition stream_signals :: "(string set \<Rightarrow> string list) \<Rightarrow> Session \<Rightarrow> signal list" where
  "stream_signals ord s =
     (let m = xs_subs s;
          sigs = map (\<lambda>(p, tgt, _). (p, case lc_get (pp_cache (xs_plugin s)) p of None \<Rightarrow> 0 | Some l \<Rightarrow> l, tgt)) (periodic_signals ord m)
      in sort_key (\<lambda>sig. tier_rank (get_pid_tier (fst sig) m)) (sort_key fst sigs))"

definition quiesce :: "SEvent list \<Rightarrow> Session \<Rightarrow> Session \<times> uuid list" where
  "quiesce evs s =
     (let (m, paused) = pause_all_active (xs_subs s)
      in (meanwhile evs (s \<lparr> xs_subs := clear_in_flight m \<rparr>), paused))"

definition switch_header :: "string \<Rightarrow> real \<Rightarrow> Session \<Rightarrow> Session option" where
  "switch_header header now s =
     (if xs_controller s = Some header then Some s
      else (case queue_command (''ATSH'' @ header) 5000 now (xs_proc s) of
              (p, Inr ()) \<Rightarrow> Some (s \<lparr> xs_proc := p, xs_controller := Some header \<rparr>)
            | (p, Inl e) \<Rightarrow> None))"

text \<open>The gates: an extended session, then a cleared dynamic identifier, once more after a clean default session when the
  first clear is refused.\<close>

definition probe_gates :: "ecu \<Rightarrow> string list \<times> StreamError option" where
  "probe_gates ecu =
     (let (so_far, r) = ask ecu ''1003'' []
      in if \<not> opens_with r [0x50, 0x03] then (so_far, Some SessionRefused)
         else (let (so_far, d) = ask ecu ''2C03'' so_far;
                   (so_far, d) =
                     (if \<not> opens_with d [0x6C, 0x03] \<and> opens_with d [0x7F]
                      then (let (so_far, r) = ask ecu ''1003'' (fst (ask ecu ''1001'' so_far))
                            in if opens_with r [0x50, 0x03] then ask ecu ''2C03'' so_far else (so_far, d))
                      else (so_far, d))
               in (so_far, if opens_with d [0x6C, 0x03] then None else Some DefinesRefused)))"

definition stpx_wrap :: "string \<Rightarrow> string \<Rightarrow> string" where
  "stpx_wrap header cmd = (if length cmd > 14 then stpx header cmd ''1'' else cmd)"

fun send_defines :: "ecu \<Rightarrow> string \<Rightarrow> (string \<times> u8 \<times> string) list \<Rightarrow> string list \<times> (u8 \<times> string) list \<Rightarrow> string list \<times> (u8 \<times> string) list" where
  "send_defines ecu header [] acc = acc"
| "send_defines ecu header ((cmd, r) # ds) (so_far, refused) =
     (let (so_far', ack) = ask ecu (stpx_wrap header cmd) so_far
      in send_defines ecu header ds (so_far', if opens_with ack [0x6C, 0x01] then refused else refused @ [r]))"

definition slot_bytes :: "unpack_map \<Rightarrow> u8 \<Rightarrow> nat option" where
  "slot_bytes um s = map_option (\<lambda>sigs. sum_list (map ps_len sigs)) (um s)"

text \<open>The wire part of the start, on the quiet bus: gates, defines, and the schedule.\<close>

definition set_up ::
  "ecu \<Rightarrow> string \<Rightarrow> StreamProfile \<Rightarrow> signal list \<Rightarrow> (unit, StreamError + (unpack_map \<times> string list)) outcome" where
  "set_up ecu header prof sigs =
     (let (so_far, gate) = probe_gates ecu
      in case gate of
           Some e \<Rightarrow> Ok (Inl e)
         | None \<Rightarrow>
             (case build_defines sigs prof of
                Panic \<Rightarrow> Panic
              | Err e \<Rightarrow> Ok (Inl (DefinesDemoted e))
              | Ok dset \<Rightarrow>
                  if define_commands dset = [] then Ok (Inl (NoStreamable (dropped dset)))
                  else (let (so_far, refused) = send_defines ecu header (zip (define_commands dset) (record_pids dset)) (so_far, []);
                            um = foldl refusal (unpack dset) refused
                        in if sorted_slots um = [] then Ok (Inl EveryDefineRefused)
                           else (let (so_far, start) = ask ecu (stpx_wrap header (schedule_command (rate_mode prof) (sorted_slots um))) so_far
                                 in if opens_with start [0x6A]
                                    then Ok (Inr (um, remdups_adj (sort (dropped dset @ map snd refused))))
                                    else Ok (Inl StartRefused)))))"

definition start_stream ::
  "ecu \<Rightarrow> string option \<Rightarrow> (string set \<Rightarrow> string list) \<Rightarrow> SEvent list \<Rightarrow> SEvent list \<Rightarrow> real \<Rightarrow> string \<Rightarrow> Streaming
    \<Rightarrow> (unit, Streaming \<times> (StreamError + StreamStartInfo)) outcome" where
  "start_stream ecu refusal_of_monitor ord draining installing now tag st =
     (case ss_profiles st tag of
        None \<Rightarrow> Ok (st, Inl (NoProfile tag))
      | Some prof \<Rightarrow>
          if ss_stream st \<noteq> None then Ok (st, Inl StreamActive)
          else (let s = ss_session st; sigs = stream_signals ord s
                in if sigs = [] then Ok (st, Inl NothingToStream)
                   else (let (s1, paused) = quiesce draining s;
                             header = target_header (bus_of (xs_addressing s1)) (sp_target prof)
                         in case switch_header header now s1 of
                              None \<Rightarrow> Ok (st \<lparr> ss_session := s1 \<rparr>, Inl AtshNotQueued)
                            | Some s2 \<Rightarrow>
                                and_then (set_up ecu header prof sigs) (\<lambda>r.
                                  let s3 = meanwhile installing s2;
                                      bail = (\<lambda>e. (st \<lparr> ss_session := resume_polling paused now s3 \<rparr>, Inl e))
                                  in Ok (case r of
                                       Inl e \<Rightarrow> bail e
                                     | Inr (um, excluded) \<Rightarrow>
                                         (case refusal_of_monitor of
                                            Some e \<Rightarrow> bail (MonitorRefused e)
                                          | None \<Rightarrow>
                                              (st \<lparr> ss_session := set_hold True s3,
                                                   ss_stream := Some \<lparr> as_paused = paused, as_response_ids = response_ids prof,
                                                     as_keepalive_wire = stpx header ''3E80'' ''0'', as_loop_stop = False,
                                                     as_monitor_active = False, as_unpack = um, as_adds = [], as_removes = [],
                                                     as_fill = slot_bytes um, as_slot_count = slot_count prof,
                                                     as_header = header, as_rate_mode = rate_mode prof \<rparr> \<rparr>,
                                               Inr \<lparr> si_response_ids = response_ids prof,
                                                     si_keepalive_interval_ms = keepalive_interval_ms prof,
                                                     si_slots_used = length (sorted_slots um), si_excluded = excluded \<rparr>)))))))"

section \<open>Stopping\<close>

definition break_stream_transport :: "Streaming \<Rightarrow> Streaming" where
  "break_stream_transport st =
     (case ss_stream st of
        None \<Rightarrow> st
      | Some a \<Rightarrow>
          (if as_monitor_active a then raw_write ''STFAC'' (raw_write '' '' st) else st)
            \<lparr> ss_stream := Some (a \<lparr> as_loop_stop := True, as_monitor_active := False \<rparr>),
              ss_session := set_hold False (ss_session st) \<rparr>)"

definition queue_all :: "string list \<Rightarrow> u32 \<Rightarrow> real \<Rightarrow> Session \<Rightarrow> Session" where
  "queue_all cmds timeout now s = foldl (\<lambda>s c. s \<lparr> xs_proc := fst (queue_command c timeout now (xs_proc s)) \<rparr>) s cmds"

definition stop_stream :: "SEvent list \<Rightarrow> real \<Rightarrow> Streaming \<Rightarrow> Streaming" where
  "stop_stream evs now st =
     (let st1 = break_stream_transport st
      in case ss_stream st1 of
           None \<Rightarrow> st1
         | Some a \<Rightarrow>
             (let s1 = meanwhile evs (queue_all [''2A04'', ''2C03'', ''1001''] 5000 now (ss_session st1))
              in st1 \<lparr> ss_stream := None, ss_session := resume_polling (as_paused a) now s1 \<rparr>))"

section \<open>The frames of the stream\<close>

text \<open>One wake of the decoding thread: the freshest frame for each identifier and first byte.\<close>

definition freshest_slots :: "Frame list \<Rightarrow> ((string \<times> u8 option) \<times> Frame) list" where
  "freshest_slots fs =
     foldl (\<lambda>m f. AList.update (frame_id f, case frame_data f of [] \<Rightarrow> None | b # _ \<Rightarrow> Some b) f m) [] fs"

definition ingest :: "ActiveStream \<Rightarrow> Frame \<Rightarrow> (string \<times> u8 list) list" where
  "ingest a f = decode_periodic_frame (frame_id f) (frame_data f) (as_response_ids a) (as_unpack a)"

definition stream_wake :: "ActiveStream \<Rightarrow> Frame list \<Rightarrow> (string \<times> u8 list) list" where
  "stream_wake a fs = concat (map (\<lambda>(_, f). ingest a f) (freshest_slots fs))"

text \<open>What the host is handed looks like the reply to a solo request.\<close>

definition stream_echo :: "string \<Rightarrow> string" where
  "stream_echo pid =
     (if length pid \<ge> 6 then ''62 '' @ take 2 (drop 2 pid) @ '' '' @ take 2 (drop 4 pid) else ''41 '' @ take 2 (drop 2 pid))"

definition stream_message :: "string \<times> u8 list \<Rightarrow> string \<times> ControllerResponse" where
  "stream_message e =
     (let raw = stream_echo (fst e) @ '' '' @ join '' '' (map (\<lambda>b. fmt02X (unat b)) (snd e))
      in (raw, \<lparr> raw_hex = raw, data_bytes = snd e, controller_id = ''00'', is_valid = True \<rparr>))"

datatype StreamTap = StreamStopped | StreamFrame Frame | StreamAck string | StreamNoise

definition stream_tap :: "string list \<Rightarrow> LinkEvent \<Rightarrow> StreamTap" where
  "stream_tap ids ev =
     (case ev of
        StoppedEvent \<Rightarrow> StreamStopped
      | FrameEvent f \<Rightarrow> if list_ex (\<lambda>r. eq_ignore_case r (frame_id f)) ids then StreamFrame f else StreamAck (frame_raw f)
      | TextEvent t \<Rightarrow>
          (let u = trim t in if u \<noteq> [] \<and> u \<noteq> ''OK'' \<and> u \<noteq> ''?'' then StreamAck t else StreamNoise))"

section \<open>Runs of a stream\<close>

datatype StreamOp = ChangeSignal string bool | KeepAlive tap_lines bool

fun stream_run :: "StreamOp list \<Rightarrow> Streaming \<Rightarrow> (unit, Streaming \<times> Gap list) outcome" where
  "stream_run [] st = Ok (st, [])"
| "stream_run (ChangeSignal pid add # ops) st = stream_run ops (st \<lparr> ss_stream := fst (stream_change_signal pid add (ss_stream st)) \<rparr>)"
| "stream_run (KeepAlive tap stopping # ops) st =
     (case ss_stream st of
        None \<Rightarrow> stream_run ops st
      | Some a \<Rightarrow>
          if as_loop_stop a then stream_run ops st
          else and_then (keepalive_beat tap stopping a st) (\<lambda>(st1, g).
                 and_then (stream_run ops st1) (\<lambda>(st2, gs). Ok (st2, g # gs))))"

text \<open>The records the vehicle acknowledged, in order: what a dynamic identifier is made of.\<close>

definition is_define :: "GapRequest \<Rightarrow> bool" where
  "is_define q = (case q of DefineRecord s src l \<Rightarrow> True | _ \<Rightarrow> False)"

definition acked_defines :: "(GapRequest \<times> string option) list \<Rightarrow> GapRequest list" where
  "acked_defines l = map fst (filter (\<lambda>(q, ack). is_define q \<and> ack \<noteq> None) l)"

definition define_of :: "stream_record \<Rightarrow> GapRequest" where
  "define_of r = DefineRecord (fst r) (the (source_did (fst (snd r)))) (snd (snd r))"

lemma acked_append [simp]: "acked_defines (xs @ ys) = acked_defines xs @ acked_defines ys"
  by (simp add: acked_defines_def)

lemma acked_simps [simp]: "acked_defines [] = []" "acked_defines [(StopSchedule, x)] = []" "acked_defines [(ProbeLength p, x)] = []"
  "acked_defines [(ArmSchedule r ss, x)] = []"
  "acked_defines [(DefineRecord s src l, x)] = (if x = None then [] else [DefineRecord s src l])"
  by (simp_all add: acked_defines_def is_define_def)

text \<open>The tables follow the records: a signal is where its record is, and the fill of a slot counts every record of it, also
  those whose signal was removed.\<close>

definition tracks :: "stream_record list \<Rightarrow> unpack_map \<Rightarrow> (u8 \<Rightarrow> nat option) \<Rightarrow> bool" where
  "tracks rs um f \<longleftrightarrow>
     (\<forall>s sigs. um s = Some sigs \<longrightarrow> sigs \<noteq> [] \<and> subseq sigs (layout 0 (in_slot s rs)))
     \<and> (\<forall>s. filled f s = sum_list (map snd (in_slot s rs))) \<and> (\<forall>s. sum_list (map snd (in_slot s rs)) \<le> SLOT_DATA_BYTES)
     \<and> (\<forall>s. f s = None \<longleftrightarrow> in_slot s rs = [])"

lemma gap_exchange_simps [simp]:
  "gp_unpack (fst (gap_exchange tap h q t g)) = gp_unpack g" "gp_fill (fst (gap_exchange tap h q t g)) = gp_fill g"
  "gp_events (fst (gap_exchange tap h q t g)) = gp_events g"
  "gp_log (fst (gap_exchange tap h q t g)) = gp_log g @ [(q, snd (gap_exchange tap h q t g))]"
  by (simp_all add: gap_exchange_def Let_def)

definition is_probe :: "GapRequest \<times> string option \<Rightarrow> bool" where
  "is_probe e = (case fst e of ProbeLength p \<Rightarrow> True | _ \<Rightarrow> False)"

lemma acked_probes [simp]: "list_all is_probe l \<Longrightarrow> acked_defines l = []"
  by (induction l) (auto simp: acked_defines_def is_probe_def is_define_def split: GapRequest.splits)

lemma gap_length_fields:
  assumes "gap_length tap h pid g = Ok (g1, len)"
  shows "gp_unpack g1 = gp_unpack g" "gp_fill g1 = gp_fill g" "gp_events g1 = gp_events g"
    "\<exists>l. gp_log g1 = gp_log g @ l \<and> list_all is_probe l"
proof -
  have "gp_unpack g1 = gp_unpack g \<and> gp_fill g1 = gp_fill g \<and> gp_events g1 = gp_events g
      \<and> (\<exists>l. gp_log g1 = gp_log g @ l \<and> list_all is_probe l)"
  proof (cases "case lc_get (gp_cache g) pid of None \<Rightarrow> 0 | Some l \<Rightarrow> unat l")
    case 0
    define t where "t = (if length pid \<ge> 6 then ''62'' else ''41'') @ drop 2 pid"
    define e where "e = gap_exchange tap h (ProbeLength pid) t g"
    from assms 0 have "length pid \<ge> 2 \<and> (case snd e of None \<Rightarrow> g1 = fst e
        | Some line \<Rightarrow> g1 = fst e \<or> (\<exists>c d. g1 = (fst e) \<lparr> gp_cache := c, gp_disk := d \<rparr>))"
      by (auto simp: gap_length_def gap_probe_def Let_def case_prod_beta e_def t_def split: if_splits option.splits)
    then have "g1 = fst e \<or> (\<exists>c d. g1 = (fst e) \<lparr> gp_cache := c, gp_disk := d \<rparr>)" by (auto split: option.splits)
    then show ?thesis by (auto simp: e_def is_probe_def)
  next
    case (Suc n)
    with assms show ?thesis by (auto simp: gap_length_def)
  qed
  then show "gp_unpack g1 = gp_unpack g" "gp_fill g1 = gp_fill g" "gp_events g1 = gp_events g"
    "\<exists>l. gp_log g1 = gp_log g @ l \<and> list_all is_probe l" by blast+
qed

lemma find_slot_room: "find_slot slots f len = Some s \<Longrightarrow> filled f s + len \<le> SLOT_DATA_BYTES \<and> unat s < slots"
proof -
  assume "find_slot slots f len = Some s"
  then obtain i where i: "i < unat (of_nat slots :: u8)" "s = of_nat i" "filled f s + len \<le> SLOT_DATA_BYTES"
    by (auto simp: find_slot_def find_Some_iff)
  have le: "unat (of_nat slots :: u8) \<le> slots" by (simp add: unat_of_nat)
  from i(1) have "i < 256" using unsigned_less [of "of_nat slots :: u8", where 'a = nat] by simp
  then show ?thesis using i le by (simp add: unat_of_nat)
qed

lemma gap_add_cases:
  assumes "gap_add tap h slots pid g = Ok g'"
  obtains (refused) l where "gp_unpack g' = gp_unpack g" "gp_fill g' = gp_fill g" "gp_events g' = gp_events g @ [(pid, False)]"
      "gp_log g' = gp_log g @ l" "acked_defines l = []" "list_all (\<lambda>e. is_probe e \<or> is_define (fst e)) l"
  | (added) l slot src len where "0 < len" "source_did pid = Some src" "filled (gp_fill g) slot + len \<le> SLOT_DATA_BYTES"
      "gp_unpack g' = (gp_unpack g)(slot \<mapsto> (case gp_unpack g slot of None \<Rightarrow> [] | Some sigs \<Rightarrow> sigs)
          @ [\<lparr> ps_pid = pid, ps_offset = filled (gp_fill g) slot, ps_len = len \<rparr>])"
      "gp_fill g' = (gp_fill g)(slot \<mapsto> filled (gp_fill g) slot + len)" "gp_events g' = gp_events g @ [(pid, True)]"
      "gp_log g' = gp_log g @ l" "acked_defines l = [DefineRecord slot src len]" "list_all (\<lambda>e. is_probe e \<or> is_define (fst e)) l"
proof -
  obtain g1 len where l: "gap_length tap h pid g = Ok (g1, len)"
    and g': "g' = (case (source_did pid, find_slot slots (gp_fill g1) len, 0 < len \<and> len \<le> SLOT_DATA_BYTES) of
             (Some src, Some slot, True) \<Rightarrow> gap_define tap h pid src slot len g1
           | _ \<Rightarrow> note_event pid False g1)"
    using assms by (auto simp: gap_add_def and_then_Ok)
  note f = gap_length_fields [OF l]
  obtain l0 where l0: "gp_log g1 = gp_log g @ l0" "list_all is_probe l0" using f(4) by blast
  have p0: "list_all (\<lambda>e. is_probe e \<or> is_define (fst e)) l0" using l0(2) by (auto simp: list_all_iff)
  show thesis
  proof (cases "\<exists>src slot. source_did pid = Some src \<and> find_slot slots (gp_fill g1) len = Some slot \<and> 0 < len \<and> len \<le> SLOT_DATA_BYTES")
    case False
    then have "g' = note_event pid False g1" unfolding g' by (auto split: option.splits bool.splits)
    then show thesis using f l0 p0 by (intro refused [of l0]) (simp_all add: note_event_def)
  next
    case True
    then obtain src slot where s: "source_did pid = Some src" "find_slot slots (gp_fill g1) len = Some slot" "0 < len" "len \<le> SLOT_DATA_BYTES" by blast
    then have d: "g' = gap_define tap h pid src slot len g1" unfolding g' by simp
    define e where "e = gap_exchange tap h (DefineRecord slot src len) ''6C01F2'' g1"
    have e1: "gp_log (fst e) = gp_log g @ l0 @ [(DefineRecord slot src len, snd e)]" by (simp add: e_def l0(1))
    have e2: "gp_unpack (fst e) = gp_unpack g" "gp_fill (fst e) = gp_fill g" "gp_events (fst e) = gp_events g" by (simp_all add: e_def f)
    have pl: "list_all (\<lambda>e. is_probe e \<or> is_define (fst e)) (l0 @ [(DefineRecord slot src len, snd e)])"
      using p0 by (simp add: is_define_def)
    show thesis
    proof (cases "snd e")
      case None
      then have "g' = note_event pid False (fst e)" unfolding d gap_define_def by (simp add: e_def Let_def case_prod_beta)
      then show thesis using e1 e2 pl None l0(2) by (intro refused [of "l0 @ [(DefineRecord slot src len, snd e)]"]) (simp_all add: note_event_def)
    next
      case (Some line)
      then have "g' = note_event pid True ((fst e) \<lparr>
           gp_unpack := (gp_unpack (fst e))(slot \<mapsto> (case gp_unpack (fst e) slot of None \<Rightarrow> [] | Some sigs \<Rightarrow> sigs)
             @ [\<lparr> ps_pid = pid, ps_offset = filled (gp_fill (fst e)) slot, ps_len = len \<rparr>]),
           gp_fill := (gp_fill (fst e))(slot \<mapsto> filled (gp_fill (fst e)) slot + len) \<rparr>)"
        unfolding d gap_define_def by (simp add: e_def Let_def case_prod_beta)
      then show thesis using e1 e2 pl s Some l0(2) find_slot_room [OF s(2)] f(2)
        by (intro added [where l = "l0 @ [(DefineRecord slot src len, snd e)]"]) (simp_all add: note_event_def)
    qed
  qed
qed

lemma in_slot_snoc: "in_slot s (rs @ [(t, p, l)]) = (if s = t then in_slot s rs @ [(p, l)] else in_slot s rs)"
  by (simp add: in_slot_def)

lemma tracks_snoc:
  assumes "tracks rs um f" "filled f t + l \<le> SLOT_DATA_BYTES" "0 < l"
  shows "tracks (rs @ [(t, p, l)])
    (um(t \<mapsto> (case um t of None \<Rightarrow> [] | Some sigs \<Rightarrow> sigs) @ [\<lparr> ps_pid = p, ps_offset = filled f t, ps_len = l \<rparr>]))
    (f(t \<mapsto> filled f t + l))"
proof -
  have fill: "filled f t = sum_list (map snd (in_slot t rs))" using assms(1) by (simp add: tracks_def)
  have "subseq (case um t of None \<Rightarrow> [] | Some sigs \<Rightarrow> sigs) (layout 0 (in_slot t rs))"
    using assms(1) by (auto simp: tracks_def split: option.split)
  then have "subseq ((case um t of None \<Rightarrow> [] | Some sigs \<Rightarrow> sigs) @ [\<lparr> ps_pid = p, ps_offset = filled f t, ps_len = l \<rparr>])
      (layout 0 (in_slot t rs @ [(p, l)]))"
    by (simp add: layout_append fill)
  moreover have "sum_list (map snd (in_slot t rs)) + l \<le> SLOT_DATA_BYTES" using assms(2) fill by simp
  ultimately show ?thesis using assms(1,3) fill by (auto simp: tracks_def in_slot_snoc filled_def)
qed

text \<open>Adding: one event for each PID, in order; a record for each that was acknowledged.\<close>

lemma gap_adds_track:
  assumes "gap_adds tap h slots ps g = Ok g'" "tracks rs (gp_unpack g) (gp_fill g)"
  shows "\<exists>new l evs. tracks (rs @ new) (gp_unpack g') (gp_fill g') \<and> gp_log g' = gp_log g @ l
    \<and> acked_defines l = map define_of new \<and> list_all (\<lambda>e. is_probe e \<or> is_define (fst e)) l
    \<and> gp_events g' = gp_events g @ evs \<and> map fst evs = ps \<and> map (\<lambda>r. fst (snd r)) new = map fst (filter snd evs)"
  using assms
proof (induction ps arbitrary: g rs)
  case Nil
  then show ?case by (intro exI [of _ "[]"]) simp
next
  case (Cons p ps)
  from Cons.prems(1) obtain g1 where g1: "gap_add tap h slots p g = Ok g1" "gap_adds tap h slots ps g1 = Ok g'"
    by (auto simp: and_then_Ok)
  from g1(1) show ?case
  proof (cases rule: gap_add_cases)
    case (refused l)
    with Cons.prems(2) have "tracks rs (gp_unpack g1) (gp_fill g1)" by simp
    from Cons.IH [OF g1(2) this] obtain new l' evs where
      "tracks (rs @ new) (gp_unpack g') (gp_fill g')" "gp_log g' = gp_log g1 @ l'" "acked_defines l' = map define_of new"
      "list_all (\<lambda>e. is_probe e \<or> is_define (fst e)) l'" "gp_events g' = gp_events g1 @ evs" "map fst evs = ps"
      "map (\<lambda>r. fst (snd r)) new = map fst (filter snd evs)" by blast
    with refused show ?thesis by (intro exI [of _ new] exI [of _ "l @ l'"] exI [of _ "(p, False) # evs"]) simp
  next
    case (added l slot src len)
    let ?r = "(slot, p, len)"
    have "tracks (rs @ [?r]) (gp_unpack g1) (gp_fill g1)"
      unfolding added(4,5) by (rule tracks_snoc [OF Cons.prems(2) added(3,1)])
    from Cons.IH [OF g1(2) this] obtain new l' evs where
      "tracks ((rs @ [?r]) @ new) (gp_unpack g') (gp_fill g')" "gp_log g' = gp_log g1 @ l'" "acked_defines l' = map define_of new"
      "list_all (\<lambda>e. is_probe e \<or> is_define (fst e)) l'" "gp_events g' = gp_events g1 @ evs" "map fst evs = ps"
      "map (\<lambda>r. fst (snd r)) new = map fst (filter snd evs)" by blast
    with added show ?thesis
      by (intro exI [of _ "?r # new"] exI [of _ "l @ l'"] exI [of _ "(p, True) # evs"]) (simp add: define_of_def)
  qed
qed

lemma tracks_retain: "tracks rs um f \<Longrightarrow> tracks rs (retain_signals ps um) f"
proof -
  assume t: "tracks rs um f"
  have "sigs \<noteq> [] \<and> subseq sigs (layout 0 (in_slot s rs))" if "retain_signals ps um s = Some sigs" for s sigs
  proof -
    from that obtain old where o: "um s = Some old" "sigs = filter (\<lambda>x. ps_pid x \<notin> set ps) old" "sigs \<noteq> []"
      by (auto simp: retain_signals_def Let_def split: option.splits if_splits)
    with t have "subseq old (layout 0 (in_slot s rs))" by (simp add: tracks_def)
    with o show ?thesis using subseq_order.trans [OF subseq_filter_left] by blast
  qed
  with t show ?thesis by (simp add: tracks_def)
qed

text \<open>The window of a beat: with nothing to add, nothing is asked. Otherwise the schedule is stopped first, then come probes and
  defines only, and the schedule is started again last, over every slot that holds a record.\<close>

lemma process_pending_tracks:
  assumes "process_pending_signals tap a g = Ok g'" "tracks rs (gp_unpack g) (gp_fill g)" "gp_log g = []" "gp_events g = []"
  shows "\<exists>new mid ack. tracks (rs @ new) (gp_unpack g') (gp_fill g')
    \<and> gp_log g' = (if as_adds a = [] then [] else (StopSchedule, ack) # mid @ [(ArmSchedule (as_rate_mode a) (sorted_slots (gp_fill g')), None)])
    \<and> acked_defines mid = map define_of new \<and> list_all (\<lambda>e. is_probe e \<or> is_define (fst e)) mid
    \<and> map fst (gp_events g') = as_adds a \<and> map (\<lambda>r. fst (snd r)) new = map fst (filter snd (gp_events g'))"
proof -
  let ?g = "if as_removes a = [] then g else g \<lparr> gp_unpack := retain_signals (as_removes a) (gp_unpack g) \<rparr>"
  have t: "tracks rs (gp_unpack ?g) (gp_fill ?g)" and e: "gp_log ?g = []" "gp_events ?g = []"
    using assms(2-4) tracks_retain by auto
  show ?thesis
  proof (cases "as_adds a = []")
    case True
    with assms(1) have "g' = ?g" by (auto simp: process_pending_signals_def Let_def)
    with t e True show ?thesis by (intro exI [of _ "[]"]) simp
  next
    case False
    let ?s = "gap_exchange tap (as_header a) StopSchedule ''016A'' ?g"
    from assms(1) False obtain g2 where g2: "gap_adds tap (as_header a) (as_slot_count a) (as_adds a) (fst ?s) = Ok g2"
      "g' = g2 \<lparr> gp_log := gp_log g2 @ [(ArmSchedule (as_rate_mode a) (sorted_slots (gp_fill g2)), None)] \<rparr>"
      by (auto simp: process_pending_signals_def Let_def and_then_Ok)
    have ts: "tracks rs (gp_unpack (fst ?s)) (gp_fill (fst ?s))" using t by simp
    have es: "gp_log (fst ?s) = [(StopSchedule, snd ?s)]" "gp_events (fst ?s) = []" using e by simp_all
    from gap_adds_track [OF g2(1) ts] es obtain new l evs where
      "tracks (rs @ new) (gp_unpack g2) (gp_fill g2)" "gp_log g2 = (StopSchedule, snd ?s) # l" "acked_defines l = map define_of new"
      "list_all (\<lambda>e. is_probe e \<or> is_define (fst e)) l" "gp_events g2 = evs" "map fst evs = as_adds a"
      "map (\<lambda>r. fst (snd r)) new = map fst (filter snd evs)" by auto
    with False g2(2) show ?thesis by (intro exI [of _ new] exI [of _ l] exI [of _ "snd ?s"]) simp
  qed
qed

lemma window_defines:
  "(if c then [] else (StopSchedule, ack) # mid @ [(ArmSchedule r ss, None)]) = l \<Longrightarrow> acked_defines mid = map define_of new \<Longrightarrow>
   c \<longrightarrow> new = [] \<Longrightarrow> acked_defines l = map define_of new"
  by (auto simp: acked_defines_def is_define_def)

definition stream_tracks :: "stream_record list \<Rightarrow> Streaming \<Rightarrow> bool" where
  "stream_tracks rs st \<longleftrightarrow> (\<forall>a. ss_stream st = Some a \<longrightarrow> tracks rs (as_unpack a) (as_fill a))"

lemma stream_change_tables:
  "fst (stream_change_signal pid add st) = Some a \<Longrightarrow>
   \<exists>b. st = Some b \<and> as_unpack a = as_unpack b \<and> as_fill a = as_fill b \<and> as_response_ids a = as_response_ids b"
  by (auto simp: stream_change_signal_def Let_def split: option.splits if_splits)

lemma stream_run_tracks:
  assumes "stream_run ops st = Ok (st', gs)" "stream_tracks rs st"
  shows "\<exists>new. stream_tracks (rs @ new) st' \<and> acked_defines (concat (map gp_log gs)) = map define_of new
    \<and> map_option as_response_ids (ss_stream st') = map_option as_response_ids (ss_stream st)"
  using assms
proof (induction ops arbitrary: st gs rs)
  case Nil
  then show ?case by (intro exI [of _ "[]"]) auto
next
  case (Cons op ops)
  show ?case
  proof (cases op)
    case (ChangeSignal pid add)
    let ?st = "st \<lparr> ss_stream := fst (stream_change_signal pid add (ss_stream st)) \<rparr>"
    have "stream_tracks rs ?st" using Cons.prems(2) stream_change_tables unfolding stream_tracks_def by fastforce
    moreover have "map_option as_response_ids (ss_stream ?st) = map_option as_response_ids (ss_stream st)"
      by (auto simp: stream_change_signal_def Let_def split: option.split)
    ultimately show ?thesis using Cons.IH [of ?st gs rs] Cons.prems(1) ChangeSignal by auto
  next
    case (KeepAlive tap stopping)
    show ?thesis
    proof (cases "\<exists>a. ss_stream st = Some a \<and> \<not> as_loop_stop a")
      case False
      then have "stream_run ops st = Ok (st', gs)" using Cons.prems(1) KeepAlive by (auto split: option.splits)
      from Cons.IH [OF this Cons.prems(2)] show ?thesis .
    next
      case True
      then obtain a where a: "ss_stream st = Some a" "\<not> as_loop_stop a" by blast
      from Cons.prems(1) KeepAlive a obtain st1 g gs' where k: "keepalive_beat tap stopping a st = Ok (st1, g)"
        "stream_run ops st1 = Ok (st', gs')" "gs = g # gs'" by (auto simp: and_then_Ok)
      from k(1) obtain g0 where p: "process_pending_signals tap a (open_gap a (ss_session st)) = Ok g"
        "ss_stream st1 = Some (a \<lparr> as_unpack := gp_unpack g, as_fill := gp_fill g, as_adds := [], as_removes := [],
            as_loop_stop := stopping, as_monitor_active := \<not> stopping \<rparr>)"
        by (auto simp: keepalive_beat_def Let_def and_then_Ok)
      have "tracks rs (gp_unpack (open_gap a (ss_session st))) (gp_fill (open_gap a (ss_session st)))"
        using Cons.prems(2) a(1) by (simp add: stream_tracks_def open_gap_def)
      from process_pending_tracks [OF p(1) this] obtain new mid ack where n: "tracks (rs @ new) (gp_unpack g) (gp_fill g)"
        "gp_log g = (if as_adds a = [] then [] else (StopSchedule, ack) # mid @ [(ArmSchedule (as_rate_mode a) (sorted_slots (gp_fill g)), None)])"
        "acked_defines mid = map define_of new" "map fst (gp_events g) = as_adds a" "map (\<lambda>r. fst (snd r)) new = map fst (filter snd (gp_events g))"
        by (auto simp: open_gap_def)
      have "as_adds a = [] \<longrightarrow> new = []" using n(4,5) by auto
      from window_defines [OF n(2) [symmetric] n(3) this] have d: "acked_defines (gp_log g) = map define_of new" .
      have "stream_tracks (rs @ new) st1" using n(1) p(2) by (simp add: stream_tracks_def)
      from Cons.IH [OF k(2) this] obtain new' where "stream_tracks ((rs @ new) @ new') st'"
        "acked_defines (concat (map gp_log gs')) = map define_of new'"
        "map_option as_response_ids (ss_stream st') = map_option as_response_ids (ss_stream st1)" by blast
      with d show ?thesis using p(2) a(1) by (intro exI [of _ "new @ new'"]) (simp add: k(3))
    qed
  qed
qed

section \<open>What the frames say\<close>

lemma slice_in_layout:
  assumes "x \<in> set (layout n xs)" "\<forall>y \<in> set xs. length (data (fst y)) = snd y" "length pre = n"
  shows "slice (pre @ concat (map (\<lambda>y. data (fst y)) xs) @ tail) x = Some (ps_pid x, data (ps_pid x))"
  using assms
proof (induction xs arbitrary: pre n)
  case (Cons y ys)
  obtain p l where y: "y = (p, l)" by (cases y)
  show ?case
  proof (cases "x \<in> set (layout (n + l) ys)")
    case True
    from Cons.IH [OF True, of "pre @ data p"] Cons.prems(2,3) show ?thesis by (simp add: y)
  next
    case False
    with Cons.prems y show ?thesis by (auto simp: slice_def)
  qed
qed simp

text \<open>A frame of the vehicle decodes to the current value of every signal that is still in the map.\<close>

lemma tracked_frame:
  assumes "tracks rs um f" "\<forall>r \<in> set rs. length (data (fst (snd r))) = snd (snd r)" "ident \<in> set ids"
  shows "decode_periodic_frame ident (periodic_frame data (map (\<lambda>r. (fst r, fst (snd r))) rs) slot counters) ids um
    = map (\<lambda>x. (ps_pid x, data (ps_pid x))) (case um slot of None \<Rightarrow> [] | Some sigs \<Rightarrow> sigs)"
proof (cases "um slot")
  case None
  with assms(3) show ?thesis by (auto simp: decode_periodic_frame_def periodic_frame_def list_ex_iff)
next
  case (Some sigs)
  have sub: "subseq sigs (layout 0 (in_slot slot rs))" using assms(1) Some by (simp add: tracks_def)
  have len: "\<forall>y \<in> set (in_slot slot rs). length (data (fst y)) = snd y" using assms(2) by (auto simp: in_slot_def)
  have bytes: "concat (map (\<lambda>r. data (snd r)) (filter (\<lambda>r. fst r = slot) (map (\<lambda>r. (fst r, fst (snd r))) rs)))
      = concat (map (\<lambda>y. data (fst y)) (in_slot slot rs))"
    by (simp add: in_slot_def filter_map comp_def)
  have "slice (concat (map (\<lambda>y. data (fst y)) (in_slot slot rs)) @ counters) x = Some (ps_pid x, data (ps_pid x))" if "x \<in> set sigs" for x
    using slice_in_layout [where pre = "[]" and n = 0, OF _ len] that sub by (force elim: list_emb_set)
  then have "List.map_filter (slice (concat (map (\<lambda>y. data (fst y)) (in_slot slot rs)) @ counters)) sigs = map (\<lambda>x. (ps_pid x, data (ps_pid x))) sigs"
    by (induction sigs) (simp_all add: List.map_filter_simps)
  with assms(3) Some show ?thesis by (simp add: decode_periodic_frame_def periodic_frame_def bytes list_ex_iff)
qed

section \<open>What the start leaves\<close>

definition stream_header :: "SEvent list \<Rightarrow> StreamProfile \<Rightarrow> Streaming \<Rightarrow> string" where
  "stream_header ds prof st = target_header (bus_of (xs_addressing (fst (quiesce ds (ss_session st))))) (sp_target prof)"

lemma set_up_error: "set_up ecu header prof sigs \<noteq> Ok (Inl AtshNotQueued)"
proof -
  have "snd (probe_gates ecu) \<noteq> Some AtshNotQueued"
    by (auto simp: probe_gates_def Let_def case_prod_beta)
  then show ?thesis
    by (auto simp: set_up_def Let_def case_prod_beta split: option.splits outcome.splits)
qed

lemma start_stream_Ok:
  assumes "start_stream ecu mon ord ds is now tag st = Ok (st', r)"
  obtains (untouched) e where "st' = st" "r = Inl e" "e \<noteq> AtshNotQueued"
  | (unswitched) "r = Inl AtshNotQueued" "st' = st \<lparr> ss_session := fst (quiesce ds (ss_session st)) \<rparr>" "ss_stream st = None"
  | (failed) prof s2 e where "r = Inl e" "e \<noteq> AtshNotQueued" "ss_stream st = None"
      "st' = st \<lparr> ss_session := resume_polling (snd (quiesce ds (ss_session st))) now (meanwhile is s2) \<rparr>"
      "ss_profiles st tag = Some prof"
      "switch_header (stream_header ds prof st) now (fst (quiesce ds (ss_session st))) = Some s2"
  | (started) prof s2 header um excluded where "ss_stream st = None" "ss_profiles st tag = Some prof"
      "set_up ecu header prof (stream_signals ord (ss_session st)) = Ok (Inr (um, excluded))"
      "header = stream_header ds prof st"
      "switch_header header now (fst (quiesce ds (ss_session st))) = Some s2"
      "st' = st \<lparr> ss_session := set_hold True (meanwhile is s2),
         ss_stream := Some \<lparr> as_paused = snd (quiesce ds (ss_session st)), as_response_ids = response_ids prof,
             as_keepalive_wire = stpx header ''3E80'' ''0'', as_loop_stop = False,
             as_monitor_active = False, as_unpack = um, as_adds = [], as_removes = [],
             as_fill = slot_bytes um, as_slot_count = slot_count prof,
             as_header = header, as_rate_mode = rate_mode prof \<rparr> \<rparr>"
      "r = Inr \<lparr> si_response_ids = response_ids prof, si_keepalive_interval_ms = keepalive_interval_ms prof,
             si_slots_used = length (sorted_slots um), si_excluded = excluded \<rparr>"
proof -
  show thesis
  proof (cases "ss_profiles st tag")
    case None
    with assms show thesis by (intro untouched) (auto simp: start_stream_def)
  next
    case (Some prof)
    let ?s = "ss_session st"
    obtain s1 paused where q: "quiesce ds ?s = (s1, paused)" by fastforce
    let ?h = "target_header (bus_of (xs_addressing s1)) (sp_target prof)"
    show thesis
    proof (cases "ss_stream st = None \<and> stream_signals ord ?s \<noteq> []")
      case False
      with assms Some have "st' = st \<and> (\<exists>e. r = Inl e \<and> e \<noteq> AtshNotQueued)" by (auto simp: start_stream_def Let_def split: if_splits)
      then show thesis using untouched by blast
    next
      case ready: True
      show thesis
      proof (cases "switch_header ?h now s1")
        case None
        with assms Some ready q show thesis by (intro unswitched) (auto simp: start_stream_def Let_def)
      next
        case sw: (Some s2)
        from assms Some ready q sw obtain v where v: "set_up ecu ?h prof (stream_signals ord ?s) = Ok v"
          by (auto simp: start_stream_def Let_def and_then_Ok)
        show thesis
        proof (cases "\<exists>um ex. v = Inr (um, ex) \<and> mon = None")
          case True
          then obtain um ex where "v = Inr (um, ex)" "mon = None" by blast
          with assms Some ready q sw v show thesis
            by (intro started [of prof ?h um ex s2]) (auto simp: start_stream_def Let_def stream_header_def)
        next
          case False
          with assms Some ready q sw v have "st' = st \<lparr> ss_session := resume_polling paused now (meanwhile is s2) \<rparr> \<and> (\<exists>e. r = Inl e \<and> e \<noteq> AtshNotQueued)"
            using set_up_error by (auto simp: start_stream_def Let_def split: sum.splits option.splits prod.splits)
          then show thesis using failed [of _ s2 prof] ready q sw Some by (auto simp: stream_header_def)
        qed
      qed
    qed
  qed
qed

lemma quiesce_ids: "snd (quiesce evs s) = active_ids (xs_subs s)"
  by (simp add: quiesce_def Let_def pause_all_active_def active_ids_def case_prod_unfold)

text \<open>The map after the refusals is laid out by the records that were acknowledged.\<close>

definition start_refused :: "ecu \<Rightarrow> string \<Rightarrow> DefineSet \<Rightarrow> (u8 \<times> string) list" where
  "start_refused ecu header dset =
     snd (send_defines ecu header (zip (define_commands dset) (record_pids dset)) (fst (probe_gates ecu), []))"

lemma set_up_Inr:
  assumes "set_up ecu header prof sigs = Ok (Inr (um, excluded))"
  obtains dset where "build_defines sigs prof = Ok dset" "um = foldl refusal (unpack dset) (start_refused ecu header dset)"
    "excluded = remdups_adj (sort (dropped dset @ map snd (start_refused ecu header dset)))"
proof -
  obtain l gate where g: "probe_gates ecu = (l, gate)" by fastforce
  from assms g have "gate = None" by (auto simp: set_up_def split: option.splits)
  with assms g obtain dset where d: "build_defines sigs prof = Ok dset" "define_commands dset \<noteq> []"
    by (auto simp: set_up_def split: outcome.splits if_splits)
  obtain l2 refused where s: "send_defines ecu header (zip (define_commands dset) (record_pids dset)) (l, []) = (l2, refused)" by fastforce
  from assms g d s \<open>gate = None\<close> show thesis
    by (intro that [of dset]) (auto simp: set_up_def start_refused_def Let_def case_prod_beta split: if_splits)
qed

lemma send_defines_refused:
  "\<exists>ys. snd (send_defines ecu header ds (l, refused)) = refused @ ys \<and> subseq ys (map snd ds)"
proof (induction ds arbitrary: l refused)
  case (Cons d ds)
  obtain cmd r where d: "d = (cmd, r)" by (cases d)
  obtain l' ack where a: "ask ecu (stpx_wrap header cmd) l = (l', ack)" by fastforce
  show ?case
  proof (cases "opens_with ack [0x6C, 0x01]")
    case True
    with Cons [of l' refused] d a show ?thesis by auto
  next
    case False
    from Cons [of l' "refused @ [r]"] obtain ys where
      "snd (send_defines ecu header ds (l', refused @ [r])) = (refused @ [r]) @ ys" "subseq ys (map snd ds)" by blast
    with False d a show ?thesis by (intro exI [of _ "r # ys"]) simp
  qed
qed simp

lemma layout_lens: "sum_list (map ps_len (layout n xs)) = sum_list (map snd xs)"
  by (induction xs arbitrary: n) auto

lemma tracks_laid_out:
  assumes "\<forall>s. sum_list (map snd (in_slot s rs)) \<le> SLOT_DATA_BYTES"
  shows "tracks rs (laid_out rs) (slot_bytes (laid_out rs))"
  using assms by (auto simp: tracks_def laid_out_def slot_bytes_def filled_def layout_lens)

lemma in_slot_filter_le: "sum_list (map snd (in_slot s (filter P rs))) \<le> sum_list (map snd (in_slot s rs))"
  by (induction rs) (auto simp: in_slot_def)

lemma distinct_subseq: "subseq xs ys \<Longrightarrow> distinct ys \<Longrightarrow> distinct xs"
  by (induction rule: list_emb.induct) (auto elim: list_emb_set)

lemma start_tracks:
  assumes "build_defines sigs prof = Ok dset" "slot_count prof \<le> 256" "distinct (map (\<lambda>sig. to_uppercase (fst sig)) sigs)"
    "um = foldl refusal (unpack dset) (start_refused ecu header dset)"
  shows "\<exists>rs. tracks rs um (slot_bytes um)
    \<and> map (\<lambda>r. (fst r, fst (snd r))) rs = filter (\<lambda>x. x \<notin> set (start_refused ecu header dset)) (record_pids dset)
    \<and> (\<forall>r \<in> set rs. \<exists>sig \<in> set sigs. snd r = (to_uppercase (fst sig), unat (fst (snd sig))))"
proof -
  let ?ref = "start_refused ecu header dset"
  obtain rs where rs: "defines_of sigs prof rs dset" using build_defines_records [OF assms(1,2)] .
  then have pids: "record_pids dset = map (\<lambda>r. (fst r, fst (snd r))) rs" and um: "unpack dset = laid_out rs"
    and pos: "\<forall>r \<in> set rs. unat (fst r) < slot_count prof \<and> 0 < snd (snd r)"
    and fill: "\<forall>s < slot_count prof. slot_fill rs s \<le> SLOT_DATA_BYTES"
    and sigs: "\<forall>r \<in> set rs. \<exists>sig \<in> set sigs. snd r = (to_uppercase (fst sig), unat (fst (snd sig)))"
    and all: "mset (map (\<lambda>r. fst (snd r)) rs) + mset (dropped dset) = mset (map (\<lambda>sig. to_uppercase (fst sig)) sigs)"
    by (simp_all add: defines_of_def)
  from all have "mset (map (\<lambda>r. fst (snd r)) rs @ dropped dset) = mset (map (\<lambda>sig. to_uppercase (fst sig)) sigs)" by simp
  then have "distinct (map (\<lambda>r. fst (snd r)) rs @ dropped dset)" using assms(3) mset_eq_imp_distinct_iff by blast
  then have d: "distinct (map (\<lambda>r. fst (snd r)) rs)" by simp
  have len: "length (define_commands dset) = length (record_pids dset)" using rs by (simp add: defines_of_def)
  have sub: "subseq ?ref (record_pids dset)"
    using send_defines_refused [of ecu header "zip (define_commands dset) (record_pids dset)" "fst (probe_gates ecu)" "[]"] len
    by (simp add: start_refused_def)
  have "distinct (map snd (map (\<lambda>r. (fst r, fst (snd r))) rs))" using d by (simp add: comp_def)
  then have "distinct (record_pids dset)" unfolding pids by (simp only: distinct_map)
  then have dr: "distinct ?ref" using distinct_subseq [OF sub] by simp
  have sr: "set ?ref \<subseteq> set (map (\<lambda>r. (fst r, fst (snd r))) rs)" using sub pids by (auto elim: list_emb_set)
  let ?rs = "filter (\<lambda>r. (fst r, fst (snd r)) \<notin> set ?ref) rs"
  have um': "um = laid_out ?rs" unfolding assms(4) um using pos by (intro refusals_laid_out [OF d _ dr sr]) auto
  have "sum_list (map snd (in_slot s ?rs)) \<le> SLOT_DATA_BYTES" for s
  proof (cases "unat s < slot_count prof")
    case True
    with fill have "sum_list (map snd (in_slot s rs)) \<le> SLOT_DATA_BYTES" by (force simp: slot_fill_def)
    then show ?thesis using in_slot_filter_le order.trans by blast
  next
    case False
    with pos have "in_slot s ?rs = []" by (auto simp: in_slot_def filter_empty_conv)
    then show ?thesis by (simp add: SLOT_DATA_BYTES_def)
  qed
  then have "tracks ?rs um (slot_bytes um)" unfolding um' by (intro tracks_laid_out allI)
  moreover have "map (\<lambda>r. (fst r, fst (snd r))) ?rs = filter (\<lambda>x. x \<notin> set ?ref) (record_pids dset)"
    by (simp add: pids filter_map comp_def)
  ultimately show ?thesis using sigs by (intro exI [of _ ?rs]) auto
qed

text \<open>
  C12: what a live stream delivers is what the vehicle sends. From a successful start through any run of
  beats and signal changes, whatever the vehicle refuses or leaves unanswered, the frames it sends, the
  records it acknowledged in the order of their definition, decode for every signal still in the map to exactly its bytes;
  the records are those left of the start and those acknowledged in the windows since, and no slot ever
  holds more than its seven bytes.
\<close>

theorem stream_delivers_what_is_sent:
  assumes "start_stream ecu mon ord ds is now tag st = Ok (st1, Inr info)" "ss_profiles st tag = Some prof" "slot_count prof \<le> 256"
    "distinct (map (\<lambda>sig. to_uppercase (fst sig)) (stream_signals ord (ss_session st)))"
    "stream_run ops st1 = Ok (st2, gaps)" "ss_stream st2 = Some a" "ident \<in> set (response_ids prof)"
  shows "\<exists>dset rs0 rs1. build_defines (stream_signals ord (ss_session st)) prof = Ok dset
    \<and> map (\<lambda>r. (fst r, fst (snd r))) rs0 = filter (\<lambda>x. x \<notin> set (start_refused ecu (as_header (the (ss_stream st1))) dset)) (record_pids dset)
    \<and> map define_of rs1 = acked_defines (concat (map gp_log gaps))
    \<and> (\<forall>slot. sum_list (map snd (in_slot slot (rs0 @ rs1))) \<le> SLOT_DATA_BYTES)
    \<and> (\<forall>data slot counters f. (\<forall>r \<in> set (rs0 @ rs1). length (data (fst (snd r))) = snd (snd r)) \<longrightarrow> frame_id f = ident
        \<longrightarrow> frame_data f = periodic_frame data (map (\<lambda>r. (fst r, fst (snd r))) (rs0 @ rs1)) slot counters
        \<longrightarrow> ingest a f = map (\<lambda>x. (ps_pid x, data (ps_pid x))) (case as_unpack a slot of None \<Rightarrow> [] | Some sigs \<Rightarrow> sigs))"
proof -
  from assms(1) obtain header um excluded s2 where s: "set_up ecu header prof (stream_signals ord (ss_session st)) = Ok (Inr (um, excluded))"
    "\<exists>b. ss_stream st1 = Some b \<and> as_unpack b = um \<and> as_fill b = slot_bytes um \<and> as_header b = header \<and> as_response_ids b = response_ids prof"
    using assms(2) by (elim start_stream_Ok) auto
  from s(1) obtain dset where d: "build_defines (stream_signals ord (ss_session st)) prof = Ok dset"
      "um = foldl refusal (unpack dset) (start_refused ecu header dset)"
    by (elim set_up_Inr)
  from start_tracks [OF d(1) assms(3,4) d(2)] obtain rs0 where r0: "tracks rs0 um (slot_bytes um)"
    "map (\<lambda>r. (fst r, fst (snd r))) rs0 = filter (\<lambda>x. x \<notin> set (start_refused ecu header dset)) (record_pids dset)" by blast
  have "stream_tracks rs0 st1" using s(2) r0(1) by (auto simp: stream_tracks_def)
  from stream_run_tracks [OF assms(5) this] obtain rs1 where r1: "stream_tracks (rs0 @ rs1) st2"
    "acked_defines (concat (map gp_log gaps)) = map define_of rs1"
    "map_option as_response_ids (ss_stream st2) = map_option as_response_ids (ss_stream st1)" by blast
  have t: "tracks (rs0 @ rs1) (as_unpack a) (as_fill a)" using r1(1) assms(6) by (simp add: stream_tracks_def)
  have ids: "ident \<in> set (as_response_ids a)" using r1(3) assms(6,7) s(2) by auto
  have hd: "as_header (the (ss_stream st1)) = header" using s(2) by auto
  have bound: "\<forall>slot. sum_list (map snd (in_slot slot (rs0 @ rs1))) \<le> SLOT_DATA_BYTES" using t by (simp add: tracks_def)
  show ?thesis
    unfolding hd using d(1) r0(2) r1(2) bound tracked_frame [OF t _ ids]
    by (intro exI [of _ dset] exI [of _ rs0] exI [of _ rs1]) (simp add: ingest_def)
qed

section \<open>Polling after a failed start and after a stop\<close>

lemma pause_all_gets: "get_sub i m = Some x \<Longrightarrow> state x = Active \<Longrightarrow> get_sub i (fst (pause_all_active m)) = Some (x \<lparr> state := Paused \<rparr>)"
proof -
  have "map_of (map (\<lambda>(j, x). (j, if state x = Active then x \<lparr> state := Paused \<rparr> else x)) xs) i
      = map_option (\<lambda>x. if state x = Active then x \<lparr> state := Paused \<rparr> else x) (map_of xs i)" for xs
    by (induction xs) auto
  from this [of "subscriptions m"] show "get_sub i m = Some x \<Longrightarrow> state x = Active \<Longrightarrow> get_sub i (fst (pause_all_active m)) = Some (x \<lparr> state := Paused \<rparr>)"
    unfolding get_sub_def pause_all_active_def Let_def fst_conv Manager.select_convs Manager.update_convs
    by (simp add: case_prod_unfold)
qed

lemma polled_is_paused: "is_polled i s \<Longrightarrow> i \<in> set (snd (quiesce evs s))"
  by (auto simp: is_polled_def quiesce_ids split: option.splits dest: active_id)

lemma stop_stream_resumes:
  assumes "ss_stream c = Some b" "i \<in> set (as_paused b)"
    "wanted i (meanwhile evs (queue_all [''2A04'', ''2C03'', ''1001''] 5000 t (set_hold False (ss_session c))))"
  shows "is_polled i (ss_session (stop_stream evs t c)) \<and> ss_stream (stop_stream evs t c) = None"
  using resumed_is_polled [OF assms(2) assms(3) [unfolded wanted_def], of t] assms(1)
  by (simp add: stop_stream_def break_stream_transport_def Let_def raw_write_def)


lemma no_active_no_pick:
  assumes "\<forall>(j, x) \<in> set (subscriptions m). state x \<noteq> Active"
  shows "snd (get_next_commands ord n a m) = []"
proof -
  obtain m' ds where g: "get_next_commands ord n a m = (m', ds)" by fastforce
  have "owning_active_sub p m = None" for p
    using assms by (auto simp: owning_active_sub_def find_None_iff)
  then have "eligible_pick m pc = None" for pc by (simp add: eligible_pick_def case_prod_beta)
  then have "ds = []" using next_commands_spec(1) [OF g] by (cases ds) (auto simp: picks_of_def)
  with g show ?thesis by simp
qed

text \<open>
  C15: the refused header switch strands the dashboard. When the command queue is full at that moment,
  the start fails with every polled subscription paused and none resumed; there is no stream whose stop could
  resume it, and the scheduler has nothing to pick.
\<close>

theorem refused_switch_strands_polling:
  assumes "start_stream ecu mon ord [] is now tag st = Ok (st', Inl AtshNotQueued)"
  shows "(\<forall>i. is_polled i (ss_session st) \<longrightarrow> \<not> host_paused (the (get_sub i (xs_subs (ss_session st)))) \<longrightarrow> left_paused i (ss_session st'))
    \<and> active_ids (xs_subs (ss_session st')) = [] \<and> stop_stream evs t st' = st'
    \<and> snd (get_next_commands gord n adm (xs_subs (ss_session st'))) = []"
  using assms
proof (cases rule: start_stream_Ok)
  case (untouched e)
  then show ?thesis by simp
next
  case unswitched
  let ?s = "ss_session st" and ?s' = "ss_session st'"
  have subs: "subscriptions (xs_subs ?s') = subscriptions (fst (pause_all_active (xs_subs ?s)))"
    by (simp add: unswitched(2) quiesce_def Let_def meanwhile_def case_prod_beta clear_in_flight_def)
  have none: "\<forall>(j, x) \<in> set (subscriptions (xs_subs ?s')). state x \<noteq> Active"
    unfolding subs by (auto simp: pause_all_active_def split: if_splits)
  have "left_paused i ?s'" if i: "is_polled i ?s" "\<not> host_paused (the (get_sub i (xs_subs ?s)))" for i
  proof -
    obtain x where x: "get_sub i (xs_subs ?s) = Some x" "state x = Active" using i(1) by (auto simp: is_polled_def split: option.splits)
    from pause_all_gets [OF x] have "get_sub i (xs_subs ?s') = Some (x \<lparr> state := Paused \<rparr>)" by (simp only: get_sub_def subs)
    with i(2) x(1) show ?thesis by (simp add: left_paused_def)
  qed
  moreover have "active_ids (xs_subs ?s') = []" using none by (auto simp: active_ids_def filter_empty_conv)
  moreover have "stop_stream evs t st' = st'" using unswitched(3) by (simp add: unswitched(2) stop_stream_def break_stream_transport_def)
  ultimately show ?thesis using no_active_no_pick [OF none] by blast
qed simp_all

section \<open>A beat applies the changes\<close>

lemma set_sorted_slots: "set (sorted_slots f) = {s. f s \<noteq> None}"
proof -
  have "s \<in> word_of_int ` {0..255}" for s :: u8
    by (rule image_eqI [of _ _ "uint s"]) (use uint_lt2p [of s] in simp_all)
  then show ?thesis by (auto simp: sorted_slots_def)
qed

lemma sorted_words: "sorted xs \<Longrightarrow> \<forall>x \<in> set xs. 0 \<le> x \<and> x < 256 \<Longrightarrow> sorted (map word_of_int xs :: u8 list)"
  by (induction xs) (auto simp: word_le_def uint_word_of_int)

lemma sorted_slots_sorted: "sorted (sorted_slots f)"
  unfolding sorted_slots_def by (intro sorted_wrt_filter sorted_words) auto

definition sigs_at :: "unpack_map \<Rightarrow> u8 \<Rightarrow> PackedSignal list" where
  "sigs_at um s = (case um s of None \<Rightarrow> [] | Some sigs \<Rightarrow> sigs)"

definition mapped_pids :: "unpack_map \<Rightarrow> string set" where
  "mapped_pids um = (\<Union>s. ps_pid ` set (sigs_at um s))"

lemma mapped_retain [simp]: "mapped_pids (retain_signals ps um) = mapped_pids um - set ps"
proof -
  have "sigs_at (retain_signals ps um) s = filter (\<lambda>x. ps_pid x \<notin> set ps) (sigs_at um s)" for s
    by (auto simp: sigs_at_def retain_signals_def Let_def split: option.split)
  then show ?thesis by (auto simp: mapped_pids_def)
qed

lemma sigs_at_upd: "sigs_at (um(t \<mapsto> xs)) s = (if s = t then xs else sigs_at um s)"
  by (simp add: sigs_at_def)

lemma mapped_upd: "mapped_pids (um(t \<mapsto> sigs_at um t @ [y])) = insert (ps_pid y) (mapped_pids um)"
proof (intro equalityI subsetI)
  fix p assume "p \<in> mapped_pids (um(t \<mapsto> sigs_at um t @ [y]))"
  then obtain s where "p \<in> ps_pid ` set (sigs_at (um(t \<mapsto> sigs_at um t @ [y])) s)" by (auto simp: mapped_pids_def)
  then show "p \<in> insert (ps_pid y) (mapped_pids um)"
    by (cases "s = t") (auto simp: sigs_at_upd mapped_pids_def)
next
  fix p assume "p \<in> insert (ps_pid y) (mapped_pids um)"
  then consider "p = ps_pid y" | s where "p \<in> ps_pid ` set (sigs_at um s)" by (auto simp: mapped_pids_def)
  then show "p \<in> mapped_pids (um(t \<mapsto> sigs_at um t @ [y]))"
  proof cases
    case 1
    then have "p \<in> ps_pid ` set (sigs_at (um(t \<mapsto> sigs_at um t @ [y])) t)" by (simp add: sigs_at_upd)
    then show ?thesis unfolding mapped_pids_def by blast
  next
    case 2
    then have "p \<in> ps_pid ` set (sigs_at (um(t \<mapsto> sigs_at um t @ [y])) s)" by (auto simp: sigs_at_upd)
    then show ?thesis unfolding mapped_pids_def by blast
  qed
qed

lemma gap_adds_pids:
  "gap_adds tap h slots ps g = Ok g' \<Longrightarrow> gp_events g = evs0 \<Longrightarrow>
   \<exists>evs. gp_events g' = evs0 @ evs \<and> mapped_pids (gp_unpack g') = mapped_pids (gp_unpack g) \<union> fst ` set (filter snd evs)"
proof (induction ps arbitrary: g evs0)
  case (Cons p ps)
  from Cons.prems(1) obtain g1 where g1: "gap_add tap h slots p g = Ok g1" "gap_adds tap h slots ps g1 = Ok g'"
    by (auto simp: and_then_Ok)
  from g1(1) show ?case
  proof (cases rule: gap_add_cases)
    case (refused l)
    moreover from Cons.IH [OF g1(2) refl] obtain evs where "gp_events g' = gp_events g1 @ evs"
        "mapped_pids (gp_unpack g') = mapped_pids (gp_unpack g1) \<union> fst ` set (filter snd evs)" by blast
    ultimately show ?thesis using Cons.prems(2) by (intro exI [of _ "(p, False) # evs"]) simp
  next
    case (added l slot src len)
    then have "mapped_pids (gp_unpack g1) = insert p (mapped_pids (gp_unpack g))" by (simp only: mapped_upd sigs_at_def [symmetric] PackedSignal.select_convs)
    moreover from Cons.IH [OF g1(2) refl] obtain evs where "gp_events g' = gp_events g1 @ evs"
        "mapped_pids (gp_unpack g') = mapped_pids (gp_unpack g1) \<union> fst ` set (filter snd evs)" by blast
    ultimately show ?thesis using Cons.prems(2) added(6) by (intro exI [of _ "(p, True) # evs"]) simp
  qed
qed auto

lemma process_pending_pids:
  assumes "process_pending_signals tap a g = Ok g'" "gp_events g = []"
  shows "mapped_pids (gp_unpack g') = (mapped_pids (gp_unpack g) - set (as_removes a)) \<union> fst ` set (filter snd (gp_events g'))"
proof -
  define g1 where "g1 = (if as_removes a = [] then g else g \<lparr> gp_unpack := retain_signals (as_removes a) (gp_unpack g) \<rparr>)"
  have m: "mapped_pids (gp_unpack g1) = mapped_pids (gp_unpack g) - set (as_removes a)" "gp_events g1 = []"
    using assms(2) by (simp_all add: g1_def)
  show ?thesis
  proof (cases "as_adds a = []")
    case True
    with assms(1) have "g' = g1" by (simp add: process_pending_signals_def g1_def)
    with m show ?thesis by simp
  next
    case False
    let ?s = "fst (gap_exchange tap (as_header a) StopSchedule ''016A'' g1)"
    from assms(1) False obtain g2 where g2: "gap_adds tap (as_header a) (as_slot_count a) (as_adds a) ?s = Ok g2"
        "gp_unpack g' = gp_unpack g2" "gp_events g' = gp_events g2"
      by (auto simp: process_pending_signals_def Let_def and_then_Ok g1_def [symmetric])
    from gap_adds_pids [OF g2(1), of "[]"] m g2(2,3) show ?thesis by auto
  qed
qed

text \<open>
  C13: a beat does what was asked of it and leaves the schedule running. In the window, after the break and
  the keepalive, nothing is written when nothing is to be added; otherwise the schedule is stopped first, only
  probes and defines follow, and the last request starts it again over exactly the slots that hold a record, even
  when every define was refused; the monitor is re-entered behind it. Each addition has one event, in order,
  and afterwards the stream delivers the PIDs it delivered that were not removed, and those added.
\<close>

theorem beat_applies_changes:
  assumes "keepalive_beat tap stopping a st = Ok (st', g)" "tracks rs (as_unpack a) (as_fill a)"
  shows "ss_wire st' = ss_wire st @ ['' '', as_keepalive_wire a] @ map (\<lambda>e. gap_text (as_header a) (fst e)) (gp_log g)
      @ (if stopping then [] else [''STM''])
    \<and> (\<exists>new ack mid slots. acked_defines (gp_log g) = map define_of new
        \<and> gp_log g = (if as_adds a = [] then [] else (StopSchedule, ack) # mid @ [(ArmSchedule (as_rate_mode a) slots, None)])
        \<and> list_all (\<lambda>e. is_probe e \<or> is_define (fst e)) mid
        \<and> (as_adds a \<noteq> [] \<longrightarrow> sorted slots \<and> set slots = {s. in_slot s (rs @ new) \<noteq> []}))
    \<and> map fst (gp_events g) = as_adds a
    \<and> (\<exists>b. ss_stream st' = Some b \<and> mapped_pids (as_unpack b) = (mapped_pids (as_unpack a) - set (as_removes a)) \<union> fst ` set (filter snd (gp_events g)))"
proof -
  let ?g = "open_gap a (ss_session st)"
  from assms(1) have p: "process_pending_signals tap a ?g = Ok g"
      "ss_wire st' = ss_wire st @ ['' '', as_keepalive_wire a] @ map (\<lambda>e. gap_text (as_header a) (fst e)) (gp_log g)
        @ (if stopping then [] else [''STM''])"
      "\<exists>b. ss_stream st' = Some b \<and> as_unpack b = gp_unpack g"
    by (auto simp: keepalive_beat_def Let_def and_then_Ok raw_write_def)
  have "tracks rs (gp_unpack ?g) (gp_fill ?g)" using assms(2) by (simp add: open_gap_def)
  from process_pending_tracks [OF p(1) this] obtain new mid ack where n: "tracks (rs @ new) (gp_unpack g) (gp_fill g)"
    "gp_log g = (if as_adds a = [] then [] else (StopSchedule, ack) # mid @ [(ArmSchedule (as_rate_mode a) (sorted_slots (gp_fill g)), None)])"
    "acked_defines mid = map define_of new" "list_all (\<lambda>e. is_probe e \<or> is_define (fst e)) mid"
    "map fst (gp_events g) = as_adds a" "map (\<lambda>r. fst (snd r)) new = map fst (filter snd (gp_events g))"
    by (auto simp: open_gap_def)
  have "as_adds a = [] \<longrightarrow> new = []" using n(5,6) by auto
  from window_defines [OF n(2) [symmetric] n(3) this] have d: "acked_defines (gp_log g) = map define_of new" .
  have sl: "sorted (sorted_slots (gp_fill g))" "set (sorted_slots (gp_fill g)) = {s. in_slot s (rs @ new) \<noteq> []}"
    using n(1) by (simp_all add: sorted_slots_sorted set_sorted_slots tracks_def)
  have "mapped_pids (gp_unpack g) = (mapped_pids (as_unpack a) - set (as_removes a)) \<union> fst ` set (filter snd (gp_events g))"
    using process_pending_pids [OF p(1)] by (simp add: open_gap_def)
  then have "\<exists>b. ss_stream st' = Some b
      \<and> mapped_pids (as_unpack b) = (mapped_pids (as_unpack a) - set (as_removes a)) \<union> fst ` set (filter snd (gp_events g))"
    using p(3) by auto
  moreover have "\<exists>new ack mid slots. acked_defines (gp_log g) = map define_of new
        \<and> gp_log g = (if as_adds a = [] then [] else (StopSchedule, ack) # mid @ [(ArmSchedule (as_rate_mode a) slots, None)])
        \<and> list_all (\<lambda>e. is_probe e \<or> is_define (fst e)) mid
        \<and> (as_adds a \<noteq> [] \<longrightarrow> sorted slots \<and> set slots = {s. in_slot s (rs @ new) \<noteq> []})"
    by (rule exI [of _ new], rule exI [of _ ack], rule exI [of _ mid], rule exI [of _ "sorted_slots (gp_fill g)"])
       (intro conjI impI d n(2,4) sl)
  ultimately show ?thesis using p(2) n(5) by (intro conjI)
qed

section \<open>A stream of the S197\<close>

definition answer_bytes :: "u8 list \<Rightarrow> LinkReply option" where
  "answer_bytes bs = Some \<lparr> status = StOk, parsed = None, faulted = False, payloads = [\<lparr> controller = ''7E8'', bytes = bs \<rparr>], raw = [] \<rparr>"

text \<open>The module accepts everything but the record of \<^verbatim>\<open>010C\<close>.\<close>

definition pcm :: ecu where
  "pcm so_far cmd =
     (if cmd = ''1003'' then answer_bytes [0x50, 0x03]
      else if cmd = ''2C03'' then answer_bytes [0x6C, 0x03]
      else if contains cmd ''F40C'' then answer_bytes [0x7F, 0x2C, 0x31]
      else if contains cmd ''2C01'' then answer_bytes [0x6C, 0x01]
      else if starts_with cmd ''2A'' then answer_bytes [0x6A] else None)"

definition pcm_tap :: tap_lines where
  "pcm_tap wires =
     (let w = last wires
      in if contains w ''2A04'' then [''7E8 01 6A'']
         else if contains w ''2C01'' then [''7E8 03 7F 2C 78'', ''7E8 04 6C 01 F2 00'']
         else if contains w ''22F405'' then [''7E8 04 62 F4 05 7B''] else [])"

definition stream_idle :: Streaming where
  "stream_idle = \<lparr> ss_session = learned_demo, ss_stream = None, ss_profiles = (\<lambda>t. if t = ''s197'' then Some s197 else None), ss_wire = [] \<rparr>"

definition stream_live :: Streaming where
  "stream_live = (case start_stream pcm None list_pids [] [] 1 ''s197'' stream_idle of Ok (st, _) \<Rightarrow> st | _ \<Rightarrow> stream_idle)"

definition stream_info :: StreamStartInfo where
  "stream_info = \<lparr> si_response_ids = [''6A0'', ''6A1''], si_keepalive_interval_ms = 4000, si_slots_used = 1, si_excluded = [''010C''] \<rparr>"

lemma stream_demo_start: "start_stream pcm None list_pids [] [] 1 ''s197'' stream_idle = Ok (stream_live, Inr stream_info)"
proof -
  have "case start_stream pcm None list_pids [] [] 1 ''s197'' stream_idle of
      Ok (st, Inr i) \<Rightarrow> i = stream_info | _ \<Rightarrow> False"
    by code_simp
  then show ?thesis unfolding stream_live_def
    by (cases "start_stream pcm None list_pids [] [] 1 ''s197'' stream_idle") (auto split: sum.splits)
qed

definition edits :: "StreamOp list" where
  "edits = [ChangeSignal ''22f405'' True, ChangeSignal ''0105'' False, KeepAlive pcm_tap False]"

lemma edits_run:
  "\<exists>st gs a. stream_run edits stream_live = Ok (st, gs) \<and> ss_stream st = Some a
    \<and> acked_defines (concat (map gp_log gs)) = [DefineRecord 0 ''F405'' 1]
    \<and> as_unpack a 0 = Some [\<lparr> ps_pid = ''22F405'', ps_offset = 1, ps_len = 1 \<rparr>]"
proof -
  have "case stream_run edits stream_live of
      Ok (st, gs) \<Rightarrow> (case ss_stream st of None \<Rightarrow> False | Some a \<Rightarrow>
        acked_defines (concat (map gp_log gs)) = [DefineRecord 0 ''F405'' 1]
        \<and> as_unpack a 0 = Some [\<lparr> ps_pid = ''22F405'', ps_offset = 1, ps_len = 1 \<rparr>])
    | _ \<Rightarrow> False"
    by code_simp
  then show ?thesis by (auto split: outcome.splits option.splits)
qed

lemma stream_demo_signals: "stream_signals list_pids learned_demo = [(''010C'', 2, None), (''0105'', 1, None)]"
  by code_simp

lemma stream_demo_facts:
  "ss_profiles stream_idle ''s197'' = Some s197" "slot_count s197 \<le> 256" "''6A0'' \<in> set (response_ids s197)"
  "distinct (map (\<lambda>sig. to_uppercase (fst sig)) (stream_signals list_pids (ss_session stream_idle)))"
  "is_polled 7 (ss_session stream_idle)"
proof -
  show "distinct (map (\<lambda>sig. to_uppercase (fst sig)) (stream_signals list_pids (ss_session stream_idle)))"
    by (simp add: stream_idle_def stream_demo_signals to_uppercase_def upper_char_def char_code_def)
  show "is_polled 7 (ss_session stream_idle)" by code_simp
qed (simp_all add: stream_idle_def s197_def)

theorem stream_delivers_what_is_sent_witness:
  "\<exists>st gs a rs1. stream_run edits stream_live = Ok (st, gs) \<and> ss_stream st = Some a \<and> map define_of rs1 = [DefineRecord 0 ''F405'' 1]"
proof -
  obtain st gs a where e: "stream_run edits stream_live = Ok (st, gs)" "ss_stream st = Some a"
    "acked_defines (concat (map gp_log gs)) = [DefineRecord 0 ''F405'' 1]" using edits_run by blast
  from stream_delivers_what_is_sent [OF stream_demo_start stream_demo_facts(1,2,4) e(1,2) stream_demo_facts(3)] e show ?thesis by metis
qed


definition full_queue :: Streaming where
  "full_queue = stream_idle \<lparr> ss_session := learned_demo \<lparr> xs_proc := (xs_proc learned_demo) \<lparr> max_queue_size := 0 \<rparr> \<rparr> \<rparr>"

definition stranded :: Streaming where
  "stranded = full_queue \<lparr> ss_session := fst (quiesce [] (ss_session full_queue)) \<rparr>"

lemma full_queue_start: "start_stream pcm None list_pids [] [] 1 ''s197'' full_queue = Ok (stranded, Inl AtshNotQueued)"
proof -
  have "stream_signals list_pids (ss_session full_queue) \<noteq> []" by code_simp
  moreover have "switch_header (target_header (bus_of (xs_addressing (fst (quiesce [] (ss_session full_queue))))) (sp_target s197)) 1
      (fst (quiesce [] (ss_session full_queue))) = None" by code_simp
  moreover have "ss_profiles full_queue ''s197'' = Some s197" "ss_stream full_queue = None"
    by (simp_all add: full_queue_def stream_idle_def)
  ultimately show ?thesis
    by (simp add: start_stream_def Let_def case_prod_beta stranded_def)
qed

theorem refused_switch_strands_polling_witness: "left_paused 7 (ss_session stranded) \<and> active_ids (xs_subs (ss_session stranded)) = []"
proof -
  have "is_polled 7 (ss_session full_queue)" "\<not> host_paused (the (get_sub 7 (xs_subs (ss_session full_queue))))" by code_simp+
  with refused_switch_strands_polling [OF full_queue_start] show ?thesis by blast
qed

definition demo_stream :: ActiveStream where
  "demo_stream = \<lparr> as_paused = [7], as_response_ids = [''6A0''], as_keepalive_wire = ''STPX H:7E0,D:3E80,R:0'', as_loop_stop = False,
     as_monitor_active = True, as_unpack = Map.empty, as_adds = [''22F405''], as_removes = [], as_fill = Map.empty, as_slot_count = 2,
     as_header = ''7E0'', as_rate_mode = 3 \<rparr>"

theorem beat_applies_changes_witness:
  "\<exists>st' g. keepalive_beat pcm_tap False demo_stream stream_idle = Ok (st', g) \<and> map fst (gp_events g) = [''22F405'']"
proof -
  have "case keepalive_beat pcm_tap False demo_stream stream_idle of Ok _ \<Rightarrow> True | _ \<Rightarrow> False" by code_simp
  then obtain st' g where k: "keepalive_beat pcm_tap False demo_stream stream_idle = Ok (st', g)" by (auto split: outcome.splits)
  have "tracks [] (as_unpack demo_stream) (as_fill demo_stream)"
    by (simp add: tracks_def demo_stream_def in_slot_def filled_def)
  from beat_applies_changes [OF k this] k show ?thesis by (auto simp: demo_stream_def)
qed

section \<open>What the window gets wrong\<close>

text \<open>
  A define that is accepted but whose acknowledgement is lost counts as refused. The next record of the slot
  is then expected where the unacknowledged one is: the vehicle sends \<^verbatim>\<open>22F405\<close> (7B) behind \<^verbatim>\<open>22F404\<close>
  (55), and the host is told that \<^verbatim>\<open>22F405\<close> is 55.
\<close>

definition deaf_tap :: tap_lines where
  "deaf_tap wires = (if contains (last wires) ''F40401'' then [] else if contains (last wires) ''22F404'' then [''7E8 04 62 F4 04 55'']
     else pcm_tap wires)"

lemma lost_ack_misreads:
  "case keepalive_beat deaf_tap False (demo_stream \<lparr> as_adds := [''22F404'', ''22F405''] \<rparr>) stream_idle of
     Ok (st, g) \<Rightarrow> gp_events g = [(''22F404'', False), (''22F405'', True)]
       \<and> (case ss_stream st of None \<Rightarrow> False | Some a \<Rightarrow>
            decode_periodic_frame ''6A0'' [0, 0x55, 0x7B, 0, 0, 0, 0, 0] (as_response_ids a) (as_unpack a) = [(''22F405'', [0x55])])
   | _ \<Rightarrow> False"
  by code_simp

text \<open>A probed length is recorded in a byte: a first frame that announces 264 bytes teaches the length 5.\<close>

lemma probed_length_truncated:
  "case gap_probe (\<lambda>_. [''7E8 11 08 62 F4 05 00 00 00'']) ''7E0'' ''22F405'' (open_gap demo_stream learned_demo) of
     Ok (g, len) \<Rightarrow> len = 261 \<and> lc_get (gp_cache g) ''22F405'' = Some 5
   | _ \<Rightarrow> False"
  by code_simp

end
