(* ===== verification/Datasets.thy ===== *)
theory Datasets
  imports Addressing
begin

text \<open>
  The attached dataset (\<^verbatim>\<open>src/dataset_registry.rs\<close>) and the adapter catalog (\<^verbatim>\<open>src/catalog.rs\<close>): which
  dataset a VIN and an addressing select, how its module table names the modules of the vehicle, and what
  the catalog says of an adapter. The JSON of both files is read by a library; the model starts from the
  parsed values, without the fields that the session does not read while it connects (\<^verbatim>\<open>dtcRead\<close>, \<^verbatim>\<open>rules\<close>, the raw
  \<^verbatim>\<open>streamProfiles\<close>).
\<close>

section \<open>The session slice\<close>

record MatchCfg =
  wmis :: "string list"
  match_addressing :: "string option"
  positions :: "(string \<times> string list) list"

record IdentifyCfg =
  id_send :: string
  id_expect :: string

record ModuleCfg =
  mod_name :: string
  mod_id :: "string option"
  mod_priority :: "string option"
  mod_format :: "string option"
  mod_target :: "string option"
  mod_source :: "string option"
  mod_bus :: "string option"

record DatasetCfg =
  ds_id :: string
  match_cfg :: "MatchCfg option"
  ds_identify :: "IdentifyCfg option"
  ds_modules :: "ModuleCfg list"

text \<open>The header of a module: its flat identifier, or the assembled 29-bit route.\<close>

definition module_header :: "ModuleCfg \<Rightarrow> string option" where
  "module_header m =
     (case mod_id m of
        Some i \<Rightarrow> Some i
      | None \<Rightarrow>
          (case (mod_priority m, mod_format m, mod_target m, mod_source m) of
             (Some p, Some f, Some t, Some s) \<Rightarrow> Some (p @ f @ t @ s)
           | _ \<Rightarrow> None))"

section \<open>Matching a vehicle\<close>

text \<open>\<^verbatim>\<open>str::parse::<usize>\<close>: decimal digits behind at most one plus sign, within 64 bits.\<close>

definition parse_usize :: "string \<Rightarrow> nat option" where
  "parse_usize s =
     (let ds = (case s of [] \<Rightarrow> [] | c # cs \<Rightarrow> if c = CHR ''+'' then cs else s);
          digit = (\<lambda>c. 48 \<le> (of_char c :: nat) \<and> (of_char c :: nat) \<le> 57);
          n = foldl (\<lambda>a c. 10 * a + (of_char c - 48)) 0 ds
      in if ds = [] \<or> \<not> list_all digit ds \<or> n \<ge> 2 ^ 64 then None else Some n)"

definition position_holds :: "string \<Rightarrow> string \<times> string list \<Rightarrow> bool" where
  "position_holds vin ka =
     (case parse_usize (fst ka) of
        None \<Rightarrow> False
      | Some i \<Rightarrow> 1 \<le> i \<and> i \<le> length vin \<and> list_ex (\<lambda>a. eq_ignore_case a [vin ! (i - 1)]) (snd ka))"

definition bus_name :: "Addressing \<Rightarrow> string" where
  "bus_name a = (case a of Can11 \<Rightarrow> ''11bit'' | Can29 _ \<Rightarrow> ''29bit'')"

text \<open>A dataset that matches comes with its rank: position constraints first, then an exact manufacturer.\<close>

definition rank :: "string \<Rightarrow> Addressing \<Rightarrow> DatasetCfg \<Rightarrow> (nat \<times> bool) option" where
  "rank vin a d =
     (case match_cfg d of
        None \<Rightarrow> None
      | Some m \<Rightarrow>
          (let wmi = take 3 vin; exact = (wmi \<in> set (wmis m))
           in if \<not> exact \<and> take 2 wmi @ '' '' \<notin> set (wmis m) then None
              else if (case match_addressing m of None \<Rightarrow> False | Some r \<Rightarrow> r \<noteq> bus_name a) then None
              else if \<not> list_all (position_holds vin) (positions m) then None
              else Some (length (positions m), exact)))"

definition rank_le :: "nat \<times> bool \<Rightarrow> nat \<times> bool \<Rightarrow> bool" where
  "rank_le r r' \<longleftrightarrow> fst r < fst r' \<or> fst r = fst r' \<and> (snd r \<longrightarrow> snd r')"

text \<open>\<^verbatim>\<open>max_by_key\<close>: of several maxima the last.\<close>

fun best :: "(DatasetCfg \<Rightarrow> (nat \<times> bool) option) \<Rightarrow> DatasetCfg list \<Rightarrow> (DatasetCfg \<times> (nat \<times> bool)) option \<Rightarrow> DatasetCfg option" where
  "best rk [] acc = map_option fst acc"
| "best rk (d # ds) acc =
     (case rk d of
        None \<Rightarrow> best rk ds acc
      | Some r \<Rightarrow> best rk ds (case acc of Some (d', r') \<Rightarrow> if rank_le r' r then Some (d, r) else acc | None \<Rightarrow> Some (d, r)))"

definition dataset_resolve :: "DatasetCfg list \<Rightarrow> string \<Rightarrow> Addressing \<Rightarrow> DatasetCfg option" where
  "dataset_resolve dss vin a =
     (if length vin < 3 then None else best (rank (to_uppercase vin) a) dss None)"

lemma rank_le_trans: "rank_le a b \<Longrightarrow> rank_le b c \<Longrightarrow> rank_le a c"
  by (auto simp: rank_le_def)

lemma rank_le_total: "rank_le a b \<or> rank_le b a"
  by (auto simp: rank_le_def)

lemma rank_le_refl [simp]: "rank_le a a"
  by (simp add: rank_le_def)

lemma best_spec:
  assumes "best rk ds acc = Some d" "case acc of None \<Rightarrow> True | Some (d', r') \<Rightarrow> rk d' = Some r'"
  shows "\<exists>r. rk d = Some r \<and> (d \<in> set ds \<or> (\<exists>r'. acc = Some (d, r'))) \<and> (\<forall>x \<in> set ds. \<forall>q. rk x = Some q \<longrightarrow> rank_le q r)
    \<and> (case acc of None \<Rightarrow> True | Some (d', r') \<Rightarrow> rank_le r' r)"
  using assms
proof (induction ds arbitrary: acc)
  case (Cons x ds)
  show ?case
  proof (cases "rk x")
    case None
    with Cons.prems have "best rk ds acc = Some d" by simp
    from Cons.IH [OF this Cons.prems(2)] None show ?thesis by auto
  next
    case (Some q)
    define acc' where "acc' = (case acc of Some (d', r') \<Rightarrow> if rank_le r' q then Some (x, q) else acc | None \<Rightarrow> Some (x, q))"
    have b: "best rk ds acc' = Some d" using Cons.prems(1) Some by (simp add: acc'_def)
    have "case acc' of None \<Rightarrow> True | Some (d', r') \<Rightarrow> rk d' = Some r'"
      using Cons.prems(2) Some by (auto simp: acc'_def split: option.splits)
    from Cons.IH [OF b this] obtain r where r: "rk d = Some r" "d \<in> set ds \<or> (\<exists>r'. acc' = Some (d, r'))"
      "\<forall>x \<in> set ds. \<forall>q. rk x = Some q \<longrightarrow> rank_le q r" "case acc' of None \<Rightarrow> True | Some (d', r') \<Rightarrow> rank_le r' r" by blast
    have "rank_le q r \<and> (case acc of None \<Rightarrow> True | Some (d', r') \<Rightarrow> rank_le r' r)"
    proof (cases acc)
      case (Some p)
      obtain d' r' where p: "p = (d', r')" by (cases p)
      show ?thesis
      proof (cases "rank_le r' q")
        case True
        with r(4) Some p show ?thesis by (auto simp: acc'_def intro: rank_le_trans [OF True])
      next
        case False
        then have "rank_le q r'" using rank_le_total by blast
        with False r(4) Some p show ?thesis by (auto simp: acc'_def intro: rank_le_trans)
      qed
    qed (use r(4) in \<open>simp add: acc'_def\<close>)
    moreover have "d \<in> set (x # ds) \<or> (\<exists>r'. acc = Some (d, r'))"
      using r(2) by (auto simp: acc'_def split: option.splits if_splits)
    ultimately show ?thesis using r(1,3) Some by auto
  qed
qed (auto split: option.splits)

lemma best_None: "best rk ds acc = None \<longleftrightarrow> acc = None \<and> (\<forall>x \<in> set ds. rk x = None)"
  by (induction ds arbitrary: acc) (auto split: option.splits)

section \<open>The adapter catalog\<close>

record CatalogAdapter =
  ca_name :: string
  ca_max_chunk :: "nat option"
  ca_supports_periodic :: "bool option"
  ca_protocol :: "string option"
  ca_ble :: "string list option"
  ca_classic :: "string list option"
  ca_usb :: "string list option"
  ca_wifi :: "string list option"

record CatalogFacts =
  cx_name :: string
  cx_supports_periodic :: "bool option"
  cx_max_chunk :: "nat option"
  cx_protocol :: "string option"

definition to_lower :: "char \<Rightarrow> char" where
  "to_lower c = (if 65 \<le> (of_char c :: nat) \<and> (of_char c :: nat) \<le> 90 then char_of ((of_char c :: nat) + 32) else c)"

definition matches_any :: "bool \<Rightarrow> string \<Rightarrow> string list option \<Rightarrow> bool" where
  "matches_any by_prefix name p =
     (case p of
        None \<Rightarrow> False
      | Some pats \<Rightarrow>
          list_ex (\<lambda>pat. let lp = map to_lower pat in
             if by_prefix then starts_with (map to_lower name) lp else contains (map to_lower name) lp) pats)"

definition adapter_matches :: "string \<Rightarrow> string \<Rightarrow> CatalogAdapter \<Rightarrow> bool" where
  "adapter_matches name kind a =
     (if kind = ''ble'' then matches_any False name (ca_ble a)
      else if kind = ''classic'' then matches_any True name (ca_classic a)
      else if kind = ''usb'' then matches_any False name (ca_usb a)
      else if kind = ''wifi'' then matches_any False name (ca_wifi a)
      else False)"

definition catalog_resolve :: "CatalogAdapter list \<Rightarrow> string \<Rightarrow> string \<Rightarrow> CatalogFacts option" where
  "catalog_resolve cat name kind =
     map_option (\<lambda>hit. \<lparr> cx_name = ca_name hit, cx_supports_periodic = ca_supports_periodic hit,
         cx_max_chunk = ca_max_chunk hit, cx_protocol = ca_protocol hit \<rparr>)
       (find (adapter_matches name kind) cat)"

section \<open>Attaching\<close>



definition mustangs :: "DatasetCfg list" where
  "mustangs =
     map (\<lambda>(i, ms, adr, pos). \<lparr> ds_id = i, match_cfg = Some \<lparr> wmis = ms, match_addressing = adr, positions = pos \<rparr>,
            ds_identify = None, ds_modules = [] \<rparr>)
       [(''ford_ext'', [''1FA''], None, []),
        (''s197'', [''1FA''], Some ''11bit'', [(''10'', [''5'', ''6'', ''7''])]),
        (''family'', [''1F ''], None, [(''10'', [''7''])]),
        (''s550'', [''1FA''], None, [(''10'', [''F'', ''G''])])]"


end
