(* ===== verification/HeaderSwitch.thy ===== *)
theory HeaderSwitch
  imports PollChain PeriodicSession Datasets
begin

text \<open>
  The header the adapter sends under, across the polling loop (\<^verbatim>\<open>send_wire_with_controller_switch\<close> of
  \<^verbatim>\<open>src/session_manager/callbacks.rs\<close>): the loop remembers the header it last switched to and queues an
  \<open>ATSH\<close> only when an exchange needs another one. The definitions of the loop are those of \<open>ExchangeLoop\<close>;
  here every command it queues carries the header it needs, and that is compared with the header in force
  when the command reaches the adapter.
\<close>

section \<open>The header in force\<close>

definition is_switch :: "string \<Rightarrow> bool" where
  "is_switch c \<longleftrightarrow> starts_with c ''ATSH''"

fun header_after :: "string option \<Rightarrow> string list \<Rightarrow> string option" where
  "header_after h [] = h"
| "header_after h (c # cs) = header_after (if is_switch c then Some (drop 4 c) else h) cs"

lemma header_after_append [simp]: "header_after h (xs @ ys) = header_after (header_after h xs) ys"
  by (induction xs arbitrary: h) simp_all

lemma header_after_plain: "list_all (\<lambda>c. \<not> is_switch c) cs \<Longrightarrow> header_after h cs = h"
  by (induction cs) simp_all

lemma is_switch_atsh [simp]: "is_switch (''ATSH'' @ h)" "drop 4 (''ATSH'' @ h) = h"
  by (simp_all add: is_switch_def starts_with_def)

lemmas is_switch_cons [simp] = is_switch_atsh [simplified append_Cons append_Nil]

section \<open>What the loop queues\<close>

text \<open>A queued command: a switch, a wire for a target's header, a wire for no particular header, anything else.\<close>

datatype Queued = Switch string | Targeted string string | Untargeted string | Other string

fun text_of :: "Queued \<Rightarrow> string" where
  "text_of (Switch h) = ''ATSH'' @ h"
| "text_of (Targeted w h) = w"
| "text_of (Untargeted w) = w"
| "text_of (Other c) = c"

fun honest :: "Queued \<Rightarrow> bool" where
  "honest (Switch h) = True"
| "honest q = (\<not> is_switch (text_of q))"

definition exchange_commands :: "Session \<Rightarrow> NextCommand \<Rightarrow> Queued list" where
  "exchange_commands s c =
     (case target c of
        None \<Rightarrow> [Untargeted (wire c)]
      | Some t \<Rightarrow>
          (let h = target_header (bus_of (xs_addressing s)) t
           in (if xs_controller s = Some h then [] else [Switch h]) @ [Targeted (wire c) h]))"

text \<open>The exchange the loop picks next, and whether a reply leads to one.\<close>

definition picked :: "group_order \<Rightarrow> Session \<Rightarrow> NextCommand option" where
  "picked ord s =
     (case (next_command (xs_plugin s)
              (due_picks s (snd (get_next_commands ord (max_picks (xs_plugin s)) (admission (xs_plugin s)) (xs_subs s)))) :: (unit, _) outcome) of
        Ok c \<Rightarrow> c | _ \<Rightarrow> None)"

definition reply_commands :: "group_order \<Rightarrow> Clock \<Rightarrow> string \<Rightarrow> string + WireReply \<Rightarrow> Session \<Rightarrow> Queued list" where
  "reply_commands ord ck c outcome s =
     (let segs = fst (resolve_members c (xs_flight s))
      in case settle_reply ck c segs outcome (enter_callback c s) of
           Ok (dm, s3, _) \<Rightarrow>
             (if stops_chain segs outcome dm s3 then []
              else (case picked ord s3 of None \<Rightarrow> [] | Some cmd \<Rightarrow> exchange_commands s3 cmd))
         | _ \<Rightarrow> [])"

fun queues :: "SEvent \<Rightarrow> Session \<Rightarrow> Queued list" where
  "queues (KickOp i now) s =
     (case get_sub i (xs_subs s) of
        None \<Rightarrow> []
      | Some x \<Rightarrow>
          if state x = Active \<and> snd (try_claim_chain (xs_proc s)) \<and> length (queue (xs_proc s)) < max_queue_size (xs_proc s)
          then [Other ''AT''] else [])"
| "queues (SendOp c timeout now) s = (if length (queue (xs_proc s)) < max_queue_size (xs_proc s) then [Other c] else [])"
| "queues (ReplyOp ord ck c outcome) s = reply_commands ord ck c outcome s"
| "queues _ s = []"

fun dispatches :: "SEvent \<Rightarrow> Session \<Rightarrow> string list" where
  "dispatches (DispatchOp e) s = sent e (xs_proc s)"
| "dispatches _ s = []"

fun log_of :: "(SEvent \<Rightarrow> Session \<Rightarrow> 'a list) \<Rightarrow> SEvent list \<Rightarrow> Session \<Rightarrow> 'a list" where
  "log_of f [] s = []"
| "log_of f (e # es) s = f e s @ (case xstep e s of None \<Rightarrow> [] | Some s' \<Rightarrow> log_of f es s')"

definition unsent :: "Proc \<Rightarrow> string list" where
  "unsent p = in_hand (worker p) @ waiting_commands p"

text \<open>
  The runs considered: a reply finds room for its successor and the switch, and nobody but the loop
  switches headers.
\<close>

fun switches_alone :: "SEvent \<Rightarrow> Session \<Rightarrow> bool" where
  "switches_alone (ReplyOp ord ck c outcome) s =
     (length (queue (xs_proc s)) + 2 \<le> max_queue_size (xs_proc s) \<and> list_all honest (reply_commands ord ck c outcome s))"
| "switches_alone (SendOp c timeout now) s = (\<not> is_switch c)"
| "switches_alone _ s = True"

section \<open>Commands are sent in the order they were queued\<close>

lemma queue_command_unsent:
  "unsent (fst (queue_command c t now p)) = unsent p @ (if length (queue p) < max_queue_size p then [c] else [])"
  using accepted_queue [of c t now p] by (simp add: unsent_def accepted_def queue_command_fields)

lemma claim_unsent [simp]: "unsent (fst (try_claim_chain p)) = unsent p"
  by (simp add: unsent_def claim_fields)

lemma unsent_flags [simp]: "unsent (p \<lparr> chain_alive := b \<rparr>) = unsent p" "unsent (p \<lparr> completion_guards := n \<rparr>) = unsent p"
  by (simp_all add: unsent_def)

lemma send_wire_unsent:
  assumes "length (queue (xs_proc s)) + 2 \<le> max_queue_size (xs_proc s)"
  shows "unsent (xs_proc (send_wire c t now s)) = unsent (xs_proc s) @ map text_of (exchange_commands s c)"
    and "xs_controller (send_wire c t now s)
      = (case target c of None \<Rightarrow> xs_controller s | Some tg \<Rightarrow> Some (target_header (bus_of (xs_addressing s)) tg))"
  using assms
  by (auto simp: send_wire_def exchange_commands_def Let_def unsent_def queue_command_def split: option.split)

lemma next_exchange_picked:
  assumes "next_exchange ord now s = Ok s'"
  obtains (stalled) "picked ord s = None" "unsent (xs_proc s') = unsent (xs_proc s)" "xs_controller s' = xs_controller s"
  | (sent) cmd t m where "picked ord s = Some cmd"
      "s' = send_wire cmd t now (s \<lparr> xs_subs := m \<rparr>)
         \<lparr> xs_proc := (xs_proc (send_wire cmd t now (s \<lparr> xs_subs := m \<rparr>))) \<lparr> chain_alive := True \<rparr> \<rparr>"
proof -
  obtain m picks where g: "get_next_commands ord (max_picks (xs_plugin s)) (admission (xs_plugin s)) (xs_subs s) = (m, picks)"
    by fastforce
  have d: "due_picks (s \<lparr> xs_subs := m \<rparr>) picks = due_picks s picks" by (auto simp: due_picks_def default_target_def split: option.split)
  show thesis
  proof (cases "next_command (xs_plugin s) (due_picks s picks) :: (unit, _) outcome")
    case (Ok r)
    then have p: "picked ord s = r" by (simp add: picked_def g)
    show thesis
    proof (cases r)
      case None
      show thesis by (rule stalled) (use assms g d Ok None p in \<open>auto simp: next_exchange_def Let_def split: if_splits\<close>)
    next
      case (Some cmd)
      show thesis by (rule sent [of cmd]) (use assms g d Ok Some p in \<open>auto simp: next_exchange_def Let_def\<close>)
    qed
  qed (use assms g d in \<open>auto simp: next_exchange_def Let_def\<close>)
qed

lemma settle_unsent: "settle_reply ck c segs outcome (enter_callback c s) = Ok (dm, s3, msgs) \<Longrightarrow>
    unsent (xs_proc s3) = unsent (xs_proc s) \<and> xs_controller s3 = xs_controller s
    \<and> queue (xs_proc s3) = queue (xs_proc s) \<and> max_queue_size (xs_proc s3) = max_queue_size (xs_proc s)"
  by (simp add: unsent_def settle_reply_spec)

lemma pause_everything_header [simp]:
  "unsent (xs_proc (pause_everything s)) = unsent (xs_proc s)" "xs_controller (pause_everything s) = xs_controller s"
  by (simp_all add: pause_everything_def Let_def)

fun after_switches :: "string option \<Rightarrow> Queued list \<Rightarrow> string option" where
  "after_switches h [] = h"
| "after_switches h (Switch x # qs) = after_switches (Some x) qs"
| "after_switches h (_ # qs) = after_switches h qs"

fun switched :: "string option \<Rightarrow> Queued list \<Rightarrow> bool" where
  "switched h [] = True"
| "switched h (Switch x # qs) = switched (Some x) qs"
| "switched h (Targeted w x # qs) = (h = Some x \<and> switched h qs)"
| "switched h (_ # qs) = switched h qs"

lemma after_switches_append [simp]: "after_switches h (xs @ ys) = after_switches (after_switches h xs) ys"
  by (induction h xs rule: after_switches.induct) simp_all

lemma switched_append [simp]: "switched h (xs @ ys) \<longleftrightarrow> switched h xs \<and> switched (after_switches h xs) ys"
  by (induction h xs rule: after_switches.induct) auto

lemma header_after_texts: "list_all honest qs \<Longrightarrow> header_after h (map text_of qs) = after_switches h qs"
  by (induction h qs rule: after_switches.induct) (simp_all del: append_Cons)

lemma exchange_switched:
  "switched (xs_controller s) (exchange_commands s c)"
  "after_switches (xs_controller s) (exchange_commands s c)
     = (case target c of None \<Rightarrow> xs_controller s | Some tg \<Rightarrow> Some (target_header (bus_of (xs_addressing s)) tg))"
  by (auto simp: exchange_commands_def Let_def split: option.split)

text \<open>One step: the commands it queues are behind those waiting, and it knows the header they leave.\<close>

definition in_step :: "Queued list \<Rightarrow> string list \<Rightarrow> Session \<Rightarrow> Session \<Rightarrow> bool" where
  "in_step qs out s s' \<longleftrightarrow>
     out @ unsent (xs_proc s') = unsent (xs_proc s) @ map text_of qs \<and> switched (xs_controller s) qs
     \<and> xs_controller s' = after_switches (xs_controller s) qs"

lemma reply_in_step:
  assumes "data_callback ord ck c outcome s = Ok (s', msgs)" "switches_alone (ReplyOp ord ck c outcome) s"
  shows "in_step (reply_commands ord ck c outcome s) [] s s'"
proof -
  from assms(1) obtain segs dm s3 s4 where d: "segs = fst (resolve_members c (xs_flight s))"
    "settle_reply ck c segs outcome (enter_callback c s) = Ok (dm, s3, msgs)"
    "if stops_chain segs outcome dm s3 then s4 = pause_everything s3 else next_exchange ord (ck_mono ck) s3 = Ok s4"
    "s' = s4 \<lparr> xs_proc := (xs_proc s4) \<lparr> completion_guards := completion_guards (xs_proc s4) - 1 \<rparr> \<rparr>"
    by (rule data_callback_cases)
  note f = settle_unsent [OF d(2)]
  have q0: "reply_commands ord ck c outcome s = (if stops_chain segs outcome dm s3 then []
      else (case picked ord s3 of None \<Rightarrow> [] | Some cmd \<Rightarrow> exchange_commands s3 cmd))"
    unfolding reply_commands_def Let_def d(1) [symmetric] d(2) by simp
  show ?thesis
  proof (cases "stops_chain segs outcome dm s3")
    case True
    with d(3,4) f show ?thesis by (simp add: in_step_def q0)
  next
    case False
    with d(3) have nx: "next_exchange ord (ck_mono ck) s3 = Ok s4" by simp
    have q: "reply_commands ord ck c outcome s = (case picked ord s3 of None \<Rightarrow> [] | Some cmd \<Rightarrow> exchange_commands s3 cmd)"
      using False by (simp add: q0)
    from nx show ?thesis
    proof (cases rule: next_exchange_picked)
      case stalled
      with f show ?thesis by (simp add: in_step_def q d(4))
    next
      case (sent cmd t m)
      let ?u = "s3 \<lparr> xs_subs := m \<rparr>"
      have room: "length (queue (xs_proc ?u)) + 2 \<le> max_queue_size (xs_proc ?u)" using assms(2) f by simp
      have "exchange_commands ?u cmd = exchange_commands s3 cmd" by (simp add: exchange_commands_def cong: option.case_cong)
      with send_wire_unsent [OF room, of cmd t] sent f exchange_switched [of s3 cmd] show ?thesis
        by (simp add: in_step_def q d(4) cong: option.case_cong)
    qed
  qed
qed

lemma step_in_step:
  assumes "xstep e s = Some s'" "switches_alone e s"
  shows "in_step (queues e s) (dispatches e s) s s'"
proof (cases e)
  case (HostOp opn)
  with assms show ?thesis by (auto simp: in_step_def split: if_splits)
next
  case (KickOp i now)
  with assms show ?thesis
    by (auto simp: in_step_def kick_pipeline_if_idle_def case_prod_beta queue_command_unsent claim_fields split: option.splits)
next
  case (SendOp c t now)
  with assms show ?thesis by (auto simp: in_step_def send_command_def case_prod_beta queue_command_unsent)
next
  case (DispatchOp ev)
  then obtain p where p: "dispatch_event ev" "act ev (xs_proc s) = Next p" "s' = s \<lparr> xs_proc := p \<rparr>"
    using assms(1) by (auto split: if_splits result.splits)
  have "sent ev (xs_proc s) @ unsent p = unsent (xs_proc s) @ accepted ev (xs_proc s)"
    using fifo_step(2) [OF p(2)] p(1) by (cases ev) (simp_all add: unsent_def)
  moreover have "accepted ev (xs_proc s) = []" using p(1) by (cases ev) (simp_all add: accepted_def)
  ultimately show ?thesis by (simp add: DispatchOp p(3) in_step_def)
next
  case (ReplyOp ord ck c outcome)
  then obtain msgs where "data_callback ord ck c outcome s = Ok (s', msgs)"
    using assms(1) by (auto split: outcome.splits)
  from reply_in_step [OF this] assms(2) ReplyOp show ?thesis by simp
qed

lemma in_step_trans: "in_step qs out s t \<Longrightarrow> in_step qs' out' t u \<Longrightarrow> in_step (qs @ qs') (out @ out') s u"
  unfolding in_step_def by (metis append.assoc map_append after_switches_append switched_append)

lemma run_in_step:
  "xrun es s = Some s' \<Longrightarrow> along switches_alone es s \<Longrightarrow> in_step (log_of queues es s) (log_of dispatches es s) s s'"
proof (induction es arbitrary: s)
  case (Cons e es)
  then obtain t where t: "xstep e s = Some t" "xrun es t = Some s'" by (auto split: option.splits)
  with Cons.prems have "along switches_alone es t" "switches_alone e s" by simp_all
  with Cons.IH t step_in_step have "in_step (queues e s @ log_of queues es t) (dispatches e s @ log_of dispatches es t) s s'"
    by (blast intro: in_step_trans)
  with t show ?case by simp
qed (simp add: in_step_def)

lemma step_honest: "switches_alone e s \<Longrightarrow> list_all honest (queues e s)"
  by (cases e) (auto simp: is_switch_def starts_with_def split: option.splits)

lemma run_honest: "xrun es s = Some s' \<Longrightarrow> along switches_alone es s \<Longrightarrow> list_all honest (log_of queues es s)"
  by (induction es arbitrary: s) (auto simp: step_honest split: option.splits)

lemma list_all_take: "list_all P xs \<Longrightarrow> list_all P (take n xs)"
  by (auto simp: list_all_iff dest: in_set_takeD)

text \<open>The header under which the \<open>i\<close>th command is sent.\<close>

lemma header_at:
  assumes "xrun es s = Some s'" "along switches_alone es s" "unsent (xs_proc s) = []" "i < length (log_of dispatches es s)"
  shows "log_of dispatches es s ! i = text_of (log_of queues es s ! i)" "i < length (log_of queues es s)"
    "header_after h (take i (log_of dispatches es s)) = after_switches h (take i (log_of queues es s))"
    "switched (xs_controller s) (log_of queues es s)"
proof -
  let ?q = "log_of queues es s" and ?d = "log_of dispatches es s"
  have st: "in_step ?q ?d s s'" by (rule run_in_step [OF assms(1,2)])
  then have pre: "?d @ unsent (xs_proc s') = map text_of ?q" using assms(3) by (simp add: in_step_def)
  show "switched (xs_controller s) ?q" using st by (simp add: in_step_def)
  from pre have "length ?d \<le> length ?q" by (metis length_append length_map le_add1)
  with assms(4) show i: "i < length ?q" by simp
  from pre have "?d ! i = map text_of ?q ! i" using assms(4) by (metis nth_append)
  with i show "?d ! i = text_of (?q ! i)" by simp
  from pre have "take i ?d = take i (map text_of ?q)" using assms(4) by (metis less_imp_le_nat take_append append_Nil2 diff_is_0_eq take0)
  then show "header_after h (take i ?d) = after_switches h (take i ?q)"
    using header_after_texts [OF list_all_take [OF run_honest [OF assms(1,2)]]] by (simp add: take_map)
qed

lemma after_switches_agrees:
  assumes "switched h0 (xs @ Targeted w x # ys)" "h0 = None \<or> h0 = h"
  shows "after_switches h xs = Some x"
proof -
  from assms(1) have "after_switches h0 xs = Some x" by simp
  moreover have "after_switches h xs = after_switches h0 xs" if "h0 = None" "after_switches h0 xs \<noteq> None"
    using that by (induction h xs arbitrary: h0 rule: after_switches.induct) auto
  ultimately show ?thesis using assms(2) by fastforce
qed

text \<open>Without a switch in between, the header stays.\<close>

lemma after_switches_stay: "\<forall>q \<in> set qs. (\<forall>x. q \<noteq> Switch x) \<Longrightarrow> after_switches h qs = h"
  by (induction h qs rule: after_switches.induct) auto

text \<open>A switch is queued only right before a wire for its header.\<close>

fun paired :: "Queued list \<Rightarrow> bool" where
  "paired [] = True"
| "paired (Switch x # qs) = (case qs of Targeted w y # _ \<Rightarrow> x = y \<and> paired qs | _ \<Rightarrow> False)"
| "paired (_ # qs) = paired qs"

lemma paired_append: "paired xs \<Longrightarrow> paired ys \<Longrightarrow> paired (xs @ ys)"
  by (induction xs rule: paired.induct) (auto split: list.splits Queued.splits)

lemma step_paired: "paired (queues e s)"
  by (cases e) (auto simp: reply_commands_def Let_def exchange_commands_def split: option.splits outcome.splits)

lemma run_paired: "paired (log_of queues es s)"
  by (induction es arbitrary: s) (auto intro: paired_append step_paired split: option.split)

lemma paired_tl: "paired (x # xs) \<Longrightarrow> paired xs"
  by (cases x) (auto split: list.splits Queued.splits)

lemma paired_suffix: "paired (xs @ ys) \<Longrightarrow> paired ys"
  by (induction xs) (auto dest: paired_tl)

lemma paired_no_switch:
  assumes "paired (xs @ q # ys)" "\<forall>z \<in> set xs. \<forall>w x. z \<noteq> Targeted w x" "\<forall>w x. q \<noteq> Targeted w x"
  shows "\<forall>z \<in> set xs. \<forall>x. z \<noteq> Switch x"
  using assms
proof (induction xs rule: paired.induct)
  case (2 x qs)
  then show ?case by (cases qs) (auto split: Queued.splits)
qed auto

section \<open>Evaluating a run\<close>

text \<open>One pass over a run that reads off both logs and checks the discipline.\<close>

fun discipline :: "SEvent \<Rightarrow> Session \<Rightarrow> Queued list \<Rightarrow> bool" where
  "discipline (ReplyOp ord ck c outcome) s qs = (length (queue (xs_proc s)) + 2 \<le> max_queue_size (xs_proc s) \<and> list_all honest qs)"
| "discipline (SendOp c timeout now) s qs = (\<not> is_switch c)"
| "discipline _ s qs = True"

fun watch :: "SEvent list \<Rightarrow> Session \<Rightarrow> (Queued list \<times> string list) option" where
  "watch [] s = Some ([], [])"
| "watch (e # es) s =
     (let qs = queues e s
      in if \<not> discipline e s qs then None
         else case xstep e s of
                None \<Rightarrow> None
              | Some s' \<Rightarrow> (case watch es s' of None \<Rightarrow> None | Some (q, d) \<Rightarrow> Some (qs @ q, dispatches e s @ d)))"

lemma discipline_step: "discipline e s (queues e s) = switches_alone e s"
  by (cases e) simp_all

lemma watch_run:
  "watch es s = Some (q, d) \<Longrightarrow> xrun es s \<noteq> None \<and> along switches_alone es s \<and> log_of queues es s = q \<and> log_of dispatches es s = d"
  by (induction es arbitrary: s q d) (fastforce simp: Let_def discipline_step split: if_splits option.splits)+

definition polled_engine :: Session where
  "polled_engine = loop_demo \<lparr> xs_controller := Some ''7E0'', xs_subs :=
     exec_op (Start 0 8) (exec_op (AddPids 0 8 [''010D''] None None) (exec_op (Create 8 0 None)
       (exec_op (Start 0 7) (exec_op (AddPids 0 7 [''010C''] (Some ''7E0'') None)
         (exec_op (Create 7 0 None) (manager_new (registry_new 1000) 4)))))) \<rparr>"

definition two_polls :: "SEvent list" where
  "two_polls =
     KickOp 7 0 # map DispatchOp (worker_pass 1) @ ReplyOp (\<lambda>xs. xs) (demo_clock 2) ''AT'' demo_ack
       # map DispatchOp (worker_pass 3) @ ReplyOp (\<lambda>xs. xs) (demo_clock 4) ''010C'' demo_ack
       # map DispatchOp (worker_pass 5)"

lemma two_polls_watch:
  "watch two_polls polled_engine =
     Some ([Other ''AT'', Targeted ''010C'' ''7E0'', Untargeted ''010D''], [''AT'', ''010C'', ''010D''])"
  by code_simp

lemmas two_polls_run = watch_run [OF two_polls_watch]

lemma polled_engine_fresh: "unsent (xs_proc polled_engine) = []" "xs_controller polled_engine = Some ''7E0''"
  by code_simp+

section \<open>Each exchange goes to its target\<close>



text \<open>
  C2: an exchange meant for no particular controller is not broadcast again once a target was polled.
  Nothing switches the adapter back, so it is sent under the header of the last targeted exchange before
  it, and only that controller hears it.
\<close>

theorem untargeted_wire_inherits_header:
  assumes "xrun es s = Some s'" "along switches_alone es s" "unsent (xs_proc s) = []"
    "xs_controller s = None \<or> xs_controller s = h" "i < length (log_of dispatches es s)"
    "log_of queues es s ! i = Untargeted w" "j < i" "log_of queues es s ! j = Targeted v x"
    "\<forall>k \<in> {j <..< i}. \<forall>u y. log_of queues es s ! k \<noteq> Targeted u y"
  shows "log_of dispatches es s ! i = w \<and> header_after h (take i (log_of dispatches es s)) = Some x"
proof -
  let ?q = "log_of queues es s"
  note at = header_at [OF assms(1-3,5)]
  define mid where "mid = drop (Suc j) (take i ?q)"
  have ti: "take i ?q = take j ?q @ Targeted v x # mid"
    using at(2) assms(7,8) id_take_nth_drop [of j "take i ?q"] by (simp add: mid_def min_def)
  have qi: "?q = take i ?q @ Untargeted w # drop (Suc i) ?q" using at(2) assms(6) by (metis id_take_nth_drop)
  have q: "?q = (take j ?q @ [Targeted v x]) @ mid @ Untargeted w # drop (Suc i) ?q" using qi by (simp add: ti)
  have notgt: "\<forall>z \<in> set mid. \<forall>u y. z \<noteq> Targeted u y"
  proof
    fix z assume "z \<in> set mid"
    then obtain n where n: "n < length mid" "mid ! n = z" by (meson in_set_conv_nth)
    then have "?q ! (Suc j + n) = z" "Suc j + n < i" using at(2) by (auto simp: mid_def)
    with assms(9) show "\<forall>u y. z \<noteq> Targeted u y" by (metis greaterThanLessThan_iff less_add_Suc1 add_Suc add_Suc_right)
  qed
  have "paired ?q" by (rule run_paired)
  then have "paired (mid @ Untargeted w # drop (Suc i) ?q)" by (subst (asm) q) (rule paired_suffix)
  from paired_no_switch [OF this notgt] have stay: "after_switches (Some x) mid = Some x" by (intro after_switches_stay) simp
  have "switched (xs_controller s) (take j ?q @ Targeted v x # mid @ Untargeted w # drop (Suc i) ?q)"
    using at(4) by (subst (asm) q) auto
  from after_switches_agrees [OF this assms(4)] stay have "after_switches h (take i ?q) = Some x" by (simp add: ti)
  with at assms(6) show ?thesis by simp
qed

theorem untargeted_wire_inherits_header_witness:
  "log_of dispatches two_polls polled_engine ! 2 = ''010D''
    \<and> header_after (Some ''7E0'') (take 2 (log_of dispatches two_polls polled_engine)) = Some ''7E0''"
proof -
  obtain t where t: "xrun two_polls polled_engine = Some t" using two_polls_run by blast
  show ?thesis
    by (rule untargeted_wire_inherits_header [OF t _ polled_engine_fresh(1), where j = 1])
       (auto simp: two_polls_run polled_engine_fresh)
qed

section \<open>A control command\<close>

text \<open>
  The control verb (\<^verbatim>\<open>send_control\<close> of \<^verbatim>\<open>src/session_manager/commands.rs\<close>) on a text link. The two exchanges
  wait for their replies: what happens meanwhile is a list of session events, what came back a parameter.
\<close>

record ControlFacts =
  cf_stream_live :: bool
  cf_periodic_live :: bool
  cf_tearing_down :: bool
  cf_attached :: "string option"
  cf_registry :: "DatasetCfg list option"

datatype ControlError =
    StreamIsLive
  | PeriodicIsLive
  | TearingDown
  | NoDataset
  | DatasetUnknown
  | TargetUnknown string
  | TargetNoAddress string
  | SwitchRefused
  | NoControlReply

definition control_header :: "ControlFacts \<Rightarrow> string \<Rightarrow> ControlError + string" where
  "control_header f tgt =
     (case cf_attached f of
        None \<Rightarrow> Inl NoDataset
      | Some i \<Rightarrow>
          (case Option.bind (cf_registry f) (find (\<lambda>d. ds_id d = i)) of
             None \<Rightarrow> Inl DatasetUnknown
           | Some d \<Rightarrow>
               (case find (\<lambda>m. eq_ignore_case (mod_name m) tgt) (ds_modules d) of
                  None \<Rightarrow> Inl (TargetUnknown tgt)
                | Some m \<Rightarrow> (case module_header m of None \<Rightarrow> Inl (TargetNoAddress tgt) | Some h \<Rightarrow> Inr h))))"

definition request_raw :: "string \<Rightarrow> u32 \<Rightarrow> real \<Rightarrow> SEvent list \<Rightarrow> string option \<Rightarrow> Session \<Rightarrow> Session \<times> string option" where
  "request_raw cmd timeout now evs answer s =
     (case queue_command cmd timeout now (xs_proc s) of
        (p, Inl e) \<Rightarrow> (s \<lparr> xs_proc := p \<rparr>, None)
      | (p, Inr ()) \<Rightarrow>
          (meanwhile evs (s \<lparr> xs_proc := p, xs_waiters := insert (to_uppercase cmd) (xs_waiters s) \<rparr>), answer))"

definition send_control ::
  "ControlFacts \<Rightarrow> string \<Rightarrow> string \<Rightarrow> SEvent list \<Rightarrow> string option \<Rightarrow> SEvent list \<Rightarrow> string option \<Rightarrow> real \<Rightarrow> Session
    \<Rightarrow> Session \<times> (ControlError + string)" where
  "send_control f tgt service switching ack serving reply now s =
     (if cf_stream_live f then (s, Inl StreamIsLive)
      else if cf_periodic_live f then (s, Inl PeriodicIsLive)
      else if cf_tearing_down f then (s, Inl TearingDown)
      else case control_header f tgt of
        Inl e \<Rightarrow> (s, Inl e)
      | Inr header \<Rightarrow>
          (let (m, paused) = pause_all_active (xs_subs s);
               atsh = ''ATSH'' @ target_header (bus_of (xs_addressing s)) header;
               (s1, r1) = request_raw atsh 2000 now switching ack (s \<lparr> xs_subs := m \<rparr>);
               (s2, r2) = (case r1 of
                  None \<Rightarrow> (s1, Inl SwitchRefused)
                | Some _ \<Rightarrow>
                    (let (s2, r) = request_raw service 5000 now serving reply s1
                     in (s2, case r of None \<Rightarrow> Inl NoControlReply | Some t \<Rightarrow> Inr t)))
           in (resume_polling paused now s2, r2)))"

lemma kick_header:
  "xs_controller (kick_pipeline_if_idle i now s) = xs_controller s"
  "\<exists>n. unsent (xs_proc (kick_pipeline_if_idle i now s)) = unsent (xs_proc s) @ replicate n ''AT''"
proof -
  show "xs_controller (kick_pipeline_if_idle i now s) = xs_controller s"
    by (simp add: kick_pipeline_if_idle_def case_prod_beta split: option.split)
  show "\<exists>n. unsent (xs_proc (kick_pipeline_if_idle i now s)) = unsent (xs_proc s) @ replicate n ''AT''"
    by (auto simp: kick_pipeline_if_idle_def case_prod_beta queue_command_unsent
        intro: exI [of _ 0] exI [of _ 1] split: option.split)
qed

lemma resume_header:
  "xs_controller (resume_polling ids now s) = xs_controller s"
  "\<exists>n. unsent (xs_proc (resume_polling ids now s)) = unsent (xs_proc s) @ replicate n ''AT''"
proof -
  have "xs_controller (kick_all ids now t) = xs_controller t
      \<and> (\<exists>n. unsent (xs_proc (kick_all ids now t)) = unsent (xs_proc t) @ replicate n ''AT'')" for t
    unfolding kick_all_def
  proof (induction ids arbitrary: t)
    case (Cons i ids)
    from kick_header(2) obtain n where n: "unsent (xs_proc (kick_pipeline_if_idle i now t)) = unsent (xs_proc t) @ replicate n ''AT''" by blast
    from Cons.IH [of "kick_pipeline_if_idle i now t"] obtain k where
      "unsent (xs_proc (foldl (\<lambda>s i. kick_pipeline_if_idle i now s) (kick_pipeline_if_idle i now t) ids))
        = unsent (xs_proc (kick_pipeline_if_idle i now t)) @ replicate k ''AT''"
      and c: "xs_controller (foldl (\<lambda>s i. kick_pipeline_if_idle i now s) (kick_pipeline_if_idle i now t) ids) = xs_controller t"
      by (auto simp: kick_header)
    with n have "unsent (xs_proc (foldl (\<lambda>s i. kick_pipeline_if_idle i now s) t (i # ids))) = unsent (xs_proc t) @ replicate (n + k) ''AT''"
      by (simp add: replicate_add)
    then show ?case using c by auto
  qed (simp add: exI [of _ 0])
  from this [of "with_subs (resume_many ids) s"] show "xs_controller (resume_polling ids now s) = xs_controller s"
    "\<exists>n. unsent (xs_proc (resume_polling ids now s)) = unsent (xs_proc s) @ replicate n ''AT''"
    by (simp_all add: resume_polling_def) (simp_all add: with_subs_def)
qed

text \<open>An exchange over \<open>request_raw\<close>: what is sent and what is left to send, and the header the loop believes in.\<close>

definition quiet_events :: "SEvent list \<Rightarrow> Session \<Rightarrow> bool" where
  "quiet_events evs s \<longleftrightarrow>
     xrun evs s \<noteq> None \<and> along switches_alone evs s \<and> list_all (\<lambda>q. \<forall>x. q \<noteq> Switch x) (log_of queues evs s)"

lemma quiet_header:
  assumes "quiet_events evs s"
  shows "xs_controller (meanwhile evs s) = xs_controller s"
    "header_after h (log_of dispatches evs s @ unsent (xs_proc (meanwhile evs s))) = header_after h (unsent (xs_proc s))"
proof -
  from assms obtain t where t: "xrun evs s = Some t" "along switches_alone evs s"
    "\<forall>q \<in> set (log_of queues evs s). \<forall>x. q \<noteq> Switch x" by (auto simp: quiet_events_def list_all_iff)
  from run_in_step [OF t(1,2)] have st: "in_step (log_of queues evs s) (log_of dispatches evs s) s t" .
  with t(1) show "xs_controller (meanwhile evs s) = xs_controller s"
    by (simp add: meanwhile_def in_step_def after_switches_stay [OF t(3)])
  from st t(1) header_after_texts [OF run_honest [OF t(1,2)]] after_switches_stay [OF t(3)]
  show "header_after h (log_of dispatches evs s @ unsent (xs_proc (meanwhile evs s))) = header_after h (unsent (xs_proc s))"
    by (simp add: meanwhile_def in_step_def del: header_after_append) simp
qed

definition queued_request :: "string \<Rightarrow> u32 \<Rightarrow> real \<Rightarrow> Session \<Rightarrow> Session" where
  "queued_request cmd timeout now s =
     s \<lparr> xs_proc := fst (queue_command cmd timeout now (xs_proc s)), xs_waiters := insert (to_uppercase cmd) (xs_waiters s) \<rparr>"

lemma request_raw_header:
  assumes "request_raw cmd timeout now evs answer s = (s', Some t)" "quiet_events evs (queued_request cmd timeout now s)"
  shows "xs_controller s' = xs_controller s"
    "header_after h (log_of dispatches evs (queued_request cmd timeout now s) @ unsent (xs_proc s'))
      = header_after h (unsent (xs_proc s) @ [cmd])"
proof -
  obtain p r where q: "queue_command cmd timeout now (xs_proc s) = (p, r)" by fastforce
  have rr: "request_raw cmd timeout now evs answer s
      = (case r of Inl e \<Rightarrow> (s \<lparr> xs_proc := p \<rparr>, None) | Inr () \<Rightarrow> (meanwhile evs (queued_request cmd timeout now s), answer))"
    by (simp only: request_raw_def queued_request_def q prod.case fst_conv)
  have r: "r = Inr ()" "s' = meanwhile evs (queued_request cmd timeout now s)"
    using assms(1) unfolding rr by (auto split: sum.splits unit.splits)
  from q r(1) have "length (queue (xs_proc s)) < max_queue_size (xs_proc s)" by (auto simp: queue_command_def split: if_splits)
  then have u: "unsent (xs_proc (queued_request cmd timeout now s)) = unsent (xs_proc s) @ [cmd]"
    by (simp add: queued_request_def queue_command_unsent)
  have "xs_controller (queued_request cmd timeout now s) = xs_controller s" by (simp add: queued_request_def)
  then show "xs_controller s' = xs_controller s" by (simp only: r(2) quiet_header(1) [OF assms(2)])
  show "header_after h (log_of dispatches evs (queued_request cmd timeout now s) @ unsent (xs_proc s'))
      = header_after h (unsent (xs_proc s) @ [cmd])" by (simp only: r(2) quiet_header(2) [OF assms(2)] u)
qed

definition control_log :: "string \<Rightarrow> string \<Rightarrow> SEvent list \<Rightarrow> string option \<Rightarrow> SEvent list \<Rightarrow> real \<Rightarrow> Session \<Rightarrow> string list" where
  "control_log atsh service switching ack serving now s =
     (let s1 = s \<lparr> xs_subs := fst (pause_all_active (xs_subs s)) \<rparr>;
          s2 = fst (request_raw atsh 2000 now switching ack s1)
      in log_of dispatches switching (queued_request atsh 2000 now s1) @ log_of dispatches serving (queued_request service 5000 now s2))"

text \<open>
  C3: a successful control leaves the adapter on the module's header while the loop still believes in
  the one before. The next exchange for the target polled before is queued without a switch, behind
  nothing but kicks, so it is sent to the controlled module instead.
\<close>

theorem control_strands_header:
  fixes f tgt service switching ack serving reply now s
  defines "atsh \<equiv> ''ATSH'' @ target_header (bus_of (xs_addressing s)) (projr (control_header f tgt))"
  defines "s1 \<equiv> s \<lparr> xs_subs := fst (pause_all_active (xs_subs s)) \<rparr>"
  defines "s2 \<equiv> fst (request_raw atsh 2000 now switching ack s1)"
  assumes "send_control f tgt service switching ack serving reply now s = (s', Inr txt)" "\<not> is_switch service"
    "quiet_events switching (queued_request atsh 2000 now s1)" "quiet_events serving (queued_request service 5000 now s2)"
    "xs_controller s = Some x" "target c = Some t" "target_header (bus_of (xs_addressing s')) t = x"
  shows "exchange_commands s' c = [Targeted (wire c) x]
    \<and> header_after h (control_log atsh service switching ack serving now s @ unsent (xs_proc s'))
        = Some (target_header (bus_of (xs_addressing s)) (projr (control_header f tgt)))"
proof -
  let ?H = "target_header (bus_of (xs_addressing s)) (projr (control_header f tgt))"
  obtain m paused where mp: "pause_all_active (xs_subs s) = (m, paused)" by fastforce
  from assms(4) obtain hd where hd: "control_header f tgt = Inr hd" and at: "atsh = ''ATSH'' @ target_header (bus_of (xs_addressing s)) hd"
    by (auto simp: send_control_def atsh_def split: if_splits sum.splits)
  obtain r1 where r1: "request_raw atsh 2000 now switching ack s1 = (s2, r1)" by (metis s2_def prod.collapse)
  with assms(4) hd mp obtain a s3 where a: "r1 = Some a" "request_raw service 5000 now serving reply s2 = (s3, Some txt)"
      "s' = resume_polling paused now s3"
    by (auto simp: send_control_def s1_def at Let_def split: if_splits option.splits prod.splits)
  note q1 = request_raw_header [OF r1 [unfolded a(1)] assms(6)] and q2 = request_raw_header [OF a(2) assms(7)]
  obtain n where n: "unsent (xs_proc s') = unsent (xs_proc s3) @ replicate n ''AT''" using resume_header(2) a(3) by blast
  have nh: "header_after z (replicate n ''AT'') = z" for z
    by (rule header_after_plain) (simp add: is_switch_def starts_with_def list_all_iff)
  let ?d1 = "log_of dispatches switching (queued_request atsh 2000 now s1)"
  let ?d2 = "log_of dispatches serving (queued_request service 5000 now s2)"
  have "header_after h (?d1 @ ?d2 @ unsent (xs_proc s')) = header_after (header_after h ?d1) (?d2 @ unsent (xs_proc s3))"
    by (simp add: n nh)
  also have "\<dots> = header_after (header_after h ?d1) (unsent (xs_proc s2) @ [service])" by (rule q2(2))
  also have "\<dots> = header_after h (?d1 @ unsent (xs_proc s2))" using assms(5) by simp
  also have "\<dots> = Some ?H" using q1(2) by (simp add: at hd)
  finally have hdr: "header_after h (?d1 @ ?d2 @ unsent (xs_proc s')) = Some ?H" .
  have "xs_controller s' = Some x"
    using q1(1) q2(1) assms(8) by (simp add: a(3) resume_header s1_def)
  then have "exchange_commands s' c = [Targeted (wire c) x]" using assms(9,10) by (simp add: exchange_commands_def Let_def)
  moreover have "control_log atsh service switching ack serving now s = ?d1 @ ?d2"
    by (simp add: control_log_def Let_def s1_def [symmetric] s2_def [symmetric])
  ultimately show ?thesis using hdr by simp
qed

definition brake_facts :: ControlFacts where
  "brake_facts =
     \<lparr> cf_stream_live = False, cf_periodic_live = False, cf_tearing_down = False, cf_attached = Some ''gm_global_b'',
       cf_registry = Some [\<lparr> ds_id = ''gm_global_b'', match_cfg = None, ds_identify = None,
         ds_modules = [\<lparr> mod_name = ''EPB'', mod_id = Some ''7E2'', mod_priority = None, mod_format = None, mod_target = None,
           mod_source = None, mod_bus = None \<rparr>] \<rparr>] \<rparr>"

definition switching_events :: "SEvent list" where
  "switching_events = map DispatchOp (worker_pass 1) @ [ReplyOp (\<lambda>xs. xs) (demo_clock 2) ''ATSH7E2'' demo_ack]"

definition serving_events :: "SEvent list" where
  "serving_events = map DispatchOp (worker_pass 3) @ [ReplyOp (\<lambda>xs. xs) (demo_clock 4) ''2F11C90300'' demo_ack]"

definition brake_control :: "Session \<times> (ControlError + string)" where
  "brake_control =
     send_control brake_facts ''epb'' ''2F11C90300'' switching_events (Some ''OK'') serving_events (Some ''6F 11 C9 03'') 0 polled_engine"

definition next_engine_poll :: NextCommand where
  "next_engine_poll = \<lparr> wire = ''010C'', nc_segments = [[''010C'']], target = Some ''7E0'', timeout_ms = None \<rparr>"

theorem control_strands_header_witness:
  "exchange_commands (fst brake_control) next_engine_poll = [Targeted ''010C'' ''7E0'']
    \<and> header_after (Some ''7E0'')
        (control_log ''ATSH7E2'' ''2F11C90300'' switching_events (Some ''OK'') serving_events 0 polled_engine
           @ unsent (xs_proc (fst brake_control))) = Some ''7E2''"
proof -
  let ?s1 = "polled_engine \<lparr> xs_subs := fst (pause_all_active (xs_subs polled_engine)) \<rparr>"
  let ?s2 = "fst (request_raw ''ATSH7E2'' 2000 0 switching_events (Some ''OK'') ?s1)"
  have r: "snd brake_control = Inr ''6F 11 C9 03''" by code_simp
  have h: "control_header brake_facts ''epb'' = Inr ''7E2''" by code_simp
  have tgt: "target_header (bus_of (xs_addressing polled_engine)) ''7E2'' = ''7E2''" by code_simp
  have w: "watch switching_events (queued_request ''ATSH7E2'' 2000 0 ?s1) = Some ([], [''ATSH7E2''])" by code_simp
  have q1: "quiet_events switching_events (queued_request ''ATSH7E2'' 2000 0 ?s1)" using watch_run [OF w] by (simp add: quiet_events_def)
  have w: "watch serving_events (queued_request ''2F11C90300'' 5000 0 ?s2) = Some ([], [''2F11C90300''])" by code_simp
  have q2: "quiet_events serving_events (queued_request ''2F11C90300'' 5000 0 ?s2)" using watch_run [OF w] by (simp add: quiet_events_def)
  have s': "brake_control = (fst brake_control, Inr ''6F 11 C9 03'')" using r by (metis prod.collapse)
  have hdr: "''ATSH'' @ target_header (bus_of (xs_addressing polled_engine)) (projr (control_header brake_facts ''epb'')) = ''ATSH7E2''"
    using h tgt by simp
  have t0: "target_header (bus_of (xs_addressing (fst brake_control))) ''7E0'' = ''7E0''" by code_simp
  from control_strands_header [of brake_facts "''epb''" "''2F11C90300''" switching_events "Some ''OK''" serving_events
      "Some ''6F 11 C9 03''" 0 polled_engine "fst brake_control" "''6F 11 C9 03''" "''7E0''" next_engine_poll "''7E0''" "Some ''7E0''", unfolded hdr]
    s' q1 q2 t0 h tgt
  show ?thesis
    by (simp add: polled_engine_fresh next_engine_poll_def is_switch_def starts_with_def flip: brake_control_def)
qed

end
