(* ===== verification/SessionFence.thy ===== *)
theory SessionFence
  imports Prelude
begin

text \<open>
  The terminal fence of a session (\<^verbatim>\<open>src/session_manager/connect.rs\<close>): an epoch that every connect attempt
  and every first terminal intent advances, and a flag the first terminal intent claims. Both are
  atomics, and each operation is several accesses to them: host threads, platform callbacks and the lifecycle
  worker interleave access by access.
\<close>

section \<open>The two atomics\<close>

record Fence =
  fc_epoch :: "64 word"
  fc_claimed :: bool

definition fence_new :: Fence where
  "fence_new = \<lparr> fc_epoch = 0, fc_claimed = False \<rparr>"

definition bump_epoch :: "Fence \<Rightarrow> Fence \<times> 64 word" where
  "bump_epoch f = (let e = fc_epoch f + 1 in (f \<lparr> fc_epoch := e \<rparr>, e))"

definition is_connect_current :: "64 word \<Rightarrow> Fence \<Rightarrow> bool" where
  "is_connect_current g f \<longleftrightarrow> fc_epoch f = g"

definition terminal_intent_stands :: "Fence \<Rightarrow> bool" where
  "terminal_intent_stands f = fc_claimed f"

text \<open>The operations when nothing comes in between.\<close>

definition begin_connect_attempt :: "Fence \<Rightarrow> Fence \<times> 64 word" where
  "begin_connect_attempt f = bump_epoch (f \<lparr> fc_claimed := False \<rparr>)"

definition claim_terminal :: "Fence \<Rightarrow> Fence \<times> 64 word \<times> bool" where
  "claim_terminal f =
     (if fc_claimed f then (f, fc_epoch f, False)
      else (let (f', e) = bump_epoch (f \<lparr> fc_claimed := True \<rparr>) in (f', e, True)))"

section \<open>Access by access\<close>

text \<open>Where a thread is: an attempt stores the flag, then advances the epoch; a claim swaps the flag, then advances
  the epoch when it won and reads it when it lost.\<close>

datatype FencePc = Opening | Cleared | Begun "64 word" | Claiming | Won | Lost | Claimed "64 word" bool

record Threads =
  tf_fence :: Fence
  tf_pc :: "nat \<Rightarrow> FencePc option"

definition threads_new :: Threads where
  "threads_new = \<lparr> tf_fence = fence_new, tf_pc = Map.empty \<rparr>"

datatype FenceEvent = CallBegin nat | CallClaim nat | Access nat

text \<open>What an access leaves in the record of the run.\<close>

datatype FenceMark = ClearedBy nat | TakenBy nat | RefusedTo nat | BumpedBy nat "64 word"

definition fence_access :: "nat \<Rightarrow> FencePc \<Rightarrow> Fence \<Rightarrow> (FencePc \<times> Fence \<times> FenceMark list) option" where
  "fence_access t pc f =
     (case pc of
        Opening \<Rightarrow> Some (Cleared, f \<lparr> fc_claimed := False \<rparr>, [ClearedBy t])
      | Cleared \<Rightarrow> (let (f', e) = bump_epoch f in Some (Begun e, f', [BumpedBy t e]))
      | Claiming \<Rightarrow> (if fc_claimed f then Some (Lost, f, [RefusedTo t]) else Some (Won, f \<lparr> fc_claimed := True \<rparr>, [TakenBy t]))
      | Won \<Rightarrow> (let (f', e) = bump_epoch f in Some (Claimed e True, f', [BumpedBy t e]))
      | Lost \<Rightarrow> Some (Claimed (fc_epoch f) False, f, [])
      | _ \<Rightarrow> None)"

fun fence_step :: "FenceEvent \<Rightarrow> Threads \<Rightarrow> (Threads \<times> FenceMark list) option" where
  "fence_step (CallBegin t) s =
     (if tf_pc s t \<in> {Some Opening, Some Cleared, Some Claiming, Some Won, Some Lost} then None
      else Some (s \<lparr> tf_pc := (tf_pc s)(t \<mapsto> Opening) \<rparr>, []))"
| "fence_step (CallClaim t) s =
     (if tf_pc s t \<in> {Some Opening, Some Cleared, Some Claiming, Some Won, Some Lost} then None
      else Some (s \<lparr> tf_pc := (tf_pc s)(t \<mapsto> Claiming) \<rparr>, []))"
| "fence_step (Access t) s =
     (case Option.bind (tf_pc s t) (\<lambda>pc. fence_access t pc (tf_fence s)) of
        None \<Rightarrow> None
      | Some (pc, f, ms) \<Rightarrow> Some (\<lparr> tf_fence = f, tf_pc = (tf_pc s)(t \<mapsto> pc) \<rparr>, ms))"

fun fence_run :: "FenceEvent list \<Rightarrow> Threads \<Rightarrow> (Threads \<times> FenceMark list) option" where
  "fence_run [] s = Some (s, [])"
| "fence_run (e # es) s =
     (case fence_step e s of
        None \<Rightarrow> None
      | Some (s', ms) \<Rightarrow> (case fence_run es s' of None \<Rightarrow> None | Some (s'', ms') \<Rightarrow> Some (s'', ms @ ms')))"

lemma fence_run_append:
  "fence_run (es @ fs) s =
     (case fence_run es s of
        None \<Rightarrow> None
      | Some (t, ms) \<Rightarrow> (case fence_run fs t of None \<Rightarrow> None | Some (u, ms') \<Rightarrow> Some (u, ms @ ms')))"
  by (induction es arbitrary: s) (auto split: option.split)

text \<open>Uninterrupted, a call is the operation above.\<close>

lemma uninterrupted_begin:
  "fence_run [CallBegin t, Access t, Access t] \<lparr> tf_fence = f, tf_pc = Map.empty \<rparr>
     = Some (\<lparr> tf_fence = fst (begin_connect_attempt f), tf_pc = [t \<mapsto> Begun (snd (begin_connect_attempt f))] \<rparr>,
         [ClearedBy t, BumpedBy t (snd (begin_connect_attempt f))])"
  by (simp add: fence_access_def begin_connect_attempt_def bump_epoch_def Let_def)

lemma uninterrupted_claim:
  "\<exists>ms. fence_run [CallClaim t, Access t, Access t] \<lparr> tf_fence = f, tf_pc = Map.empty \<rparr>
     = Some (\<lparr> tf_fence = fst (claim_terminal f),
           tf_pc = [t \<mapsto> Claimed (fst (snd (claim_terminal f))) (snd (snd (claim_terminal f)))] \<rparr>, ms)"
  by (simp add: fence_access_def claim_terminal_def bump_epoch_def Let_def)

section \<open>Reading the fence off the run\<close>

fun claimed_after :: "bool \<Rightarrow> FenceMark list \<Rightarrow> bool" where
  "claimed_after b [] = b"
| "claimed_after b (ClearedBy t # ms) = claimed_after False ms"
| "claimed_after b (TakenBy t # ms) = claimed_after True ms"
| "claimed_after b (m # ms) = claimed_after b ms"

fun bumps :: "FenceMark list \<Rightarrow> 64 word list" where
  "bumps [] = []"
| "bumps (BumpedBy t e # ms) = e # bumps ms"
| "bumps (m # ms) = bumps ms"

lemma claimed_after_append [simp]: "claimed_after b (xs @ ys) = claimed_after (claimed_after b xs) ys"
  by (induction b xs rule: claimed_after.induct) simp_all

lemma bumps_append [simp]: "bumps (xs @ ys) = bumps xs @ bumps ys"
  by (induction xs rule: bumps.induct) simp_all

text \<open>The flag is taken only when it is free.\<close>

fun taken_free :: "bool \<Rightarrow> FenceMark list \<Rightarrow> bool" where
  "taken_free b [] = True"
| "taken_free b (ClearedBy t # ms) = taken_free False ms"
| "taken_free b (TakenBy t # ms) = (\<not> b \<and> taken_free True ms)"
| "taken_free b (m # ms) = taken_free b ms"

lemma taken_free_append [simp]: "taken_free b (xs @ ys) \<longleftrightarrow> taken_free b xs \<and> taken_free (claimed_after b xs) ys"
  by (induction b xs rule: taken_free.induct) auto

text \<open>The epochs handed out count on from where the run started.\<close>

definition counts_on :: "64 word \<Rightarrow> 64 word list \<Rightarrow> bool" where
  "counts_on e es \<longleftrightarrow> map (\<lambda>i. e + of_nat (Suc i)) [0..<length es] = es"

lemma counts_on_append:
  assumes "counts_on e xs" "counts_on (e + of_nat (length xs)) ys"
  shows "counts_on e (xs @ ys)"
proof -
  have "map (\<lambda>i. i + length xs) [0..<length ys] = [length xs..<length ys + length xs]" by (rule map_add_upt)
  then have "[0..<length (xs @ ys)] = [0..<length xs] @ map (\<lambda>i. i + length xs) [0..<length ys]"
    using upt_add_eq_append [of 0 "length xs" "length ys"] by (simp add: add.commute)
  moreover have "map (\<lambda>i. e + of_nat (Suc (i + length xs))) [0..<length ys] = ys"
    using assms(2) by (simp add: counts_on_def algebra_simps)
  ultimately show ?thesis using assms(1) by (simp add: counts_on_def o_def del: of_nat_Suc)
qed

definition fence_ok :: "Threads \<Rightarrow> Threads \<Rightarrow> FenceMark list \<Rightarrow> bool" where
  "fence_ok s s' ms \<longleftrightarrow>
     fc_claimed (tf_fence s') = claimed_after (fc_claimed (tf_fence s)) ms \<and> taken_free (fc_claimed (tf_fence s)) ms
     \<and> counts_on (fc_epoch (tf_fence s)) (bumps ms)
     \<and> fc_epoch (tf_fence s') = fc_epoch (tf_fence s) + of_nat (length (bumps ms))"

lemma fence_step_ok: "fence_step e s = Some (s', ms) \<Longrightarrow> fence_ok s s' ms"
  by (cases e)
     (auto simp: fence_ok_def fence_access_def bump_epoch_def counts_on_def Let_def split: if_splits option.splits FencePc.splits
       Option.bind_splits)

lemma fence_run_ok: "fence_run es s = Some (s', ms) \<Longrightarrow> fence_ok s s' ms"
proof (induction es arbitrary: s ms)
  case (Cons e es)
  then obtain t m1 m2 where t: "fence_step e s = Some (t, m1)" "fence_run es t = Some (s', m2)" "ms = m1 @ m2"
    by (auto split: option.splits)
  from fence_step_ok [OF t(1)] Cons.IH [OF t(2)] show ?case
    by (auto simp: fence_ok_def t(3) intro: counts_on_append)
qed (simp add: fence_ok_def counts_on_def)

lemma taken_free_claimed: "taken_free b (xs @ TakenBy a # ys @ TakenBy c # zs) \<Longrightarrow> \<exists>t. ClearedBy t \<in> set ys"
proof -
  have "claimed_after True ys" if "\<nexists>t. ClearedBy t \<in> set ys" for ys
    using that by (induction True ys rule: claimed_after.induct) auto
  moreover assume "taken_free b (xs @ TakenBy a # ys @ TakenBy c # zs)"
  then have "\<not> claimed_after True ys" by simp
  ultimately show ?thesis by blast
qed

lemma of_nat_64_inj: "m < 2 ^ 64 \<Longrightarrow> n < 2 ^ 64 \<Longrightarrow> (of_nat m :: 64 word) = of_nat n \<longleftrightarrow> m = n"
  by (simp add: word_of_nat_eq_iff take_bit_nat_eq_self)

lemma counts_on_distinct:
  assumes "counts_on e es" "length es < 2 ^ 64"
  shows "distinct es" "e \<notin> set es"
proof -
  have inj: "e + of_nat (Suc i) = e + of_nat (Suc j) \<longleftrightarrow> i = j" if "i < length es" "j < length es" for i j
  proof -
    have "Suc i < 2 ^ 64" "Suc j < 2 ^ 64" using that assms(2) by simp_all
    then show ?thesis by (simp add: of_nat_64_inj del: of_nat_Suc)
  qed
  have "inj_on (\<lambda>i. e + of_nat (Suc i)) (set [0..<length es])" using inj by (auto simp: inj_on_def simp del: of_nat_Suc)
  then have "distinct (map (\<lambda>i. e + of_nat (Suc i)) [0..<length es])" by (simp add: distinct_map del: of_nat_Suc)
  then show "distinct es" using assms(1) unfolding counts_on_def by metis
  have nz: "(of_nat (Suc i) :: 64 word) \<noteq> 0" if "i < length es" for i
  proof -
    have "Suc i < 2 ^ 64" using that assms(2) by simp
    then show ?thesis by (simp add: word_of_nat_eq_0_iff nat_dvd_not_less del: of_nat_Suc)
  qed
  show "e \<notin> set es"
  proof
    assume "e \<in> set es"
    then obtain i where i: "i < length es" "es ! i = e" by (meson in_set_conv_nth)
    have "es ! i = map (\<lambda>i. e + of_nat (Suc i)) [0..<length es] ! i" using assms(1) unfolding counts_on_def by metis
    with i have "e = e + of_nat (Suc i)" by (simp del: of_nat_Suc)
    with nz [OF i(1)] show False by (metis add_cancel_right_right)
  qed
qed

section \<open>One owner for every ending\<close>

text \<open>
  C4: in any interleaving of attempts and terminal intents, between two that win the claim a new attempt
  opened: a session ends once, whoever ends it. The epochs handed out never repeat, and one is current exactly until
  the next is handed out, so an attempt that was cancelled or superseded sees it at its next check and never
  takes itself for current again.
\<close>

theorem one_terminal_owner:
  assumes "fence_run es threads_new = Some (s, ms)" "length (bumps ms) < 2 ^ 64"
  shows "(\<forall>xs a ys b zs. ms = xs @ TakenBy a # ys @ TakenBy b # zs \<longrightarrow> (\<exists>t. ClearedBy t \<in> set ys))
    \<and> distinct (bumps ms)
    \<and> (\<forall>xs t g ys. ms = xs @ BumpedBy t g # ys \<longrightarrow> (is_connect_current g (tf_fence s) \<longleftrightarrow> bumps ys = []))"
proof -
  from fence_run_ok [OF assms(1)] have ok: "taken_free False ms" "counts_on 0 (bumps ms)"
    "fc_epoch (tf_fence s) = of_nat (length (bumps ms))"
    by (simp_all add: fence_ok_def threads_new_def fence_new_def)
  have "is_connect_current g (tf_fence s) \<longleftrightarrow> bumps ys = []" if ms: "ms = xs @ BumpedBy t g # ys" for xs t g ys
  proof -
    have len: "length (bumps ms) = Suc (length (bumps xs) + length (bumps ys))" by (simp add: ms)
    have "bumps ms ! length (bumps xs) = g" by (simp add: ms nth_append)
    moreover have "bumps ms ! length (bumps xs) = map (\<lambda>i. 0 + of_nat (Suc i)) [0..<length (bumps ms)] ! length (bumps xs)"
      using ok(2) unfolding counts_on_def by metis
    ultimately have g: "g = of_nat (Suc (length (bumps xs)))" by (simp add: len del: of_nat_Suc upt_Suc)
    have "Suc (length (bumps xs)) < 2 ^ 64" "length (bumps ms) < 2 ^ 64" using assms(2) len by simp_all
    then have "(of_nat (length (bumps ms)) :: 64 word) = of_nat (Suc (length (bumps xs))) \<longleftrightarrow> length (bumps ms) = Suc (length (bumps xs))"
      by (rule of_nat_64_inj [rotated])
    then show ?thesis by (simp add: is_connect_current_def ok(3) g len del: of_nat_Suc)
  qed
  with taken_free_claimed ok(1) counts_on_distinct(1) [OF ok(2) assms(2)] show ?thesis by blast
qed

text \<open>Two threads end the session a third has begun, and a second attempt supersedes both.\<close>

definition fence_demo :: "FenceEvent list" where
  "fence_demo =
     [CallBegin 1, Access 1, Access 1, CallClaim 2, CallClaim 3, Access 3, Access 2, Access 2, Access 3,
      CallBegin 4, Access 4, Access 4, CallClaim 2, Access 2, Access 2]"

lemma fence_demo_run:
  "\<exists>s. fence_run fence_demo threads_new =
     Some (s, [ClearedBy 1, BumpedBy 1 1, TakenBy 3, RefusedTo 2, BumpedBy 3 2, ClearedBy 4, BumpedBy 4 3, TakenBy 2, BumpedBy 2 4])"
  by (simp add: fence_demo_def threads_new_def fence_new_def fence_access_def bump_epoch_def Let_def)

theorem one_terminal_owner_witness:
  "\<exists>s. fence_run fence_demo threads_new =
     Some (s, [ClearedBy 1, BumpedBy 1 1, TakenBy 3, RefusedTo 2, BumpedBy 3 2] @ [ClearedBy 4] @ BumpedBy 4 3 # [TakenBy 2, BumpedBy 2 4])
     \<and> \<not> is_connect_current 3 (tf_fence s)"
proof -
  obtain s where s: "fence_run fence_demo threads_new =
     Some (s, ([ClearedBy 1, BumpedBy 1 1, TakenBy 3, RefusedTo 2, BumpedBy 3 2] @ [ClearedBy 4]) @ BumpedBy 4 3 # [TakenBy 2, BumpedBy 2 4])"
    using fence_demo_run by auto
  have "is_connect_current 3 (tf_fence s) \<longleftrightarrow> bumps [TakenBy 2, BumpedBy 2 4] = []"
    by (rule conjunct2 [OF conjunct2 [OF one_terminal_owner [OF s]], rule_format, OF _ refl]) simp
  with s show ?thesis by auto
qed

text \<open>
  C5: beginning an attempt is not atomic. A terminal intent of the old session that comes between its two
  accesses takes the flag of the new session: the new attempt is current, yet counts as ending, so every later
  disconnect of it loses the claim and says nothing, until the host connects again.
\<close>

theorem claim_inside_begin:
  assumes "tf_pc s a = Some Cleared" "tf_pc s b = Some Claiming" "a \<noteq> b" "\<not> fc_claimed (tf_fence s)"
  shows "\<exists>s' g. fence_run [Access b, Access b, Access a] s = Some (s', [TakenBy b, BumpedBy b (g - 1), BumpedBy a g])
    \<and> tf_pc s' a = Some (Begun g) \<and> is_connect_current g (tf_fence s') \<and> terminal_intent_stands (tf_fence s')
    \<and> claim_terminal (tf_fence s') = (tf_fence s', g, False)"
  using assms
  by (auto simp: fence_access_def bump_epoch_def is_connect_current_def terminal_intent_stands_def claim_terminal_def Let_def)

theorem claim_inside_begin_witness:
  "\<exists>s. fence_run [CallBegin 1, Access 1, CallClaim 2, Access 2, Access 2, Access 1] threads_new =
     Some (s, [ClearedBy 1, TakenBy 2, BumpedBy 2 1, BumpedBy 1 2]) \<and> claim_terminal (tf_fence s) = (tf_fence s, 2, False)"
proof -
  have pre: "\<exists>u. fence_run [CallBegin 1, Access 1, CallClaim 2] threads_new = Some (u, [ClearedBy 1])
      \<and> tf_pc u 1 = Some Cleared \<and> tf_pc u 2 = Some Claiming \<and> \<not> fc_claimed (tf_fence u) \<and> fc_epoch (tf_fence u) = 0"
    by (simp add: threads_new_def fence_new_def fence_access_def)
  then obtain u where u: "fence_run [CallBegin 1, Access 1, CallClaim 2] threads_new = Some (u, [ClearedBy 1])"
    "tf_pc u 1 = Some Cleared" "tf_pc u 2 = Some Claiming" "\<not> fc_claimed (tf_fence u)" "fc_epoch (tf_fence u) = 0" by blast
  from claim_inside_begin [OF u(2,3) _ u(4)] obtain s g where
    s: "fence_run [Access 2, Access 2, Access 1] u = Some (s, [TakenBy 2, BumpedBy 2 (g - 1), BumpedBy 1 g])"
      "claim_terminal (tf_fence s) = (tf_fence s, g, False)" by auto
  from fence_run_ok [OF s(1)] have "counts_on 0 [g - 1, g]" by (simp add: fence_ok_def u(5))
  then have g: "g = 2" by (simp add: counts_on_def)
  have "fence_run ([CallBegin 1, Access 1, CallClaim 2] @ [Access 2, Access 2, Access 1]) threads_new
      = Some (s, [ClearedBy 1, TakenBy 2, BumpedBy 2 1, BumpedBy 1 2])"
    unfolding fence_run_append u(1) using s(1) by (simp add: g)
  with s(2) g show ?thesis by (simp only: append.simps) blast
qed

end
